(* ===== verification/Prelude.thy ===== *)
theory Prelude
  imports Complex_Main "HOL-Library.Word"
begin

text \<open>
  Shared ground of the development: the outcome type that every fallible routine of the
  program returns, its sequencing operator, and the generic facts about lists that the
  component theories use.

  A C or C++ routine can end in more ways than returning a value.  Each way is a value of
  \<open>fault\<close>, so that every early return, assertion, uncaught exception and hardware trap of
  the source is a branch of the model:
  \<^item> \<open>Failed\<close>: the routine reports failure to its caller (a null pointer, \<open>false\<close>);
  \<^item> \<open>Aborted\<close>: \<open>GGML_ASSERT\<close> or \<open>GGML_ABORT\<close> ends the process;
  \<^item> \<open>Exited\<close>: the routine calls \<open>exit\<close>;
  \<^item> \<open>Threw\<close>: a C++ exception leaves the routine;
  \<^item> \<open>Trapped\<close>: an integer division by zero;
  \<^item> \<open>Undefined\<close>: the C++ standard gives the operation no meaning (a read out of bounds);
  \<^item> \<open>Diverged\<close>: a loop did not finish within the fuel its model was given.
\<close>

named_theorems outcome_simps "rewrite rules for the sequencing of outcomes"

datatype fault = Failed | Aborted | Exited | Threw | Trapped | Undefined | Diverged

type_synonym 'a outcome = "fault + 'a"

definition bnd :: "'a outcome \<Rightarrow> ('a \<Rightarrow> 'b outcome) \<Rightarrow> 'b outcome" where
  "bnd m f = (case m of Inl e \<Rightarrow> Inl e | Inr x \<Rightarrow> f x)"

definition ensure :: "bool \<Rightarrow> fault \<Rightarrow> unit outcome" where
  "ensure b e = (if b then Inr () else Inl e)"

lemma bnd_Inr [simp, outcome_simps]: "bnd (Inr x) f = f x"
  by (simp add: bnd_def)

lemma bnd_Inl [simp, outcome_simps]: "bnd (Inl e) f = Inl e"
  by (simp add: bnd_def)

lemma bnd_eq_Inr [outcome_simps]:
  "bnd m f = Inr y \<longleftrightarrow> (\<exists>x. m = Inr x \<and> f x = Inr y)"
  by (cases m) auto

lemma bnd_eq_Inl [outcome_simps]:
  "bnd m f = Inl e \<longleftrightarrow> m = Inl e \<or> (\<exists>x. m = Inr x \<and> f x = Inl e)"
  by (cases m) auto

lemma bnd_assoc: "bnd (bnd m f) g = bnd m (\<lambda>x. bnd (f x) g)"
  by (cases m) auto

lemma ensure_eq_Inr [simp, outcome_simps]: "ensure b e = Inr u \<longleftrightarrow> b"
  by (simp add: ensure_def)

lemma ensure_eq_Inl [simp, outcome_simps]: "ensure b e = Inl e' \<longleftrightarrow> \<not> b \<and> e' = e"
  by (auto simp: ensure_def)

lemma ensure_True [simp]: "ensure True e = Inr ()"
  by (simp add: ensure_def)

lemma ensure_False [simp]: "ensure False e = Inl e"
  by (simp add: ensure_def)

lemma bnd_ensure: "bnd (ensure b e) f = (if b then f () else Inl e)"
  by (simp add: ensure_def)

lemma bnd_cong [fundef_cong]:
  "m = m' \<Longrightarrow> (\<And>x. m' = Inr x \<Longrightarrow> f x = f' x) \<Longrightarrow> bnd m f = bnd m' f'"
  by (cases m') auto

subsection \<open>A loop that may stop with a fault\<close>

fun each_outcome :: "('a \<Rightarrow> 's \<Rightarrow> 's outcome) \<Rightarrow> 'a list \<Rightarrow> 's \<Rightarrow> 's outcome" where
  "each_outcome f [] s = Inr s"
| "each_outcome f (x # xs) s = bnd (f x s) (each_outcome f xs)"

lemma each_outcome_append:
  "each_outcome f (xs @ ys) s = bnd (each_outcome f xs s) (each_outcome f ys)"
proof (induction xs arbitrary: s)
  case (Cons x xs)
  have "each_outcome f (xs @ ys) = (\<lambda>t. bnd (each_outcome f xs t) (each_outcome f ys))"
    by (rule ext) (rule Cons.IH)
  then show ?case by (simp add: bnd_assoc)
qed simp

lemma each_outcome_invariant:
  assumes "each_outcome f xs s = Inr t" and "I s"
    and "\<And>x s t. x \<in> set xs \<Longrightarrow> I s \<Longrightarrow> f x s = Inr t \<Longrightarrow> I t"
  shows "I t"
  using assms
proof (induction xs arbitrary: s)
  case Nil
  then show ?case by simp
next
  case (Cons x xs)
  then obtain u where u: "f x s = Inr u" "each_outcome f xs u = Inr t"
    by (auto simp: bnd_eq_Inr)
  have "I u" using Cons.prems(2,3) u(1) by (meson list.set_intros(1))
  then show ?case using Cons.IH [OF u(2)] Cons.prems(3) by (meson list.set_intros(2))
qed

text \<open>A counting loop, with an invariant that mentions the counter.\<close>

lemma each_outcome_upto:
  assumes "each_outcome f [0..<n] s = Inr t" "I 0 s"
    and "\<And>i s t. i < n \<Longrightarrow> I i s \<Longrightarrow> f i s = Inr t \<Longrightarrow> I (Suc i) t"
  shows "I n t"
  using assms
proof (induction n arbitrary: t)
  case (Suc n)
  obtain u where u: "each_outcome f [0..<n] s = Inr u" "f n u = Inr t"
    using Suc.prems(1) by (auto simp: each_outcome_append bnd_eq_Inr)
  have "I n u" by (rule Suc.IH [OF u(1) Suc.prems(2)]) (use Suc.prems(3) in simp)
  then show ?case using Suc.prems(3) u(2) by blast
qed simp

text \<open>A loop that ran to its end ran its body on every element, in a state that satisfies the invariant.\<close>

lemma each_outcome_reaches:
  assumes "each_outcome f xs s = Inr t" "x \<in> set xs" and "I s"
    and "\<And>x s t. x \<in> set xs \<Longrightarrow> I s \<Longrightarrow> f x s = Inr t \<Longrightarrow> I t"
  shows "\<exists>s' t'. I s' \<and> f x s' = Inr t'"
  using assms
proof (induction xs arbitrary: s)
  case Nil
  then show ?case by simp
next
  case (Cons y xs)
  from Cons.prems(1) obtain u where u: "f y s = Inr u" "each_outcome f xs u = Inr t"
    by (auto simp: bnd_eq_Inr)
  have I: "I u" using Cons.prems(3,4) u(1) by (meson list.set_intros(1))
  show ?case
  proof (cases "x = y")
    case True
    then show ?thesis using Cons.prems(3) u(1) by blast
  next
    case False
    show ?thesis
    proof (rule Cons.IH [OF u(2) _ I])
      show "x \<in> set xs" using False Cons.prems(2) by simp
    next
      fix z s t assume "z \<in> set xs" "I s" "f z s = Inr t"
      then show "I t" using Cons.prems(4) [of z s t] by simp
    qed
  qed
qed

text \<open>The counting loop \<open>for (i = 0; i < n; i++)\<close>: with an invariant it runs to the end.\<close>

lemma each_outcome_upt:
  assumes "I 0 s" and "\<And>i s. i < n \<Longrightarrow> I i s \<Longrightarrow> \<exists>s'. f i s = Inr s' \<and> I (Suc i) s'"
  shows "\<exists>s'. each_outcome f [0..<n] s = Inr s' \<and> I n s'"
  using assms
proof (induction n)
  case 0
  then show ?case by simp
next
  case (Suc n)
  then obtain t where t: "each_outcome f [0..<n] s = Inr t" "I n t" by (metis less_Suc_eq)
  then obtain t' where "f n t = Inr t'" "I (Suc n) t'" using Suc.prems(2) by blast
  then show ?case using t by (simp add: each_outcome_append)
qed

text \<open>Reading an element of a vector; \<open>operator[]\<close> does not check its index.\<close>

definition elem :: "'a list \<Rightarrow> nat \<Rightarrow> 'a outcome" where
  "elem xs i = (if i < length xs then Inr (xs ! i) else Inl Undefined)"

lemma elem_in [simp]: "i < length xs \<Longrightarrow> elem xs i = Inr (xs ! i)"
  by (simp add: elem_def)

lemma elem_eq_Inr [outcome_simps]: "elem xs i = Inr x \<longleftrightarrow> i < length xs \<and> xs ! i = x"
  by (auto simp: elem_def)

fun map_outcome :: "('a \<Rightarrow> 'b outcome) \<Rightarrow> 'a list \<Rightarrow> 'b list outcome" where
  "map_outcome f [] = Inr []"
| "map_outcome f (x # xs) = bnd (f x) (\<lambda>y. bnd (map_outcome f xs) (\<lambda>ys. Inr (y # ys)))"

lemma map_outcome_Inr:
  "map_outcome f xs = Inr ys \<longleftrightarrow> length ys = length xs \<and> (\<forall>i < length xs. f (xs ! i) = Inr (ys ! i))"
proof (induction xs arbitrary: ys)
  case Nil
  then show ?case by auto
next
  case (Cons x xs)
  show ?case
  proof
    assume "map_outcome f (x # xs) = Inr ys"
    then obtain z zs where "f x = Inr z" "map_outcome f xs = Inr zs" "ys = z # zs"
      by (auto simp: bnd_eq_Inr)
    then show "length ys = length (x # xs) \<and> (\<forall>i < length (x # xs). f ((x # xs) ! i) = Inr (ys ! i))"
      using Cons.IH [of zs] by (auto simp: nth_Cons split: nat.splits)
  next
    assume a: "length ys = length (x # xs) \<and> (\<forall>i < length (x # xs). f ((x # xs) ! i) = Inr (ys ! i))"
    then obtain z zs where ys: "ys = z # zs" by (cases ys) auto
    then have "f x = Inr z" "map_outcome f xs = Inr zs"
      using a Cons.IH [of zs] by (auto dest: spec [of _ 0] spec [of _ "Suc _"])
    then show "map_outcome f (x # xs) = Inr ys" using ys by simp
  qed
qed

lemma map_outcome_all:
  "(\<And>x. x \<in> set xs \<Longrightarrow> f x = Inr (g x)) \<Longrightarrow> map_outcome f xs = Inr (map g xs)"
  by (induction xs) simp_all

lemma each_outcome_all:
  "(\<And>x s. x \<in> set xs \<Longrightarrow> f x s = Inr (g x s)) \<Longrightarrow> each_outcome f xs s = Inr (fold g xs s)"
  by (induction xs arbitrary: s) simp_all

subsection \<open>Words\<close>

lemma unat_exp2: "k < LENGTH('a) \<Longrightarrow> unat (2 ^ k :: 'a::len word) = 2 ^ k"
proof -
  assume k: "k < LENGTH('a)"
  have "unat (word_of_nat (2 ^ k) :: 'a word) = take_bit LENGTH('a) (2 ^ k)"
    by (simp only: unsigned_of_nat of_nat_id)
  also have "\<dots> = 2 ^ k"
    using k by (intro take_bit_nat_eq_self) simp
  finally show ?thesis by simp
qed

lemma unat_of_nat_small: "n < 2 ^ LENGTH('a) \<Longrightarrow> unat (word_of_nat n :: 'a::len word) = n"
  by (simp add: unsigned_of_nat take_bit_nat_eq_self)

lemma unat_add_small:
  "unat x + unat y < 2 ^ LENGTH('a) \<Longrightarrow> unat (x + y) = unat x + unat y" for x y :: "'a::len word"
  by (rule unat_add_lem [THEN iffD1])

lemma unat_mult_small:
  "unat x * unat y < 2 ^ LENGTH('a) \<Longrightarrow> unat (x * y) = unat x * unat y" for x y :: "'a::len word"
  by (rule unat_mult_lem [THEN iffD1])

lemma unat_of_int_small:
  "0 \<le> i \<Longrightarrow> i < 2 ^ LENGTH('a) \<Longrightarrow> unat (word_of_int i :: 'a::len word) = nat i"
  by (metis nat_less_numeral_power_cancel_iff of_int_of_nat_eq of_nat_nat unat_of_nat_small)

lemma sint_of_int_small:
  "- (2 ^ (LENGTH('a) - 1)) \<le> i \<Longrightarrow> i < 2 ^ (LENGTH('a) - 1) \<Longrightarrow> sint (word_of_int i :: 'a::len word) = i"
  by (simp add: signed_of_int signed_take_bit_int_eq_self)

lemma uint_pos: "x \<noteq> 0 \<Longrightarrow> 0 < uint x" for x :: "'a::len word"
  by (metis order_le_less uint_0_iff unsigned_greater_eq)

lemma round_up:
  "0 < al \<Longrightarrow> n + (al - n mod al) mod al = (n + al - 1) div al * al" for n al :: nat
proof -
  assume al: "0 < al"
  show ?thesis
  proof (cases "n mod al = 0")
    case True
    then obtain q where q: "n = al * q" by auto
    have "(n + al - 1) div al = q"
      using al q by (intro div_nat_eqI) (simp_all add: mult.commute algebra_simps)
    then show ?thesis using True q by simp
  next
    case False
    define q m where "q = n div al" and "m = n mod al"
    have n: "n = q * al + m" by (simp add: q_def m_def)
    have m: "0 < m" "m < al" using False al by (simp_all add: m_def)
    have "(n + al - 1) div al = q + 1"
      using n m by (intro div_nat_eqI) (simp_all add: algebra_simps)
    then show ?thesis using n m by (simp add: algebra_simps flip: m_def)
  qed
qed

subsection \<open>Windows of a byte list\<close>

lemma drop_advance: "drop p f = xs @ r \<Longrightarrow> drop (p + length xs) f = r"
  by (metis add.commute append_eq_conv_conj drop_drop)

lemma take_window: "drop p f = xs @ r \<Longrightarrow> take (length xs) (drop p f) = xs"
  by simp

lemma window_length: "drop p f = xs @ r \<Longrightarrow> xs \<noteq> [] \<Longrightarrow> p + length xs \<le> length f"
proof -
  assume d: "drop p f = xs @ r" and ne: "xs \<noteq> []"
  then have "length f - p = length xs + length r"
    by (metis length_append length_drop)
  moreover from d ne have "p < length f"
    by (metis append_is_Nil_conv drop_eq_Nil leI)
  ultimately show ?thesis by simp
qed

subsection \<open>Searching a list for the first hit\<close>

text \<open>
  The search loops of the program return the index of the first element that satisfies a
  test, or -1.
\<close>

fun find_from :: "nat \<Rightarrow> ('a \<Rightarrow> bool) \<Rightarrow> 'a list \<Rightarrow> int" where
  "find_from i p [] = -1"
| "find_from i p (x # xs) = (if p x then int i else find_from (Suc i) p xs)"

lemma find_from_cases:
  "(find_from i p xs = -1 \<and> (\<forall>x \<in> set xs. \<not> p x)) \<or>
   (\<exists>k < length xs. find_from i p xs = int (i + k) \<and> p (xs ! k) \<and> (\<forall>j < k. \<not> p (xs ! j)))"
proof (induction xs arbitrary: i)
  case Nil
  then show ?case by simp
next
  case (Cons x xs)
  show ?case
  proof (cases "p x")
    case True
    then show ?thesis by (intro disjI2 exI [of _ 0]) simp
  next
    case False
    from Cons.IH [of "Suc i"] show ?thesis
    proof
      assume "find_from (Suc i) p xs = -1 \<and> (\<forall>x \<in> set xs. \<not> p x)"
      with False show ?thesis by simp
    next
      assume "\<exists>k < length xs. find_from (Suc i) p xs = int (Suc i + k) \<and> p (xs ! k) \<and>
        (\<forall>j < k. \<not> p (xs ! j))"
      then obtain k where k: "k < length xs" "find_from (Suc i) p xs = int (Suc i + k)"
        "p (xs ! k)" "\<forall>j < k. \<not> p (xs ! j)" by blast
      have "\<forall>j < Suc k. \<not> p ((x # xs) ! j)"
        using k(4) False by (auto simp: nth_Cons split: nat.splits)
      with k False show ?thesis by (intro disjI2 exI [of _ "Suc k"]) auto
    qed
  qed
qed

lemma find_from_minus_one: "find_from i p xs = -1 \<longleftrightarrow> (\<forall>x \<in> set xs. \<not> p x)"
  using find_from_cases [of i p xs] by auto

lemma find_from_neg: "find_from i p xs < 0 \<longleftrightarrow> find_from i p xs = -1"
  using find_from_cases [of i p xs] by auto

lemma find_from_hit:
  assumes "find_from 0 p xs \<noteq> -1"
  obtains k where "k < length xs" "find_from 0 p xs = int k" "p (xs ! k)" "\<forall>j < k. \<not> p (xs ! j)"
  using assms find_from_cases [of 0 p xs] by auto

lemma find_from_first:
  "k < length xs \<Longrightarrow> p (xs ! k) \<Longrightarrow> \<forall>j < k. \<not> p (xs ! j) \<Longrightarrow> find_from i p xs = int (i + k)"
proof (induction xs arbitrary: i k)
  case Nil
  then show ?case by simp
next
  case (Cons x xs)
  show ?case
  proof (cases k)
    case 0
    with Cons.prems show ?thesis by simp
  next
    case (Suc k')
    have "\<not> p x" using Cons.prems(3) Suc by auto
    moreover have "\<forall>j < k'. \<not> p (xs ! j)" using Cons.prems(3) Suc by auto
    ultimately show ?thesis using Cons.IH [of k' "Suc i"] Cons.prems Suc by simp
  qed
qed

subsection \<open>Association lists built from keyed elements\<close>

lemma keyed_map_None: "map_of (map (\<lambda>e. (g e, e)) xs) k = None \<longleftrightarrow> k \<notin> g ` set xs"
  by (induction xs) auto

lemma keyed_map_Some: "map_of (map (\<lambda>e. (g e, e)) xs) k = Some e \<Longrightarrow> e \<in> set xs \<and> g e = k"
  by (induction xs) (auto split: if_splits)

lemma keyed_map_distinct:
  "distinct (map g xs) \<Longrightarrow> e \<in> set xs \<Longrightarrow> map_of (map (\<lambda>e. (g e, e)) xs) (g e) = Some e"
  by (induction xs) (auto simp: image_iff)

lemma keyed_map_rev:
  "distinct (map g xs) \<Longrightarrow>
   map_of (map (\<lambda>e. (g e, e)) (rev xs)) = map_of (map (\<lambda>e. (g e, e)) xs)"
proof (rule ext)
  fix k
  assume d: "distinct (map g xs)"
  then have d': "distinct (map g (rev xs))" by (simp flip: rev_map)
  show "map_of (map (\<lambda>e. (g e, e)) (rev xs)) k = map_of (map (\<lambda>e. (g e, e)) xs) k"
  proof (cases "map_of (map (\<lambda>e. (g e, e)) xs) k")
    case None
    then have "k \<notin> g ` set (rev xs)" by (simp add: keyed_map_None)
    then have "map_of (map (\<lambda>e. (g e, e)) (rev xs)) k = None"
      by (rule keyed_map_None [THEN iffD2])
    with None show ?thesis by simp
  next
    case (Some e)
    then have "e \<in> set (rev xs)" "g e = k" by (auto dest: keyed_map_Some)
    with Some show ?thesis using keyed_map_distinct [OF d'] by auto
  qed
qed

subsection \<open>Rows of equal length and lists updated in place\<close>

lemma length_concat_rows: "(\<And>t. t < n \<Longrightarrow> length (f t) = k) \<Longrightarrow> length (concat (map f [0..<n])) = n * k"
  by (induction n) (simp_all add: length_concat)

lemma nth_update_in: "j < length xs \<Longrightarrow> xs[i := x] ! j = (if i = j then x else xs ! j)"
  by (auto simp: nth_list_update)

text \<open>Cells of a matrix stored row by row.\<close>

lemma cell_inj: "k < n \<Longrightarrow> k' < n \<Longrightarrow> t * n + k = t' * n + k' \<longleftrightarrow> t = t' \<and> k = k'" for t :: nat
  by (metis add.commute div_mult_self3 div_less add_0_right mod_mult_self3 mod_less less_zeroE not_less0)

lemma cell_bound: "t < m \<Longrightarrow> k < n \<Longrightarrow> t * n + k < m * n" for t :: nat
proof -
  assume "t < m" "k < n"
  then have "t * n + k < (t + 1) * n" "(t + 1) * n \<le> m * n" by (simp, intro mult_le_mono1, simp)
  then show ?thesis by linarith
qed

definition remove_nth :: "nat \<Rightarrow> 'a list \<Rightarrow> 'a list" where
  "remove_nth k xs = take k xs @ drop (Suc k) xs"

lemma length_remove_nth [simp]: "k < length xs \<Longrightarrow> length (remove_nth k xs) = length xs - 1"
  by (simp add: remove_nth_def)

lemma set_remove_nth_subset: "set (remove_nth k xs) \<subseteq> set xs"
  by (auto simp: remove_nth_def dest: in_set_takeD in_set_dropD)

lemma split_at_nth: "k < length xs \<Longrightarrow> xs = take k xs @ xs ! k # drop (Suc k) xs"
  by (rule id_take_nth_drop)

lemma distinct_map_remove_nth: "distinct (map g xs) \<Longrightarrow> distinct (map g (remove_nth k xs))"
proof (cases "k < length xs")
  case True
  assume "distinct (map g xs)"
  then have "distinct (map g (take k xs @ xs ! k # drop (Suc k) xs))"
    using split_at_nth [OF True] by simp
  then show ?thesis by (auto simp: remove_nth_def)
qed (simp add: remove_nth_def)

lemma distinct_map_nth_unique:
  "distinct (map g xs) \<Longrightarrow> i < length xs \<Longrightarrow> j < length xs \<Longrightarrow> g (xs ! i) = g (xs ! j) \<Longrightarrow> i = j"
  by (metis length_map nth_eq_iff_index_eq nth_map)

end
