(* ===== verification/Bytes.thy ===== *)
theory Bytes
  imports Prelude
begin

text \<open>
  Bytes and the little-endian encoding of integers, as the program's \<open>memcpy\<close>,
  \<open>reinterpret_cast\<close> and \<open>fread\<close> of scalar objects see them on the little-endian hosts it
  supports; the reader's position in a file; and the contract between an encoder and a
  decoder, stated once as a locale and proved for each pair of routines of the program.
\<close>

named_theorems codec_simps "rewrite rules that evaluate encoders and readers"

type_synonym byte = "8 word"
type_synonym bytes = "8 word list"

definition bytes_of :: "string \<Rightarrow> bytes" where
  "bytes_of s = map of_char s"

text \<open>The prefix of a buffer up to its first NUL: what \<open>strcmp\<close> and \<open>c_str\<close> see of it.\<close>

definition c_str :: "bytes \<Rightarrow> bytes" where
  "c_str s = takeWhile (\<lambda>b. b \<noteq> 0) s"

lemma c_str_idem [simp]: "c_str (c_str s) = c_str s"
  by (simp add: c_str_def takeWhile_idem)

lemma c_str_no_nul: "0 \<notin> set (c_str s)"
  by (auto simp: c_str_def dest: set_takeWhileD)

lemma c_str_id: "0 \<notin> set s \<Longrightarrow> c_str s = s"
  by (auto simp: c_str_def takeWhile_eq_all_conv)

lemma length_c_str_le: "length (c_str s) \<le> length s"
  by (simp add: c_str_def length_takeWhile_le)

subsection \<open>Little-endian integers\<close>

fun le_enc :: "nat \<Rightarrow> nat \<Rightarrow> bytes" where
  "le_enc 0 x = []"
| "le_enc (Suc n) x = word_of_nat (x mod 256) # le_enc n (x div 256)"

fun le_dec :: "bytes \<Rightarrow> nat" where
  "le_dec [] = 0"
| "le_dec (b # bs) = unat b + 256 * le_dec bs"

lemma length_le_enc [simp]: "length (le_enc n x) = n"
  by (induction n arbitrary: x) auto

lemma unat_byte_of_mod: "unat (word_of_nat (x mod 256) :: byte) = x mod 256"
  by (simp add: unat_of_nat take_bit_eq_mod)

lemma le_dec_enc: "le_dec (le_enc n x) = x mod 256 ^ n"
proof (induction n arbitrary: x)
  case 0
  then show ?case by simp
next
  case (Suc n)
  then show ?case
    by (simp add: unat_byte_of_mod mod_mult2_eq)
qed

lemma le_dec_bound: "le_dec bs < 256 ^ length bs"
proof (induction bs)
  case Nil
  then show ?case by simp
next
  case (Cons b bs)
  have "unat b < 256" using unsigned_less [of b, where ?'a = nat] by simp
  moreover have "256 * (le_dec bs + 1) \<le> 256 * 256 ^ length bs"
    using Cons.IH by (simp only: mult_le_cancel1) simp
  ultimately show ?case by simp
qed

lemma le_enc_dec: "le_enc (length bs) (le_dec bs) = bs"
proof (induction bs)
  case Nil
  then show ?case by simp
next
  case (Cons b bs)
  have "unat b < 256" using unsigned_less [of b, where ?'a = nat] by simp
  then show ?case using Cons.IH by simp
qed

definition enc_word :: "'a::len word \<Rightarrow> bytes" where
  "enc_word w = le_enc (LENGTH('a) div 8) (unat w)"

definition dec_word :: "bytes \<Rightarrow> 'a::len word" where
  "dec_word bs = word_of_nat (le_dec bs)"

lemma length_enc_word [simp]: "length (enc_word (w :: 'a::len word)) = LENGTH('a) div 8"
  by (simp add: enc_word_def)

lemma dec_enc_word:
  assumes "LENGTH('a::len) = 8 * n"
  shows "dec_word (enc_word (w :: 'a word)) = w"
proof -
  have "(256::nat) ^ n = 2 ^ LENGTH('a)"
    by (simp add: assms power_mult)
  then have "unat w mod 256 ^ n = unat w"
    using unsigned_less [of w, where ?'a = nat] by simp
  then show ?thesis
    by (simp add: dec_word_def enc_word_def le_dec_enc assms)
qed

lemma dec_enc_sizes [simp]:
  "dec_word (enc_word (a :: 8 word)) = a"
  "dec_word (enc_word (b :: 16 word)) = b"
  "dec_word (enc_word (c :: 32 word)) = c"
  "dec_word (enc_word (d :: 64 word)) = d"
  using dec_enc_word [of 1 a] dec_enc_word [of 2 b] dec_enc_word [of 4 c] dec_enc_word [of 8 d]
  by simp_all

lemma enc_dec_word:
  assumes "LENGTH('a::len) = 8 * n" and "length bs = n"
  shows "enc_word (dec_word bs :: 'a word) = bs"
proof -
  have "(256::nat) ^ n = 2 ^ LENGTH('a)"
    by (simp add: assms power_mult)
  then have "unat (word_of_nat (le_dec bs) :: 'a word) = le_dec bs"
    using le_dec_bound [of bs] assms(2) by (intro unat_of_nat_small) simp
  then show ?thesis
    using le_enc_dec [of bs] assms by (simp add: enc_word_def dec_word_def)
qed

lemma enc_dec_sizes:
  "length bs = 1 \<Longrightarrow> enc_word (dec_word bs :: 8 word) = bs"
  "length bs = 2 \<Longrightarrow> enc_word (dec_word bs :: 16 word) = bs"
  "length bs = 4 \<Longrightarrow> enc_word (dec_word bs :: 32 word) = bs"
  "length bs = 8 \<Longrightarrow> enc_word (dec_word bs :: 64 word) = bs"
  by (rule enc_dec_word; simp)+

subsection \<open>Reading a file\<close>

text \<open>
  A reader takes the file's contents and the position of its \<open>FILE\<close> object and returns a
  value and the new position.  \<open>fread\<close> of \<open>n\<close> bytes succeeds when it gets all of them; the
  program stops at the first short read, so a short read is the outcome \<open>Failed\<close>.
\<close>

type_synonym 'a reader = "bytes \<Rightarrow> nat \<Rightarrow> ('a \<times> nat) outcome"

definition read_bytes :: "nat \<Rightarrow> bytes reader" where
  "read_bytes n f p =
     (let got = take n (drop p f) in if length got = n then Inr (got, p + n) else Inl Failed)"

definition read_word :: "('a::len word) reader" where
  "read_word f p =
     bnd (read_bytes (LENGTH('a) div 8) f p) (\<lambda>(bs, q). Inr (dec_word bs, q))"

fun read_many :: "'a reader \<Rightarrow> nat \<Rightarrow> ('a list) reader" where
  "read_many rd 0 f p = Inr ([], p)"
| "read_many rd (Suc n) f p =
     bnd (rd f p) (\<lambda>(x, q). bnd (read_many rd n f q) (\<lambda>(xs, s). Inr (x # xs, s)))"

lemma read_bytes_window:
  "drop p f = xs @ r \<Longrightarrow> n = length xs \<Longrightarrow> read_bytes n f p = Inr (xs, p + n)"
  by (simp add: read_bytes_def)

lemma read_bytes_Inr:
  "read_bytes n f p = Inr (bs, q) \<longleftrightarrow>
     bs = take n (drop p f) \<and> length bs = n \<and> q = p + n"
  by (auto simp: read_bytes_def Let_def split: if_splits)

lemma read_bytes_fault: "read_bytes n f p = Inl e \<Longrightarrow> e = Failed"
  by (auto simp: read_bytes_def Let_def split: if_splits)

lemma read_word_fault: "read_word f p = Inl e \<Longrightarrow> e = Failed"
  by (auto simp: read_word_def bnd_eq_Inl dest: read_bytes_fault)

lemma read_many_length: "read_many rd n f p = Inr (xs, q) \<Longrightarrow> length xs = n"
  by (induction n arbitrary: p xs) (auto simp: bnd_eq_Inr)

text \<open>The program's \<open>bool\<close>, \<open>std::string\<close> and \<open>int64_t\<close> readers are built from these.\<close>

subsection \<open>The contract between an encoder and a decoder\<close>

text \<open>
  \<open>dec\<close> undoes \<open>enc\<close> on the valid values: wherever the file holds an encoding, the decoder
  returns the value and stops right behind it.
\<close>

locale codec =
  fixes enc :: "'a \<Rightarrow> bytes"
    and dec :: "'a reader"
    and valid :: "'a \<Rightarrow> bool"
  assumes decodes: "valid v \<Longrightarrow> drop p f = enc v @ r \<Longrightarrow> dec f p = Inr (v, p + length (enc v))"
begin

lemma decodes_whole: "valid v \<Longrightarrow> dec (enc v) 0 = Inr (v, length (enc v))"
  using decodes [of v 0 "enc v" "[]"] by simp

lemma prefix_free:
  assumes "valid v" "valid w" "enc v @ r = enc w @ s"
  shows "v = w \<and> r = s"
proof -
  have "dec (enc v @ r) 0 = Inr (v, length (enc v))"
    using decodes [of v 0 "enc v @ r" r] assms(1) by simp
  moreover have "dec (enc v @ r) 0 = Inr (w, length (enc w))"
    using decodes [of w 0 "enc v @ r" s] assms(2,3) by simp
  ultimately have "v = w" by simp
  with assms(3) show ?thesis by simp
qed

lemma many:
  assumes "\<forall>v \<in> set vs. valid v" and "drop p f = concat (map enc vs) @ r"
  shows "read_many dec (length vs) f p = Inr (vs, p + length (concat (map enc vs)))"
  using assms
proof (induction vs arbitrary: p)
  case Nil
  then show ?case by simp
next
  case (Cons v vs)
  have d: "drop p f = enc v @ concat (map enc vs) @ r"
    using Cons.prems(2) by simp
  have v: "dec f p = Inr (v, p + length (enc v))"
    using decodes [OF _ d] Cons.prems(1) by simp
  have "drop (p + length (enc v)) f = concat (map enc vs) @ r"
    using drop_advance [OF d] .
  then have "read_many dec (length vs) f (p + length (enc v)) =
      Inr (vs, p + length (enc v) + length (concat (map enc vs)))"
    using Cons.IH Cons.prems(1) by simp
  with v show ?case by (simp add: add.assoc)
qed

end

lemma read_word_codec:
  assumes "LENGTH('a::len) = 8 * n"
  shows "codec (enc_word :: 'a word \<Rightarrow> bytes) read_word (\<lambda>_. True)"
proof
  fix v :: "'a word" and p f r
  assume "drop p f = enc_word v @ r"
  then have "read_bytes (LENGTH('a) div 8) f p = Inr (enc_word v, p + LENGTH('a) div 8)"
    by (rule read_bytes_window) simp
  then show "read_word f p = Inr (v, p + length (enc_word v))"
    using dec_enc_word [OF assms, of v] by (simp add: read_word_def)
qed

interpretation u8: codec "enc_word :: 8 word \<Rightarrow> bytes" read_word "\<lambda>_. True"
  by (rule read_word_codec [of 1]) simp

interpretation u16: codec "enc_word :: 16 word \<Rightarrow> bytes" read_word "\<lambda>_. True"
  by (rule read_word_codec [of 2]) simp

interpretation u32: codec "enc_word :: 32 word \<Rightarrow> bytes" read_word "\<lambda>_. True"
  by (rule read_word_codec [of 4]) simp

interpretation u64: codec "enc_word :: 64 word \<Rightarrow> bytes" read_word "\<lambda>_. True"
  by (rule read_word_codec [of 8]) simp

end
