(* ===== verification/Gguf_Types.thy ===== *)
theory Gguf_Types
  imports Bytes
begin

text \<open>
  The data model of the GGUF library (\<open>include/gguf.h\<close>, the first part of
  \<open>src/gguf.cpp\<close>) and the tensor geometry it takes from \<open>src/ggml.c\<close>: value types and their
  sizes, key-value pairs, tensor descriptions, byte sizes and padding.  Sizes are \<open>size_t\<close>
  (64-bit words that wrap around), dimensions are \<open>int64_t\<close>, kept as integers in its range.
\<close>

unbundle bit_operations_syntax

type_synonym size_t = "64 word"

abbreviation SIZE_MAX :: size_t where "SIZE_MAX \<equiv> -1"
abbreviation INT64_MAX :: int where "INT64_MAX \<equiv> 9223372036854775807"

text \<open>C++ division and remainder of integers truncate towards zero.\<close>

definition c_div :: "int \<Rightarrow> int \<Rightarrow> int" where
  "c_div a b = sgn a * sgn b * (\<bar>a\<bar> div \<bar>b\<bar>)"

definition c_mod :: "int \<Rightarrow> int \<Rightarrow> int" where
  "c_mod a b = a - c_div a b * b"

lemma c_div_nonneg: "0 \<le> a \<Longrightarrow> 0 < b \<Longrightarrow> c_div a b = a div b"
  by (cases "a = 0") (simp_all add: c_div_def)

lemma c_mod_nonneg: "0 \<le> a \<Longrightarrow> 0 < b \<Longrightarrow> c_mod a b = a mod b"
  by (simp add: c_mod_def c_div_nonneg minus_div_mult_eq_mod)

subsection \<open>Value types\<close>

datatype gguf_type =
    GGUF_TYPE_UINT8 | GGUF_TYPE_INT8 | GGUF_TYPE_UINT16 | GGUF_TYPE_INT16
  | GGUF_TYPE_UINT32 | GGUF_TYPE_INT32 | GGUF_TYPE_FLOAT32 | GGUF_TYPE_BOOL
  | GGUF_TYPE_STRING | GGUF_TYPE_ARRAY | GGUF_TYPE_UINT64 | GGUF_TYPE_INT64
  | GGUF_TYPE_FLOAT64 | GGUF_TYPE_COUNT

fun gguf_type_code :: "gguf_type \<Rightarrow> 32 word" where
  "gguf_type_code GGUF_TYPE_UINT8 = 0"
| "gguf_type_code GGUF_TYPE_INT8 = 1"
| "gguf_type_code GGUF_TYPE_UINT16 = 2"
| "gguf_type_code GGUF_TYPE_INT16 = 3"
| "gguf_type_code GGUF_TYPE_UINT32 = 4"
| "gguf_type_code GGUF_TYPE_INT32 = 5"
| "gguf_type_code GGUF_TYPE_FLOAT32 = 6"
| "gguf_type_code GGUF_TYPE_BOOL = 7"
| "gguf_type_code GGUF_TYPE_STRING = 8"
| "gguf_type_code GGUF_TYPE_ARRAY = 9"
| "gguf_type_code GGUF_TYPE_UINT64 = 10"
| "gguf_type_code GGUF_TYPE_INT64 = 11"
| "gguf_type_code GGUF_TYPE_FLOAT64 = 12"
| "gguf_type_code GGUF_TYPE_COUNT = 13"

text \<open>
  The cast \<open>gguf_type(tmp)\<close> of an integer read from a file; \<open>None\<close> stands for every value
  that is no enumerator, which the program treats alike (\<open>default:\<close>, a failed map lookup).
\<close>

definition gguf_type_of_code :: "32 word \<Rightarrow> gguf_type option" where
  "gguf_type_of_code c =
     (if c = 0 then Some GGUF_TYPE_UINT8 else if c = 1 then Some GGUF_TYPE_INT8
      else if c = 2 then Some GGUF_TYPE_UINT16 else if c = 3 then Some GGUF_TYPE_INT16
      else if c = 4 then Some GGUF_TYPE_UINT32 else if c = 5 then Some GGUF_TYPE_INT32
      else if c = 6 then Some GGUF_TYPE_FLOAT32 else if c = 7 then Some GGUF_TYPE_BOOL
      else if c = 8 then Some GGUF_TYPE_STRING else if c = 9 then Some GGUF_TYPE_ARRAY
      else if c = 10 then Some GGUF_TYPE_UINT64 else if c = 11 then Some GGUF_TYPE_INT64
      else if c = 12 then Some GGUF_TYPE_FLOAT64 else if c = 13 then Some GGUF_TYPE_COUNT
      else None)"

lemma gguf_type_of_code_code [simp]: "gguf_type_of_code (gguf_type_code t) = Some t"
  by (cases t) (simp_all add: gguf_type_of_code_def)

text \<open>\<open>GGUF_TYPE_SIZE\<close>: 0 for the types without a fixed size and outside the table.\<close>

fun gguf_type_size :: "gguf_type \<Rightarrow> nat" where
  "gguf_type_size GGUF_TYPE_UINT8 = 1"
| "gguf_type_size GGUF_TYPE_INT8 = 1"
| "gguf_type_size GGUF_TYPE_UINT16 = 2"
| "gguf_type_size GGUF_TYPE_INT16 = 2"
| "gguf_type_size GGUF_TYPE_UINT32 = 4"
| "gguf_type_size GGUF_TYPE_INT32 = 4"
| "gguf_type_size GGUF_TYPE_FLOAT32 = 4"
| "gguf_type_size GGUF_TYPE_BOOL = 1"
| "gguf_type_size GGUF_TYPE_STRING = 0"
| "gguf_type_size GGUF_TYPE_ARRAY = 0"
| "gguf_type_size GGUF_TYPE_UINT64 = 8"
| "gguf_type_size GGUF_TYPE_INT64 = 8"
| "gguf_type_size GGUF_TYPE_FLOAT64 = 8"
| "gguf_type_size GGUF_TYPE_COUNT = 0"

fun gguf_type_name :: "gguf_type \<Rightarrow> string option" where
  "gguf_type_name GGUF_TYPE_UINT8 = Some ''u8''"
| "gguf_type_name GGUF_TYPE_INT8 = Some ''i8''"
| "gguf_type_name GGUF_TYPE_UINT16 = Some ''u16''"
| "gguf_type_name GGUF_TYPE_INT16 = Some ''i16''"
| "gguf_type_name GGUF_TYPE_UINT32 = Some ''u32''"
| "gguf_type_name GGUF_TYPE_INT32 = Some ''i32''"
| "gguf_type_name GGUF_TYPE_FLOAT32 = Some ''f32''"
| "gguf_type_name GGUF_TYPE_BOOL = Some ''bool''"
| "gguf_type_name GGUF_TYPE_STRING = Some ''str''"
| "gguf_type_name GGUF_TYPE_ARRAY = Some ''arr''"
| "gguf_type_name GGUF_TYPE_UINT64 = Some ''u64''"
| "gguf_type_name GGUF_TYPE_INT64 = Some ''i64''"
| "gguf_type_name GGUF_TYPE_FLOAT64 = Some ''f64''"
| "gguf_type_name GGUF_TYPE_COUNT = None"

text \<open>The types whose values have a fixed size; of these the values are kept as raw bytes.\<close>

definition fixed_type :: "gguf_type \<Rightarrow> bool" where
  "fixed_type t \<longleftrightarrow> t \<notin> {GGUF_TYPE_STRING, GGUF_TYPE_ARRAY, GGUF_TYPE_COUNT}"

lemma fixed_type_size: "fixed_type t \<longleftrightarrow> 0 < gguf_type_size t"
  by (cases t) (simp_all add: fixed_type_def)

subsection \<open>Tensor types and geometry\<close>

text \<open>
  \<open>type_traits\<close>: block size and type size of the 40 values of \<open>enum ggml_type\<close>; the removed
  types keep entries with size 0.
\<close>

definition type_traits :: "(int \<times> nat) list" where
  "type_traits =
     [(1, 4), (1, 2), (32, 18), (32, 20), (0, 0), (0, 0), (32, 22), (32, 24),
      (32, 34), (32, 36), (256, 84), (256, 110), (256, 144), (256, 176), (256, 210), (256, 292),
      (256, 66), (256, 74), (256, 98), (256, 50), (32, 18), (256, 110), (256, 82), (256, 136),
      (1, 1), (1, 2), (1, 4), (1, 8), (1, 8), (256, 56), (1, 2), (0, 0),
      (0, 0), (0, 0), (256, 54), (256, 66), (0, 0), (0, 0), (0, 0), (32, 17)]"

definition GGML_TYPE_COUNT :: nat where "GGML_TYPE_COUNT = 40"

definition ggml_blck_size :: "nat \<Rightarrow> int" where
  "ggml_blck_size t = fst (type_traits ! t)"

definition ggml_type_size :: "nat \<Rightarrow> nat" where
  "ggml_type_size t = snd (type_traits ! t)"

lemma length_type_traits: "length type_traits = GGML_TYPE_COUNT"
  by (simp add: type_traits_def GGML_TYPE_COUNT_def)

lemma type_traits_sound:
  "list_all (\<lambda>(b, s). 0 \<le> b \<and> b \<le> 256 \<and> s \<le> 292 \<and> (b = 0 \<longleftrightarrow> s = 0)) type_traits"
  by code_simp

lemma traits_bounds:
  assumes "t < GGML_TYPE_COUNT"
  shows "0 \<le> ggml_blck_size t" "ggml_blck_size t \<le> 256" "ggml_type_size t \<le> 292"
    "ggml_blck_size t = 0 \<longleftrightarrow> ggml_type_size t = 0"
proof -
  have "type_traits ! t \<in> set type_traits"
    using assms length_type_traits by simp
  then have "case type_traits ! t of (b, s) \<Rightarrow> 0 \<le> b \<and> b \<le> 256 \<and> s \<le> 292 \<and> (b = 0 \<longleftrightarrow> s = 0)"
    using type_traits_sound by (simp only: list_all_iff)
  then show "0 \<le> ggml_blck_size t" "ggml_blck_size t \<le> 256" "ggml_type_size t \<le> 292"
    "ggml_blck_size t = 0 \<longleftrightarrow> ggml_type_size t = 0"
    by (simp_all add: ggml_blck_size_def ggml_type_size_def case_prod_beta)
qed

definition GGML_MAX_DIMS :: nat where "GGML_MAX_DIMS = 4"
definition GGML_MAX_NAME :: nat where "GGML_MAX_NAME = 64"

text \<open>
  The fields of \<open>struct ggml_tensor\<close> the library uses.  \<open>t_ne\<close> and \<open>t_nb\<close> hold
  \<open>GGML_MAX_DIMS\<close> entries.  \<open>t_data\<close> is the memory the tensor points to (the \<open>data\<close> pointer,
  or the backend buffer behind it), \<open>None\<close> when neither is set.
\<close>

record ggml_tensor =
  t_name :: bytes
  t_type :: nat
  t_ne :: "int list"
  t_nb :: "size_t list"
  t_data :: "bytes option"

definition ggml_set_name :: "ggml_tensor \<Rightarrow> bytes \<Rightarrow> ggml_tensor" where
  "ggml_set_name t name = t\<lparr>t_name := take (GGML_MAX_NAME - 1) (c_str name)\<rparr>"

definition ggml_nbytes :: "ggml_tensor \<Rightarrow> size_t" where
  "ggml_nbytes t =
     (if \<exists>d \<in> set (t_ne t). d \<le> 0 then 0
      else if ggml_blck_size (t_type t) = 1
      then sum_list (word_of_nat (ggml_type_size (t_type t)) #
             map2 (\<lambda>d b. word_of_int (d - 1) * b) (t_ne t) (t_nb t))
      else sum_list ((word_of_int (t_ne t ! 0) * t_nb t ! 0) div word_of_int (ggml_blck_size (t_type t)) #
             map2 (\<lambda>d b. word_of_int (d - 1) * b) (tl (t_ne t)) (tl (t_nb t))))"

definition ggml_n_dims :: "ggml_tensor \<Rightarrow> nat" where
  "ggml_n_dims t =
     (if t_ne t ! 3 > 1 then 4 else if t_ne t ! 2 > 1 then 3 else if t_ne t ! 1 > 1 then 2 else 1)"

text \<open>\<open>ggml_is_contiguous\<close>: the loop of \<open>ggml_is_contiguous_n\<close> with \<open>n = 0\<close>.\<close>

fun contiguous_from :: "size_t \<Rightarrow> (int \<times> size_t) list \<Rightarrow> bool" where
  "contiguous_from next_nb [] = True"
| "contiguous_from next_nb ((d, b) # rest) =
     (if d \<noteq> 1
      then (if b \<noteq> next_nb then False else contiguous_from (next_nb * word_of_int d) rest)
      else contiguous_from next_nb rest)"

definition ggml_is_contiguous :: "ggml_tensor \<Rightarrow> bool" where
  "ggml_is_contiguous t =
     (let next_nb = word_of_nat (ggml_type_size (t_type t)) :: size_t in
      if t_ne t ! 0 \<noteq> ggml_blck_size (t_type t) \<and> t_nb t ! 0 \<noteq> next_nb then False
      else contiguous_from
             (next_nb * word_of_int (c_div (t_ne t ! 0) (ggml_blck_size (t_type t))))
             (zip (tl (t_ne t)) (tl (t_nb t))))"

text \<open>The strides that the reader and \<open>gguf_set_tensor_type\<close> compute from shape and type.\<close>

definition row_strides :: "nat \<Rightarrow> int list \<Rightarrow> size_t list" where
  "row_strides ty ne =
     (let nb0 = word_of_nat (ggml_type_size ty);
          nb1 = nb0 * word_of_int (c_div (ne ! 0) (ggml_blck_size ty));
          nb2 = nb1 * word_of_int (ne ! 1);
          nb3 = nb2 * word_of_int (ne ! 2)
      in [nb0, nb1, nb2, nb3])"

subsection \<open>Padding\<close>

definition ggml_pad :: "size_t \<Rightarrow> size_t \<Rightarrow> size_t" where
  "ggml_pad x n = (x + n - 1) AND NOT (n - 1)"

definition is_pow2 :: "size_t \<Rightarrow> bool" where
  "is_pow2 a \<longleftrightarrow> a \<noteq> 0 \<and> a AND (a - 1) = 0"

lemma nat_and_pred_pow2: "0 < x \<Longrightarrow> x AND (x - 1) = 0 \<Longrightarrow> \<exists>k. x = 2 ^ k" for x :: nat
proof (induction x rule: less_induct)
  case (less x)
  show ?case
  proof (cases "x = 1")
    case True
    then show ?thesis by (intro exI [of _ 0]) simp
  next
    case False
    show ?thesis
    proof (cases "even x")
      case True
      then obtain m where m: "x = 2 * m" by blast
      have "0 < m" using less.prems(1) m by simp
      then obtain j where j: "m = Suc j" by (cases m) auto
      have "x - 1 = 1 + 2 * j" using m j by simp
      then have "x AND (x - 1) = 2 * (m AND j)"
        using m by (simp add: and_nat_unfold [of "2 * m"])
      then have "m AND (m - 1) = 0" using less.prems(2) j by simp
      then obtain k where "m = 2 ^ k"
        using less.IH [of m] \<open>0 < m\<close> m by auto
      then show ?thesis using m by (intro exI [of _ "Suc k"]) simp
    next
      case False
      then obtain m where m: "x = 2 * m + 1" using oddE by blast
      have "x AND (x - 1) = 2 * m"
        using m by (simp add: and_nat_unfold [of "Suc (2 * m)"])
      with less.prems(2) m have "x = 1" by simp
      with \<open>x \<noteq> 1\<close> show ?thesis by simp
    qed
  qed
qed

lemma is_pow2_exp:
  assumes "is_pow2 a"
  obtains k where "k < 64" "a = 2 ^ k" "unat a = 2 ^ k"
proof -
  have a: "a \<noteq> 0" "a AND (a - 1) = 0" using assms by (simp_all add: is_pow2_def)
  have u: "unat (a - 1) = unat a - 1"
    using a(1) by (simp add: unat_minus_one)
  have "unat a AND (unat a - 1) = 0"
    using a(2) u by (metis unsigned_0 unsigned_and_eq)
  moreover have "0 < unat a" using a(1) by (simp add: unat_gt_0)
  ultimately obtain k where k: "unat a = 2 ^ k"
    using nat_and_pred_pow2 by blast
  have "unat a < 2 ^ 64" using unsigned_less [of a, where ?'a = nat] by simp
  then have "k < 64" using k by (metis nat_power_less_imp_less zero_less_numeral)
  moreover have "a = 2 ^ k"
    using k by (metis of_nat_numeral of_nat_power of_nat_unat ucast_id)
  ultimately show ?thesis using k that by blast
qed

lemma is_pow2_power: "k < 64 \<Longrightarrow> is_pow2 (2 ^ k)"
proof -
  assume k: "k < 64"
  then have "(2 ^ k :: size_t) \<noteq> 0" by simp
  moreover have "(2 ^ k :: size_t) AND (2 ^ k - 1) = 0"
    by (rule bit_word_eqI) (auto simp: bit_simps simp flip: mask_eq_exp_minus_1)
  ultimately show ?thesis by (simp add: is_pow2_def)
qed

lemma ggml_pad_exp: "ggml_pad x (2 ^ k) = push_bit k (drop_bit k (x + 2 ^ k - 1))"
  unfolding ggml_pad_def
  by (rule bit_word_eqI) (auto simp: bit_simps simp flip: mask_eq_exp_minus_1)

lemma unat_ggml_pad:
  assumes "k < 64" and "unat x + 2 ^ k \<le> 2 ^ 64"
  shows "unat (ggml_pad x (2 ^ k)) = (unat x + 2 ^ k - 1) div 2 ^ k * 2 ^ k"
proof -
  have e: "unat (2 ^ k :: size_t) = 2 ^ k"
    using assms(1) by (simp add: unat_exp2)
  have pos: "(0::nat) < 2 ^ k" by simp
  have m1: "unat (2 ^ k - 1 :: size_t) = 2 ^ k - 1"
    using assms(1) e by (subst unat_minus_one) auto
  have "unat (x + (2 ^ k - 1)) = unat x + (2 ^ k - 1)"
    by (subst unat_add_lem [THEN iffD1]) (use assms m1 pos in auto)
  then have s: "unat (x + 2 ^ k - 1) = unat x + 2 ^ k - 1"
    using pos by (simp add: add_diff_eq)
  let ?q = "(unat x + 2 ^ k - 1) div 2 ^ k"
  have le: "?q * 2 ^ k \<le> unat x + 2 ^ k - 1" by (rule div_times_less_eq_dividend)
  then have lt: "?q * 2 ^ k < 2 ^ 64" using assms(2) pos by linarith
  have "unat (push_bit k (drop_bit k y)) = take_bit 64 (push_bit k (drop_bit k (unat y)))"
    for y :: size_t
    using take_bit_nat_eq_self [OF unsigned_less [of y, where ?'a = nat]]
    by (simp add: unsigned_push_bit_eq unsigned_drop_bit_eq)
  then have "unat (ggml_pad x (2 ^ k)) = take_bit 64 (push_bit k (drop_bit k (unat x + 2 ^ k - 1)))"
    by (simp only: ggml_pad_exp s)
  also have "\<dots> = ?q * 2 ^ k"
    using lt by (simp add: push_bit_eq_mult drop_bit_eq_div take_bit_eq_mod)
  finally show ?thesis .
qed

end
