(* ===== verification/Gguf_Context.thy ===== *)
theory Gguf_Context
  imports Gguf_Types
begin

text \<open>
  The in-memory GGUF context of \<open>src/gguf.cpp\<close>: key-value pairs, tensor descriptions, and the
  operations that build, query and edit them.  A key is the text of a C string; the context
  behaves as a finite map from keys to values (the locale \<open>keyed_store\<close> and its
  interpretation below), and the tensor offsets tile the data section (\<open>layout_ok\<close>).
\<close>

subsection \<open>Key-value pairs\<close>

record gguf_kv =
  kv_key :: bytes
  kv_is_array :: bool
  kv_type :: gguf_type
  kv_data :: bytes
  kv_data_string :: "bytes list"

text \<open>
  The four constructors of \<open>struct gguf_kv\<close>: a scalar or a vector of a type \<open>T\<close>, given as the
  bytes of its object representation, a string, and a vector of strings.
\<close>

definition gguf_kv_scalar :: "bytes \<Rightarrow> gguf_type \<Rightarrow> bytes \<Rightarrow> gguf_kv outcome" where
  "gguf_kv_scalar key ty value =
     bnd (ensure (key \<noteq> []) Aborted) (\<lambda>_.
     Inr \<lparr>kv_key = key, kv_is_array = False, kv_type = ty, kv_data = value, kv_data_string = []\<rparr>)"

definition gguf_kv_vector :: "bytes \<Rightarrow> gguf_type \<Rightarrow> bytes list \<Rightarrow> gguf_kv outcome" where
  "gguf_kv_vector key ty values =
     bnd (ensure (key \<noteq> []) Aborted) (\<lambda>_.
     Inr \<lparr>kv_key = key, kv_is_array = True, kv_type = ty, kv_data = concat values,
          kv_data_string = []\<rparr>)"

definition gguf_kv_string :: "bytes \<Rightarrow> bytes \<Rightarrow> gguf_kv outcome" where
  "gguf_kv_string key value =
     bnd (ensure (key \<noteq> []) Aborted) (\<lambda>_.
     Inr \<lparr>kv_key = key, kv_is_array = False, kv_type = GGUF_TYPE_STRING, kv_data = [],
          kv_data_string = [value]\<rparr>)"

definition gguf_kv_strings :: "bytes \<Rightarrow> bytes list \<Rightarrow> gguf_kv outcome" where
  "gguf_kv_strings key values =
     bnd (ensure (key \<noteq> []) Aborted) (\<lambda>_.
     Inr \<lparr>kv_key = key, kv_is_array = True, kv_type = GGUF_TYPE_STRING, kv_data = [],
          kv_data_string = values\<rparr>)"

definition get_ne :: "gguf_kv \<Rightarrow> nat outcome" where
  "get_ne e =
     (if kv_type e = GGUF_TYPE_STRING then
        (let ne = length (kv_data_string e) in
         bnd (ensure (kv_is_array e \<or> ne = 1) Aborted) (\<lambda>_. Inr ne))
      else
        (let type_size = gguf_type_size (kv_type e) in
         bnd (ensure (type_size \<noteq> 0) Trapped) (\<lambda>_.
         bnd (ensure (length (kv_data e) mod type_size = 0) Aborted) (\<lambda>_.
         let ne = length (kv_data e) div type_size in
         bnd (ensure (kv_is_array e \<or> ne = 1) Aborted) (\<lambda>_. Inr ne)))))"

text \<open>\<open>get_val<T>(i)\<close> for \<open>T = std::string\<close> and for a type of fixed size, as its bytes.\<close>

definition get_val_string :: "gguf_kv \<Rightarrow> nat \<Rightarrow> bytes outcome" where
  "get_val_string e i =
     bnd (ensure (kv_type e = GGUF_TYPE_STRING) Aborted) (\<lambda>_.
     bnd (ensure (i + 1 \<le> length (kv_data_string e)) Aborted) (\<lambda>_.
     Inr (kv_data_string e ! i)))"

definition get_val_bytes :: "gguf_type \<Rightarrow> gguf_kv \<Rightarrow> nat \<Rightarrow> bytes outcome" where
  "get_val_bytes ty e i =
     bnd (ensure (kv_type e = ty) Aborted) (\<lambda>_.
     let type_size = gguf_type_size ty in
     bnd (ensure (length (kv_data e) mod type_size = 0) Aborted) (\<lambda>_.
     bnd (ensure ((i + 1) * type_size \<le> length (kv_data e)) Aborted) (\<lambda>_.
     Inr (take type_size (drop (i * type_size) (kv_data e))))))"

definition cast :: "gguf_type \<Rightarrow> gguf_kv \<Rightarrow> gguf_kv outcome" where
  "cast new_type e =
     (let new_type_size = gguf_type_size new_type in
      bnd (ensure (new_type_size \<noteq> 0) Trapped) (\<lambda>_.
      bnd (ensure (length (kv_data e) mod new_type_size = 0) Aborted) (\<lambda>_.
      Inr (e\<lparr>kv_type := new_type\<rparr>))))"

subsection \<open>Tensors and the context\<close>

record gguf_tensor_info =
  ti_t :: ggml_tensor
  ti_offset :: size_t

record gguf_context =
  ctx_version :: "32 word"
  ctx_kv :: "gguf_kv list"
  ctx_info :: "gguf_tensor_info list"
  ctx_alignment :: size_t
  ctx_offset :: size_t
  ctx_size :: size_t
  ctx_data :: "bytes option"

definition GGUF_VERSION :: "32 word" where "GGUF_VERSION = 3"
definition GGUF_DEFAULT_ALIGNMENT :: size_t where "GGUF_DEFAULT_ALIGNMENT = 32"
definition GGUF_KEY_GENERAL_ALIGNMENT :: bytes where
  "GGUF_KEY_GENERAL_ALIGNMENT = bytes_of ''general.alignment''"

definition gguf_init_empty :: gguf_context where
  "gguf_init_empty =
     \<lparr>ctx_version = GGUF_VERSION, ctx_kv = [], ctx_info = [],
      ctx_alignment = GGUF_DEFAULT_ALIGNMENT, ctx_offset = 0, ctx_size = 0, ctx_data = None\<rparr>"

definition gguf_get_version :: "gguf_context \<Rightarrow> 32 word" where
  "gguf_get_version ctx = ctx_version ctx"

definition gguf_get_alignment :: "gguf_context \<Rightarrow> size_t" where
  "gguf_get_alignment ctx = ctx_alignment ctx"

definition gguf_get_data_offset :: "gguf_context \<Rightarrow> size_t" where
  "gguf_get_data_offset ctx = ctx_offset ctx"

definition gguf_get_n_kv :: "gguf_context \<Rightarrow> int" where
  "gguf_get_n_kv ctx = int (length (ctx_kv ctx))"

text \<open>Access to the pair number \<open>key_id\<close>, behind the bounds assertion every getter starts with.\<close>

definition kv_at :: "gguf_context \<Rightarrow> int \<Rightarrow> gguf_kv outcome" where
  "kv_at ctx key_id =
     bnd (ensure (0 \<le> key_id \<and> key_id < gguf_get_n_kv ctx) Aborted) (\<lambda>_.
     Inr (ctx_kv ctx ! nat key_id))"

definition gguf_get_key :: "gguf_context \<Rightarrow> int \<Rightarrow> bytes outcome" where
  "gguf_get_key ctx key_id = bnd (kv_at ctx key_id) (\<lambda>e. Inr (c_str (kv_key e)))"

definition gguf_find_key :: "gguf_context \<Rightarrow> bytes \<Rightarrow> int" where
  "gguf_find_key ctx key = find_from 0 (\<lambda>e. c_str key = c_str (kv_key e)) (ctx_kv ctx)"

definition gguf_get_kv_type :: "gguf_context \<Rightarrow> int \<Rightarrow> gguf_type outcome" where
  "gguf_get_kv_type ctx key_id =
     bnd (kv_at ctx key_id) (\<lambda>e. Inr (if kv_is_array e then GGUF_TYPE_ARRAY else kv_type e))"

definition gguf_get_arr_type :: "gguf_context \<Rightarrow> int \<Rightarrow> gguf_type outcome" where
  "gguf_get_arr_type ctx key_id =
     bnd (kv_at ctx key_id) (\<lambda>e. bnd (ensure (kv_is_array e) Aborted) (\<lambda>_. Inr (kv_type e)))"

definition gguf_get_arr_data :: "gguf_context \<Rightarrow> int \<Rightarrow> bytes outcome" where
  "gguf_get_arr_data ctx key_id =
     bnd (kv_at ctx key_id) (\<lambda>e.
     bnd (ensure (kv_type e \<noteq> GGUF_TYPE_STRING) Aborted) (\<lambda>_. Inr (kv_data e)))"

definition gguf_get_arr_str :: "gguf_context \<Rightarrow> int \<Rightarrow> nat \<Rightarrow> bytes outcome" where
  "gguf_get_arr_str ctx key_id i =
     bnd (kv_at ctx key_id) (\<lambda>e.
     bnd (ensure (kv_type e = GGUF_TYPE_STRING) Aborted) (\<lambda>_.
     bnd (ensure (i < length (kv_data_string e)) Undefined) (\<lambda>_.
     Inr (c_str (kv_data_string e ! i)))))"

definition gguf_get_arr_n :: "gguf_context \<Rightarrow> int \<Rightarrow> nat outcome" where
  "gguf_get_arr_n ctx key_id =
     bnd (kv_at ctx key_id) (\<lambda>e.
     if kv_type e = GGUF_TYPE_STRING then Inr (length (kv_data_string e))
     else (let type_size = gguf_type_size (kv_type e) in
           bnd (ensure (type_size \<noteq> 0) Trapped) (\<lambda>_.
           bnd (ensure (length (kv_data e) mod type_size = 0) Aborted) (\<lambda>_.
           Inr (length (kv_data e) div type_size)))))"

text \<open>
  The scalar getters differ in the type they assert.  Each checks the index, that the pair
  holds one value, and that the value has the type of the getter.
\<close>

definition get_scalar :: "gguf_type \<Rightarrow> gguf_context \<Rightarrow> int \<Rightarrow> bytes outcome" where
  "get_scalar ty ctx key_id =
     bnd (kv_at ctx key_id) (\<lambda>e.
     bnd (get_ne e) (\<lambda>ne.
     bnd (ensure (ne = 1) Aborted) (\<lambda>_. get_val_bytes ty e 0)))"

definition gguf_get_val_u8 :: "gguf_context \<Rightarrow> int \<Rightarrow> (8 word) outcome" where
  "gguf_get_val_u8 ctx key_id =
     bnd (get_scalar GGUF_TYPE_UINT8 ctx key_id) (\<lambda>bs. Inr (dec_word bs))"

definition gguf_get_val_i8 :: "gguf_context \<Rightarrow> int \<Rightarrow> (8 word) outcome" where
  "gguf_get_val_i8 ctx key_id =
     bnd (get_scalar GGUF_TYPE_INT8 ctx key_id) (\<lambda>bs. Inr (dec_word bs))"

definition gguf_get_val_u16 :: "gguf_context \<Rightarrow> int \<Rightarrow> (16 word) outcome" where
  "gguf_get_val_u16 ctx key_id =
     bnd (get_scalar GGUF_TYPE_UINT16 ctx key_id) (\<lambda>bs. Inr (dec_word bs))"

definition gguf_get_val_i16 :: "gguf_context \<Rightarrow> int \<Rightarrow> (16 word) outcome" where
  "gguf_get_val_i16 ctx key_id =
     bnd (get_scalar GGUF_TYPE_INT16 ctx key_id) (\<lambda>bs. Inr (dec_word bs))"

definition gguf_get_val_u32 :: "gguf_context \<Rightarrow> int \<Rightarrow> (32 word) outcome" where
  "gguf_get_val_u32 ctx key_id =
     bnd (get_scalar GGUF_TYPE_UINT32 ctx key_id) (\<lambda>bs. Inr (dec_word bs))"

definition gguf_get_val_i32 :: "gguf_context \<Rightarrow> int \<Rightarrow> (32 word) outcome" where
  "gguf_get_val_i32 ctx key_id =
     bnd (get_scalar GGUF_TYPE_INT32 ctx key_id) (\<lambda>bs. Inr (dec_word bs))"

text \<open>A \<open>float\<close> and a \<open>double\<close> are read as their bit patterns.\<close>

definition gguf_get_val_f32 :: "gguf_context \<Rightarrow> int \<Rightarrow> (32 word) outcome" where
  "gguf_get_val_f32 ctx key_id =
     bnd (get_scalar GGUF_TYPE_FLOAT32 ctx key_id) (\<lambda>bs. Inr (dec_word bs))"

definition gguf_get_val_u64 :: "gguf_context \<Rightarrow> int \<Rightarrow> (64 word) outcome" where
  "gguf_get_val_u64 ctx key_id =
     bnd (get_scalar GGUF_TYPE_UINT64 ctx key_id) (\<lambda>bs. Inr (dec_word bs))"

definition gguf_get_val_i64 :: "gguf_context \<Rightarrow> int \<Rightarrow> (64 word) outcome" where
  "gguf_get_val_i64 ctx key_id =
     bnd (get_scalar GGUF_TYPE_INT64 ctx key_id) (\<lambda>bs. Inr (dec_word bs))"

definition gguf_get_val_f64 :: "gguf_context \<Rightarrow> int \<Rightarrow> (64 word) outcome" where
  "gguf_get_val_f64 ctx key_id =
     bnd (get_scalar GGUF_TYPE_FLOAT64 ctx key_id) (\<lambda>bs. Inr (dec_word bs))"

definition gguf_get_val_bool :: "gguf_context \<Rightarrow> int \<Rightarrow> bool outcome" where
  "gguf_get_val_bool ctx key_id =
     bnd (get_scalar GGUF_TYPE_BOOL ctx key_id) (\<lambda>bs. Inr (bs \<noteq> [0]))"

definition gguf_get_val_str :: "gguf_context \<Rightarrow> int \<Rightarrow> bytes outcome" where
  "gguf_get_val_str ctx key_id =
     bnd (kv_at ctx key_id) (\<lambda>e.
     bnd (get_ne e) (\<lambda>ne.
     bnd (ensure (ne = 1) Aborted) (\<lambda>_.
     bnd (get_val_string e 0) (\<lambda>s. Inr (c_str s)))))"

definition gguf_get_val_data :: "gguf_context \<Rightarrow> int \<Rightarrow> bytes outcome" where
  "gguf_get_val_data ctx key_id =
     bnd (kv_at ctx key_id) (\<lambda>e.
     bnd (get_ne e) (\<lambda>ne.
     bnd (ensure (ne = 1) Aborted) (\<lambda>_.
     bnd (ensure (kv_type e \<noteq> GGUF_TYPE_STRING) Aborted) (\<lambda>_. Inr (kv_data e)))))"

definition gguf_get_n_tensors :: "gguf_context \<Rightarrow> int" where
  "gguf_get_n_tensors ctx = int (length (ctx_info ctx))"

definition info_at :: "gguf_context \<Rightarrow> int \<Rightarrow> gguf_tensor_info outcome" where
  "info_at ctx tensor_id =
     bnd (ensure (0 \<le> tensor_id \<and> tensor_id < gguf_get_n_tensors ctx) Aborted) (\<lambda>_.
     Inr (ctx_info ctx ! nat tensor_id))"

definition gguf_find_tensor :: "gguf_context \<Rightarrow> bytes \<Rightarrow> int" where
  "gguf_find_tensor ctx name =
     find_from 0 (\<lambda>ti. c_str name = c_str (t_name (ti_t ti))) (ctx_info ctx)"

definition gguf_get_tensor_offset :: "gguf_context \<Rightarrow> int \<Rightarrow> size_t outcome" where
  "gguf_get_tensor_offset ctx tensor_id = bnd (info_at ctx tensor_id) (\<lambda>ti. Inr (ti_offset ti))"

definition gguf_get_tensor_name :: "gguf_context \<Rightarrow> int \<Rightarrow> bytes outcome" where
  "gguf_get_tensor_name ctx tensor_id =
     bnd (info_at ctx tensor_id) (\<lambda>ti. Inr (c_str (t_name (ti_t ti))))"

definition gguf_get_tensor_type :: "gguf_context \<Rightarrow> int \<Rightarrow> nat outcome" where
  "gguf_get_tensor_type ctx tensor_id = bnd (info_at ctx tensor_id) (\<lambda>ti. Inr (t_type (ti_t ti)))"

definition gguf_get_tensor_size :: "gguf_context \<Rightarrow> int \<Rightarrow> size_t outcome" where
  "gguf_get_tensor_size ctx tensor_id =
     bnd (info_at ctx tensor_id) (\<lambda>ti. Inr (ggml_nbytes (ti_t ti)))"

subsection \<open>Editing the key-value pairs\<close>

definition gguf_remove_key :: "gguf_context \<Rightarrow> bytes \<Rightarrow> gguf_context \<times> int" where
  "gguf_remove_key ctx key =
     (let key_id = gguf_find_key ctx key in
      if key_id \<ge> 0 then (ctx\<lparr>ctx_kv := remove_nth (nat key_id) (ctx_kv ctx)\<rparr>, key_id)
      else (ctx, key_id))"

text \<open>\<open>ctx->kv.emplace_back(...)\<close>: the constructor may abort.\<close>

definition emplace_back :: "gguf_kv outcome \<Rightarrow> gguf_context \<Rightarrow> gguf_context outcome" where
  "emplace_back mk ctx = bnd mk (\<lambda>e. Inr (ctx\<lparr>ctx_kv := ctx_kv ctx @ [e]\<rparr>))"

text \<open>
  \<open>gguf_check_reserved_keys<T>\<close>: the alignment key must be a \<open>uint32_t\<close> power of two.
  The first definition is the instance at \<open>T = uint32_t\<close>, the second every other instance.
\<close>

definition gguf_check_reserved_u32 :: "bytes \<Rightarrow> 32 word \<Rightarrow> unit outcome" where
  "gguf_check_reserved_u32 key val =
     (if key = GGUF_KEY_GENERAL_ALIGNMENT
      then ensure (val > 0 \<and> val AND (val - 1) = 0) Aborted else Inr ())"

definition gguf_check_reserved_other :: "bytes \<Rightarrow> unit outcome" where
  "gguf_check_reserved_other key = ensure (key \<noteq> GGUF_KEY_GENERAL_ALIGNMENT) Aborted"

definition set_scalar :: "gguf_context \<Rightarrow> bytes \<Rightarrow> gguf_type \<Rightarrow> bytes \<Rightarrow> gguf_context outcome" where
  "set_scalar ctx key ty value =
     emplace_back (gguf_kv_scalar (c_str key) ty value) (fst (gguf_remove_key ctx key))"

definition gguf_set_val_u8 :: "gguf_context \<Rightarrow> bytes \<Rightarrow> 8 word \<Rightarrow> gguf_context outcome" where
  "gguf_set_val_u8 ctx key val =
     bnd (gguf_check_reserved_other (c_str key)) (\<lambda>_.
     set_scalar ctx key GGUF_TYPE_UINT8 (enc_word val))"

definition gguf_set_val_i8 :: "gguf_context \<Rightarrow> bytes \<Rightarrow> 8 word \<Rightarrow> gguf_context outcome" where
  "gguf_set_val_i8 ctx key val =
     bnd (gguf_check_reserved_other (c_str key)) (\<lambda>_.
     set_scalar ctx key GGUF_TYPE_INT8 (enc_word val))"

definition gguf_set_val_u16 :: "gguf_context \<Rightarrow> bytes \<Rightarrow> 16 word \<Rightarrow> gguf_context outcome" where
  "gguf_set_val_u16 ctx key val =
     bnd (gguf_check_reserved_other (c_str key)) (\<lambda>_.
     set_scalar ctx key GGUF_TYPE_UINT16 (enc_word val))"

definition gguf_set_val_i16 :: "gguf_context \<Rightarrow> bytes \<Rightarrow> 16 word \<Rightarrow> gguf_context outcome" where
  "gguf_set_val_i16 ctx key val =
     bnd (gguf_check_reserved_other (c_str key)) (\<lambda>_.
     set_scalar ctx key GGUF_TYPE_INT16 (enc_word val))"

definition gguf_set_val_u32 :: "gguf_context \<Rightarrow> bytes \<Rightarrow> 32 word \<Rightarrow> gguf_context outcome" where
  "gguf_set_val_u32 ctx key val =
     bnd (gguf_check_reserved_u32 (c_str key) val) (\<lambda>_.
     set_scalar ctx key GGUF_TYPE_UINT32 (enc_word val))"

definition gguf_set_val_i32 :: "gguf_context \<Rightarrow> bytes \<Rightarrow> 32 word \<Rightarrow> gguf_context outcome" where
  "gguf_set_val_i32 ctx key val =
     bnd (gguf_check_reserved_other (c_str key)) (\<lambda>_.
     set_scalar ctx key GGUF_TYPE_INT32 (enc_word val))"

definition gguf_set_val_f32 :: "gguf_context \<Rightarrow> bytes \<Rightarrow> 32 word \<Rightarrow> gguf_context outcome" where
  "gguf_set_val_f32 ctx key val =
     bnd (gguf_check_reserved_other (c_str key)) (\<lambda>_.
     set_scalar ctx key GGUF_TYPE_FLOAT32 (enc_word val))"

definition gguf_set_val_u64 :: "gguf_context \<Rightarrow> bytes \<Rightarrow> 64 word \<Rightarrow> gguf_context outcome" where
  "gguf_set_val_u64 ctx key val =
     bnd (gguf_check_reserved_other (c_str key)) (\<lambda>_.
     set_scalar ctx key GGUF_TYPE_UINT64 (enc_word val))"

definition gguf_set_val_i64 :: "gguf_context \<Rightarrow> bytes \<Rightarrow> 64 word \<Rightarrow> gguf_context outcome" where
  "gguf_set_val_i64 ctx key val =
     bnd (gguf_check_reserved_other (c_str key)) (\<lambda>_.
     set_scalar ctx key GGUF_TYPE_INT64 (enc_word val))"

definition gguf_set_val_f64 :: "gguf_context \<Rightarrow> bytes \<Rightarrow> 64 word \<Rightarrow> gguf_context outcome" where
  "gguf_set_val_f64 ctx key val =
     bnd (gguf_check_reserved_other (c_str key)) (\<lambda>_.
     set_scalar ctx key GGUF_TYPE_FLOAT64 (enc_word val))"

definition gguf_set_val_bool :: "gguf_context \<Rightarrow> bytes \<Rightarrow> bool \<Rightarrow> gguf_context outcome" where
  "gguf_set_val_bool ctx key val =
     bnd (gguf_check_reserved_other (c_str key)) (\<lambda>_.
     set_scalar ctx key GGUF_TYPE_BOOL [if val then 1 else 0])"

definition gguf_set_val_str :: "gguf_context \<Rightarrow> bytes \<Rightarrow> bytes \<Rightarrow> gguf_context outcome" where
  "gguf_set_val_str ctx key val =
     bnd (gguf_check_reserved_other (c_str key)) (\<lambda>_.
     emplace_back (gguf_kv_string (c_str key) (c_str val)) (fst (gguf_remove_key ctx key)))"

text \<open>\<open>data\<close> is the memory the caller passes; reading past its end is undefined.\<close>

definition gguf_set_arr_data ::
  "gguf_context \<Rightarrow> bytes \<Rightarrow> gguf_type \<Rightarrow> bytes \<Rightarrow> nat \<Rightarrow> gguf_context outcome" where
  "gguf_set_arr_data ctx key type data n =
     bnd (gguf_check_reserved_other (c_str key)) (\<lambda>_.
     let ctx' = fst (gguf_remove_key ctx key);
         nbytes = n * gguf_type_size type mod 2 ^ 64 in
     bnd (ensure (nbytes \<le> length data) Undefined) (\<lambda>_.
     emplace_back
       (bnd (gguf_kv_vector (c_str key) GGUF_TYPE_INT8 (map (\<lambda>b. [b]) (take nbytes data))) (cast type))
       ctx'))"

definition gguf_set_arr_str ::
  "gguf_context \<Rightarrow> bytes \<Rightarrow> bytes list \<Rightarrow> nat \<Rightarrow> gguf_context outcome" where
  "gguf_set_arr_str ctx key data n =
     bnd (gguf_check_reserved_other (c_str key)) (\<lambda>_.
     let ctx' = fst (gguf_remove_key ctx key) in
     bnd (ensure (n \<le> length data) Undefined) (\<lambda>_.
     emplace_back (gguf_kv_strings (c_str key) (map c_str (take n data))) ctx'))"

text \<open>\<open>gguf_set_kv\<close>: every pair of \<open>src\<close> is read with its typed getter and set in \<open>ctx\<close>.\<close>

definition set_kv_entry :: "gguf_kv \<Rightarrow> gguf_context \<Rightarrow> gguf_context outcome" where
  "set_kv_entry e ctx =
     (let key = c_str (kv_key e) in
      if \<not> kv_is_array e then
        (case kv_type e of
           GGUF_TYPE_UINT8 \<Rightarrow> bnd (get_val_bytes GGUF_TYPE_UINT8 e 0) (\<lambda>v. gguf_set_val_u8 ctx key (dec_word v))
         | GGUF_TYPE_INT8 \<Rightarrow> bnd (get_val_bytes GGUF_TYPE_INT8 e 0) (\<lambda>v. gguf_set_val_i8 ctx key (dec_word v))
         | GGUF_TYPE_UINT16 \<Rightarrow> bnd (get_val_bytes GGUF_TYPE_UINT16 e 0) (\<lambda>v. gguf_set_val_u16 ctx key (dec_word v))
         | GGUF_TYPE_INT16 \<Rightarrow> bnd (get_val_bytes GGUF_TYPE_INT16 e 0) (\<lambda>v. gguf_set_val_i16 ctx key (dec_word v))
         | GGUF_TYPE_UINT32 \<Rightarrow> bnd (get_val_bytes GGUF_TYPE_UINT32 e 0) (\<lambda>v. gguf_set_val_u32 ctx key (dec_word v))
         | GGUF_TYPE_INT32 \<Rightarrow> bnd (get_val_bytes GGUF_TYPE_INT32 e 0) (\<lambda>v. gguf_set_val_i32 ctx key (dec_word v))
         | GGUF_TYPE_FLOAT32 \<Rightarrow> bnd (get_val_bytes GGUF_TYPE_FLOAT32 e 0) (\<lambda>v. gguf_set_val_f32 ctx key (dec_word v))
         | GGUF_TYPE_UINT64 \<Rightarrow> bnd (get_val_bytes GGUF_TYPE_UINT64 e 0) (\<lambda>v. gguf_set_val_u64 ctx key (dec_word v))
         | GGUF_TYPE_INT64 \<Rightarrow> bnd (get_val_bytes GGUF_TYPE_INT64 e 0) (\<lambda>v. gguf_set_val_i64 ctx key (dec_word v))
         | GGUF_TYPE_FLOAT64 \<Rightarrow> bnd (get_val_bytes GGUF_TYPE_FLOAT64 e 0) (\<lambda>v. gguf_set_val_f64 ctx key (dec_word v))
         | GGUF_TYPE_BOOL \<Rightarrow> bnd (get_val_bytes GGUF_TYPE_BOOL e 0) (\<lambda>v. gguf_set_val_bool ctx key (v \<noteq> [0]))
         | GGUF_TYPE_STRING \<Rightarrow> bnd (get_val_string e 0) (\<lambda>v. gguf_set_val_str ctx key (c_str v))
         | GGUF_TYPE_ARRAY \<Rightarrow> Inl Aborted
         | GGUF_TYPE_COUNT \<Rightarrow> Inl Aborted)
      else
        bnd (get_ne e) (\<lambda>ne.
        if kv_type e = GGUF_TYPE_STRING then gguf_set_arr_str ctx key (map c_str (kv_data_string e)) ne
        else if fixed_type (kv_type e) then gguf_set_arr_data ctx key (kv_type e) (kv_data e) ne
        else Inl Aborted))"

definition gguf_set_kv :: "gguf_context \<Rightarrow> gguf_context \<Rightarrow> gguf_context outcome" where
  "gguf_set_kv ctx src = each_outcome set_kv_entry (ctx_kv src) ctx"

subsection \<open>Editing the tensors\<close>

definition gguf_add_tensor :: "gguf_context \<Rightarrow> ggml_tensor \<Rightarrow> gguf_context outcome" where
  "gguf_add_tensor ctx tensor =
     bnd (ensure (gguf_find_tensor ctx (t_name tensor) = -1) Aborted) (\<lambda>_.
     let ofs = (if ctx_info ctx = [] then 0
                else ti_offset (last (ctx_info ctx)) +
                     ggml_pad (ggml_nbytes (ti_t (last (ctx_info ctx)))) (ctx_alignment ctx))
     in Inr (ctx\<lparr>ctx_info := ctx_info ctx @ [\<lparr>ti_t = tensor, ti_offset = ofs\<rparr>]\<rparr>))"

text \<open>The loop that recomputes the offsets behind a changed tensor.\<close>

fun offsets_after :: "size_t \<Rightarrow> gguf_tensor_info \<Rightarrow> gguf_tensor_info list \<Rightarrow> gguf_tensor_info list" where
  "offsets_after al prev [] = []"
| "offsets_after al prev (ti # tis) =
     (let ti' = ti\<lparr>ti_offset := ti_offset prev + ggml_pad (ggml_nbytes (ti_t prev)) al\<rparr>
      in ti' # offsets_after al ti' tis)"

definition gguf_set_tensor_type :: "gguf_context \<Rightarrow> bytes \<Rightarrow> nat \<Rightarrow> gguf_context outcome" where
  "gguf_set_tensor_type ctx name type =
     (let tensor_id = gguf_find_tensor ctx name in
      bnd (ensure (\<not> tensor_id < 0) Aborted) (\<lambda>_.
      let k = nat tensor_id;
          ti = ctx_info ctx ! k;
          tensor = ti_t ti;
          blck_size = ggml_blck_size type
      in bnd (ensure (blck_size \<noteq> 0) Trapped) (\<lambda>_.
         bnd (ensure (c_mod (t_ne tensor ! 0) blck_size = 0) Aborted) (\<lambda>_.
         let ti' = ti\<lparr>ti_t := tensor\<lparr>t_type := type, t_nb := row_strides type (t_ne tensor)\<rparr>\<rparr>
         in Inr (ctx\<lparr>ctx_info := take k (ctx_info ctx) @ ti' #
              offsets_after (ctx_alignment ctx) ti' (drop (Suc k) (ctx_info ctx))\<rparr>)))))"

definition gguf_set_tensor_data :: "gguf_context \<Rightarrow> bytes \<Rightarrow> bytes \<Rightarrow> gguf_context outcome" where
  "gguf_set_tensor_data ctx name data =
     (let tensor_id = gguf_find_tensor ctx name in
      bnd (ensure (\<not> tensor_id < 0) Aborted) (\<lambda>_.
      let k = nat tensor_id; ti = ctx_info ctx ! k in
      Inr (ctx\<lparr>ctx_info := (ctx_info ctx)[k := ti\<lparr>ti_t := (ti_t ti)\<lparr>t_data := Some data\<rparr>\<rparr>]\<rparr>)))"

end
