(* ===== verification/Gguf_Store.thy ===== *)
theory Gguf_Store
  imports Gguf_Context
begin

text \<open>
  What the key-value half of a GGUF context promises: it is a finite map from keys to values.
  The contract is the locale \<open>keyed_store\<close>; \<open>src/gguf.cpp\<close>'s \<open>gguf_remove_key\<close> followed by
  \<open>emplace_back\<close> is its \<open>put\<close>.  The setters, getters and \<open>gguf_set_kv\<close> are clients of it.
\<close>

subsection \<open>The contract of a keyed store\<close>

locale keyed_store =
  fixes lookup :: "'s \<Rightarrow> 'k \<Rightarrow> 'v option"
    and put :: "'s \<Rightarrow> 'v \<Rightarrow> 's"
    and del :: "'s \<Rightarrow> 'r \<Rightarrow> 's"
    and norm :: "'r \<Rightarrow> 'k"
    and key_of :: "'v \<Rightarrow> 'k"
    and invar :: "'s \<Rightarrow> bool"
  assumes lookup_put: "invar s \<Longrightarrow> lookup (put s v) = (lookup s)(key_of v \<mapsto> v)"
    and lookup_del: "invar s \<Longrightarrow> lookup (del s r) = (lookup s)(norm r := None)"
    and invar_put: "invar s \<Longrightarrow> invar (put s v)"
    and invar_del: "invar s \<Longrightarrow> invar (del s r)"
begin

lemma invar_foldl: "invar s \<Longrightarrow> invar (foldl put s vs)"
  by (induction vs arbitrary: s) (simp_all add: invar_put)

lemma lookup_foldl:
  "invar s \<Longrightarrow> lookup (foldl put s vs) = lookup s ++ map_of (map (\<lambda>v. (key_of v, v)) (rev vs))"
proof (induction vs arbitrary: s)
  case Nil
  then show ?case by simp
next
  case (Cons v vs)
  then show ?case
    by (simp add: invar_put lookup_put map_add_def fun_eq_iff split: option.splits)
qed

lemma put_other: "invar s \<Longrightarrow> k \<noteq> key_of v \<Longrightarrow> lookup (put s v) k = lookup s k"
  by (simp add: lookup_put)

lemma del_put:
  "invar s \<Longrightarrow> norm r = key_of v \<Longrightarrow> lookup s (key_of v) = None \<Longrightarrow> lookup (del (put s v) r) = lookup s"
  by (auto simp: lookup_del invar_put lookup_put)

end

subsection \<open>The GGUF context as a keyed store\<close>

definition entry_key :: "gguf_kv \<Rightarrow> bytes" where
  "entry_key e = c_str (kv_key e)"

definition kv_map :: "gguf_context \<Rightarrow> bytes \<Rightarrow> gguf_kv option" where
  "kv_map ctx = map_of (map (\<lambda>e. (entry_key e, e)) (ctx_kv ctx))"

definition keys_distinct :: "gguf_context \<Rightarrow> bool" where
  "keys_distinct ctx \<longleftrightarrow> distinct (map entry_key (ctx_kv ctx))"

definition put_kv :: "gguf_context \<Rightarrow> gguf_kv \<Rightarrow> gguf_context" where
  "put_kv ctx e = (fst (gguf_remove_key ctx (kv_key e)))
     \<lparr>ctx_kv := ctx_kv (fst (gguf_remove_key ctx (kv_key e))) @ [e]\<rparr>"

lemma find_key_eq: "gguf_find_key ctx key = find_from 0 (\<lambda>e. entry_key e = c_str key) (ctx_kv ctx)"
  by (simp add: gguf_find_key_def entry_key_def eq_commute)

lemma find_key_c_str [simp]: "gguf_find_key ctx (c_str key) = gguf_find_key ctx key"
  by (simp add: find_key_eq)

lemma remove_key_c_str [simp]: "gguf_remove_key ctx (c_str key) = gguf_remove_key ctx key"
  by (simp add: gguf_remove_key_def)

lemma find_key_None: "gguf_find_key ctx key = -1 \<longleftrightarrow> kv_map ctx (c_str key) = None"
  by (auto simp: find_key_eq find_from_minus_one kv_map_def keyed_map_None image_iff)

lemma find_key_Some:
  assumes "gguf_find_key ctx key \<noteq> -1"
  obtains k where "k < length (ctx_kv ctx)" "gguf_find_key ctx key = int k"
    "entry_key (ctx_kv ctx ! k) = c_str key" "kv_map ctx (c_str key) = Some (ctx_kv ctx ! k)"
proof -
  obtain k where k: "k < length (ctx_kv ctx)" "gguf_find_key ctx key = int k"
    "entry_key (ctx_kv ctx ! k) = c_str key" "\<forall>j < k. entry_key (ctx_kv ctx ! j) \<noteq> c_str key"
    using assms unfolding find_key_eq by (rule find_from_hit [of "\<lambda>e. entry_key e = c_str key"])
  have split: "ctx_kv ctx = take k (ctx_kv ctx) @ ctx_kv ctx ! k # drop (Suc k) (ctx_kv ctx)"
    using split_at_nth [OF k(1)] .
  have "\<forall>e \<in> set (take k (ctx_kv ctx)). entry_key e \<noteq> c_str key"
    using k(4) by (auto simp: in_set_conv_nth)
  then have "map_of (map (\<lambda>e. (entry_key e, e)) (take k (ctx_kv ctx))) (c_str key) = None"
    by (auto simp: keyed_map_None)
  then have "map_of (map (\<lambda>e. (entry_key e, e))
      (take k (ctx_kv ctx) @ ctx_kv ctx ! k # drop (Suc k) (ctx_kv ctx))) (c_str key) =
      Some (ctx_kv ctx ! k)"
    using k(3) by (simp add: map_add_def)
  then have "kv_map ctx (c_str key) = Some (ctx_kv ctx ! k)"
    unfolding kv_map_def using split by simp
  with k that show ?thesis by blast
qed

lemma remove_key_kv:
  "ctx_kv (fst (gguf_remove_key ctx key)) =
     (if gguf_find_key ctx key = -1 then ctx_kv ctx
      else remove_nth (nat (gguf_find_key ctx key)) (ctx_kv ctx))"
  using find_from_neg [of 0 "\<lambda>e. entry_key e = c_str key" "ctx_kv ctx"]
  by (auto simp: gguf_remove_key_def Let_def find_key_eq)

lemma remove_key_rest:
  "ctx_info (fst (gguf_remove_key ctx key)) = ctx_info ctx"
  "ctx_alignment (fst (gguf_remove_key ctx key)) = ctx_alignment ctx"
  "ctx_version (fst (gguf_remove_key ctx key)) = ctx_version ctx"
  "ctx_offset (fst (gguf_remove_key ctx key)) = ctx_offset ctx"
  "ctx_size (fst (gguf_remove_key ctx key)) = ctx_size ctx"
  "ctx_data (fst (gguf_remove_key ctx key)) = ctx_data ctx"
  by (simp_all add: gguf_remove_key_def Let_def)

lemma kv_map_remove:
  assumes "keys_distinct ctx"
  shows "kv_map (fst (gguf_remove_key ctx key)) = (kv_map ctx)(c_str key := None)"
proof (cases "gguf_find_key ctx key = -1")
  case True
  then have "kv_map ctx (c_str key) = None" by (simp add: find_key_None)
  then show ?thesis
    using True by (auto simp: kv_map_def remove_key_kv fun_eq_iff)
next
  case False
  then obtain k where k: "k < length (ctx_kv ctx)" "gguf_find_key ctx key = int k"
    "entry_key (ctx_kv ctx ! k) = c_str key" by (rule find_key_Some)
  have split: "ctx_kv ctx = take k (ctx_kv ctx) @ ctx_kv ctx ! k # drop (Suc k) (ctx_kv ctx)"
    using split_at_nth [OF k(1)] .
  have "distinct (map entry_key (take k (ctx_kv ctx) @ ctx_kv ctx ! k # drop (Suc k) (ctx_kv ctx)))"
    using assms split unfolding keys_distinct_def by simp
  then have nin: "c_str key \<notin> entry_key ` set (take k (ctx_kv ctx))"
    "c_str key \<notin> entry_key ` set (drop (Suc k) (ctx_kv ctx))"
    using k(3) by auto
  let ?m = "\<lambda>xs. map_of (map (\<lambda>e. (entry_key e, e)) xs)"
  have N: "?m (take k (ctx_kv ctx)) (c_str key) = None" "?m (drop (Suc k) (ctx_kv ctx)) (c_str key) = None"
    using nin by (auto simp: keyed_map_None)
  have "kv_map ctx = ?m (take k (ctx_kv ctx) @ ctx_kv ctx ! k # drop (Suc k) (ctx_kv ctx))"
    unfolding kv_map_def using split by simp
  also have "\<dots> = (?m (drop (Suc k) (ctx_kv ctx)))(c_str key \<mapsto> ctx_kv ctx ! k) ++ ?m (take k (ctx_kv ctx))"
    using k(3) by simp
  finally have "kv_map ctx = (?m (drop (Suc k) (ctx_kv ctx)))(c_str key \<mapsto> ctx_kv ctx ! k) ++
      ?m (take k (ctx_kv ctx))" .
  moreover have "kv_map (fst (gguf_remove_key ctx key)) =
      ?m (drop (Suc k) (ctx_kv ctx)) ++ ?m (take k (ctx_kv ctx))"
    unfolding kv_map_def remove_key_kv using False k(2) by (simp add: remove_nth_def)
  ultimately show ?thesis
    using N by (auto simp: fun_eq_iff map_add_def split: option.splits)
qed

lemma keys_distinct_remove: "keys_distinct ctx \<Longrightarrow> keys_distinct (fst (gguf_remove_key ctx key))"
  unfolding keys_distinct_def remove_key_kv by (simp add: distinct_map_remove_nth)

lemma entry_key_not_left:
  assumes "keys_distinct ctx"
  shows "c_str key \<notin> entry_key ` set (ctx_kv (fst (gguf_remove_key ctx key)))"
proof -
  have "kv_map (fst (gguf_remove_key ctx key)) (c_str key) = None"
    by (simp add: kv_map_remove [OF assms])
  then show ?thesis by (auto simp: kv_map_def keyed_map_None)
qed

lemma kv_map_put:
  assumes "keys_distinct ctx"
  shows "kv_map (put_kv ctx e) = (kv_map ctx)(entry_key e \<mapsto> e)"
proof -
  have "kv_map (put_kv ctx e) =
      (Map.empty(entry_key e \<mapsto> e)) ++ kv_map (fst (gguf_remove_key ctx (kv_key e)))"
    by (simp add: kv_map_def put_kv_def)
  then show ?thesis
    by (auto simp: kv_map_remove [OF assms] entry_key_def fun_eq_iff map_add_def split: option.splits)
qed

lemma keys_distinct_put:
  assumes "keys_distinct ctx"
  shows "keys_distinct (put_kv ctx e)"
  using keys_distinct_remove [OF assms, of "kv_key e"] entry_key_not_left [OF assms, of "kv_key e"]
  by (auto simp: keys_distinct_def put_kv_def entry_key_def)

interpretation kvs: keyed_store
  kv_map put_kv "\<lambda>ctx key. fst (gguf_remove_key ctx key)" c_str entry_key keys_distinct
  by unfold_locales (simp_all add: kv_map_put kv_map_remove keys_distinct_put keys_distinct_remove)

subsection \<open>Well-formed pairs\<close>

text \<open>
  A pair that the setters can have stored: a non-empty C string as its key, data that fit its
  type, and, at the reserved key, a \<open>uint32_t\<close> power of two.
\<close>

definition alignment_value_ok :: "bytes \<Rightarrow> bool" where
  "alignment_value_ok bs \<longleftrightarrow>
     (let val = dec_word bs :: 32 word in val > 0 \<and> val AND (val - 1) = 0)"

definition kv_wf :: "gguf_kv \<Rightarrow> bool" where
  "kv_wf e \<longleftrightarrow>
     kv_key e \<noteq> [] \<and> 0 \<notin> set (kv_key e) \<and>
     (if kv_type e = GGUF_TYPE_STRING
      then kv_data e = [] \<and> (kv_is_array e \<or> length (kv_data_string e) = 1) \<and>
           (\<forall>s \<in> set (kv_data_string e). 0 \<notin> set s)
      else fixed_type (kv_type e) \<and> kv_data_string e = [] \<and>
           gguf_type_size (kv_type e) dvd length (kv_data e) \<and>
           (kv_is_array e \<or> length (kv_data e) = gguf_type_size (kv_type e))) \<and>
     (kv_key e = GGUF_KEY_GENERAL_ALIGNMENT \<longrightarrow>
        kv_type e = GGUF_TYPE_UINT32 \<and> \<not> kv_is_array e \<and> alignment_value_ok (kv_data e))"

text \<open>A boolean stored as anything but 0 or 1 has no value in C++.\<close>

definition kv_bools_ok :: "gguf_kv \<Rightarrow> bool" where
  "kv_bools_ok e \<longleftrightarrow> (kv_type e = GGUF_TYPE_BOOL \<longrightarrow> set (kv_data e) \<subseteq> {0, 1})"

lemma kv_wf_key: "kv_wf e \<Longrightarrow> c_str (kv_key e) = kv_key e"
  by (simp add: kv_wf_def c_str_id)

lemma emplace_back_put:
  "emplace_back (Inr e) (fst (gguf_remove_key ctx (kv_key e))) = Inr (put_kv ctx e)"
  by (simp add: emplace_back_def put_kv_def)

lemma set_scalar_put:
  assumes "0 \<notin> set key" "key \<noteq> []"
  shows "set_scalar ctx key ty value = Inr (put_kv ctx
     \<lparr>kv_key = key, kv_is_array = False, kv_type = ty, kv_data = value, kv_data_string = []\<rparr>)"
  using assms by (simp add: set_scalar_def gguf_kv_scalar_def emplace_back_def put_kv_def c_str_id)

subsection \<open>What was set is what is found\<close>

lemma get_val_whole:
  assumes "kv_type e = ty" "fixed_type ty" "length (kv_data e) = gguf_type_size ty"
  shows "get_val_bytes ty e 0 = Inr (kv_data e)"
  using assms by (simp add: get_val_bytes_def Let_def)

lemma get_ne_one:
  assumes "fixed_type (kv_type e)" "length (kv_data e) = gguf_type_size (kv_type e)"
  shows "get_ne e = Inr 1"
proof -
  have "kv_type e \<noteq> GGUF_TYPE_STRING" "0 < gguf_type_size (kv_type e)"
    using assms(1) by (simp_all add: fixed_type_def flip: fixed_type_size)
  then show ?thesis using assms(2) by (simp add: get_ne_def Let_def)
qed

lemma kv_at_find:
  assumes "kv_map ctx (c_str key) = Some e"
  shows "kv_at ctx (gguf_find_key ctx key) = Inr e"
proof -
  have "gguf_find_key ctx key \<noteq> -1" using assms by (simp add: find_key_None)
  then obtain k where "k < length (ctx_kv ctx)" "gguf_find_key ctx key = int k"
    "kv_map ctx (c_str key) = Some (ctx_kv ctx ! k)" by (rule find_key_Some)
  then show ?thesis using assms by (simp add: kv_at_def gguf_get_n_kv_def)
qed

lemma get_scalar_find:
  assumes "kv_map ctx (c_str key) = Some e" "kv_type e = ty" "fixed_type ty"
    "length (kv_data e) = gguf_type_size ty"
  shows "get_scalar ty ctx (gguf_find_key ctx key) = Inr (kv_data e)"
  using assms kv_at_find [OF assms(1)] get_ne_one [of e] get_val_whole [of e ty]
  by (simp add: get_scalar_def)

definition scalar_kv :: "bytes \<Rightarrow> gguf_type \<Rightarrow> bytes \<Rightarrow> gguf_kv" where
  "scalar_kv key ty value =
     \<lparr>kv_key = key, kv_is_array = False, kv_type = ty, kv_data = value, kv_data_string = []\<rparr>"

lemma scalar_kv_sel [simp]:
  "kv_key (scalar_kv key ty value) = key" "kv_type (scalar_kv key ty value) = ty"
  "kv_data (scalar_kv key ty value) = value" "kv_is_array (scalar_kv key ty value) = False"
  "kv_data_string (scalar_kv key ty value) = []"
  by (simp_all add: scalar_kv_def)

lemma scalar_kv_eq:
  "kv_type e = ty \<Longrightarrow> \<not> kv_is_array e \<Longrightarrow> kv_data_string e = [] \<Longrightarrow>
   scalar_kv (kv_key e) ty (kv_data e) = e"
  by (cases e) (simp add: scalar_kv_def)

lemma set_scalar_scalar_kv:
  "0 \<notin> set key \<Longrightarrow> key \<noteq> [] \<Longrightarrow> set_scalar ctx key ty value = Inr (put_kv ctx (scalar_kv key ty value))"
  by (simp add: set_scalar_put scalar_kv_def)

lemma get_scalar_put:
  assumes "keys_distinct ctx" "0 \<notin> set key" "fixed_type ty" "length value = gguf_type_size ty"
  shows "get_scalar ty (put_kv ctx (scalar_kv key ty value))
           (gguf_find_key (put_kv ctx (scalar_kv key ty value)) key) = Inr value"
proof -
  have "kv_map (put_kv ctx (scalar_kv key ty value)) (c_str key) = Some (scalar_kv key ty value)"
    using assms(2) by (simp add: kvs.lookup_put [OF assms(1)] entry_key_def)
  from get_scalar_find [OF this] assms(3,4) show ?thesis by simp
qed

text \<open>C8. Every scalar setter stores a value that the getter of the same type finds again.\<close>

theorem gguf_set_get_scalar:
  assumes "keys_distinct ctx" "key \<noteq> []" "0 \<notin> set key" "key \<noteq> GGUF_KEY_GENERAL_ALIGNMENT"
  shows "bnd (gguf_set_val_u8 ctx key a) (\<lambda>c. gguf_get_val_u8 c (gguf_find_key c key)) = Inr a \<and>
    bnd (gguf_set_val_i8 ctx key a) (\<lambda>c. gguf_get_val_i8 c (gguf_find_key c key)) = Inr a \<and>
    bnd (gguf_set_val_u16 ctx key b) (\<lambda>c. gguf_get_val_u16 c (gguf_find_key c key)) = Inr b \<and>
    bnd (gguf_set_val_i16 ctx key b) (\<lambda>c. gguf_get_val_i16 c (gguf_find_key c key)) = Inr b \<and>
    bnd (gguf_set_val_u32 ctx key w) (\<lambda>c. gguf_get_val_u32 c (gguf_find_key c key)) = Inr w \<and>
    bnd (gguf_set_val_i32 ctx key w) (\<lambda>c. gguf_get_val_i32 c (gguf_find_key c key)) = Inr w \<and>
    bnd (gguf_set_val_f32 ctx key w) (\<lambda>c. gguf_get_val_f32 c (gguf_find_key c key)) = Inr w \<and>
    bnd (gguf_set_val_u64 ctx key x) (\<lambda>c. gguf_get_val_u64 c (gguf_find_key c key)) = Inr x \<and>
    bnd (gguf_set_val_i64 ctx key x) (\<lambda>c. gguf_get_val_i64 c (gguf_find_key c key)) = Inr x \<and>
    bnd (gguf_set_val_f64 ctx key x) (\<lambda>c. gguf_get_val_f64 c (gguf_find_key c key)) = Inr x \<and>
    bnd (gguf_set_val_bool ctx key y) (\<lambda>c. gguf_get_val_bool c (gguf_find_key c key)) = Inr y"
  using assms get_scalar_put [OF assms(1,3)]
  by (simp_all add: gguf_check_reserved_other_def gguf_check_reserved_u32_def c_str_id
      set_scalar_scalar_kv fixed_type_def
      gguf_set_val_u8_def gguf_get_val_u8_def gguf_set_val_i8_def gguf_get_val_i8_def
      gguf_set_val_u16_def gguf_get_val_u16_def gguf_set_val_i16_def gguf_get_val_i16_def
      gguf_set_val_u32_def gguf_get_val_u32_def gguf_set_val_i32_def gguf_get_val_i32_def
      gguf_set_val_f32_def gguf_get_val_f32_def gguf_set_val_u64_def gguf_get_val_u64_def
      gguf_set_val_i64_def gguf_get_val_i64_def gguf_set_val_f64_def gguf_get_val_f64_def
      gguf_set_val_bool_def gguf_get_val_bool_def)

subsection \<open>Merging one context into another\<close>

lemma set_kv_entry_scalar:
  assumes "kv_wf e" "\<not> kv_is_array e" "kv_bools_ok e"
  shows "set_kv_entry e ctx = Inr (put_kv ctx e)"
proof -
  have key: "0 \<notin> set (kv_key e)" "kv_key e \<noteq> []" "c_str (kv_key e) = kv_key e"
    using assms(1) by (simp_all add: kv_wf_def c_str_id)
  have res: "kv_key e = GGUF_KEY_GENERAL_ALIGNMENT \<Longrightarrow>
      kv_type e = GGUF_TYPE_UINT32 \<and> alignment_value_ok (kv_data e)"
    using assms(1) by (simp add: kv_wf_def)
  show ?thesis
  proof (cases "kv_type e = GGUF_TYPE_STRING")
    case True
    with assms obtain s where s: "kv_data_string e = [s]" "0 \<notin> set s" "kv_data e = []"
      by (auto simp: kv_wf_def length_Suc_conv)
    have "\<lparr>kv_key = kv_key e, kv_is_array = False, kv_type = GGUF_TYPE_STRING, kv_data = [],
        kv_data_string = [s]\<rparr> = e"
      using True assms(2) s by (cases e) simp
    with True assms(2) key res s show ?thesis
      by (auto simp: set_kv_entry_def Let_def get_val_string_def gguf_set_val_str_def c_str_id
          gguf_check_reserved_other_def bnd_ensure gguf_kv_string_def emplace_back_def put_kv_def)
  next
    case False
    with assms have d: "fixed_type (kv_type e)" "kv_data_string e = []"
      "length (kv_data e) = gguf_type_size (kv_type e)"
      "kv_type e = GGUF_TYPE_BOOL \<Longrightarrow> set (kv_data e) \<subseteq> {0, 1}"
      by (auto simp: kv_wf_def kv_bools_ok_def)
    have g: "get_val_bytes (kv_type e) e 0 = Inr (kv_data e)"
      using get_val_whole d by blast
    have b: "kv_type e = GGUF_TYPE_BOOL \<Longrightarrow> [if kv_data e \<noteq> [0] then 1 else 0] = kv_data e"
      using d(3,4) by (auto simp: length_Suc_conv)
    show ?thesis
      using d g key res b set_scalar_scalar_kv [OF key(1,2), of ctx "kv_type e"]
      by (cases "kv_type e")
        (auto simp: set_kv_entry_def Let_def assms(2) enc_dec_sizes fixed_type_def bnd_ensure scalar_kv_eq
          gguf_set_val_u8_def gguf_set_val_i8_def gguf_set_val_u16_def gguf_set_val_i16_def
          gguf_set_val_u32_def gguf_set_val_i32_def gguf_set_val_f32_def gguf_set_val_u64_def
          gguf_set_val_i64_def gguf_set_val_f64_def gguf_set_val_bool_def
          gguf_check_reserved_other_def gguf_check_reserved_u32_def alignment_value_ok_def)
  qed
qed

lemma set_kv_entry_array:
  assumes "kv_wf e" "kv_is_array e"
    and "gguf_type_size (kv_type e) * length (kv_data e) < 2 ^ 64 \<or> length (kv_data e) < 2 ^ 64"
  shows "set_kv_entry e ctx = Inr (put_kv ctx e)"
proof -
  have key: "0 \<notin> set (kv_key e)" "kv_key e \<noteq> []" "c_str (kv_key e) = kv_key e"
    "kv_key e \<noteq> GGUF_KEY_GENERAL_ALIGNMENT"
    using assms(1,2) by (auto simp: kv_wf_def c_str_id)
  show ?thesis
  proof (cases "kv_type e = GGUF_TYPE_STRING")
    case True
    with assms have s: "kv_data e = []" "\<forall>s \<in> set (kv_data_string e). 0 \<notin> set s"
      by (auto simp: kv_wf_def)
    then have "map c_str (kv_data_string e) = kv_data_string e"
      by (auto intro: map_idI c_str_id)
    moreover have "\<lparr>kv_key = kv_key e, kv_is_array = True, kv_type = GGUF_TYPE_STRING, kv_data = [],
        kv_data_string = kv_data_string e\<rparr> = e"
      using True assms(2) s by (cases e) simp
    ultimately show ?thesis
      using True assms(2) key
      by (simp add: set_kv_entry_def Let_def get_ne_def gguf_set_arr_str_def bnd_ensure
          gguf_check_reserved_other_def gguf_kv_strings_def emplace_back_def put_kv_def)
  next
    case False
    with assms have d: "fixed_type (kv_type e)" "kv_data_string e = []"
      "gguf_type_size (kv_type e) dvd length (kv_data e)"
      by (auto simp: kv_wf_def)
    let ?n = "length (kv_data e) div gguf_type_size (kv_type e)"
    have pos: "gguf_type_size (kv_type e) \<noteq> 0" using d(1) by (simp add: fixed_type_size)
    then have "length (kv_data e) < 2 ^ 64" using assms(3)
      by (auto intro: le_less_trans [of _ "gguf_type_size (kv_type e) * length (kv_data e)"])
    then have n: "?n * gguf_type_size (kv_type e) mod 2 ^ 64 = length (kv_data e)"
      using d(3) by simp
    have "e\<lparr>kv_type := kv_type e\<rparr> = e" by simp
    moreover have "\<lparr>kv_key = kv_key e, kv_is_array = True, kv_type = GGUF_TYPE_INT8,
        kv_data = kv_data e, kv_data_string = []\<rparr>\<lparr>kv_type := kv_type e\<rparr> = e"
      using d(2) assms(2) by (cases e) simp
    ultimately show ?thesis
      using False d pos key n assms(2)
      by (simp add: set_kv_entry_def Let_def get_ne_def gguf_set_arr_data_def bnd_ensure cast_def
          gguf_check_reserved_other_def gguf_kv_vector_def emplace_back_def put_kv_def
          concat_map_singleton)
  qed
qed

lemma set_kv_entry_put:
  assumes "kv_wf e" "kv_bools_ok e" "length (kv_data e) < 2 ^ 64"
  shows "set_kv_entry e ctx = Inr (put_kv ctx e)"
  using assms set_kv_entry_scalar set_kv_entry_array by (cases "kv_is_array e") auto

lemma set_kv_all:
  assumes "\<forall>e \<in> set es. kv_wf e \<and> kv_bools_ok e \<and> length (kv_data e) < 2 ^ 64"
  shows "each_outcome set_kv_entry es ctx = Inr (foldl put_kv ctx es)"
  using assms by (induction es arbitrary: ctx) (simp_all add: set_kv_entry_put)


end
