(* ===== verification/Gguf_Layout.thy ===== *)
theory Gguf_Layout
  imports Gguf_Store
begin

text \<open>
  The invariants of a GGUF context under its own operations: the tensor offsets tile the data
  section, names and keys are unique, every stored pair is well formed.  The operations form a
  transition relation from the empty context; the invariant holds in every reachable context.
\<close>

subsection \<open>Offsets that tile the data section\<close>

fun layout_ok :: "size_t \<Rightarrow> size_t \<Rightarrow> gguf_tensor_info list \<Rightarrow> bool" where
  "layout_ok al off [] = True"
| "layout_ok al off (ti # tis) =
     (ti_offset ti = off \<and> layout_ok al (off + ggml_pad (ggml_nbytes (ti_t ti)) al) tis)"

fun layout_end :: "size_t \<Rightarrow> size_t \<Rightarrow> gguf_tensor_info list \<Rightarrow> size_t" where
  "layout_end al off [] = off"
| "layout_end al off (ti # tis) = layout_end al (off + ggml_pad (ggml_nbytes (ti_t ti)) al) tis"

lemma layout_ok_append:
  "layout_ok al off (xs @ ys) \<longleftrightarrow> layout_ok al off xs \<and> layout_ok al (layout_end al off xs) ys"
  by (induction xs arbitrary: off) auto

lemma layout_end_append: "layout_end al off (xs @ ys) = layout_end al (layout_end al off xs) ys"
  by (induction xs arbitrary: off) auto

lemma layout_end_last:
  "layout_ok al off xs \<Longrightarrow> xs \<noteq> [] \<Longrightarrow>
   layout_end al off xs = ti_offset (last xs) + ggml_pad (ggml_nbytes (ti_t (last xs))) al"
  by (induction xs arbitrary: off) auto

lemma offsets_after_layout:
  "layout_ok al (ti_offset prev + ggml_pad (ggml_nbytes (ti_t prev)) al) (offsets_after al prev tis)"
proof (induction tis arbitrary: prev)
  case (Cons ti tis)
  let ?ti = "ti\<lparr>ti_offset := ti_offset prev + ggml_pad (ggml_nbytes (ti_t prev)) al\<rparr>"
  show ?case using Cons.IH [of ?ti] by (simp add: Let_def)
qed simp

lemma offsets_after_tensors: "map ti_t (offsets_after al prev tis) = map ti_t tis"
  by (induction tis arbitrary: prev) (simp_all add: Let_def)

lemma layout_data_irrelevant:
  "map (\<lambda>ti. (ti_offset ti, ggml_nbytes (ti_t ti))) xs = map (\<lambda>ti. (ti_offset ti, ggml_nbytes (ti_t ti))) ys
   \<Longrightarrow> layout_ok al off xs = layout_ok al off ys"
proof (induction xs arbitrary: off ys)
  case Nil
  then show ?case by simp
next
  case (Cons x xs)
  then obtain y ys' where "ys = y # ys'" by (cases ys) auto
  with Cons show ?case by auto
qed

text \<open>
  Where the sizes do not overflow, the tiles are what one expects: every offset is a multiple
  of the alignment and every tensor ends before the next one starts.
\<close>

definition sizes_fit :: "size_t \<Rightarrow> gguf_tensor_info list \<Rightarrow> bool" where
  "sizes_fit al tis \<longleftrightarrow>
     (\<forall>ti \<in> set tis. unat (ggml_nbytes (ti_t ti)) + unat al \<le> 2 ^ 64) \<and>
     sum_list (map (\<lambda>ti. unat (ggml_pad (ggml_nbytes (ti_t ti)) al)) tis) < 2 ^ 64"

lemma pad_covers:
  assumes "is_pow2 al" "unat x + unat al \<le> 2 ^ 64"
  shows "unat x \<le> unat (ggml_pad x al)" "unat al dvd unat (ggml_pad x al)"
    "unat (ggml_pad x al) < unat x + unat al"
proof -
  obtain k where k: "k < 64" "al = 2 ^ k" "unat al = 2 ^ k" using assms(1) by (rule is_pow2_exp)
  have p: "unat (ggml_pad x al) = (unat x + 2 ^ k - 1) div 2 ^ k * 2 ^ k"
    using unat_ggml_pad [of k x] k assms(2) by simp
  let ?y = "unat x + 2 ^ k - 1"
  have pos: "(0::nat) < 2 ^ k" by simp
  have s: "?y = ?y div 2 ^ k * 2 ^ k + ?y mod 2 ^ k" by (rule div_mult_mod_eq [symmetric])
  have m: "?y mod 2 ^ k \<le> 2 ^ k - 1" using mod_less_divisor [OF pos, of ?y] by linarith
  show "unat x \<le> unat (ggml_pad x al)" using p s m pos by linarith
  show "unat al dvd unat (ggml_pad x al)" using p k(3) by simp
  show "unat (ggml_pad x al) < unat x + unat al" using p s k(3) pos by linarith
qed

lemma layout_nat:
  assumes "is_pow2 al" "layout_ok al off tis" "i < length tis"
    and "unat al dvd unat off"
    and "\<forall>ti \<in> set tis. unat (ggml_nbytes (ti_t ti)) + unat al \<le> 2 ^ 64"
    and "unat off + sum_list (map (\<lambda>ti. unat (ggml_pad (ggml_nbytes (ti_t ti)) al)) tis) < 2 ^ 64"
  shows "unat (ti_offset (tis ! i)) =
      unat off + sum_list (map (\<lambda>ti. unat (ggml_pad (ggml_nbytes (ti_t ti)) al)) (take i tis)) \<and>
    unat al dvd unat (ti_offset (tis ! i))"
  using assms
proof (induction tis arbitrary: off i)
  case Nil
  then show ?case by simp
next
  case (Cons ti tis)
  let ?p = "ggml_pad (ggml_nbytes (ti_t ti)) al"
  have u: "unat (off + ?p) = unat off + unat ?p"
    using Cons.prems(6) by (intro unat_add_small) simp
  have "unat al dvd unat ?p" using pad_covers(2) Cons.prems(1,5) by simp
  then have d: "unat al dvd unat (off + ?p)" using u Cons.prems(4) by simp
  show ?case
  proof (cases i)
    case 0
    with Cons.prems show ?thesis by simp
  next
    case (Suc j)
    have IH: "unat (ti_offset (tis ! j)) = unat (off + ?p) +
        sum_list (map (\<lambda>ti. unat (ggml_pad (ggml_nbytes (ti_t ti)) al)) (take j tis)) \<and>
      unat al dvd unat (ti_offset (tis ! j))"
      by (rule Cons.IH) (use Cons.prems d u Suc in \<open>simp_all add: add.assoc\<close>)
    show ?thesis
    proof
      show "unat (ti_offset ((ti # tis) ! i)) = unat off +
          sum_list (map (\<lambda>ti. unat (ggml_pad (ggml_nbytes (ti_t ti)) al)) (take i (ti # tis)))"
        using IH [THEN conjunct1] u Suc by simp
      show "unat al dvd unat (ti_offset ((ti # tis) ! i))"
        using IH [THEN conjunct2] by (simp only: Suc nth_Cons_Suc)
    qed
  qed
qed

lemma sum_list_take_step:
  "i < j \<Longrightarrow> j \<le> length xs \<Longrightarrow>
   sum_list (map f (take i xs)) + f (xs ! i) \<le> sum_list (map f (take j xs))" for f :: "'a \<Rightarrow> nat"
proof -
  assume ij: "i < j" "j \<le> length xs"
  have "take j xs = take (Suc i) xs @ drop (Suc i) (take j xs)"
    by (metis Suc_leI append_take_drop_id ij(1) min.absorb1 take_take)
  then have "sum_list (map f (take (Suc i) xs)) \<le> sum_list (map f (take j xs))"
    by (metis le_add1 map_append sum_list_append)
  then show ?thesis using ij by (simp add: take_Suc_conv_app_nth)
qed


subsection \<open>The invariant of a context\<close>

definition tensor_key :: "gguf_tensor_info \<Rightarrow> bytes" where
  "tensor_key ti = c_str (t_name (ti_t ti))"

definition names_distinct :: "gguf_context \<Rightarrow> bool" where
  "names_distinct ctx \<longleftrightarrow> distinct (map tensor_key (ctx_info ctx))"

definition ctx_inv :: "gguf_context \<Rightarrow> bool" where
  "ctx_inv ctx \<longleftrightarrow>
     keys_distinct ctx \<and> (\<forall>e \<in> set (ctx_kv ctx). kv_wf e) \<and>
     layout_ok (ctx_alignment ctx) 0 (ctx_info ctx) \<and> names_distinct ctx"

lemma find_tensor_eq:
  "gguf_find_tensor ctx name = find_from 0 (\<lambda>ti. tensor_key ti = c_str name) (ctx_info ctx)"
  by (simp add: gguf_find_tensor_def tensor_key_def eq_commute)

lemma find_tensor_None: "gguf_find_tensor ctx name = -1 \<longleftrightarrow> c_str name \<notin> tensor_key ` set (ctx_info ctx)"
  by (auto simp: find_tensor_eq find_from_minus_one image_iff)

lemma find_tensor_hit:
  assumes "\<not> gguf_find_tensor ctx name < 0"
  shows "nat (gguf_find_tensor ctx name) < length (ctx_info ctx)"
    "tensor_key (ctx_info ctx ! nat (gguf_find_tensor ctx name)) = c_str name"
proof -
  have "gguf_find_tensor ctx name \<noteq> -1" using assms by auto
  then obtain k where "k < length (ctx_info ctx)" "gguf_find_tensor ctx name = int k"
    "tensor_key (ctx_info ctx ! k) = c_str name"
    unfolding find_tensor_eq by (rule find_from_hit [of "\<lambda>ti. tensor_key ti = c_str name"])
  then show "nat (gguf_find_tensor ctx name) < length (ctx_info ctx)"
    "tensor_key (ctx_info ctx ! nat (gguf_find_tensor ctx name)) = c_str name" by simp_all
qed

lemma ctx_inv_empty: "ctx_inv gguf_init_empty"
  by (simp add: ctx_inv_def keys_distinct_def names_distinct_def gguf_init_empty_def)

lemma ctx_inv_remove: "ctx_inv ctx \<Longrightarrow> ctx_inv (fst (gguf_remove_key ctx key))"
  using set_remove_nth_subset [of "nat (gguf_find_key ctx key)" "ctx_kv ctx"]
  by (auto simp: ctx_inv_def kvs.invar_del names_distinct_def remove_key_rest remove_key_kv)

lemma ctx_inv_put: "ctx_inv ctx \<Longrightarrow> kv_wf e \<Longrightarrow> ctx_inv (put_kv ctx e)"
  using ctx_inv_remove [of ctx "kv_key e"] kvs.invar_put [of ctx e]
  by (auto simp: ctx_inv_def names_distinct_def put_kv_def)

lemma emplace_put:
  assumes "emplace_back mk (fst (gguf_remove_key ctx key)) = Inr ctx'" "mk = Inr e" "kv_key e = c_str key"
  shows "ctx' = put_kv ctx e"
  using assms by (auto simp: emplace_back_def put_kv_def)

lemma ctx_inv_info:
  "ctx_inv (ctx\<lparr>ctx_info := tis\<rparr>) \<longleftrightarrow>
     keys_distinct ctx \<and> (\<forall>e \<in> set (ctx_kv ctx). kv_wf e) \<and>
     layout_ok (ctx_alignment ctx) 0 tis \<and> distinct (map tensor_key tis)"
  by (simp add: ctx_inv_def names_distinct_def keys_distinct_def)

lemma ctx_inv_set_scalar:
  assumes "set_scalar ctx key ty value = Inr ctx'" "ctx_inv ctx" "fixed_type ty"
    "length value = gguf_type_size ty"
    "c_str key = GGUF_KEY_GENERAL_ALIGNMENT \<Longrightarrow> ty = GGUF_TYPE_UINT32 \<and> alignment_value_ok value"
  shows "ctx_inv ctx'"
proof -
  have ne: "c_str key \<noteq> []"
    using assms(1) by (auto simp: set_scalar_def emplace_back_def gguf_kv_scalar_def bnd_eq_Inr)
  then have "ctx' = put_kv ctx (scalar_kv (c_str key) ty value)"
    using assms(1) set_scalar_scalar_kv [OF c_str_no_nul ne, of ctx ty "value"]
    by (simp add: set_scalar_def)
  moreover have "kv_wf (scalar_kv (c_str key) ty value)"
    using assms(3-5) ne c_str_no_nul [of key] by (auto simp: kv_wf_def fixed_type_def)
  ultimately show ?thesis using ctx_inv_put [OF assms(2)] by simp
qed

lemma ctx_inv_set_str:
  assumes "ctx_inv ctx" "gguf_set_val_str ctx key val = Inr ctx'"
  shows "ctx_inv ctx'"
proof -
  let ?e = "\<lparr>kv_key = c_str key, kv_is_array = False, kv_type = GGUF_TYPE_STRING, kv_data = [],
      kv_data_string = [c_str val]\<rparr>"
  have ne: "c_str key \<noteq> []" "c_str key \<noteq> GGUF_KEY_GENERAL_ALIGNMENT"
    using assms(2) by (auto simp: gguf_set_val_str_def emplace_back_def gguf_kv_string_def
        gguf_check_reserved_other_def bnd_eq_Inr)
  then have "ctx' = put_kv ctx ?e"
    using assms(2) by (auto simp: gguf_set_val_str_def gguf_check_reserved_other_def bnd_eq_Inr
        gguf_kv_string_def dest!: emplace_put)
  moreover have "kv_wf ?e" using ne c_str_no_nul by (simp add: kv_wf_def)
  ultimately show ?thesis using ctx_inv_put [OF assms(1)] by simp
qed

lemma ctx_inv_set_arr_str:
  assumes "ctx_inv ctx" "gguf_set_arr_str ctx key data n = Inr ctx'"
  shows "ctx_inv ctx'"
proof -
  let ?e = "\<lparr>kv_key = c_str key, kv_is_array = True, kv_type = GGUF_TYPE_STRING, kv_data = [],
      kv_data_string = map c_str (take n data)\<rparr>"
  have ne: "c_str key \<noteq> []" "c_str key \<noteq> GGUF_KEY_GENERAL_ALIGNMENT"
    using assms(2) by (auto simp: gguf_set_arr_str_def emplace_back_def gguf_kv_strings_def
        gguf_check_reserved_other_def bnd_eq_Inr Let_def)
  then have "ctx' = put_kv ctx ?e"
    using assms(2) by (auto simp: gguf_set_arr_str_def gguf_check_reserved_other_def bnd_eq_Inr
        gguf_kv_strings_def Let_def dest!: emplace_put)
  moreover have "kv_wf ?e" using ne c_str_no_nul by (auto simp: kv_wf_def)
  ultimately show ?thesis using ctx_inv_put [OF assms(1)] by simp
qed

lemma ctx_inv_set_arr_data:
  assumes "ctx_inv ctx" "gguf_set_arr_data ctx key type data n = Inr ctx'"
  shows "ctx_inv ctx'"
proof -
  let ?nb = "n * gguf_type_size type mod 2 ^ 64"
  let ?e = "\<lparr>kv_key = c_str key, kv_is_array = True, kv_type = type, kv_data = take ?nb data,
      kv_data_string = []\<rparr>"
  have ne: "c_str key \<noteq> []" "c_str key \<noteq> GGUF_KEY_GENERAL_ALIGNMENT" "gguf_type_size type \<noteq> 0"
    "length (take ?nb data) mod gguf_type_size type = 0"
    using assms(2) by (auto simp: gguf_set_arr_data_def emplace_back_def gguf_kv_vector_def
        gguf_check_reserved_other_def bnd_eq_Inr Let_def cast_def concat_map_singleton)
  then have "ctx' = put_kv ctx ?e"
    using assms(2) by (auto simp: gguf_set_arr_data_def gguf_check_reserved_other_def bnd_eq_Inr
        gguf_kv_vector_def Let_def cast_def concat_map_singleton dest!: emplace_put)
  moreover have "kv_wf ?e"
    using ne c_str_no_nul by (auto simp: kv_wf_def fixed_type_size fixed_type_def)
  ultimately show ?thesis using ctx_inv_put [OF assms(1)] by simp
qed

lemma ctx_inv_add_tensor:
  assumes "ctx_inv ctx" "gguf_add_tensor ctx tensor = Inr ctx'"
  shows "ctx_inv ctx'"
proof -
  let ?al = "ctx_alignment ctx"
  let ?ofs = "if ctx_info ctx = [] then 0 else ti_offset (last (ctx_info ctx)) +
      ggml_pad (ggml_nbytes (ti_t (last (ctx_info ctx)))) ?al"
  let ?ti = "\<lparr>ti_t = tensor, ti_offset = ?ofs\<rparr>"
  have new: "gguf_find_tensor ctx (t_name tensor) = -1"
    and c: "ctx' = ctx\<lparr>ctx_info := ctx_info ctx @ [?ti]\<rparr>"
    using assms(2) by (auto simp: gguf_add_tensor_def bnd_eq_Inr Let_def)
  have lay: "layout_ok ?al 0 (ctx_info ctx)" using assms(1) by (simp add: ctx_inv_def)
  then have "?ofs = layout_end ?al 0 (ctx_info ctx)"
    by (simp add: layout_end_last)
  then have "layout_ok ?al 0 (ctx_info ctx @ [?ti])"
    using lay by (simp add: layout_ok_append)
  moreover have "tensor_key ?ti \<notin> tensor_key ` set (ctx_info ctx)"
    using new by (simp add: find_tensor_None tensor_key_def)
  ultimately show ?thesis
    using assms(1) unfolding c ctx_inv_info by (simp add: ctx_inv_def names_distinct_def)
qed

lemma ctx_inv_set_tensor_type:
  assumes "ctx_inv ctx" "gguf_set_tensor_type ctx name type = Inr ctx'"
  shows "ctx_inv ctx'"
proof -
  let ?k = "nat (gguf_find_tensor ctx name)" and ?al = "ctx_alignment ctx" and ?tis = "ctx_info ctx"
  let ?ti = "?tis ! ?k"
  let ?ti' = "?ti\<lparr>ti_t := (ti_t ?ti)\<lparr>t_type := type, t_nb := row_strides type (t_ne (ti_t ?ti))\<rparr>\<rparr>"
  let ?new = "take ?k ?tis @ ?ti' # offsets_after ?al ?ti' (drop (Suc ?k) ?tis)"
  have found: "\<not> gguf_find_tensor ctx name < 0"
    and c: "ctx' = ctx\<lparr>ctx_info := ?new\<rparr>"
    using assms(2) by (auto simp: gguf_set_tensor_type_def bnd_eq_Inr Let_def)
  have k: "?k < length ?tis" using find_tensor_hit(1) [OF found] .
  have split: "?tis = take ?k ?tis @ ?ti # drop (Suc ?k) ?tis" using split_at_nth [OF k] .
  have lay: "layout_ok ?al 0 (take ?k ?tis @ ?ti # drop (Suc ?k) ?tis)"
    using assms(1) split by (simp add: ctx_inv_def)
  then have "layout_ok ?al 0 ?new"
    using offsets_after_layout [of ?al ?ti' "drop (Suc ?k) ?tis"] by (simp add: layout_ok_append)
  moreover have "map tensor_key ?new = map tensor_key ?tis"
  proof -
    have "map tensor_key (offsets_after ?al ?ti' (drop (Suc ?k) ?tis)) =
        map (c_str \<circ> t_name) (map ti_t (offsets_after ?al ?ti' (drop (Suc ?k) ?tis)))"
      by (simp add: tensor_key_def)
    also have "\<dots> = map tensor_key (drop (Suc ?k) ?tis)"
      by (simp only: offsets_after_tensors) (simp add: tensor_key_def)
    finally have "map tensor_key ?new =
        map tensor_key (take ?k ?tis @ ?ti # drop (Suc ?k) ?tis)"
      by (simp add: tensor_key_def)
    then show ?thesis using split by simp
  qed
  moreover have "keys_distinct ctx" "\<forall>e \<in> set (ctx_kv ctx). kv_wf e" "distinct (map tensor_key ?tis)"
    using assms(1) by (simp_all add: ctx_inv_def names_distinct_def)
  ultimately show ?thesis
    unfolding c ctx_inv_info by simp
qed

lemma ctx_inv_set_tensor_data:
  assumes "ctx_inv ctx" "gguf_set_tensor_data ctx name data = Inr ctx'"
  shows "ctx_inv ctx'"
proof -
  let ?k = "nat (gguf_find_tensor ctx name)" and ?tis = "ctx_info ctx"
  let ?ti' = "(?tis ! ?k)\<lparr>ti_t := (ti_t (?tis ! ?k))\<lparr>t_data := Some data\<rparr>\<rparr>"
  have found: "\<not> gguf_find_tensor ctx name < 0"
    and c: "ctx' = ctx\<lparr>ctx_info := ?tis[?k := ?ti']\<rparr>"
    using assms(2) by (auto simp: gguf_set_tensor_data_def bnd_eq_Inr Let_def)
  have k: "?k < length ?tis" using find_tensor_hit(1) [OF found] .
  have nb: "ggml_nbytes (ti_t ?ti') = ggml_nbytes (ti_t (?tis ! ?k))" by (simp add: ggml_nbytes_def)
  have "map (\<lambda>ti. (ti_offset ti, ggml_nbytes (ti_t ti))) (?tis[?k := ?ti']) =
      map (\<lambda>ti. (ti_offset ti, ggml_nbytes (ti_t ti))) ?tis"
    using k nb by (simp add: map_update list_update_same_conv)
  moreover have "layout_ok (ctx_alignment ctx) 0 ?tis"
    using assms(1) by (simp add: ctx_inv_def)
  ultimately have "layout_ok (ctx_alignment ctx) 0 (?tis[?k := ?ti'])"
    by (rule layout_data_irrelevant [THEN iffD2])
  moreover have "map tensor_key (?tis[?k := ?ti']) = map tensor_key ?tis"
    using k by (simp add: map_update list_update_same_conv tensor_key_def)
  ultimately show ?thesis
    using assms(1) unfolding c ctx_inv_info by (simp add: ctx_inv_def names_distinct_def)
qed

subsection \<open>Every sequence of operations keeps the invariant\<close>

inductive gguf_edit :: "gguf_context \<Rightarrow> gguf_context \<Rightarrow> bool" where
  set_u8: "gguf_set_val_u8 c key a = Inr c' \<Longrightarrow> gguf_edit c c'"
| set_i8: "gguf_set_val_i8 c key a = Inr c' \<Longrightarrow> gguf_edit c c'"
| set_u16: "gguf_set_val_u16 c key b = Inr c' \<Longrightarrow> gguf_edit c c'"
| set_i16: "gguf_set_val_i16 c key b = Inr c' \<Longrightarrow> gguf_edit c c'"
| set_u32: "gguf_set_val_u32 c key w = Inr c' \<Longrightarrow> gguf_edit c c'"
| set_i32: "gguf_set_val_i32 c key w = Inr c' \<Longrightarrow> gguf_edit c c'"
| set_f32: "gguf_set_val_f32 c key w = Inr c' \<Longrightarrow> gguf_edit c c'"
| set_u64: "gguf_set_val_u64 c key x = Inr c' \<Longrightarrow> gguf_edit c c'"
| set_i64: "gguf_set_val_i64 c key x = Inr c' \<Longrightarrow> gguf_edit c c'"
| set_f64: "gguf_set_val_f64 c key x = Inr c' \<Longrightarrow> gguf_edit c c'"
| set_bool: "gguf_set_val_bool c key y = Inr c' \<Longrightarrow> gguf_edit c c'"
| set_str: "gguf_set_val_str c key s = Inr c' \<Longrightarrow> gguf_edit c c'"
| set_arr_data: "gguf_set_arr_data c key ty d n = Inr c' \<Longrightarrow> gguf_edit c c'"
| set_arr_str: "gguf_set_arr_str c key ss n = Inr c' \<Longrightarrow> gguf_edit c c'"
| remove: "gguf_edit c (fst (gguf_remove_key c key))"
| add_tensor: "gguf_add_tensor c t = Inr c' \<Longrightarrow> gguf_edit c c'"
| set_tensor_type: "gguf_set_tensor_type c nm tty = Inr c' \<Longrightarrow> gguf_edit c c'"
| set_tensor_data: "gguf_set_tensor_data c nm d = Inr c' \<Longrightarrow> gguf_edit c c'"

lemmas setter_defs =
  gguf_set_val_u8_def gguf_set_val_i8_def gguf_set_val_u16_def gguf_set_val_i16_def
  gguf_set_val_u32_def gguf_set_val_i32_def gguf_set_val_f32_def gguf_set_val_u64_def
  gguf_set_val_i64_def gguf_set_val_f64_def gguf_set_val_bool_def
  gguf_check_reserved_other_def gguf_check_reserved_u32_def

lemma gguf_edit_inv: "gguf_edit c c' \<Longrightarrow> ctx_inv c \<Longrightarrow> ctx_inv c'"
proof (induction rule: gguf_edit.induct)
  case (set_u32 c key w c')
  then show ?case
    by (auto simp: setter_defs bnd_eq_Inr fixed_type_def alignment_value_ok_def Let_def
        elim!: ctx_inv_set_scalar split: if_splits)
qed (auto simp: setter_defs bnd_eq_Inr fixed_type_def
      elim!: ctx_inv_set_scalar
      intro: ctx_inv_remove ctx_inv_set_str ctx_inv_set_arr_data ctx_inv_set_arr_str
        ctx_inv_add_tensor ctx_inv_set_tensor_type ctx_inv_set_tensor_data)

lemma set_kv_entry_edit: "set_kv_entry e c = Inr c' \<Longrightarrow> gguf_edit c c'"
  by (cases "kv_type e")
    (auto simp: set_kv_entry_def Let_def bnd_eq_Inr intro: gguf_edit.intros split: if_splits)

inductive gguf_built :: "gguf_context \<Rightarrow> bool" where
  empty: "gguf_built gguf_init_empty"
| edit: "gguf_built c \<Longrightarrow> gguf_edit c c' \<Longrightarrow> gguf_built c'"
| merge: "gguf_built c \<Longrightarrow> gguf_built src \<Longrightarrow> gguf_set_kv c src = Inr c' \<Longrightarrow> gguf_built c'"

text \<open>
  C4. Every context that a program can build with the library's operations satisfies the
  invariant: unique keys, unique tensor names, well-formed values, offsets that tile the data.
\<close>

theorem gguf_built_invariant: "gguf_built c \<Longrightarrow> ctx_inv c"
proof (induction rule: gguf_built.induct)
  case empty
  show ?case by (rule ctx_inv_empty)
next
  case (edit c c')
  then show ?case by (blast intro: gguf_edit_inv)
next
  case (merge c src c')
  then show ?case unfolding gguf_set_kv_def
    by (elim each_outcome_invariant [where I = ctx_inv])
      (auto intro: gguf_edit_inv set_kv_entry_edit)
qed

end
