(* ===== verification/Gguf_Write.thy ===== *)
theory Gguf_Write
  imports Gguf_Layout
begin

text \<open>
  The GGUF writer of \<open>src/gguf.cpp\<close> (\<open>struct gguf_writer\<close>, \<open>gguf_write_to_buf\<close> and its
  callers).  Every \<open>write\<close> overload appends bytes to the buffer; the model returns the bytes
  it appends, and passes the buffer only where its length matters (\<open>pad\<close>,
  \<open>write_tensor_data\<close>).
\<close>

definition GGUF_MAGIC :: bytes where "GGUF_MAGIC = bytes_of ''GGUF''"

definition write_string :: "bytes \<Rightarrow> bytes" where
  "write_string val = enc_word (word_of_nat (length val) :: 64 word) @ val"

definition write_gguf_type :: "gguf_type \<Rightarrow> bytes" where
  "write_gguf_type t = enc_word (gguf_type_code t)"

fun collect :: "('a \<Rightarrow> bytes outcome) \<Rightarrow> 'a list \<Rightarrow> bytes outcome" where
  "collect g [] = Inr []"
| "collect g (i # is) = bnd (g i) (\<lambda>b. bnd (collect g is) (\<lambda>bs. Inr (b @ bs)))"

definition write_kv :: "gguf_kv \<Rightarrow> bytes outcome" where
  "write_kv e =
     bnd (get_ne e) (\<lambda>ne.
     let head = write_string (kv_key e) @
           (if kv_is_array e
            then write_gguf_type GGUF_TYPE_ARRAY @ write_gguf_type (kv_type e) @
                 enc_word (word_of_nat ne :: 64 word)
            else write_gguf_type (kv_type e))
     in bnd
          (case kv_type e of
             GGUF_TYPE_BOOL \<Rightarrow>
               collect (\<lambda>i. bnd (get_val_bytes GGUF_TYPE_BOOL e i) (\<lambda>v. Inr [if v \<noteq> [0] then 1 else 0])) [0..<ne]
           | GGUF_TYPE_STRING \<Rightarrow>
               collect (\<lambda>i. bnd (get_val_string e i) (\<lambda>v. Inr (write_string v))) [0..<ne]
           | GGUF_TYPE_ARRAY \<Rightarrow> Inl Aborted
           | GGUF_TYPE_COUNT \<Rightarrow> Inl Aborted
           | _ \<Rightarrow> Inr (kv_data e))
          (\<lambda>body. Inr (head @ body)))"

definition write_tensor_meta :: "gguf_tensor_info \<Rightarrow> bytes" where
  "write_tensor_meta info =
     (let n_dims = ggml_n_dims (ti_t info) in
      write_string (c_str (t_name (ti_t info))) @
      enc_word (word_of_nat n_dims :: 32 word) @
      concat (map (\<lambda>d. enc_word (word_of_int d :: 64 word)) (take n_dims (t_ne (ti_t info)))) @
      enc_word (word_of_nat (t_type (ti_t info)) :: 32 word) @
      enc_word (ti_offset info))"

text \<open>
  \<open>pad\<close>: the loop pushes zero bytes until the size is a multiple of the alignment; an alignment
  of 0 divides by zero.
\<close>

lemma pad_step:
  assumes "(0::nat) < al" "n mod al \<noteq> 0"
  shows "(al - Suc n mod al) mod al < (al - n mod al) mod al"
proof -
  have l: "n mod al < al" using assms(1) by simp
  then have m: "(al - n mod al) mod al = al - n mod al" using assms(2) by simp
  show "(al - Suc n mod al) mod al < (al - n mod al) mod al"
  proof (cases "Suc (n mod al) = al")
    case True
    then have "Suc n mod al = 0" by (simp add: mod_Suc)
    with l m show ?thesis by simp
  next
    case False
    then have "Suc n mod al = Suc (n mod al)" by (simp add: mod_Suc)
    moreover have "Suc (n mod al) < al" using l False by simp
    ultimately show ?thesis using m by simp
  qed
qed

function pad_loop :: "nat \<Rightarrow> bytes \<Rightarrow> bytes" where
  "pad_loop al buf =
     (if al = 0 \<or> length buf mod al = 0 then buf else pad_loop al (buf @ [0]))"
  by pat_completeness auto
termination
proof (relation "measure (\<lambda>(al, buf). (al - length buf mod al) mod al)")
  fix al :: nat and buf :: bytes
  assume "\<not> (al = 0 \<or> length buf mod al = 0)"
  then show "((al, buf @ [0]), al, buf) \<in> measure (\<lambda>(al, buf). (al - length buf mod al) mod al)"
    using pad_step [of al "length buf"] by simp
qed simp

declare pad_loop.simps [simp del]

definition pad :: "size_t \<Rightarrow> bytes \<Rightarrow> bytes outcome" where
  "pad alignment buf =
     bnd (ensure (alignment \<noteq> 0) Trapped) (\<lambda>_. Inr (pad_loop (unat alignment) buf))"

text \<open>
  \<open>buf.resize\<close> throws above \<open>max_size\<close>, which is \<open>PTRDIFF_MAX\<close> for bytes; the tensor's memory
  must hold the bytes that are copied.
\<close>

definition write_tensor_data ::
  "gguf_tensor_info \<Rightarrow> nat \<Rightarrow> size_t \<Rightarrow> bytes \<Rightarrow> bytes outcome" where
  "write_tensor_data info offset_data alignment buf =
     bnd (ensure (word_of_nat (length buf) - word_of_nat offset_data = ti_offset info) Aborted) (\<lambda>_.
     bnd (ensure (ggml_is_contiguous (ti_t info)) Aborted) (\<lambda>_.
     let nbytes = unat (ggml_nbytes (ti_t info)) in
     bnd (ensure ((length buf + nbytes) mod 2 ^ 64 < 2 ^ 63) Threw) (\<lambda>_.
     case t_data (ti_t info) of
       None \<Rightarrow> Inl Aborted
     | Some data \<Rightarrow>
         bnd (ensure (nbytes \<le> length data \<and> length buf + nbytes < 2 ^ 64) Undefined) (\<lambda>_.
         pad alignment (buf @ take nbytes data)))))"

definition gguf_write_to_buf :: "gguf_context \<Rightarrow> bytes \<Rightarrow> bool \<Rightarrow> bytes outcome" where
  "gguf_write_to_buf ctx buf only_meta =
     (let n_kv = gguf_get_n_kv ctx; n_tensors = gguf_get_n_tensors ctx in
      bnd (collect (\<lambda>i. write_kv (ctx_kv ctx ! i)) [0..<nat n_kv]) (\<lambda>kvs.
      bnd (pad (ctx_alignment ctx)
             (buf @ GGUF_MAGIC @ enc_word (ctx_version ctx) @
              enc_word (word_of_int n_tensors :: 64 word) @ enc_word (word_of_int n_kv :: 64 word) @
              kvs @ concat (map write_tensor_meta (ctx_info ctx)))) (\<lambda>meta.
      if only_meta then Inr meta
      else each_outcome (\<lambda>info. write_tensor_data info (length meta) (ctx_alignment ctx))
             (ctx_info ctx) meta)))"

text \<open>
  \<open>gguf_write_to_file\<close>: \<open>opens\<close> says whether the file can be opened, \<open>room\<close> how many bytes the
  device takes.  The result is the flag the function returns and what the file then holds.
\<close>

definition gguf_write_to_file ::
  "gguf_context \<Rightarrow> bool \<Rightarrow> nat \<Rightarrow> bool \<Rightarrow> (bool \<times> bytes option) outcome" where
  "gguf_write_to_file ctx opens room only_meta =
     (if \<not> opens then Inr (False, None)
      else bnd (gguf_write_to_buf ctx [] only_meta) (\<lambda>buf.
           Inr (length (take room buf) = length buf, Some (take room buf))))"

definition gguf_get_meta_size :: "gguf_context \<Rightarrow> nat outcome" where
  "gguf_get_meta_size ctx = bnd (gguf_write_to_buf ctx [] True) (\<lambda>buf. Inr (length buf))"

text \<open>\<open>gguf_get_meta_data\<close> copies the meta data over the start of the caller's memory.\<close>

definition gguf_get_meta_data :: "gguf_context \<Rightarrow> bytes \<Rightarrow> bytes outcome" where
  "gguf_get_meta_data ctx data =
     bnd (gguf_write_to_buf ctx [] True) (\<lambda>buf.
     bnd (ensure (length buf \<le> length data) Undefined) (\<lambda>_. Inr (buf @ drop (length buf) data)))"

end
