(* ===== verification/Gguf_Read.thy ===== *)
theory Gguf_Read
  imports Gguf_Layout
begin

text \<open>
  The GGUF reader of \<open>src/gguf.cpp\<close>: \<open>struct gguf_reader\<close>, \<open>gguf_read_emplace_helper\<close> and
  \<open>gguf_init_from_file_impl\<close>, and the part of the memory pool of \<open>src/ggml.c\<close> it loads the
  tensors into.  \<open>mem\<close> is the largest block the allocator hands out: a larger request of a
  container throws, a larger request of \<open>ggml_init\<close> aborts.
\<close>

subsection \<open>Reading single values\<close>

definition read_string :: "nat \<Rightarrow> bytes reader" where
  "read_string mem f p =
     bnd (read_word f p) (\<lambda>(n :: 64 word, q).
     bnd (ensure (unat n \<le> mem) Threw) (\<lambda>_. read_bytes (unat n) f q))"

text \<open>A \<open>bool\<close> is read as an \<open>int8_t\<close> and compared with 0.\<close>

definition read_bool :: "bytes reader" where
  "read_bool f p =
     bnd (read_bytes 1 f p) (\<lambda>(b, q). Inr (if b = [0] then [0] else [1], q))"

definition read_fixed :: "gguf_type \<Rightarrow> bytes reader" where
  "read_fixed ty = (if ty = GGUF_TYPE_BOOL then read_bool else read_bytes (gguf_type_size ty))"

text \<open>\<open>std::vector<T>::resize(n)\<close>: a \<open>bool\<close> takes a bit, a \<open>std::string\<close> 32 bytes.\<close>

definition vector_bytes :: "gguf_type \<Rightarrow> nat \<Rightarrow> nat" where
  "vector_bytes ty n =
     (if ty = GGUF_TYPE_BOOL then n div 8
      else if ty = GGUF_TYPE_STRING then 32 * n else gguf_type_size ty * n)"

text \<open>The handlers of \<open>std::length_error\<close> and \<open>std::bad_alloc\<close>.\<close>

definition caught :: "'a outcome \<Rightarrow> 'a outcome" where
  "caught m = (if m = Inl Threw then Inl Failed else m)"

definition gguf_read_emplace_helper ::
  "nat \<Rightarrow> gguf_kv list \<Rightarrow> bytes \<Rightarrow> gguf_type \<Rightarrow> bool \<Rightarrow> nat \<Rightarrow> (gguf_kv list) reader" where
  "gguf_read_emplace_helper mem kv key ty is_array n f p =
     (if is_array then
        (if ty = GGUF_TYPE_STRING then
           bnd (caught (bnd (ensure (vector_bytes ty n \<le> mem) Threw) (\<lambda>_.
                read_many (read_string mem) n f p))) (\<lambda>(vals, q).
           bnd (gguf_kv_strings key vals) (\<lambda>e. Inr (kv @ [e], q)))
         else
           bnd (caught (bnd (ensure (vector_bytes ty n \<le> mem) Threw) (\<lambda>_.
                read_many (read_fixed ty) n f p))) (\<lambda>(vals, q).
           bnd (gguf_kv_vector key ty vals) (\<lambda>e. Inr (kv @ [e], q))))
      else
        (if ty = GGUF_TYPE_STRING then
           bnd (read_string mem f p) (\<lambda>(val, q).
           bnd (gguf_kv_string key val) (\<lambda>e. Inr (kv @ [e], q)))
         else
           bnd (read_fixed ty f p) (\<lambda>(val, q).
           bnd (gguf_kv_scalar key ty val) (\<lambda>e. Inr (kv @ [e], q)))))"

subsection \<open>The header\<close>

text \<open>\<open>SIZE_MAX/sizeof(gguf_tensor_info)\<close> and \<open>SIZE_MAX/sizeof(gguf_kv)\<close> on a 64-bit host.\<close>

definition max_n_tensors :: int where "max_n_tensors = (2 ^ 64 - 1) div 344"
definition max_n_kv :: int where "max_n_kv = (2 ^ 64 - 1) div 88"

definition read_magic :: "unit reader" where
  "read_magic f p =
     bnd (read_bytes 4 f p) (\<lambda>(magic, q).
     bnd (ensure (magic = bytes_of ''GGUF'') Failed) (\<lambda>_. Inr ((), q)))"

definition read_header :: "(32 word \<times> nat \<times> nat) reader" where
  "read_header f p =
     bnd (read_word f p) (\<lambda>(version :: 32 word, q).
     bnd (ensure (version \<noteq> 0) Failed) (\<lambda>_.
     bnd (ensure (version AND 0xFFFF \<noteq> 0) Failed) (\<lambda>_.
     bnd (ensure (version \<noteq> 1) Failed) (\<lambda>_.
     bnd (ensure (\<not> version > GGUF_VERSION) Failed) (\<lambda>_.
     bnd (read_word f q) (\<lambda>(n_tensors :: 64 word, q).
     bnd (ensure (\<not> (sint n_tensors < 0 \<or> sint n_tensors > max_n_tensors)) Failed) (\<lambda>_.
     bnd (read_word f q) (\<lambda>(n_kv :: 64 word, q).
     bnd (ensure (\<not> (sint n_kv < 0 \<or> sint n_kv > max_n_kv)) Failed) (\<lambda>_.
     Inr ((version, nat (sint n_tensors), nat (sint n_kv)), q))))))))))"

subsection \<open>The key-value pairs\<close>

text \<open>\<open>gr.read(type)\<close>; a value that is no enumerator is \<open>None\<close>.\<close>

definition read_gguf_type :: "(gguf_type option) reader" where
  "read_gguf_type f p = bnd (read_word f p) (\<lambda>(c, q). Inr (gguf_type_of_code c, q))"

text \<open>The type of a pair, whether it is an array, and the number of values.\<close>

definition read_value_type :: "(gguf_type option \<times> bool \<times> nat) reader" where
  "read_value_type f p =
     bnd (read_gguf_type f p) (\<lambda>(type, q).
     if type = Some GGUF_TYPE_ARRAY then
       bnd (read_gguf_type f q) (\<lambda>(type, q).
       bnd (read_word f q) (\<lambda>(n :: 64 word, q). Inr ((type, True, unat n), q)))
     else Inr ((type, False, 1), q))"

definition read_value ::
  "nat \<Rightarrow> gguf_kv list \<Rightarrow> bytes \<Rightarrow> gguf_type option \<Rightarrow> bool \<Rightarrow> nat \<Rightarrow> (gguf_kv list) reader" where
  "read_value mem kv key type is_array n f p =
     (case type of
        None \<Rightarrow> Inl Failed
      | Some ty \<Rightarrow>
          if ty = GGUF_TYPE_ARRAY \<or> ty = GGUF_TYPE_COUNT then Inl Failed
          else gguf_read_emplace_helper mem kv key ty is_array n f p)"

definition read_kv :: "nat \<Rightarrow> gguf_kv list \<Rightarrow> (gguf_kv list) reader" where
  "read_kv mem kv f p =
     bnd (caught (read_string mem f p)) (\<lambda>(key, q).
     bnd (ensure (list_all (\<lambda>e. key \<noteq> kv_key e) kv) Failed) (\<lambda>_.
     bnd (read_value_type f q) (\<lambda>((type, is_array, n), q).
     read_value mem kv key type is_array n f q)))"

fun read_kvs :: "nat \<Rightarrow> nat \<Rightarrow> gguf_kv list \<Rightarrow> (gguf_kv list) reader" where
  "read_kvs mem 0 kv f p = Inr (kv, p)"
| "read_kvs mem (Suc n) kv f p = bnd (read_kv mem kv f p) (\<lambda>(kv, q). read_kvs mem n kv f q)"

definition read_alignment :: "gguf_context \<Rightarrow> gguf_context outcome" where
  "read_alignment ctx =
     (let alignment_idx = gguf_find_key ctx GGUF_KEY_GENERAL_ALIGNMENT in
      bnd (if alignment_idx = -1 then Inr GGUF_DEFAULT_ALIGNMENT
           else bnd (gguf_get_val_u32 ctx alignment_idx) (\<lambda>v. Inr (ucast v))) (\<lambda>al.
      bnd (ensure (\<not> (al = 0 \<or> al AND (al - 1) \<noteq> 0)) Failed) (\<lambda>_.
      Inr (ctx\<lparr>ctx_alignment := al\<rparr>))))"

subsection \<open>The tensor descriptions\<close>

fun read_dims :: "nat \<Rightarrow> nat \<Rightarrow> (int list) reader" where
  "read_dims 0 n_dims f p = Inr ([], p)"
| "read_dims (Suc left) n_dims f p =
     bnd (if 0 < n_dims then bnd (read_word f p) (\<lambda>(d :: 64 word, q). Inr (sint d, q)) else Inr (1, p)) (\<lambda>(d, q).
     bnd (ensure (\<not> d < 0) Failed) (\<lambda>_.
     bnd (read_dims left (n_dims - 1) f q) (\<lambda>(ds, s). Inr (d # ds, s))))"

text \<open>
  The check that the number of elements is representable.  It divides by every dimension but
  the first, left to right, until a comparison holds.
\<close>

definition too_many :: "int \<Rightarrow> int \<Rightarrow> bool outcome" where
  "too_many d bound = bnd (ensure (d \<noteq> 0) Trapped) (\<lambda>_. Inr (c_div INT64_MAX d \<le> bound))"

definition check_elements :: "int list \<Rightarrow> unit outcome" where
  "check_elements ne =
     bnd (too_many (ne ! 1) (ne ! 0)) (\<lambda>b.
     bnd (ensure (\<not> b) Failed) (\<lambda>_.
     bnd (too_many (ne ! 2) (ne ! 0 * ne ! 1)) (\<lambda>b.
     bnd (ensure (\<not> b) Failed) (\<lambda>_.
     bnd (too_many (ne ! 3) (ne ! 0 * ne ! 1 * ne ! 2)) (\<lambda>b.
     ensure (\<not> b) Failed)))))"

definition read_info :: "nat \<Rightarrow> gguf_tensor_info list \<Rightarrow> gguf_tensor_info reader" where
  "read_info mem infos f p =
     bnd (caught (read_string mem f p)) (\<lambda>(name, q).
     bnd (ensure (\<not> length name \<ge> GGML_MAX_NAME) Failed) (\<lambda>_.
     let t_name' = take (GGML_MAX_NAME - 1) (c_str (c_str name)) in
     bnd (ensure (list_all (\<lambda>ti. c_str t_name' \<noteq> c_str (t_name (ti_t ti))) infos) Failed) (\<lambda>_.
     bnd (read_word f q) (\<lambda>(n_dims :: 32 word, q).
     bnd (ensure (\<not> unat n_dims > GGML_MAX_DIMS) Failed) (\<lambda>_.
     bnd (read_dims GGML_MAX_DIMS (unat n_dims) f q) (\<lambda>(ne, q).
     bnd (check_elements ne) (\<lambda>_.
     bnd (read_word f q) (\<lambda>(ty :: 32 word, q).
     bnd (ensure (unat ty < GGML_TYPE_COUNT) Failed) (\<lambda>_.
     let blck_size = ggml_blck_size (unat ty) in
     bnd (ensure (\<not> (blck_size = 0 \<or> c_mod (ne ! 0) blck_size \<noteq> 0)) Failed) (\<lambda>_.
     bnd (read_word f q) (\<lambda>(offset, q).
     Inr (\<lparr>ti_t = \<lparr>t_name = t_name', t_type = unat ty, t_ne = ne, t_nb = row_strides (unat ty) ne,
                    t_data = None\<rparr>,
           ti_offset = offset\<rparr>, q))))))))))))"

fun read_infos :: "nat \<Rightarrow> nat \<Rightarrow> gguf_tensor_info list \<Rightarrow> (gguf_tensor_info list) reader" where
  "read_infos mem 0 infos f p = Inr (infos, p)"
| "read_infos mem (Suc n) infos f p =
     bnd (read_info mem infos f p) (\<lambda>(ti, q). read_infos mem n (infos @ [ti]) f q)"

text \<open>The total size of the data section; \<open>acc\<close> is the sum so far.\<close>

fun data_size :: "size_t \<Rightarrow> size_t \<Rightarrow> gguf_tensor_info list \<Rightarrow> size_t outcome" where
  "data_size al acc [] = Inr acc"
| "data_size al acc (ti # tis) =
     bnd (ensure (\<not> ti_offset ti \<noteq> acc) Failed) (\<lambda>_.
     let padded_size = ggml_pad (ggml_nbytes (ti_t ti)) al in
     bnd (ensure (\<not> SIZE_MAX - acc < padded_size) Failed) (\<lambda>_.
     data_size al (acc + padded_size) tis))"

text \<open>
  The fields of \<open>info.t\<close> that the reader leaves unset (\<open>data\<close>, \<open>buffer\<close>) are unset pointers.
  The context as read, before any tensor is loaded: header, pairs, alignment, descriptions, the
  position of the data section and its size.
\<close>

definition read_meta :: "nat \<Rightarrow> bytes \<Rightarrow> gguf_context outcome" where
  "read_meta mem f =
     bnd (read_magic f 0) (\<lambda>(_, p).
     bnd (read_header f p) (\<lambda>((version, n_tensors, n_kv), p).
     bnd (read_kvs mem n_kv [] f p) (\<lambda>(kv, p).
     bnd (read_alignment (gguf_init_empty\<lparr>ctx_version := version, ctx_kv := kv\<rparr>)) (\<lambda>ctx.
     bnd (read_infos mem n_tensors [] f p) (\<lambda>(infos, p).
     let offset = ggml_pad (word_of_nat p) (ctx_alignment ctx) in
     bnd (data_size (ctx_alignment ctx) 0 infos) (\<lambda>nbytes.
     Inr (ctx\<lparr>ctx_info := infos, ctx_offset := offset, ctx_size := nbytes\<rparr>)))))))"

subsection \<open>Loading the tensors\<close>

text \<open>
  The pool of a \<open>ggml_context\<close>: its size, the end of its last object, and \<open>no_alloc\<close>.  Sizes of
  \<open>struct ggml_object\<close> and \<open>struct ggml_tensor\<close> are those of a 64-bit host.
\<close>

record ggml_pool =
  pool_size :: size_t
  pool_end :: size_t
  pool_no_alloc :: bool

definition GGML_MEM_ALIGN :: size_t where "GGML_MEM_ALIGN = 16"
definition GGML_OBJECT_SIZE :: size_t where "GGML_OBJECT_SIZE = 32"
definition GGML_TENSOR_SIZE :: size_t where "GGML_TENSOR_SIZE = 336"

definition ggml_tensor_overhead :: size_t where
  "ggml_tensor_overhead = GGML_OBJECT_SIZE + GGML_TENSOR_SIZE"

definition ggml_init :: "nat \<Rightarrow> size_t \<Rightarrow> bool \<Rightarrow> ggml_pool outcome" where
  "ggml_init mem req no_alloc =
     (let mem_size = ggml_pad (if req = 0 then GGML_MEM_ALIGN else req) GGML_MEM_ALIGN in
      bnd (ensure (mem_size \<noteq> 0 \<and> unat mem_size \<le> mem) Aborted) (\<lambda>_.
      Inr \<lparr>pool_size = mem_size, pool_end = 0, pool_no_alloc = no_alloc\<rparr>))"

text \<open>\<open>ggml_new_object\<close> returns the offset of the new object, \<open>None\<close> when the pool is full.\<close>

definition ggml_new_object :: "ggml_pool \<Rightarrow> size_t \<Rightarrow> (ggml_pool \<times> size_t) option" where
  "ggml_new_object pool bytes =
     (let cur_end = pool_end pool; size_needed = ggml_pad bytes GGML_MEM_ALIGN in
      if cur_end + size_needed + GGML_OBJECT_SIZE > pool_size pool then None
      else Some (pool\<lparr>pool_end := cur_end + GGML_OBJECT_SIZE + size_needed\<rparr>, cur_end + GGML_OBJECT_SIZE))"

text \<open>
  \<open>ggml_new_tensor_impl\<close> without a view: the new tensor and the offset of its own data in the
  pool (0 when it gets none).
\<close>

definition ggml_new_tensor ::
  "ggml_pool \<Rightarrow> nat \<Rightarrow> int list \<Rightarrow> (ggml_pool \<times> ggml_tensor \<times> size_t) outcome" where
  "ggml_new_tensor pool type ne =
     bnd (ensure (type < GGML_TYPE_COUNT \<and> 1 \<le> length ne \<and> length ne \<le> GGML_MAX_DIMS) Aborted) (\<lambda>_.
     bnd (ensure (ggml_blck_size type \<noteq> 0) Trapped) (\<lambda>_.
     let row = (word_of_nat (ggml_type_size type) * word_of_int (ne ! 0)) div word_of_int (ggml_blck_size type);
         data_size = foldl (\<lambda>s d. s * word_of_int d) row (tl ne);
         obj_alloc_size = (if pool_no_alloc pool then 0 else data_size);
         ne4 = ne @ replicate (GGML_MAX_DIMS - length ne) 1
     in case ggml_new_object pool (GGML_TENSOR_SIZE + obj_alloc_size) of
          None \<Rightarrow> Inl Aborted
        | Some (pool, offs) \<Rightarrow>
            Inr (pool,
                 \<lparr>t_name = [], t_type = type, t_ne = ne4, t_nb = row_strides type ne4, t_data = None\<rparr>,
                 if obj_alloc_size > 0 then offs + GGML_TENSOR_SIZE else 0)))"

text \<open>
  The blob is read with one \<open>fread\<close> of \<open>nbytes\<close> bytes into the pool; bytes that the pool has no
  room for are written behind its end.
\<close>

definition read_blob :: "ggml_pool \<Rightarrow> size_t \<Rightarrow> size_t \<Rightarrow> bytes reader" where
  "read_blob pool dst nbytes f p =
     (let got = take (unat nbytes) (drop p f) in
      bnd (ensure (got = [] \<or> unat dst + length got \<le> unat (pool_size pool)) Undefined) (\<lambda>_.
      bnd (ensure (length got = unat nbytes) Failed) (\<lambda>_. Inr (got, p + unat nbytes))))"

fun load_tensors ::
  "bytes option \<Rightarrow> gguf_tensor_info list \<Rightarrow> ggml_pool \<Rightarrow> (ggml_tensor list) outcome" where
  "load_tensors blob [] pool = Inr []"
| "load_tensors blob (ti # tis) pool =
     bnd (ggml_new_tensor pool (t_type (ti_t ti)) (t_ne (ti_t ti))) (\<lambda>(pool, cur, _).
     let cur = ggml_set_name cur (t_name (ti_t ti));
         cur = (case blob of None \<Rightarrow> cur | Some b \<Rightarrow> cur\<lparr>t_data := Some (drop (unat (ti_offset ti)) b)\<rparr>)
     in bnd (load_tensors blob tis pool) (\<lambda>rest. Inr (cur # rest)))"

text \<open>
  \<open>params\<close> is \<open>None\<close> when \<open>params.ctx\<close> is a null pointer, otherwise the flag \<open>no_alloc\<close>.  The
  result holds the tensors of the new \<open>ggml_context\<close>, without the blob's own tensor.
\<close>

definition gguf_init_from_file_impl ::
  "nat \<Rightarrow> bytes \<Rightarrow> bool option \<Rightarrow> (gguf_context \<times> ggml_tensor list option) outcome" where
  "gguf_init_from_file_impl mem f params =
     bnd (read_meta mem f) (\<lambda>ctx.
     case params of
       None \<Rightarrow> Inr (ctx, None)
     | Some no_alloc \<Rightarrow>
         let n_tensors = word_of_int (gguf_get_n_tensors ctx);
             mem_size = (if no_alloc then n_tensors * ggml_tensor_overhead
                         else (n_tensors + 1) * ggml_tensor_overhead + ctx_size ctx)
         in bnd (ggml_init mem mem_size no_alloc) (\<lambda>pool.
            if no_alloc then
              bnd (load_tensors None (ctx_info ctx) pool) (\<lambda>ts. Inr (ctx, Some ts))
            else
              bnd (ggml_new_tensor pool 24 [sint (ctx_size ctx)]) (\<lambda>(pool, _, dst).
              bnd (read_blob pool dst (ctx_size ctx) f (unat (ctx_offset ctx))) (\<lambda>(blob, _).
              let data = (if dst = 0 then None else Some blob) in
              bnd (load_tensors data (ctx_info ctx) (pool\<lparr>pool_no_alloc := True\<rparr>)) (\<lambda>ts.
              Inr (ctx\<lparr>ctx_data := data\<rparr>, Some ts))))))"

definition gguf_init_from_file ::
  "nat \<Rightarrow> bytes option \<Rightarrow> bool option \<Rightarrow> (gguf_context \<times> ggml_tensor list option) outcome" where
  "gguf_init_from_file mem file params =
     (case file of None \<Rightarrow> Inl Failed | Some f \<Rightarrow> gguf_init_from_file_impl mem f params)"

end
