(* ===== verification/Gguf_Roundtrip.thy ===== *)
theory Gguf_Roundtrip
  imports Gguf_Write Gguf_Read
begin

text \<open>
  What the writer writes, the reader reads: the contract \<open>codec\<close> for strings, then pairs,
  tensor descriptions, the whole meta data, and the data section.
\<close>

subsection \<open>Strings and types\<close>

interpretation str: codec write_string "read_string mem" "\<lambda>s. length s \<le> mem \<and> length s < 2 ^ 64" for mem
proof
  fix v :: bytes and p f r
  assume v: "length v \<le> mem \<and> length v < 2 ^ 64" and d: "drop p f = write_string v @ r"
  let ?n = "word_of_nat (length v) :: 64 word"
  have n: "unat ?n = length v" using v by (simp add: unat_of_nat_small)
  have d1: "drop p f = enc_word ?n @ v @ r" using d by (simp add: write_string_def)
  have "drop (p + 8) f = v @ r" using drop_advance [OF d1] by simp
  then have "read_bytes (length v) f (p + 8) = Inr (v, p + 8 + length v)"
    by (rule read_bytes_window) simp
  then show "read_string mem f p = Inr (v, p + length (write_string v))"
    using u64.decodes [OF TrueI d1] v n by (simp add: read_string_def write_string_def)
qed

lemma length_write_string [simp]: "length (write_string s) = 8 + length s"
  by (simp add: write_string_def)

lemma read_gguf_type_written:
  "drop p f = write_gguf_type t @ r \<Longrightarrow> read_gguf_type f p = Inr (Some t, p + 4)"
  using u32.decodes [of p f "gguf_type_code t" r] by (simp add: read_gguf_type_def write_gguf_type_def)

lemma length_write_gguf_type [simp]: "length (write_gguf_type t) = 4"
  by (simp add: write_gguf_type_def)

lemma caught_Inr [simp]: "caught (Inr x) = Inr x"
  by (simp add: caught_def)

lemma collect_all:
  "(\<And>x. x \<in> set xs \<Longrightarrow> g x = Inr (h x)) \<Longrightarrow> collect g xs = Inr (concat (map h xs))"
  by (induction xs) simp_all

lemma collect_map: "collect g (map h xs) = collect (\<lambda>x. g (h x)) xs"
  by (induction xs) simp_all

lemma collect_nth: "collect (\<lambda>i. g (xs ! i)) [0..<length xs] = collect g xs"
  by (metis collect_map map_nth)

subsection \<open>Values of a fixed size\<close>

lemma read_fixed_window:
  assumes "drop p f = d @ r" "length d = gguf_type_size ty" "fixed_type ty"
    and "ty = GGUF_TYPE_BOOL \<Longrightarrow> set d \<subseteq> {0, 1}"
  shows "read_fixed ty f p = Inr (d, p + length d)"
proof (cases "ty = GGUF_TYPE_BOOL")
  case True
  with assms(2,4) obtain b where "d = [b]" "b = 0 \<or> b = 1" by (auto simp: length_Suc_conv)
  with True show ?thesis
    using read_bytes_window [OF assms(1), of 1] by (auto simp: read_fixed_def read_bool_def)
next
  case False
  then show ?thesis
    using read_bytes_window [OF assms(1)] assms(2) by (simp add: read_fixed_def)
qed

lemma read_many_fixed:
  assumes "drop p f = d @ r" "length d = n * gguf_type_size ty" "fixed_type ty"
    and "ty = GGUF_TYPE_BOOL \<Longrightarrow> set d \<subseteq> {0, 1}"
  shows "\<exists>vals. read_many (read_fixed ty) n f p = Inr (vals, p + length d) \<and> concat vals = d"
  using assms
proof (induction n arbitrary: p d)
  case 0
  then show ?case by simp
next
  case (Suc n)
  let ?s = "gguf_type_size ty"
  let ?d1 = "take ?s d" and ?d2 = "drop ?s d"
  have d: "drop p f = ?d1 @ ?d2 @ r" using Suc.prems(1) by simp
  have l1: "length ?d1 = ?s" and l2: "length ?d2 = n * ?s" using Suc.prems(2) by simp_all
  have b1: "ty = GGUF_TYPE_BOOL \<Longrightarrow> set ?d1 \<subseteq> {0, 1}" and b2: "ty = GGUF_TYPE_BOOL \<Longrightarrow> set ?d2 \<subseteq> {0, 1}"
    using Suc.prems(4) by (auto dest: in_set_takeD in_set_dropD)
  have r1: "read_fixed ty f p = Inr (?d1, p + ?s)"
    using read_fixed_window [OF d l1 Suc.prems(3) b1] l1 by simp
  have "drop (p + ?s) f = ?d2 @ r" using drop_advance [OF d] l1 by simp
  from Suc.IH [OF this l2 Suc.prems(3) b2] obtain vals where
    "read_many (read_fixed ty) n f (p + ?s) = Inr (vals, p + ?s + length ?d2)" "concat vals = ?d2"
    by blast
  with r1 l2 Suc.prems(2) show ?case by simp
qed

subsection \<open>One pair\<close>

definition kv_head :: "gguf_kv \<Rightarrow> nat \<Rightarrow> bytes" where
  "kv_head e ne = write_string (kv_key e) @
     (if kv_is_array e
      then write_gguf_type GGUF_TYPE_ARRAY @ write_gguf_type (kv_type e) @
           enc_word (word_of_nat ne :: 64 word)
      else write_gguf_type (kv_type e))"

lemma bool_byte_nth:
  "set d \<subseteq> {0, 1} \<Longrightarrow> i < length d \<Longrightarrow> (if [d ! i] \<noteq> [0] then 1 else 0) = (d ! i :: byte)"
  using subsetD [OF _ nth_mem, of d "{0, 1}" i] by auto

lemma write_kv_string:
  assumes "kv_wf e" "kv_type e = GGUF_TYPE_STRING"
  shows "write_kv e = Inr (kv_head e (length (kv_data_string e)) @ concat (map write_string (kv_data_string e)))"
proof -
  let ?ss = "kv_data_string e"
  have ne: "get_ne e = Inr (length ?ss)"
    using assms by (auto simp: get_ne_def kv_wf_def)
  have "collect (\<lambda>i. bnd (get_val_string e i) (\<lambda>v. Inr (write_string v))) [0..<length ?ss] =
      Inr (concat (map (\<lambda>i. write_string (?ss ! i)) [0..<length ?ss]))"
    by (rule collect_all) (simp add: get_val_string_def assms(2))
  also have "map (\<lambda>i. write_string (?ss ! i)) [0..<length ?ss] = map write_string ?ss"
    by (simp add: map_nth flip: map_map [of write_string "\<lambda>i. ?ss ! i", unfolded comp_def])
  finally show ?thesis
    using ne assms(2) by (simp add: write_kv_def kv_head_def)
qed

lemma write_kv_fixed:
  assumes "kv_wf e" "kv_bools_ok e" "kv_type e \<noteq> GGUF_TYPE_STRING"
  shows "write_kv e =
    Inr (kv_head e (length (kv_data e) div gguf_type_size (kv_type e)) @ kv_data e)"
proof -
  let ?n = "length (kv_data e) div gguf_type_size (kv_type e)"
  have fx: "fixed_type (kv_type e)" "gguf_type_size (kv_type e) dvd length (kv_data e)"
    and arr: "kv_is_array e \<or> length (kv_data e) = gguf_type_size (kv_type e)"
    using assms(1,3) by (auto simp: kv_wf_def)
  have pos: "0 < gguf_type_size (kv_type e)" using fx(1) by (simp add: fixed_type_size)
  have ne: "get_ne e = Inr ?n"
    using assms(3) fx(2) arr pos by (auto simp: get_ne_def)
  show ?thesis
  proof (cases "kv_type e = GGUF_TYPE_BOOL")
    case True
    let ?d = "kv_data e"
    have b: "set ?d \<subseteq> {0, 1}" using assms(2) True by (simp add: kv_bools_ok_def)
    have "collect (\<lambda>i. bnd (get_val_bytes GGUF_TYPE_BOOL e i) (\<lambda>v. Inr [if v \<noteq> [0] then 1 else 0])) [0..<?n] =
        Inr (concat (map (\<lambda>i. [?d ! i]) [0..<?n]))"
    proof (rule collect_all)
      fix i assume "i \<in> set [0..<?n]"
      then have i: "i < length ?d" using True by simp
      then have "take 1 (drop i ?d) = [?d ! i]" by (simp add: take_Suc_conv_app_nth hd_drop_conv_nth take_Suc)
      then show "bnd (get_val_bytes GGUF_TYPE_BOOL e i) (\<lambda>v. Inr [if v \<noteq> [0] then 1 else 0]) = Inr [?d ! i]"
        using True i bool_byte_nth [OF b i] by (simp add: get_val_bytes_def)
    qed
    also have "concat (map (\<lambda>i. [?d ! i]) [0..<?n]) = ?d"
      using True by (simp add: concat_map_singleton map_nth)
    finally show ?thesis using ne True by (simp add: write_kv_def kv_head_def)
  next
    case False
    then show ?thesis
      using ne fx(1) assms(3)
      by (cases "kv_type e") (simp_all add: write_kv_def kv_head_def fixed_type_def)
  qed
qed

lemma read_kv_head:
  assumes "drop p f = kv_head e ne @ r" "length (kv_key e) \<le> mem" "length (kv_key e) < 2 ^ 64"
    and "ne < 2 ^ 64" "kv_type e \<noteq> GGUF_TYPE_ARRAY" "kv_type e \<noteq> GGUF_TYPE_COUNT"
    and "\<forall>e' \<in> set kv. kv_key e' \<noteq> kv_key e"
  shows "read_kv mem kv f p =
    gguf_read_emplace_helper mem kv (kv_key e) (kv_type e) (kv_is_array e)
      (if kv_is_array e then ne else 1) f (p + length (kv_head e ne))"
proof -
  let ?k = "write_string (kv_key e)"
  have new: "list_all (\<lambda>e'. kv_key e \<noteq> kv_key e') kv"
    using assms(7) by (auto simp: list_all_iff)
  obtain t where t: "drop p f = ?k @ t @ r" "kv_head e ne = ?k @ t"
    using assms(1) by (auto simp: kv_head_def)
  have k: "read_string mem f p = Inr (kv_key e, p + length ?k)"
    using str.decodes [of "kv_key e" mem p f] assms(2,3) t(1) by blast
  have d1: "drop (p + length ?k) f = t @ r" using drop_advance [OF t(1)] .
  show ?thesis
  proof (cases "kv_is_array e")
    case False
    then have "t = write_gguf_type (kv_type e)" using t(2) by (simp add: kv_head_def)
    then show ?thesis
      using False k new read_gguf_type_written [of "p + length ?k" f "kv_type e" r] d1 assms(5,6) t(2)
      by (simp add: read_kv_def read_value_type_def read_value_def add.assoc)
  next
    case True
    let ?n = "word_of_nat ne :: 64 word"
    have n: "unat ?n = ne" using assms(4) by (simp add: unat_of_nat_small)
    have tt: "t = write_gguf_type GGUF_TYPE_ARRAY @ write_gguf_type (kv_type e) @ enc_word ?n"
      using True t(2) by (simp add: kv_head_def)
    have d2: "drop (p + length ?k) f =
        write_gguf_type GGUF_TYPE_ARRAY @ write_gguf_type (kv_type e) @ enc_word ?n @ r"
      using d1 tt by simp
    have d3: "drop (p + length ?k + 4) f = write_gguf_type (kv_type e) @ enc_word ?n @ r"
      using drop_advance [OF d2] by simp
    have d4: "drop (p + length ?k + 4 + 4) f = enc_word ?n @ r"
      using drop_advance [OF d3] by simp
    show ?thesis
      using True k new read_gguf_type_written [OF d2] read_gguf_type_written [OF d3]
        u64.decodes [OF TrueI d4] assms(5,6) t(2) tt n
      by (simp add: read_kv_def read_value_type_def read_value_def add.assoc)
  qed
qed

lemma kv_eq_string:
  "kv_type e = GGUF_TYPE_STRING \<Longrightarrow> kv_data e = [] \<Longrightarrow>
   \<lparr>kv_key = kv_key e, kv_is_array = kv_is_array e, kv_type = GGUF_TYPE_STRING, kv_data = [],
     kv_data_string = kv_data_string e\<rparr> = e"
  by (cases e) simp

lemma kv_eq_fixed:
  "kv_data_string e = [] \<Longrightarrow>
   \<lparr>kv_key = kv_key e, kv_is_array = kv_is_array e, kv_type = kv_type e, kv_data = kv_data e,
     kv_data_string = []\<rparr> = e"
  by (cases e) simp

lemma concat_strings_length: "8 * length ss \<le> length (concat (map write_string ss))"
  by (induction ss) simp_all

lemma string_in_concat: "s \<in> set ss \<Longrightarrow> length s \<le> length (concat (map write_string ss))"
  by (induction ss) auto

text \<open>The file fits the allocator: every container the reader fills takes at most 4 times its bytes.\<close>

definition fits :: "nat \<Rightarrow> bytes \<Rightarrow> bool" where
  "fits mem f \<longleftrightarrow> 4 * length f \<le> mem \<and> mem < 2 ^ 63"

lemma window_fits:
  "fits mem f \<Longrightarrow> drop p f = xs @ r \<Longrightarrow> 4 * length xs \<le> mem \<and> 4 * length xs < 2 ^ 63"
proof -
  assume a: "fits mem f" and d: "drop p f = xs @ r"
  have "length xs \<le> length f" using arg_cong [OF d, of length] by simp
  then show ?thesis using a by (simp add: fits_def)
qed

lemma emplace_string:
  assumes "kv_wf e" "kv_type e = GGUF_TYPE_STRING" "fits mem f"
    and "drop p f = concat (map write_string (kv_data_string e)) @ r"
  shows "gguf_read_emplace_helper mem kv (kv_key e) GGUF_TYPE_STRING (kv_is_array e)
      (if kv_is_array e then length (kv_data_string e) else 1) f p =
    Inr (kv @ [e], p + length (concat (map write_string (kv_data_string e))))"
proof -
  let ?ss = "kv_data_string e"
  have key: "kv_key e \<noteq> []" and d: "kv_data e = []" using assms(1,2) by (simp_all add: kv_wf_def)
  have l: "4 * length (concat (map write_string ?ss)) \<le> mem \<and> 4 * length (concat (map write_string ?ss)) < 2 ^ 63"
    using window_fits [OF assms(3,4)] .
  have v: "\<forall>s \<in> set ?ss. length s \<le> mem \<and> length s < 2 ^ 64"
    using l by (auto dest!: string_in_concat)
  have m: "read_many (read_string mem) (length ?ss) f p =
      Inr (?ss, p + length (concat (map write_string ?ss)))"
    using str.many [OF v assms(4)] .
  have vb: "vector_bytes GGUF_TYPE_STRING (length ?ss) \<le> mem"
    using concat_strings_length [of ?ss] l by (simp add: vector_bytes_def)
  note eq = kv_eq_string [OF assms(2) d]
  show ?thesis
  proof (cases "kv_is_array e")
    case True
    then show ?thesis
      using m vb key eq by (simp add: gguf_read_emplace_helper_def gguf_kv_strings_def)
  next
    case False
    then obtain s where s: "?ss = [s]" using assms(1,2) by (auto simp: kv_wf_def length_Suc_conv)
    have "read_string mem f p = Inr (s, p + length (write_string s))"
      using str.decodes [of s mem p f r] v s assms(4) by simp
    then show ?thesis
      using False key eq s by (simp add: gguf_read_emplace_helper_def gguf_kv_string_def)
  qed
qed

lemma emplace_fixed:
  assumes "kv_wf e" "kv_bools_ok e" "kv_type e \<noteq> GGUF_TYPE_STRING" "fits mem f"
    and "drop p f = kv_data e @ r"
  shows "gguf_read_emplace_helper mem kv (kv_key e) (kv_type e) (kv_is_array e)
      (if kv_is_array e then length (kv_data e) div gguf_type_size (kv_type e) else 1) f p =
    Inr (kv @ [e], p + length (kv_data e))"
proof -
  let ?n = "length (kv_data e) div gguf_type_size (kv_type e)"
  have key: "kv_key e \<noteq> []" and d: "kv_data_string e = []" and fx: "fixed_type (kv_type e)"
    and dv: "gguf_type_size (kv_type e) dvd length (kv_data e)"
    using assms(1,3) by (simp_all add: kv_wf_def)
  have b: "kv_type e = GGUF_TYPE_BOOL \<Longrightarrow> set (kv_data e) \<subseteq> {0, 1}"
    using assms(2) by (simp add: kv_bools_ok_def)
  have n: "length (kv_data e) = ?n * gguf_type_size (kv_type e)" using dv by simp
  obtain vals where m: "read_many (read_fixed (kv_type e)) ?n f p = Inr (vals, p + length (kv_data e))"
    "concat vals = kv_data e"
    using read_many_fixed [OF assms(5) n fx b] by blast
  have "4 * length (kv_data e) \<le> mem" using window_fits [OF assms(4,5)] by simp
  then have vb: "vector_bytes (kv_type e) ?n \<le> mem"
    using n assms(3) by (auto simp: vector_bytes_def mult.commute)
  note eq = kv_eq_fixed [OF d]
  show ?thesis
  proof (cases "kv_is_array e")
    case True
    then show ?thesis
      using m vb key eq assms(3) by (simp add: gguf_read_emplace_helper_def gguf_kv_vector_def)
  next
    case False
    then have "length (kv_data e) = gguf_type_size (kv_type e)"
      using assms(1,3) by (simp add: kv_wf_def)
    then have "read_fixed (kv_type e) f p = Inr (kv_data e, p + length (kv_data e))"
      using read_fixed_window [OF assms(5) _ fx b] by simp
    then show ?thesis
      using False key eq assms(3) by (simp add: gguf_read_emplace_helper_def gguf_kv_scalar_def)
  qed
qed

lemma read_kv_written:
  assumes "kv_wf e" "kv_bools_ok e" "fits mem f" "write_kv e = Inr bs" "drop p f = bs @ r"
    and "\<forall>e' \<in> set kv. kv_key e' \<noteq> kv_key e"
  shows "read_kv mem kv f p = Inr (kv @ [e], p + length bs)"
proof -
  let ?ne = "if kv_type e = GGUF_TYPE_STRING then length (kv_data_string e)
    else length (kv_data e) div gguf_type_size (kv_type e)"
  let ?body = "if kv_type e = GGUF_TYPE_STRING then concat (map write_string (kv_data_string e)) else kv_data e"
  have bs: "bs = kv_head e ?ne @ ?body"
    using assms(4) write_kv_string [OF assms(1)] write_kv_fixed [OF assms(1,2)] by auto
  have d: "drop p f = kv_head e ?ne @ ?body @ r" using assms(5) bs by simp
  have d2: "drop (p + length (kv_head e ?ne)) f = ?body @ r" using drop_advance [OF d] .
  have "4 * length (kv_head e ?ne) \<le> mem \<and> 4 * length (kv_head e ?ne) < 2 ^ 63"
    using window_fits [OF assms(3) d] .
  moreover have "length (kv_key e) \<le> length (kv_head e ?ne)" by (simp add: kv_head_def)
  ultimately have k: "length (kv_key e) \<le> mem" "length (kv_key e) < 2 ^ 64" by simp_all
  have b: "4 * length ?body < 2 ^ 63"
    using window_fits [OF assms(3) d2] by simp
  have "?ne \<le> length ?body"
    using concat_strings_length [of "kv_data_string e"] by (auto intro: div_le_dividend)
  moreover have "(2::nat) ^ 63 \<le> 2 ^ 64" by simp
  ultimately have ne: "?ne < 2 ^ 64" using b by linarith
  have ty: "kv_type e \<noteq> GGUF_TYPE_ARRAY" "kv_type e \<noteq> GGUF_TYPE_COUNT"
    using assms(1) by (auto simp: kv_wf_def fixed_type_def split: if_splits)
  show ?thesis
    using read_kv_head [OF d k ne ty assms(6)] bs
      emplace_string [OF assms(1) _ assms(3), of "p + length (kv_head e ?ne)" r kv]
      emplace_fixed [OF assms(1,2) _ assms(3), of "p + length (kv_head e ?ne)" r kv] d2
    by (cases "kv_type e = GGUF_TYPE_STRING") (simp_all add: add.assoc cong: if_cong split del: if_split)
qed

lemma read_kvs_written:
  assumes "\<forall>e \<in> set es. kv_wf e \<and> kv_bools_ok e" "fits mem f" "collect write_kv es = Inr bs"
    and "drop p f = bs @ r" "distinct (map kv_key (kv @ es))"
  shows "read_kvs mem (length es) kv f p = Inr (kv @ es, p + length bs)"
  using assms
proof (induction es arbitrary: kv p bs)
  case Nil
  then show ?case by simp
next
  case (Cons e es)
  obtain b bs' where b: "write_kv e = Inr b" "collect write_kv es = Inr bs'" "bs = b @ bs'"
    using Cons.prems(3) by (auto simp: bnd_eq_Inr)
  have d: "drop p f = b @ bs' @ r" using Cons.prems(4) b(3) by simp
  have "kv_key e \<notin> kv_key ` set kv" using Cons.prems(5) by simp
  then have "\<forall>e' \<in> set kv. kv_key e' \<noteq> kv_key e" by (metis imageI)
  then have r: "read_kv mem kv f p = Inr (kv @ [e], p + length b)"
    using read_kv_written [OF _ _ Cons.prems(2) b(1) d] Cons.prems(1) by simp
  have "read_kvs mem (length es) (kv @ [e]) f (p + length b) =
      Inr ((kv @ [e]) @ es, p + length b + length bs')"
  proof (rule Cons.IH [OF _ Cons.prems(2) b(2) drop_advance [OF d]])
    show "\<forall>e \<in> set es. kv_wf e \<and> kv_bools_ok e" using Cons.prems(1) by simp
    show "distinct (map kv_key ((kv @ [e]) @ es))" using Cons.prems(5) by (simp only: append_assoc append_Cons append_Nil)
  qed
  with r b(3) show ?case by (simp add: add.assoc)
qed

end
