(* ===== verification/Gguf_File.thy ===== *)
theory Gguf_File
  imports Gguf_Roundtrip
begin

text \<open>
  The round trip of a whole GGUF file: tensor descriptions, meta data, and the data section
  that the reader loads into a memory pool.
\<close>

subsection \<open>Tensor descriptions\<close>

text \<open>A tensor whose description the reader accepts.\<close>

definition tensor_ok :: "ggml_tensor \<Rightarrow> bool" where
  "tensor_ok t \<longleftrightarrow>
     length (c_str (t_name t)) < GGML_MAX_NAME \<and> t_type t < GGML_TYPE_COUNT \<and>
     length (t_ne t) = GGML_MAX_DIMS \<and> 0 \<le> t_ne t ! 0 \<and>
     0 < t_ne t ! 1 \<and> 0 < t_ne t ! 2 \<and> 0 < t_ne t ! 3 \<and>
     ggml_blck_size (t_type t) \<noteq> 0 \<and> c_mod (t_ne t ! 0) (ggml_blck_size (t_type t)) = 0 \<and>
     check_elements (t_ne t) = Inr () \<and> t_nb t = row_strides (t_type t) (t_ne t)"

text \<open>What is left of a description in the file: everything but the pointer to the data.\<close>

definition described :: "gguf_tensor_info \<Rightarrow> gguf_tensor_info" where
  "described ti = ti\<lparr>ti_t := (ti_t ti)\<lparr>t_name := c_str (t_name (ti_t ti)), t_data := None\<rparr>\<rparr>"

lemma described_sel [simp]:
  "ti_offset (described ti) = ti_offset ti"
  "ggml_nbytes (ti_t (described ti)) = ggml_nbytes (ti_t ti)"
  "c_str (t_name (ti_t (described ti))) = c_str (t_name (ti_t ti))"
  by (simp_all add: described_def ggml_nbytes_def)

lemma four_dims: "length ne = GGML_MAX_DIMS \<Longrightarrow> \<exists>a b c d. ne = [a, b, c, d]"
  by (auto simp: GGML_MAX_DIMS_def numeral_eq_Suc length_Suc_conv)

lemma check_elements_bounds:
  assumes "check_elements [a, b, c, d] = Inr ()" "0 \<le> a" "0 < b" "0 < c" "0 < d"
  shows "a < 2 ^ 63 \<and> b < 2 ^ 63 \<and> c < 2 ^ 63 \<and> d < 2 ^ 63"
proof -
  have q: "a < INT64_MAX div b" "a * b < INT64_MAX div c" "a * b * c < INT64_MAX div d"
    using assms by (simp_all add: check_elements_def too_many_def bnd_ensure c_div_nonneg split: if_splits)
  have le: "x \<le> INT64_MAX" if "y < INT64_MAX div x" "0 \<le> y" "0 < x" for x y :: int
    using that by (metis div_pos_pos_trivial leD less_le_not_le linorder_not_le zero_le_numeral)
  have "INT64_MAX div b \<le> INT64_MAX" using int_div_less_self [of INT64_MAX b] assms(3) by (cases "b = 1") simp_all
  then have "a < INT64_MAX" using q(1) by linarith
  moreover have "b \<le> INT64_MAX" "c \<le> INT64_MAX" "d \<le> INT64_MAX"
    using le [OF q(1)] le [OF q(2)] le [OF q(3)] assms by simp_all
  ultimately show ?thesis by simp
qed

lemma sint_word_of_int_small: "0 \<le> d \<Longrightarrow> d < 2 ^ 63 \<Longrightarrow> sint (word_of_int d :: 64 word) = d"
  by (simp add: signed_of_int signed_take_bit_int_eq_self)

lemma read_dims_written:
  assumes "length ds = left" "k \<le> left" "\<forall>d \<in> set (take k ds). 0 \<le> d \<and> d < 2 ^ 63"
    and "drop k ds = replicate (left - k) 1"
    and "drop p f = concat (map (\<lambda>d. enc_word (word_of_int d :: 64 word)) (take k ds)) @ r"
  shows "read_dims left k f p = Inr (ds, p + 8 * k)"
  using assms
proof (induction left arbitrary: ds k p)
  case 0
  then show ?case by simp
next
  case (Suc left)
  then obtain d ds' where ds: "ds = d # ds'" by (cases ds) auto
  show ?case
  proof (cases k)
    case 0
    then have "d = 1" "ds' = replicate left 1" using Suc.prems(4) ds by simp_all
    with Suc.IH [of ds' 0 p] Suc.prems 0 ds show ?thesis by simp
  next
    case (Suc k')
    have dd: "drop p f = enc_word (word_of_int d :: 64 word) @
        concat (map (\<lambda>d. enc_word (word_of_int d :: 64 word)) (take k' ds')) @ r"
      using Suc.prems(5) ds Suc by simp
    have d: "0 \<le> d" "d < 2 ^ 63" using Suc.prems(3) ds Suc by simp_all
    have w: "read_word f p = Inr (word_of_int d :: 64 word, p + 8)"
      using u64.decodes [OF TrueI dd] by simp
    have "read_dims left k' f (p + 8) = Inr (ds', p + 8 + 8 * k')"
    proof (rule Suc.IH)
      show "drop (p + 8) f = concat (map (\<lambda>d. enc_word (word_of_int d :: 64 word)) (take k' ds')) @ r"
        using drop_advance [OF dd] by simp
    qed (use Suc.prems ds Suc in simp_all)
    then show ?thesis
      using Suc w d ds by (simp add: sint_word_of_int_small)
  qed
qed

lemma n_dims_trailing:
  assumes "0 \<le> a" "0 < b" "0 < c" "0 < d" "t_ne t = [a, b, c, d]"
  shows "ggml_n_dims t \<le> 4 \<and> drop (ggml_n_dims t) (t_ne t) = replicate (4 - ggml_n_dims t) 1"
  using assms by (auto simp: ggml_n_dims_def numeral_eq_Suc)

lemma read_info_written:
  assumes "tensor_ok (ti_t ti)" "fits mem f" "drop p f = write_tensor_meta ti @ r"
    and "tensor_key ti \<notin> tensor_key ` set infos"
  shows "read_info mem infos f p = Inr (described ti, p + length (write_tensor_meta ti))"
proof -
  let ?t = "ti_t ti"
  let ?name = "c_str (t_name ?t)" and ?nd = "ggml_n_dims ?t" and ?ne = "t_ne ?t"
  let ?dims = "concat (map (\<lambda>d. enc_word (word_of_int d :: 64 word)) (take ?nd ?ne))"
  let ?nd' = "word_of_nat ?nd :: 32 word" and ?ty' = "word_of_nat (t_type ?t) :: 32 word"
  have ok: "length ?name < GGML_MAX_NAME" "t_type ?t < GGML_TYPE_COUNT" "length ?ne = GGML_MAX_DIMS"
    "ggml_blck_size (t_type ?t) \<noteq> 0" "c_mod (?ne ! 0) (ggml_blck_size (t_type ?t)) = 0"
    "check_elements ?ne = Inr ()" "t_nb ?t = row_strides (t_type ?t) ?ne"
    and pos: "0 \<le> ?ne ! 0" "0 < ?ne ! 1" "0 < ?ne ! 2" "0 < ?ne ! 3"
    using assms(1) by (simp_all add: tensor_ok_def)
  obtain a b c d where ne: "?ne = [a, b, c, d]" using four_dims [OF ok(3)] by blast
  have p4: "0 \<le> a" "0 < b" "0 < c" "0 < d" using pos ne by simp_all
  have bd: "a < 2 ^ 63 \<and> b < 2 ^ 63 \<and> c < 2 ^ 63 \<and> d < 2 ^ 63"
    using check_elements_bounds [OF _ p4] ok(6) ne by simp
  have nd: "?nd \<le> 4" "drop ?nd ?ne = replicate (4 - ?nd) 1"
    using n_dims_trailing [OF p4 ne] by simp_all
  have range: "\<forall>d \<in> set (take ?nd ?ne). 0 \<le> d \<and> d < 2 ^ 63"
  proof
    fix x assume "x \<in> set (take ?nd ?ne)"
    then have "x \<in> set ?ne" by (rule in_set_takeD)
    then show "0 \<le> x \<and> x < 2 ^ 63" using ne p4 bd by auto
  qed
  have d0: "drop p f = write_string ?name @ enc_word ?nd' @ ?dims @ enc_word ?ty' @ enc_word (ti_offset ti) @ r"
    using assms(3) by (simp add: write_tensor_meta_def Let_def)
  let ?p1 = "p + length (write_string ?name)"
  have d1: "drop ?p1 f = enc_word ?nd' @ ?dims @ enc_word ?ty' @ enc_word (ti_offset ti) @ r"
    using drop_advance [OF d0] .
  have d2: "drop (?p1 + 4) f = ?dims @ enc_word ?ty' @ enc_word (ti_offset ti) @ r"
    using drop_advance [OF d1] by simp
  have dl: "length ?dims = 8 * ?nd"
    using nd(1) ne by (simp add: length_concat comp_def sum_list_triv)
  have d3: "drop (?p1 + 4 + 8 * ?nd) f = enc_word ?ty' @ enc_word (ti_offset ti) @ r"
    using drop_advance [OF d2] dl by simp
  have d4: "drop (?p1 + 4 + 8 * ?nd + 4) f = enc_word (ti_offset ti) @ r"
    using drop_advance [OF d3] by simp
  have "length (write_string ?name) \<le> mem"
    using window_fits [OF assms(2) d0] by linarith
  then have r0: "read_string mem f p = Inr (?name, ?p1)"
    using str.decodes [of ?name mem p f] d0 ok(1) by (simp add: GGML_MAX_NAME_def)
  have r1: "read_word f ?p1 = Inr (?nd', ?p1 + 4)" using u32.decodes [OF TrueI d1] by simp
  have r2: "read_dims GGML_MAX_DIMS ?nd f (?p1 + 4) = Inr (?ne, ?p1 + 4 + 8 * ?nd)"
    using read_dims_written [OF ok(3) _ range _ d2] nd by (simp add: GGML_MAX_DIMS_def)
  have r3: "read_word f (?p1 + 4 + 8 * ?nd) = Inr (?ty', ?p1 + 4 + 8 * ?nd + 4)"
    using u32.decodes [OF TrueI d3] by simp
  have r4: "read_word f (?p1 + 4 + 8 * ?nd + 4) = Inr (ti_offset ti, ?p1 + 4 + 8 * ?nd + 4 + 8)"
    using u64.decodes [OF TrueI d4] by simp
  have u: "unat ?nd' = ?nd" "unat ?ty' = t_type ?t"
    using nd(1) ok(2) by (simp_all add: unat_of_nat_small GGML_TYPE_COUNT_def)
  have nm: "take (GGML_MAX_NAME - 1) ?name = ?name" using ok(1) by simp
  have new: "list_all (\<lambda>ti'. ?name \<noteq> c_str (t_name (ti_t ti'))) infos"
    using assms(4) by (auto simp: list_all_iff tensor_key_def image_iff)
  have eq: "\<lparr>ti_t = \<lparr>t_name = ?name, t_type = t_type ?t, t_ne = ?ne, t_nb = row_strides (t_type ?t) ?ne,
      t_data = None\<rparr>, ti_offset = ti_offset ti\<rparr> = described ti"
    using ok(7) by (cases ti, cases ?t) (simp add: described_def)
  have len: "length (write_tensor_meta ti) = length (write_string ?name) + 4 + 8 * ?nd + 4 + 8"
    using dl by (simp add: write_tensor_meta_def Let_def)
  show ?thesis
    using r0 r1 r2 r3 r4 u nm new ok(1,2,4,5,6) nd(1) eq len
    by (simp add: read_info_def Let_def GGML_MAX_DIMS_def add.assoc)
qed

lemma read_infos_written:
  assumes "\<forall>ti \<in> set tis. tensor_ok (ti_t ti)" "fits mem f"
    and "drop p f = concat (map write_tensor_meta tis) @ r"
    and "distinct (map tensor_key (infos @ tis))"
  shows "read_infos mem (length tis) infos f p =
    Inr (infos @ map described tis, p + length (concat (map write_tensor_meta tis)))"
  using assms
proof (induction tis arbitrary: infos p)
  case Nil
  then show ?case by simp
next
  case (Cons ti tis)
  have d: "drop p f = write_tensor_meta ti @ concat (map write_tensor_meta tis) @ r"
    using Cons.prems(3) by simp
  have k: "tensor_key (described ti) = tensor_key ti" by (simp add: tensor_key_def)
  have "read_info mem infos f p = Inr (described ti, p + length (write_tensor_meta ti))"
    using read_info_written [OF _ Cons.prems(2) d, of infos] Cons.prems(1,4) by simp
  moreover have "read_infos mem (length tis) (infos @ [described ti]) f (p + length (write_tensor_meta ti)) =
      Inr ((infos @ [described ti]) @ map described tis,
           p + length (write_tensor_meta ti) + length (concat (map write_tensor_meta tis)))"
  proof (rule Cons.IH [OF _ Cons.prems(2) drop_advance [OF d]])
    show "\<forall>ti \<in> set tis. tensor_ok (ti_t ti)" using Cons.prems(1) by simp
    show "distinct (map tensor_key ((infos @ [described ti]) @ tis))" using Cons.prems(4) k by simp
  qed
  ultimately show ?case by (simp add: add.assoc)
qed

subsection \<open>The data section's size\<close>

lemma no_size_overflow:
  "unat a + unat b < 2 ^ 64 \<Longrightarrow> \<not> SIZE_MAX - a < b" for a b :: size_t
proof -
  assume "unat a + unat b < 2 ^ 64"
  moreover have "unat (SIZE_MAX - a) = unat SIZE_MAX - unat a"
    by (rule unat_sub) simp
  moreover have "unat SIZE_MAX = 2 ^ 64 - 1" by (simp add: unsigned_minus_1_eq_mask mask_eq_exp_minus_1)
  ultimately show ?thesis by (simp add: word_less_nat_alt)
qed

lemma data_size_layout:
  assumes "layout_ok al acc tis"
    and "unat acc + sum_list (map (\<lambda>ti. unat (ggml_pad (ggml_nbytes (ti_t ti)) al)) tis) < 2 ^ 64"
  shows "data_size al acc tis = Inr (layout_end al acc tis)"
  using assms
proof (induction tis arbitrary: acc)
  case Nil
  then show ?case by simp
next
  case (Cons ti tis)
  let ?p = "ggml_pad (ggml_nbytes (ti_t ti)) al"
  have lt: "unat acc + unat ?p < 2 ^ 64" using Cons.prems(2) by simp
  then have "unat (acc + ?p) = unat acc + unat ?p" by (intro unat_add_small) simp
  then have "data_size al (acc + ?p) tis = Inr (layout_end al (acc + ?p) tis)"
    using Cons.IH Cons.prems by simp
  then show ?case using Cons.prems(1) no_size_overflow [OF lt] by (simp add: Let_def)
qed

lemma layout_described:
  "layout_ok al acc (map described tis) = layout_ok al acc tis"
  "layout_end al acc (map described tis) = layout_end al acc tis"
  by (induction tis arbitrary: acc) simp_all

lemma layout_end_nat:
  assumes "unat acc + sum_list (map (\<lambda>ti. unat (ggml_pad (ggml_nbytes (ti_t ti)) al)) tis) < 2 ^ 64"
  shows "unat (layout_end al acc tis) =
    unat acc + sum_list (map (\<lambda>ti. unat (ggml_pad (ggml_nbytes (ti_t ti)) al)) tis)"
  using assms
proof (induction tis arbitrary: acc)
  case Nil
  then show ?case by simp
next
  case (Cons ti tis)
  let ?p = "ggml_pad (ggml_nbytes (ti_t ti)) al"
  have "unat (acc + ?p) = unat acc + unat ?p" using Cons.prems by (intro unat_add_small) simp
  then show ?case using Cons.IH [of "acc + ?p"] Cons.prems by simp
qed

subsection \<open>Padding a buffer\<close>

lemma pad_loop_replicate:
  "0 < al \<Longrightarrow> pad_loop al buf = buf @ replicate ((al - length buf mod al) mod al) 0"
proof (induction al buf rule: pad_loop.induct)
  case (1 al buf)
  show ?case
  proof (cases "length buf mod al = 0")
    case True
    then show ?thesis using 1 by (simp add: pad_loop.simps [of al buf])
  next
    case False
    have l: "length buf mod al < al" using 1(2) by simp
    have IH: "pad_loop al (buf @ [0]) =
        (buf @ [0]) @ replicate ((al - Suc (length buf) mod al) mod al) 0"
      using 1 False by simp
    have "(al - length buf mod al) mod al = Suc ((al - Suc (length buf) mod al) mod al)"
    proof (cases "Suc (length buf mod al) = al")
      case True
      then have "Suc (length buf) mod al = 0" by (simp add: mod_Suc)
      moreover have "al - length buf mod al = 1" using True by simp
      ultimately show ?thesis using False l by (cases "al = 1") simp_all
    next
      case False2: False
      then have "Suc (length buf) mod al = Suc (length buf mod al)" by (simp add: mod_Suc)
      then show ?thesis using False False2 l by simp
    qed
    then show ?thesis using IH 1(2) False by (simp add: pad_loop.simps [of al buf])
  qed
qed

lemma length_pad_loop:
  "0 < al \<Longrightarrow> length (pad_loop al buf) = (length buf + al - 1) div al * al"
  by (simp add: pad_loop_replicate round_up)

lemma pad_Inr: "is_pow2 al \<Longrightarrow> pad al buf = Inr (pad_loop (unat al) buf)"
  by (simp add: pad_def is_pow2_def)

lemma ggml_pad_length:
  assumes "is_pow2 al" "length buf + unat al \<le> 2 ^ 64"
  shows "unat (ggml_pad (word_of_nat (length buf)) al) = length (pad_loop (unat al) buf)"
proof -
  obtain k where k: "k < 64" "al = 2 ^ k" "unat al = 2 ^ k" using assms(1) by (rule is_pow2_exp)
  have "0 < unat al" using k(3) by simp
  then have "unat (word_of_nat (length buf) :: size_t) = length buf"
    using assms(2) by (intro unat_of_nat_small) simp
  then show ?thesis
    using unat_ggml_pad [OF k(1), of "word_of_nat (length buf)"] assms(2) k(3) \<open>0 < unat al\<close>
    by (simp add: length_pad_loop flip: k(2))
qed

subsection \<open>The meta data\<close>

text \<open>
  The alignment of the context is the one the reader will find: the value at the reserved key,
  or the default.
\<close>

definition alignment_agrees :: "gguf_context \<Rightarrow> bool" where
  "alignment_agrees ctx \<longleftrightarrow>
     (let idx = gguf_find_key ctx GGUF_KEY_GENERAL_ALIGNMENT in
      if idx = -1 then ctx_alignment ctx = GGUF_DEFAULT_ALIGNMENT
      else bnd (gguf_get_val_u32 ctx idx) (\<lambda>v. Inr (ucast v)) = Inr (ctx_alignment ctx))"

text \<open>A context whose file the reader can read back.\<close>

definition writable :: "gguf_context \<Rightarrow> bool" where
  "writable ctx \<longleftrightarrow>
     ctx_inv ctx \<and> ctx_version ctx \<in> {2, 3} \<and> (\<forall>e \<in> set (ctx_kv ctx). kv_bools_ok e) \<and>
     is_pow2 (ctx_alignment ctx) \<and> unat (ctx_alignment ctx) < 2 ^ 32 \<and> alignment_agrees ctx \<and>
     (\<forall>ti \<in> set (ctx_info ctx). tensor_ok (ti_t ti)) \<and>
     sizes_fit (ctx_alignment ctx) (ctx_info ctx) \<and>
     gguf_get_n_tensors ctx \<le> max_n_tensors \<and> gguf_get_n_kv ctx \<le> max_n_kv"

definition kv_bytes :: "gguf_context \<Rightarrow> bytes" where
  "kv_bytes ctx = (case collect write_kv (ctx_kv ctx) of Inr b \<Rightarrow> b | Inl _ \<Rightarrow> [])"

text \<open>The meta data before padding, and with it.\<close>

definition meta_bytes :: "gguf_context \<Rightarrow> bytes" where
  "meta_bytes ctx =
     GGUF_MAGIC @ enc_word (ctx_version ctx) @
     enc_word (word_of_int (gguf_get_n_tensors ctx) :: 64 word) @
     enc_word (word_of_int (gguf_get_n_kv ctx) :: 64 word) @
     kv_bytes ctx @ concat (map write_tensor_meta (ctx_info ctx))"

definition meta_padded :: "gguf_context \<Rightarrow> bytes" where
  "meta_padded ctx = pad_loop (unat (ctx_alignment ctx)) (meta_bytes ctx)"

lemma collect_writable:
  assumes "\<forall>e \<in> set es. kv_wf e \<and> kv_bools_ok e"
  shows "\<exists>bs. collect write_kv es = Inr bs"
  using assms
proof (induction es)
  case (Cons e es)
  then show ?case using write_kv_string [of e] write_kv_fixed [of e] by fastforce
qed simp

lemma kv_bytes_written:
  "writable ctx \<Longrightarrow> collect write_kv (ctx_kv ctx) = Inr (kv_bytes ctx)"
  using collect_writable [of "ctx_kv ctx"] by (auto simp: kv_bytes_def writable_def ctx_inv_def)

lemma write_meta:
  assumes "writable ctx"
  shows "gguf_write_to_buf ctx [] True = Inr (meta_padded ctx)"
proof -
  have "collect (\<lambda>i. write_kv (ctx_kv ctx ! i)) [0..<length (ctx_kv ctx)] = Inr (kv_bytes ctx)"
    using kv_bytes_written [OF assms] by (simp add: collect_nth)
  moreover have "is_pow2 (ctx_alignment ctx)" using assms by (simp add: writable_def)
  ultimately show ?thesis
    by (simp add: gguf_write_to_buf_def Let_def gguf_get_n_kv_def pad_Inr meta_padded_def meta_bytes_def)
qed

lemma write_all:
  assumes "writable ctx"
  shows "gguf_write_to_buf ctx [] only_meta =
    (if only_meta then Inr (meta_padded ctx)
     else each_outcome (\<lambda>info. write_tensor_data info (length (meta_padded ctx)) (ctx_alignment ctx))
            (ctx_info ctx) (meta_padded ctx))"
proof -
  have "collect (\<lambda>i. write_kv (ctx_kv ctx ! i)) [0..<length (ctx_kv ctx)] = Inr (kv_bytes ctx)"
    using kv_bytes_written [OF assms] by (simp add: collect_nth)
  moreover have "is_pow2 (ctx_alignment ctx)" using assms by (simp add: writable_def)
  ultimately show ?thesis
    by (simp add: gguf_write_to_buf_def Let_def gguf_get_n_kv_def pad_Inr meta_padded_def meta_bytes_def)
qed

lemma read_header_written:
  assumes "writable ctx"
    and "drop p f = enc_word (ctx_version ctx) @
      enc_word (word_of_int (gguf_get_n_tensors ctx) :: 64 word) @
      enc_word (word_of_int (gguf_get_n_kv ctx) :: 64 word) @ r"
  shows "read_header f p =
    Inr ((ctx_version ctx, length (ctx_info ctx), length (ctx_kv ctx)), p + 20)"
proof -
  let ?nt = "gguf_get_n_tensors ctx" and ?nk = "gguf_get_n_kv ctx"
  have b: "0 \<le> ?nt" "?nt \<le> max_n_tensors" "0 \<le> ?nk" "?nk \<le> max_n_kv"
    using assms(1) by (simp_all add: writable_def gguf_get_n_tensors_def gguf_get_n_kv_def)
  then have s: "sint (word_of_int ?nt :: 64 word) = ?nt" "sint (word_of_int ?nk :: 64 word) = ?nk"
    by (intro sint_word_of_int_small; simp add: max_n_tensors_def max_n_kv_def)+
  have v: "ctx_version ctx \<noteq> 0" "ctx_version ctx AND 0xFFFF \<noteq> 0" "ctx_version ctx \<noteq> 1"
    "\<not> ctx_version ctx > GGUF_VERSION"
    using assms(1) by (auto simp: writable_def GGUF_VERSION_def)
  have d1: "drop (p + 4) f = enc_word (word_of_int ?nt :: 64 word) @ enc_word (word_of_int ?nk :: 64 word) @ r"
    using drop_advance [OF assms(2)] by simp
  have d2: "drop (p + 4 + 8) f = enc_word (word_of_int ?nk :: 64 word) @ r"
    using drop_advance [OF d1] by simp
  show ?thesis
    using u32.decodes [OF TrueI assms(2)] u64.decodes [OF TrueI d1] u64.decodes [OF TrueI d2] s v b
    by (simp add: read_header_def gguf_get_n_tensors_def gguf_get_n_kv_def)
qed

lemma read_alignment_written:
  assumes "writable ctx" "ctx_kv c = ctx_kv ctx"
  shows "read_alignment c = Inr (c\<lparr>ctx_alignment := ctx_alignment ctx\<rparr>)"
proof -
  have f: "gguf_find_key c key = gguf_find_key ctx key" for key
    using assms(2) by (simp add: gguf_find_key_def)
  have g: "gguf_get_val_u32 c i = gguf_get_val_u32 ctx i" for i
    using assms(2) by (simp add: gguf_get_val_u32_def get_scalar_def kv_at_def gguf_get_n_kv_def)
  have "is_pow2 (ctx_alignment ctx)" "alignment_agrees ctx"
    using assms(1) by (simp_all add: writable_def)
  then show ?thesis
    by (simp add: read_alignment_def alignment_agrees_def is_pow2_def f g Let_def split: if_splits)
qed

definition as_read :: "gguf_context \<Rightarrow> gguf_context" where
  "as_read ctx = ctx\<lparr>ctx_info := map described (ctx_info ctx),
     ctx_offset := word_of_nat (length (meta_padded ctx)),
     ctx_size := layout_end (ctx_alignment ctx) 0 (ctx_info ctx), ctx_data := None\<rparr>"

lemma read_meta_written:
  assumes "writable ctx" "fits mem f" "f = meta_bytes ctx @ r"
  shows "read_meta mem f = Inr (as_read ctx)"
proof -
  let ?al = "ctx_alignment ctx" and ?nt = "gguf_get_n_tensors ctx" and ?nk = "gguf_get_n_kv ctx"
  let ?metas = "concat (map write_tensor_meta (ctx_info ctx))"
  let ?c0 = "gguf_init_empty\<lparr>ctx_version := ctx_version ctx, ctx_kv := ctx_kv ctx\<rparr>"
  let ?hdr = "enc_word (ctx_version ctx) @ enc_word (word_of_int ?nt :: 64 word) @
      enc_word (word_of_int ?nk :: 64 word)"
  have wf: "\<forall>e \<in> set (ctx_kv ctx). kv_wf e \<and> kv_bools_ok e" "\<forall>ti \<in> set (ctx_info ctx). tensor_ok (ti_t ti)"
    and inv: "ctx_inv ctx" and fit: "sizes_fit ?al (ctx_info ctx)" and al: "is_pow2 ?al" "unat ?al < 2 ^ 32"
    using assms(1) by (auto simp: writable_def ctx_inv_def)
  have m: "drop 0 f = bytes_of ''GGUF'' @ ?hdr @ kv_bytes ctx @ ?metas @ r"
    using assms(3) by (simp add: meta_bytes_def GGUF_MAGIC_def)
  have lm: "length (bytes_of ''GGUF'') = 4" by (simp add: bytes_of_def)
  have r0: "read_magic f 0 = Inr ((), 4)"
    using read_bytes_window [OF m, of 4] lm by (simp add: read_magic_def)
  have d1: "drop 4 f = ?hdr @ kv_bytes ctx @ ?metas @ r"
    using drop_advance [OF m] lm by simp
  have r1: "read_header f 4 = Inr ((ctx_version ctx, length (ctx_info ctx), length (ctx_kv ctx)), 24)"
    using read_header_written [OF assms(1), of 4 f] d1 by simp
  have d2: "drop 24 f = kv_bytes ctx @ ?metas @ r" using drop_advance [OF d1] by simp
  have "distinct (map entry_key (ctx_kv ctx))" using inv by (simp add: ctx_inv_def keys_distinct_def)
  moreover have "map entry_key (ctx_kv ctx) = map kv_key (ctx_kv ctx)"
    using wf(1) by (simp add: entry_key_def kv_wf_key)
  ultimately have r2: "read_kvs mem (length (ctx_kv ctx)) [] f 24 = Inr (ctx_kv ctx, 24 + length (kv_bytes ctx))"
    using read_kvs_written [OF wf(1) assms(2) kv_bytes_written [OF assms(1)] d2, of "[]"] by simp
  have r3: "read_alignment ?c0 = Inr (?c0\<lparr>ctx_alignment := ?al\<rparr>)"
    by (rule read_alignment_written [OF assms(1)]) simp
  have d3: "drop (24 + length (kv_bytes ctx)) f = ?metas @ r" using drop_advance [OF d2] .
  have "distinct (map tensor_key (ctx_info ctx))" using inv by (simp add: ctx_inv_def names_distinct_def)
  then have r4: "read_infos mem (length (ctx_info ctx)) [] f (24 + length (kv_bytes ctx)) =
      Inr (map described (ctx_info ctx), 24 + length (kv_bytes ctx) + length ?metas)"
    using read_infos_written [OF wf(2) assms(2) d3, of "[]"] by simp
  have end_pos: "24 + length (kv_bytes ctx) + length ?metas = length (meta_bytes ctx)"
    using lm by (simp add: meta_bytes_def GGUF_MAGIC_def)
  have "length (meta_bytes ctx) \<le> length f" using assms(3) by simp
  then have "length (meta_bytes ctx) + unat ?al \<le> 2 ^ 64"
    using assms(2) al(2) by (simp add: fits_def)
  then have off: "ggml_pad (word_of_nat (length (meta_bytes ctx))) ?al = word_of_nat (length (meta_padded ctx))"
    unfolding meta_padded_def by (metis ggml_pad_length [OF al(1)] of_nat_unat ucast_id)
  have "data_size ?al 0 (map described (ctx_info ctx)) = Inr (layout_end ?al 0 (map described (ctx_info ctx)))"
  proof (rule data_size_layout)
    show "layout_ok ?al 0 (map described (ctx_info ctx))"
      using inv by (simp add: layout_described ctx_inv_def)
    show "unat (0 :: size_t) + sum_list (map (\<lambda>ti. unat (ggml_pad (ggml_nbytes (ti_t ti)) ?al))
        (map described (ctx_info ctx))) < 2 ^ 64"
      using fit by (simp add: sizes_fit_def comp_def)
  qed
  then have r5: "data_size ?al 0 (map described (ctx_info ctx)) = Inr (layout_end ?al 0 (ctx_info ctx))"
    by (simp add: layout_described)
  have "as_read ctx = ?c0\<lparr>ctx_alignment := ?al, ctx_info := map described (ctx_info ctx),
      ctx_offset := word_of_nat (length (meta_padded ctx)), ctx_size := layout_end ?al 0 (ctx_info ctx)\<rparr>"
    by (cases ctx) (simp add: as_read_def gguf_init_empty_def)
  then show ?thesis
    using r0 r1 r2 r3 r4 r5 off end_pos by (simp add: read_meta_def)
qed

subsection \<open>The data section\<close>

lemma write_tensor_data_Inr:
  assumes "is_pow2 al" "unat al dvd length buf" "unat (ggml_nbytes (ti_t ti)) + unat al \<le> 2 ^ 64"
    and "write_tensor_data ti base al buf = Inr out"
  shows "\<exists>d P. t_data (ti_t ti) = Some d \<and> unat (ggml_nbytes (ti_t ti)) \<le> length d \<and> out = buf @ P \<and>
    length P = unat (ggml_pad (ggml_nbytes (ti_t ti)) al) \<and>
    take (unat (ggml_nbytes (ti_t ti))) P = take (unat (ggml_nbytes (ti_t ti))) d"
proof -
  let ?nb = "unat (ggml_nbytes (ti_t ti))"
  obtain k where k: "k < 64" "al = 2 ^ k" "unat al = 2 ^ k" using assms(1) by (rule is_pow2_exp)
  have pos: "0 < unat al" using k(3) by simp
  obtain d where d: "t_data (ti_t ti) = Some d" "?nb \<le> length d"
    "out = pad_loop (unat al) (buf @ take ?nb d)"
    using assms(4) by (auto simp: write_tensor_data_def bnd_eq_Inr Let_def pad_Inr [OF assms(1)] split: option.splits)
  let ?b = "buf @ take ?nb d"
  let ?z = "replicate ((unat al - length ?b mod unat al) mod unat al) (0 :: byte)"
  have o: "out = buf @ take ?nb d @ ?z" using d(3) pos by (simp add: pad_loop_replicate)
  obtain q where q: "length buf = unat al * q" using assms(2) by blast
  have "length out = (length buf + ?nb + unat al - 1) div unat al * unat al"
    using d pos by (simp add: length_pad_loop)
  also have "(length buf + ?nb + unat al - 1) = (?nb + unat al - 1) + unat al * q"
    using q pos by simp
  also have "\<dots> div unat al * unat al = (?nb + unat al - 1) div unat al * unat al + length buf"
    by (subst div_mult_self2) (use pos q in \<open>simp_all add: add_mult_distrib\<close>)
  finally have "length (take ?nb d @ ?z) = (?nb + unat al - 1) div unat al * unat al"
    using o by simp
  moreover have "unat (ggml_pad (ggml_nbytes (ti_t ti)) al) = (?nb + unat al - 1) div unat al * unat al"
    using unat_ggml_pad [OF k(1), of "ggml_nbytes (ti_t ti)"] assms(3) k(2,3) by simp
  ultimately have "length (take ?nb d @ ?z) = unat (ggml_pad (ggml_nbytes (ti_t ti)) al)" by simp
  moreover have "take ?nb (take ?nb d @ ?z) = take ?nb d" using d(2) by simp
  ultimately show ?thesis using o d(1,2) by blast
qed

lemma write_data_section:
  assumes "is_pow2 al" "layout_ok al off tis" "unat al dvd unat off" "unat al dvd length buf"
    and "\<forall>ti \<in> set tis. unat (ggml_nbytes (ti_t ti)) + unat al \<le> 2 ^ 64"
    and "unat off + sum_list (map (\<lambda>ti. unat (ggml_pad (ggml_nbytes (ti_t ti)) al)) tis) < 2 ^ 64"
    and "each_outcome (\<lambda>ti. write_tensor_data ti base al) tis buf = Inr out"
  shows "\<exists>D. out = buf @ D \<and>
    length D = sum_list (map (\<lambda>ti. unat (ggml_pad (ggml_nbytes (ti_t ti)) al)) tis) \<and>
    (\<forall>i < length tis. \<exists>d. t_data (ti_t (tis ! i)) = Some d \<and>
       unat (ggml_nbytes (ti_t (tis ! i))) \<le> length d \<and>
       take (unat (ggml_nbytes (ti_t (tis ! i)))) (drop (unat (ti_offset (tis ! i)) - unat off) D) =
       take (unat (ggml_nbytes (ti_t (tis ! i)))) d)"
  using assms
proof (induction tis arbitrary: off buf)
  case Nil
  then show ?case by simp
next
  case (Cons ti tis)
  let ?p = "ggml_pad (ggml_nbytes (ti_t ti)) al"
  let ?nb = "\<lambda>ti. unat (ggml_nbytes (ti_t ti))"
  obtain buf1 where b: "write_tensor_data ti base al buf = Inr buf1"
    "each_outcome (\<lambda>ti. write_tensor_data ti base al) tis buf1 = Inr out"
    using Cons.prems(7) by (auto simp: bnd_eq_Inr)
  have nb: "?nb ti + unat al \<le> 2 ^ 64" using Cons.prems(5) by simp
  obtain d P where P: "t_data (ti_t ti) = Some d" "?nb ti \<le> length d" "buf1 = buf @ P"
    "length P = unat ?p" "take (?nb ti) P = take (?nb ti) d"
    using write_tensor_data_Inr [OF Cons.prems(1,4) nb b(1)] by blast
  have dv: "unat al dvd unat ?p" using pad_covers(2) [OF Cons.prems(1) nb] .
  have u: "unat (off + ?p) = unat off + unat ?p" using Cons.prems(6) by (intro unat_add_small) simp
  have dv': "unat al dvd unat (off + ?p)" using u dv Cons.prems(3) by simp
  have fit: "\<forall>ti \<in> set tis. ?nb ti + unat al \<le> 2 ^ 64"
    "unat (off + ?p) + sum_list (map (\<lambda>ti. unat (ggml_pad (ggml_nbytes (ti_t ti)) al)) tis) < 2 ^ 64"
    and lay: "layout_ok al (off + ?p) tis" and off: "ti_offset ti = off"
    using Cons.prems(2,5,6) u by simp_all
  have "unat al dvd length buf1" using P(3,4) dv Cons.prems(4) by simp
  from Cons.IH [OF Cons.prems(1) lay dv' this fit b(2)] obtain D where D: "out = buf1 @ D"
    "length D = sum_list (map (\<lambda>ti. unat (ggml_pad (ggml_nbytes (ti_t ti)) al)) tis)"
    "\<And>i. i < length tis \<Longrightarrow> \<exists>d. t_data (ti_t (tis ! i)) = Some d \<and> ?nb (tis ! i) \<le> length d \<and>
       take (?nb (tis ! i)) (drop (unat (ti_offset (tis ! i)) - unat (off + ?p)) D) = take (?nb (tis ! i)) d"
    by blast
  have le: "?nb ti \<le> unat ?p" using pad_covers(1) [OF Cons.prems(1) nb] .
  have "\<exists>d. t_data (ti_t ((ti # tis) ! i)) = Some d \<and> ?nb ((ti # tis) ! i) \<le> length d \<and>
      take (?nb ((ti # tis) ! i)) (drop (unat (ti_offset ((ti # tis) ! i)) - unat off) (P @ D)) =
      take (?nb ((ti # tis) ! i)) d" if i: "i < length (ti # tis)" for i
  proof (cases i)
    case 0
    then show ?thesis using P le off by simp
  next
    case (Suc j)
    then have j: "j < length tis" using i by simp
    have "unat (off + ?p) \<le> unat (ti_offset (tis ! j))"
      using layout_nat [OF Cons.prems(1) lay j dv' fit] by linarith
    then have "drop (unat (ti_offset (tis ! j)) - unat off) (P @ D) =
        drop (unat (ti_offset (tis ! j)) - unat (off + ?p)) D"
      using P(4) u by (simp add: diff_diff_add)
    then show ?thesis using D(3) [OF j] Suc by simp
  qed
  then show ?case
    using D(1,2) P(3,4) by (intro exI [of _ "P @ D"]) simp
qed

text \<open>Strides computed from the shape are contiguous, so the writer's assertion holds.\<close>

lemma tensor_ok_contiguous:
  assumes "tensor_ok t"
  shows "ggml_is_contiguous t"
proof -
  obtain a b c d where ne: "t_ne t = [a, b, c, d]"
    using assms four_dims [of "t_ne t"] by (auto simp: tensor_ok_def)
  show ?thesis
    using assms ne by (auto simp: tensor_ok_def ggml_is_contiguous_def row_strides_def Let_def)
qed

lemma write_tensor_data_succeeds:
  assumes "is_pow2 al" "tensor_ok (ti_t ti)" "length buf = base + unat (ti_offset ti)"
    and "t_data (ti_t ti) = Some d" "unat (ggml_nbytes (ti_t ti)) \<le> length d"
    and "length buf + unat (ggml_nbytes (ti_t ti)) < 2 ^ 63"
  shows "\<exists>out. write_tensor_data ti base al buf = Inr out"
  using assms tensor_ok_contiguous [OF assms(2)]
  by (simp add: write_tensor_data_def Let_def pad_Inr)

lemma write_data_succeeds:
  assumes "is_pow2 al" "layout_ok al off tis" "unat al dvd unat off" "unat al dvd base"
    and "length buf = base + unat off"
    and "\<forall>ti \<in> set tis. tensor_ok (ti_t ti) \<and> unat (ggml_nbytes (ti_t ti)) + unat al \<le> 2 ^ 64 \<and>
      (\<exists>d. t_data (ti_t ti) = Some d \<and> unat (ggml_nbytes (ti_t ti)) \<le> length d)"
    and "length buf + sum_list (map (\<lambda>ti. unat (ggml_pad (ggml_nbytes (ti_t ti)) al)) tis) < 2 ^ 63"
  shows "\<exists>out. each_outcome (\<lambda>ti. write_tensor_data ti base al) tis buf = Inr out \<and>
    length out = length buf + sum_list (map (\<lambda>ti. unat (ggml_pad (ggml_nbytes (ti_t ti)) al)) tis)"
  using assms
proof (induction tis arbitrary: off buf)
  case Nil
  then show ?case by simp
next
  case (Cons ti tis)
  let ?p = "ggml_pad (ggml_nbytes (ti_t ti)) al"
  obtain d where d: "t_data (ti_t ti) = Some d" "unat (ggml_nbytes (ti_t ti)) \<le> length d"
    and ok: "tensor_ok (ti_t ti)" "unat (ggml_nbytes (ti_t ti)) + unat al \<le> 2 ^ 64"
    using Cons.prems(6) by auto
  have p: "unat (ggml_nbytes (ti_t ti)) \<le> unat ?p" "unat al dvd unat ?p"
    using pad_covers(1,2) [OF Cons.prems(1) ok(2)] by simp_all
  have lay: "ti_offset ti = off" "layout_ok al (off + ?p) tis" using Cons.prems(2) by simp_all
  have "length buf + unat (ggml_nbytes (ti_t ti)) < 2 ^ 63" using Cons.prems(7) p(1) by simp
  then obtain buf1 where b: "write_tensor_data ti base al buf = Inr buf1"
    using write_tensor_data_succeeds [OF Cons.prems(1) ok(1) _ d] Cons.prems(5) lay(1) by blast
  have "unat al dvd length buf" using Cons.prems(3-5) by simp
  then have l: "length buf1 = length buf + unat ?p"
    using write_tensor_data_Inr [OF Cons.prems(1) _ ok(2) b] by auto
  have u: "unat (off + ?p) = unat off + unat ?p"
    using Cons.prems(5,7) by (intro unat_add_small) simp
  have "\<exists>out. each_outcome (\<lambda>ti. write_tensor_data ti base al) tis buf1 = Inr out \<and>
    length out = length buf1 + sum_list (map (\<lambda>ti. unat (ggml_pad (ggml_nbytes (ti_t ti)) al)) tis)"
  proof (rule Cons.IH [OF Cons.prems(1) lay(2) _ Cons.prems(4)])
    show "unat al dvd unat (off + ?p)" using u p(2) Cons.prems(3) by simp
    show "length buf1 = base + unat (off + ?p)" using l u Cons.prems(5) by simp
  qed (use Cons.prems(6,7) l in auto)
  with b l show ?case by auto
qed

text \<open>
  C5. Writing succeeds: when the context is writable, every tensor has its data, and the file
  stays below the largest vector, the writer returns a file of the predicted length.
\<close>

theorem gguf_write_succeeds:
  assumes "writable ctx"
    and "\<forall>ti \<in> set (ctx_info ctx).
      \<exists>d. t_data (ti_t ti) = Some d \<and> unat (ggml_nbytes (ti_t ti)) \<le> length d"
    and "length (meta_padded ctx) + unat (layout_end (ctx_alignment ctx) 0 (ctx_info ctx)) < 2 ^ 63"
  shows "gguf_get_meta_size ctx = Inr (length (meta_padded ctx)) \<and>
    unat (ctx_alignment ctx) dvd length (meta_padded ctx) \<and>
    (\<exists>buf. gguf_write_to_buf ctx [] False = Inr buf \<and>
       length buf = length (meta_padded ctx) + unat (layout_end (ctx_alignment ctx) 0 (ctx_info ctx)) \<and>
       take (length (meta_padded ctx)) buf = meta_padded ctx)"
proof -
  let ?al = "ctx_alignment ctx" and ?tis = "ctx_info ctx" and ?m = "meta_padded ctx"
  let ?pads = "sum_list (map (\<lambda>ti. unat (ggml_pad (ggml_nbytes (ti_t ti)) ?al)) ?tis)"
  have w: "is_pow2 ?al" "layout_ok ?al 0 ?tis" "\<forall>ti \<in> set ?tis. tensor_ok (ti_t ti)" "sizes_fit ?al ?tis"
    using assms(1) by (simp_all add: writable_def ctx_inv_def)
  have fit: "\<forall>ti \<in> set ?tis. unat (ggml_nbytes (ti_t ti)) + unat ?al \<le> 2 ^ 64"
    "unat (0 :: size_t) + ?pads < 2 ^ 64"
    using w(4) by (simp_all add: sizes_fit_def)
  have us: "unat (layout_end ?al 0 ?tis) = ?pads" using layout_end_nat [OF fit(2)] by simp
  have "0 < unat ?al" using w(1) by (simp add: is_pow2_def unat_gt_0)
  then have dv: "unat ?al dvd length ?m" by (simp add: meta_padded_def length_pad_loop)
  have len: "length ?m + ?pads < 2 ^ 63" using assms(3) us by (simp only:)
  have each: "\<forall>ti \<in> set ?tis. tensor_ok (ti_t ti) \<and> unat (ggml_nbytes (ti_t ti)) + unat ?al \<le> 2 ^ 64 \<and>
      (\<exists>d. t_data (ti_t ti) = Some d \<and> unat (ggml_nbytes (ti_t ti)) \<le> length d)"
    using w(3) fit(1) assms(2) by blast
  obtain buf where b: "each_outcome (\<lambda>ti. write_tensor_data ti (length ?m) ?al) ?tis ?m = Inr buf"
    "length buf = length ?m + ?pads"
    using write_data_succeeds [OF w(1,2) _ dv _ each len] by auto
  from write_data_section [OF w(1,2) _ dv fit b(1)] obtain D where "buf = ?m @ D" by auto
  then have "take (length ?m) buf = ?m" by simp
  then show ?thesis
    using b us dv write_all [OF assms(1), of False] write_meta [OF assms(1)]
    by (simp add: gguf_get_meta_size_def)
qed

subsection \<open>Loading the tensors\<close>

text \<open>The pool takes the blob and one object per tensor, and no offset in it wraps around.\<close>

lemma load_tensors_ok:
  assumes "\<forall>ti \<in> set tis. tensor_ok (ti_t ti)" "pool_no_alloc pool"
    and "unat (pool_end pool) + 368 * length tis \<le> unat (pool_size pool)"
  shows "\<exists>ts. load_tensors blob tis pool = Inr ts \<and>
    ts = map (\<lambda>ti. (ti_t ti)\<lparr>t_name := take (GGML_MAX_NAME - 1) (c_str (t_name (ti_t ti))),
                t_data := map_option (drop (unat (ti_offset ti))) blob\<rparr>) tis"
  using assms
proof (induction tis arbitrary: pool)
  case Nil
  then show ?case by simp
next
  case (Cons ti tis)
  let ?t = "ti_t ti" and ?e = "pool_end pool"
  have ok: "t_type ?t < GGML_TYPE_COUNT" "length (t_ne ?t) = GGML_MAX_DIMS"
    "ggml_blck_size (t_type ?t) \<noteq> 0" "t_nb ?t = row_strides (t_type ?t) (t_ne ?t)"
    using Cons.prems(1) by (simp_all add: tensor_ok_def)
  have "unat (pool_size pool) < 2 ^ 64"
    using unsigned_less [of "pool_size pool", where ?'a = nat] by simp
  then have lt: "unat ?e + 368 < 2 ^ 64" using Cons.prems(3) by simp
  then have u: "unat (?e + 368) = unat ?e + 368"
    using unat_add_small [of ?e 368] by simp
  then have no: "\<not> ?e + 368 > pool_size pool"
    using Cons.prems(3) by (simp add: word_less_nat_alt)
  have pad336: "ggml_pad 336 16 = 336" by (simp add: ggml_pad_def)
  have obj: "ggml_new_object pool GGML_TENSOR_SIZE =
      Some (pool\<lparr>pool_end := ?e + 368\<rparr>, ?e + 32)"
    using no by (simp add: ggml_new_object_def GGML_TENSOR_SIZE_def GGML_MEM_ALIGN_def
        GGML_OBJECT_SIZE_def pad336 Let_def add.commute add.left_commute)
  let ?new = "\<lparr>t_name = [], t_type = t_type ?t, t_ne = t_ne ?t, t_nb = t_nb ?t, t_data = None\<rparr>"
  have new: "ggml_new_tensor pool (t_type ?t) (t_ne ?t) = Inr (pool\<lparr>pool_end := ?e + 368\<rparr>, ?new, 0)"
    using ok Cons.prems(2) obj
    by (simp add: ggml_new_tensor_def Let_def GGML_MAX_DIMS_def)
  have "unat (pool_end (pool\<lparr>pool_end := ?e + 368\<rparr>)) + 368 * length tis \<le>
      unat (pool_size (pool\<lparr>pool_end := ?e + 368\<rparr>))"
    using Cons.prems(3) u by simp
  from Cons.IH [OF _ _ this] Cons.prems(1,2)
  have IH: "load_tensors blob tis (pool\<lparr>pool_end := ?e + 368\<rparr>) =
      Inr (map (\<lambda>ti. (ti_t ti)\<lparr>t_name := take (GGML_MAX_NAME - 1) (c_str (t_name (ti_t ti))),
                t_data := map_option (drop (unat (ti_offset ti))) blob\<rparr>) tis)" by simp
  have "ggml_set_name ?new (t_name ?t) = ?t\<lparr>t_name := take (GGML_MAX_NAME - 1) (c_str (t_name ?t)), t_data := None\<rparr>"
    by (cases ?t) (simp add: ggml_set_name_def)
  with new IH show ?case by (simp add: Let_def split: option.splits)
qed

lemma blob_object:
  assumes "pool_end pool = 0" "pool_size pool = word_of_nat k" "k < 2 ^ 64 - 368"
    and "16 dvd k" "unat n + 368 \<le> k" "\<not> pool_no_alloc pool"
  shows "\<exists>t. ggml_new_tensor pool 24 [sint n] =
    Inr (pool\<lparr>pool_end := 368 + ggml_pad n 16\<rparr>, t, if n = 0 then 0 else 368)"
proof -
  have t: "ggml_blck_size 24 = 1" "ggml_type_size 24 = 1"
    by (simp_all add: ggml_blck_size_def ggml_type_size_def type_traits_def)
  have row: "(word_of_nat 1 * word_of_int (sint n)) div word_of_int 1 = n" by simp
  have p16: "(16 :: size_t) = 2 ^ 4" by simp
  have pn: "unat (ggml_pad n 16) = (unat n + 15) div 16 * 16"
    using unat_ggml_pad [of 4 n] assms(3,5) by simp
  have big: "unat (336 + n) = 336 + unat n"
    using unat_add_small [of 336 n] assms(3,5) by simp
  have "unat (ggml_pad (336 + n) 16) = (336 + unat n + 15) div 16 * 16"
    using unat_ggml_pad [of 4 "336 + n"] assms(3,5) big by simp
  also have "(336 + unat n + 15) div 16 = 21 + (unat n + 15) div 16" by presburger
  also have "(21 + (unat n + 15) div 16) * 16 = 336 + unat (ggml_pad n 16)" using pn by simp
  finally have pu: "unat (ggml_pad (336 + n) 16) = 336 + unat (ggml_pad n 16)" .
  have le: "unat (ggml_pad n 16) + 368 \<le> k"
  proof -
    obtain m where m: "k = 16 * m" using assms(4) by blast
    then have "(unat n + 15) div 16 + 23 \<le> m" using assms(5) by linarith
    then show ?thesis using pn m by linarith
  qed
  have pw: "ggml_pad (336 + n) 16 = 336 + ggml_pad n 16"
    by (rule word_unat_eq_iff [THEN iffD2]) (use pu unat_add_small [of 336 "ggml_pad n 16"] le assms(3) in simp)
  have "336 + ggml_pad n 16 + 32 = (336 + 32) + ggml_pad n 16"
    by (simp only: add.assoc add.commute [of "ggml_pad n 16"])
  then have "336 + ggml_pad n 16 + 32 = 368 + ggml_pad n 16" by simp
  moreover have "unat (368 + ggml_pad n 16) = 368 + unat (ggml_pad n 16)"
    using unat_add_small [of 368 "ggml_pad n 16"] le assms(3) by simp
  ultimately have "unat (336 + ggml_pad n 16 + 32) = 368 + unat (ggml_pad n 16)" by (simp only:)
  moreover have "unat (pool_size pool) = k" using assms(2,3) by (simp add: unat_of_nat_small)
  ultimately have no: "\<not> 336 + ggml_pad n 16 + 32 > pool_size pool"
    using le by (simp add: word_less_nat_alt)
  show ?thesis
    using assms(1,6) t row no pw
    by (auto simp: ggml_new_tensor_def GGML_TYPE_COUNT_def GGML_MAX_DIMS_def Let_def
        ggml_new_object_def GGML_TENSOR_SIZE_def GGML_MEM_ALIGN_def GGML_OBJECT_SIZE_def
        word_greater_zero_iff algebra_simps)
qed

text \<open>The pool that \<open>gguf_init_from_file_impl\<close> asks for is exactly large enough.\<close>

lemma pool_for_tensors:
  assumes "368 * (n + 1) + unat nbytes + 16 \<le> mem" "mem < 2 ^ 63"
  shows "\<exists>k pool t. ggml_init mem ((word_of_nat n + 1) * ggml_tensor_overhead + nbytes) False = Inr pool \<and>
    pool_size pool = word_of_nat k \<and> k < 2 ^ 64 \<and> 368 + unat nbytes \<le> k \<and>
    ggml_new_tensor pool 24 [sint nbytes] =
      Inr (pool\<lparr>pool_end := 368 + ggml_pad nbytes 16\<rparr>, t, if nbytes = 0 then 0 else 368) \<and>
    unat (368 + ggml_pad nbytes 16) + 368 * n \<le> k"
proof -
  let ?req = "(word_of_nat n + 1) * ggml_tensor_overhead + nbytes" and ?r = "368 * (n + 1) + unat nbytes"
  let ?k = "(?r + 15) div 16 * 16"
  have ov: "ggml_tensor_overhead = 368"
    by (simp add: ggml_tensor_overhead_def GGML_OBJECT_SIZE_def GGML_TENSOR_SIZE_def)
  have "?req = word_of_nat ?r" by (simp add: ov algebra_simps)
  then have ur: "unat ?req = ?r" using assms by (simp only:) (rule unat_of_nat_small, simp)
  then have r0: "?req \<noteq> 0" by (metis add_is_0 mult_is_0 unsigned_0 zero_neq_numeral add_eq_0_iff_both_eq_0 one_neq_zero)
  have p: "unat (ggml_pad ?req 16) = ?k"
    using unat_ggml_pad [of 4 ?req] ur assms by simp
  have "?k + (?r + 15) mod 16 = ?r + 15" "(?r + 15) mod 16 < 16"
    by (rule div_mult_mod_eq) simp
  then have k1: "?k \<le> mem" "?r \<le> ?k" using assms(1) by linarith+
  moreover have "0 < ?r" by simp
  ultimately have kb: "?k \<le> mem" "?r \<le> ?k" "0 < ?k" by linarith+
  define pool where "pool = \<lparr>pool_size = ggml_pad ?req 16, pool_end = 0, pool_no_alloc = False\<rparr>"
  have "ggml_pad ?req 16 \<noteq> 0" using p kb(3) by (metis less_irrefl unsigned_0)
  then have i: "ggml_init mem ?req False = Inr pool"
    using r0 p kb(1) by (simp add: ggml_init_def pool_def GGML_MEM_ALIGN_def)
  have w: "pool_size pool = word_of_nat ?k"
    unfolding pool_def p [symmetric] by simp
  have k64: "?k < 2 ^ 64 - 368" using kb(1) assms(2) by simp
  have nk: "unat nbytes + 368 \<le> ?k" using kb(2) by simp
  obtain t where t: "ggml_new_tensor pool 24 [sint nbytes] =
      Inr (pool\<lparr>pool_end := 368 + ggml_pad nbytes 16\<rparr>, t, if nbytes = 0 then 0 else 368)"
    using blob_object [of pool ?k nbytes] w k64 nk by (auto simp: pool_def)
  have pn: "unat (ggml_pad nbytes 16) = (unat nbytes + 15) div 16 * 16"
    using unat_ggml_pad [of 4 nbytes] nk k64 by simp
  have "?r + 15 = (unat nbytes + 15) + 23 * (n + 1) * 16" by simp
  then have "(?r + 15) div 16 = 23 * (n + 1) + (unat nbytes + 15) div 16"
    by (simp only: div_mult_self1 [of 16])
  then have le: "368 * (n + 1) + (unat nbytes + 15) div 16 * 16 \<le> ?k" by (simp add: add_mult_distrib)
  have "unat (368 + ggml_pad nbytes 16) = 368 + unat (ggml_pad nbytes 16)"
    using unat_add_small [of 368 "ggml_pad nbytes 16"] pn le k64 by simp
  then have "unat (368 + ggml_pad nbytes 16) + 368 * n \<le> ?k" using pn le by simp
  with i w k64 nk t show ?thesis by (intro exI [of _ ?k] exI [of _ pool] exI [of _ t]) simp
qed


end
