(* ===== verification/Gguf_Safety.thy ===== *)
theory Gguf_Safety
  imports Gguf_File
begin

text \<open>
  What the reader of \<open>src/gguf.cpp\<close> guarantees about an arbitrary file: the invariants of every
  context it returns, the faults it can end in, the files on which it does not fail cleanly, and
  the bounds of the pool it loads the tensors into.
\<close>

subsection \<open>The pairs of an accepted file\<close>

text \<open>
  The part of \<open>kv_wf\<close> that does not depend on NUL bytes in keys and strings, which a file may
  hold and a C string may not.
\<close>

definition kv_shape :: "gguf_kv \<Rightarrow> bool" where
  "kv_shape e \<longleftrightarrow>
     kv_key e \<noteq> [] \<and> kv_bools_ok e \<and>
     (if kv_type e = GGUF_TYPE_STRING
      then kv_data e = [] \<and> (kv_is_array e \<or> length (kv_data_string e) = 1)
      else fixed_type (kv_type e) \<and> kv_data_string e = [] \<and>
           gguf_type_size (kv_type e) dvd length (kv_data e) \<and>
           (kv_is_array e \<or> length (kv_data e) = gguf_type_size (kv_type e)))"

lemma caught_eq_Inr [simp]: "caught m = Inr x \<longleftrightarrow> m = Inr x"
  by (simp add: caught_def)

lemma read_many_all:
  assumes "read_many rd n f p = Inr (vs, q)" and "\<And>f p v q. rd f p = Inr (v, q) \<Longrightarrow> P v"
  shows "\<forall>v \<in> set vs. P v"
  using assms(1)
proof (induction n arbitrary: p vs)
  case 0
  then show ?case by simp
next
  case (Suc n)
  then show ?case using assms(2) by (auto simp: bnd_eq_Inr)
qed

lemma read_bool_value: "read_bool f p = Inr (v, q) \<Longrightarrow> v = [0] \<or> v = [1]"
  by (auto simp: read_bool_def bnd_eq_Inr split: if_splits)

lemma read_fixed_value:
  "read_fixed ty f p = Inr (v, q) \<Longrightarrow>
   length v = gguf_type_size ty \<and> (ty = GGUF_TYPE_BOOL \<longrightarrow> set v \<subseteq> {0, 1})"
  by (auto simp: read_fixed_def read_bytes_Inr dest: read_bool_value split: if_splits)

lemma concat_fixed:
  "\<forall>v \<in> set vs. length v = s \<and> (b \<longrightarrow> set v \<subseteq> A) \<Longrightarrow>
   s dvd length (concat vs) \<and> (b \<longrightarrow> set (concat vs) \<subseteq> A)"
  by (induction vs) auto

lemma emplace_shape:
  assumes "gguf_read_emplace_helper mem kv key ty is_array n f p = Inr (kv', q)"
    and "fixed_type ty \<or> ty = GGUF_TYPE_STRING"
  shows "\<exists>e. kv' = kv @ [e] \<and> kv_key e = key \<and> kv_shape e"
proof (cases "is_array \<and> ty \<noteq> GGUF_TYPE_STRING")
  case True
  then obtain vals where v: "read_many (read_fixed ty) n f p = Inr (vals, q)" "key \<noteq> []"
    "kv' = kv @ [\<lparr>kv_key = key, kv_is_array = True, kv_type = ty, kv_data = concat vals, kv_data_string = []\<rparr>]"
    using assms(1) by (auto simp: gguf_read_emplace_helper_def bnd_eq_Inr gguf_kv_vector_def)
  have "\<forall>v \<in> set vals. length v = gguf_type_size ty \<and> (ty = GGUF_TYPE_BOOL \<longrightarrow> set v \<subseteq> {0, 1})"
    using v(1) by (rule read_many_all) (rule read_fixed_value)
  from concat_fixed [OF this] v True assms(2) show ?thesis
    by (auto simp: kv_shape_def kv_bools_ok_def)
next
  case False
  then consider (strings) "is_array" "ty = GGUF_TYPE_STRING" | (str) "\<not> is_array" "ty = GGUF_TYPE_STRING"
    | (val) "\<not> is_array" "ty \<noteq> GGUF_TYPE_STRING" by blast
  then show ?thesis
  proof cases
    case strings
    then show ?thesis
      using assms(1) by (auto simp: gguf_read_emplace_helper_def bnd_eq_Inr gguf_kv_strings_def
          kv_shape_def kv_bools_ok_def)
  next
    case str
    then show ?thesis
      using assms(1) by (auto simp: gguf_read_emplace_helper_def bnd_eq_Inr gguf_kv_string_def
          kv_shape_def kv_bools_ok_def)
  next
    case val
    then obtain v p' where v: "read_fixed ty f p = Inr (v, p')" "key \<noteq> []"
      "kv' = kv @ [\<lparr>kv_key = key, kv_is_array = False, kv_type = ty, kv_data = v, kv_data_string = []\<rparr>]"
      using assms(1) by (auto simp: gguf_read_emplace_helper_def bnd_eq_Inr gguf_kv_scalar_def)
    from read_fixed_value [OF v(1)] v val assms(2) show ?thesis
      by (auto simp: kv_shape_def kv_bools_ok_def)
  qed
qed

lemma read_value_shape:
  "read_value mem kv key type is_array n f p = Inr (kv', q) \<Longrightarrow>
   \<exists>e. kv' = kv @ [e] \<and> kv_key e = key \<and> kv_shape e"
  by (auto simp: read_value_def fixed_type_def split: option.splits if_splits intro: emplace_shape)

lemma read_kv_shape:
  assumes "read_kv mem kv f p = Inr (kv', q)"
  shows "\<exists>e. kv' = kv @ [e] \<and> kv_key e \<notin> kv_key ` set kv \<and> kv_shape e"
  using assms
  by (auto simp: read_kv_def bnd_eq_Inr list_all_iff dest!: read_value_shape)

lemma read_kvs_shape:
  assumes "read_kvs mem n kv f p = Inr (kv', q)" "distinct (map kv_key kv)" "\<forall>e \<in> set kv. kv_shape e"
  shows "length kv' = length kv + n \<and> distinct (map kv_key kv') \<and> (\<forall>e \<in> set kv'. kv_shape e)"
  using assms
proof (induction n arbitrary: kv p)
  case 0
  then show ?case by simp
next
  case (Suc n)
  then obtain kv1 p1 where s: "read_kv mem kv f p = Inr (kv1, p1)" "read_kvs mem n kv1 f p1 = Inr (kv', q)"
    by (auto simp: bnd_eq_Inr)
  obtain e where e: "kv1 = kv @ [e]" "kv_key e \<notin> kv_key ` set kv" "kv_shape e"
    using read_kv_shape [OF s(1)] by blast
  show ?case using Suc.IH [OF s(2)] e Suc.prems(2,3) by auto
qed

subsection \<open>The tensors of an accepted file\<close>

lemma read_dims_nonneg:
  "read_dims left k f p = Inr (ds, q) \<Longrightarrow> length ds = left \<and> (\<forall>d \<in> set ds. 0 \<le> d)"
  by (induction left arbitrary: k p ds) (auto simp: bnd_eq_Inr not_less split: if_splits)

lemma check_elements_pos:
  assumes "check_elements [a, b, c, d] = Inr ()" "0 \<le> b" "0 \<le> c" "0 \<le> d"
  shows "0 < b \<and> 0 < c \<and> 0 < d"
  using assms by (auto simp: check_elements_def too_many_def bnd_ensure split: if_splits)

lemma read_info_ok:
  assumes "read_info mem infos f p = Inr (ti, q)"
  shows "tensor_ok (ti_t ti) \<and> tensor_key ti \<notin> tensor_key ` set infos \<and> t_data (ti_t ti) = None"
proof -
  obtain name ne ty p1 p2 k where i: "length name < GGML_MAX_NAME"
    "list_all (\<lambda>ti. c_str (take (GGML_MAX_NAME - 1) (c_str (c_str name))) \<noteq> c_str (t_name (ti_t ti))) infos"
    "read_dims GGML_MAX_DIMS k f p1 = Inr (ne, p2)" "check_elements ne = Inr ()"
    "ty < GGML_TYPE_COUNT" "ggml_blck_size ty \<noteq> 0" "c_mod (ne ! 0) (ggml_blck_size ty) = 0"
    "ti_t ti = \<lparr>t_name = take (GGML_MAX_NAME - 1) (c_str (c_str name)), t_type = ty, t_ne = ne,
        t_nb = row_strides ty ne, t_data = None\<rparr>"
    using assms by (auto simp: read_info_def bnd_eq_Inr Let_def not_le)
  have ne: "length ne = GGML_MAX_DIMS" "\<forall>d \<in> set ne. 0 \<le> d"
    using read_dims_nonneg [OF i(3)] by simp_all
  obtain a b c d where abcd: "ne = [a, b, c, d]" using four_dims [OF ne(1)] by blast
  then have "0 < b \<and> 0 < c \<and> 0 < d" using check_elements_pos i(4) ne(2) by simp
  moreover have "length (c_str (take (GGML_MAX_NAME - 1) (c_str (c_str name)))) < GGML_MAX_NAME"
    using length_c_str_le [of "take (GGML_MAX_NAME - 1) (c_str (c_str name))"]
    by (simp add: GGML_MAX_NAME_def)
  ultimately show ?thesis
    using i abcd ne by (auto simp: tensor_ok_def tensor_key_def list_all_iff)
qed

lemma read_infos_ok:
  assumes "read_infos mem n infos f p = Inr (infos', q)" "distinct (map tensor_key infos)"
    and "\<forall>ti \<in> set infos. tensor_ok (ti_t ti)"
  shows "length infos' = length infos + n \<and> distinct (map tensor_key infos') \<and>
    (\<forall>ti \<in> set infos'. tensor_ok (ti_t ti))"
  using assms
proof (induction n arbitrary: infos p)
  case 0
  then show ?case by simp
next
  case (Suc n)
  then obtain ti p1 where s: "read_info mem infos f p = Inr (ti, p1)"
    "read_infos mem n (infos @ [ti]) f p1 = Inr (infos', q)"
    by (auto simp: bnd_eq_Inr)
  show ?case
    using Suc.IH [OF s(2)] read_info_ok [OF s(1)] Suc.prems(2,3) by auto
qed

lemma SIZE_MAX_diff: "unat (SIZE_MAX - a) = 2 ^ 64 - 1 - unat a" for a :: size_t
proof -
  have "unat (SIZE_MAX - a) = unat SIZE_MAX - unat a" by (rule unat_sub) simp
  then show ?thesis by (simp add: unsigned_minus_1_eq_mask mask_eq_exp_minus_1)
qed

lemma data_size_sound:
  assumes "data_size al acc tis = Inr nbytes"
  shows "layout_ok al acc tis \<and> nbytes = layout_end al acc tis \<and>
    unat nbytes = unat acc + sum_list (map (\<lambda>ti. unat (ggml_pad (ggml_nbytes (ti_t ti)) al)) tis)"
  using assms
proof (induction tis arbitrary: acc)
  case Nil
  then show ?case by simp
next
  case (Cons ti tis)
  let ?p = "ggml_pad (ggml_nbytes (ti_t ti)) al"
  have s: "ti_offset ti = acc" "\<not> SIZE_MAX - acc < ?p" "data_size al (acc + ?p) tis = Inr nbytes"
    using Cons.prems by (auto simp: bnd_eq_Inr Let_def)
  have "unat ?p \<le> 2 ^ 64 - 1 - unat acc" using s(2) by (simp add: word_less_nat_alt SIZE_MAX_diff)
  moreover have "unat acc < 2 ^ 64" using unsigned_less [of acc, where ?'a = nat] by simp
  ultimately have "unat (acc + ?p) = unat acc + unat ?p" by (intro unat_add_small) simp
  then show ?case using Cons.IH [OF s(3)] s(1) by auto
qed

lemma gguf_read_tensors_ok:
  assumes "read_meta mem f = Inr ctx"
  shows "\<forall>ti \<in> set (ctx_info ctx). tensor_ok (ti_t ti)"
  using assms by (auto simp: read_meta_def bnd_eq_Inr Let_def dest!: read_infos_ok)

text \<open>
  C2. Whatever file the reader accepts, the context it returns has a supported version, unique
  keys with values that fit their types, a power of two as its alignment, unique tensor names,
  valid shapes, and offsets that tile a data section whose size did not overflow.
\<close>

theorem gguf_reader_sound:
  assumes "read_meta mem f = Inr ctx"
  shows "ctx_version ctx \<in> {2, 3} \<and>
    distinct (map kv_key (ctx_kv ctx)) \<and> (\<forall>e \<in> set (ctx_kv ctx). kv_shape e) \<and>
    is_pow2 (ctx_alignment ctx) \<and>
    names_distinct ctx \<and> (\<forall>ti \<in> set (ctx_info ctx). tensor_ok (ti_t ti)) \<and>
    layout_ok (ctx_alignment ctx) 0 (ctx_info ctx) \<and>
    unat (ctx_size ctx) =
      sum_list (map (\<lambda>ti. unat (ggml_pad (ggml_nbytes (ti_t ti)) (ctx_alignment ctx))) (ctx_info ctx))"
proof -
  obtain p0 p1 p2 p3 version nt nk kv ctx0 infos nbytes where s:
    "read_header f p0 = Inr ((version, nt, nk), p1)" "read_kvs mem nk [] f p1 = Inr (kv, p2)"
    "read_alignment (gguf_init_empty\<lparr>ctx_version := version, ctx_kv := kv\<rparr>) = Inr ctx0"
    "read_infos mem nt [] f p2 = Inr (infos, p3)"
    "data_size (ctx_alignment ctx0) 0 infos = Inr nbytes"
    "ctx = ctx0\<lparr>ctx_info := infos, ctx_offset := ggml_pad (word_of_nat p3) (ctx_alignment ctx0), ctx_size := nbytes\<rparr>"
    using assms by (auto simp: read_meta_def bnd_eq_Inr Let_def)
  have "version \<noteq> 0 \<and> version \<noteq> 1 \<and> version \<le> 3"
    using s(1) by (auto simp: read_header_def bnd_eq_Inr GGUF_VERSION_def not_less)
  then have v: "version \<in> {2, 3}" by (auto simp: word_le_nat_alt word_unat_eq_iff)
  have a: "is_pow2 (ctx_alignment ctx0)" "ctx_version ctx0 = version" "ctx_kv ctx0 = kv"
    using s(3) by (auto simp: read_alignment_def bnd_eq_Inr Let_def is_pow2_def)
  show ?thesis
    using v a s(6) read_kvs_shape [OF s(2)] read_infos_ok [OF s(4)] data_size_sound [OF s(5)]
    by (auto simp: names_distinct_def)
qed

subsection \<open>The faults of the reader\<close>

text \<open>A routine that never reads out of bounds and never exits the process.\<close>

definition contained :: "'a outcome \<Rightarrow> bool" where
  "contained m \<longleftrightarrow> m \<noteq> Inl Undefined \<and> m \<noteq> Inl Exited"

lemma contained_simps [simp]:
  "contained (Inr x)" "contained (Inl Failed)" "contained (Inl Aborted)" "contained (Inl Threw)"
  "contained (Inl Trapped)"
  by (simp_all add: contained_def)

lemma contained_ensure [simp]: "contained (ensure b e) \<longleftrightarrow> b \<or> contained (Inl e :: unit outcome)"
  by (simp add: ensure_def)

lemma contained_bnd [intro!]:
  "contained m \<Longrightarrow> (\<And>x. m = Inr x \<Longrightarrow> contained (f x)) \<Longrightarrow> contained (bnd m f)"
  by (cases m) (auto simp: contained_def)

lemma contained_pair [intro!]:
  "(\<And>a b. x = (a, b) \<Longrightarrow> contained (f a b)) \<Longrightarrow> contained (case x of (a, b) \<Rightarrow> f a b)"
  by (cases x) auto

lemma contained_pair_app [intro!]:
  "(\<And>a b. x = (a, b) \<Longrightarrow> contained (f a b c)) \<Longrightarrow> contained ((case x of (a, b) \<Rightarrow> f a b) c)"
  by (cases x) auto

lemma contained_caught [intro!]: "contained m \<Longrightarrow> contained (caught m)"
  by (simp add: caught_def)

lemma contained_read_bytes [intro!]: "contained (read_bytes n f p)"
  by (simp add: read_bytes_def Let_def)

lemma contained_read_word [intro!]: "contained (read_word f p)"
  unfolding read_word_def by (intro contained_bnd contained_pair contained_read_bytes) simp

lemma contained_read_string [intro!]: "contained (read_string mem f p)"
  unfolding read_string_def
  by (intro contained_bnd contained_pair contained_read_bytes contained_read_word) simp

lemma contained_read_many [intro!]:
  assumes "\<And>f p. contained (rd f p)"
  shows "contained (read_many rd n f p)"
proof (induction n arbitrary: p)
  case (Suc n)
  then show ?case using assms by (auto simp only: read_many.simps intro!: contained_bnd contained_pair contained_simps)
qed simp

lemma contained_read_fixed [intro!]: "contained (read_fixed ty f p)"
  by (auto simp: read_fixed_def read_bool_def)

lemma contained_emplace [intro!]: "contained (gguf_read_emplace_helper mem kv key ty is_array n f p)"
  by (auto simp: gguf_read_emplace_helper_def gguf_kv_strings_def gguf_kv_vector_def gguf_kv_string_def
      gguf_kv_scalar_def)

lemma contained_read_gguf_type [intro!]: "contained (read_gguf_type f p)"
  by (auto simp: read_gguf_type_def)

lemma contained_read_kv [intro!]: "contained (read_kv mem kv f p)"
  by (auto simp: read_kv_def read_value_type_def read_value_def split: option.splits)

lemma contained_read_kvs [intro!]: "contained (read_kvs mem n kv f p)"
  by (induction n arbitrary: kv p) auto

lemma contained_read_header [intro!]: "contained (read_header f p)"
  unfolding read_header_def
  by (intro contained_bnd contained_pair contained_read_word) simp_all

lemma contained_get_u32 [intro!]: "contained (gguf_get_val_u32 ctx i)"
  by (auto simp: gguf_get_val_u32_def get_scalar_def kv_at_def get_ne_def get_val_bytes_def Let_def)

lemma contained_read_alignment [intro!]: "contained (read_alignment ctx)"
  by (auto simp: read_alignment_def Let_def)

lemma contained_read_dims [intro!]: "contained (read_dims left k f p)"
  by (induction left arbitrary: k p) auto

lemma contained_check_elements [intro!]: "contained (check_elements ne)"
  by (auto simp: check_elements_def too_many_def)

lemma contained_read_info [intro!]: "contained (read_info mem infos f p)"
  unfolding read_info_def Let_def
  by (intro contained_bnd contained_pair contained_read_word contained_caught contained_read_string
      contained_read_dims contained_check_elements) simp_all

lemma contained_read_infos [intro!]: "contained (read_infos mem n infos f p)"
  by (induction n arbitrary: infos p) auto

lemma contained_data_size [intro!]: "contained (data_size al acc tis)"
  by (induction tis arbitrary: acc) (auto simp: Let_def)


definition gguf_head :: "nat \<Rightarrow> nat \<Rightarrow> bytes" where
  "gguf_head n_tensors n_kv = bytes_of ''GGUF'' @ enc_word (3 :: 32 word) @
     enc_word (word_of_nat n_tensors :: 64 word) @ enc_word (word_of_nat n_kv :: 64 word)"


subsection \<open>Loading the tensors of an accepted file\<close>

lemma read_blob_fits:
  assumes "unat nbytes = 0 \<or> unat dst + unat nbytes \<le> unat (pool_size pool)"
  shows "read_blob pool dst nbytes f p =
    (if unat nbytes \<le> length (drop p f) then Inr (take (unat nbytes) (drop p f), p + unat nbytes)
     else Inl Failed)"
proof -
  let ?got = "take (unat nbytes) (drop p f)"
  have "length ?got \<le> unat nbytes" by simp
  then have "?got = [] \<or> unat dst + length ?got \<le> unat (pool_size pool)"
    using assms by (elim disjE) (simp, linarith)
  moreover have "length ?got = unat nbytes \<longleftrightarrow> unat nbytes \<le> length (drop p f)" by auto
  ultimately show ?thesis by (simp add: read_blob_def Let_def)
qed

text \<open>
  C3. When the pool that the reader asks for is representable and the allocator can serve it,
  loading an accepted file cannot overrun the pool: it returns every tensor, each pointing into
  the blob at its offset, or fails because the file is shorter than the data section.
\<close>

theorem gguf_load_safe:
  assumes "read_meta mem f = Inr ctx"
    and "368 * (length (ctx_info ctx) + 1) + unat (ctx_size ctx) + 16 \<le> mem" "mem < 2 ^ 63"
  shows "if unat (ctx_size ctx) \<le> length (drop (unat (ctx_offset ctx)) f)
    then \<exists>data ts. gguf_init_from_file_impl mem f (Some False) = Inr (ctx\<lparr>ctx_data := data\<rparr>, Some ts) \<and>
      (0 < unat (ctx_size ctx) \<longrightarrow>
         data = Some (take (unat (ctx_size ctx)) (drop (unat (ctx_offset ctx)) f))) \<and>
      map t_data ts = map (\<lambda>ti. map_option (drop (unat (ti_offset ti))) data) (ctx_info ctx)
    else gguf_init_from_file_impl mem f (Some False) = Inl Failed"
proof -
  let ?n = "length (ctx_info ctx)" and ?size = "ctx_size ctx"
  let ?got = "take (unat ?size) (drop (unat (ctx_offset ctx)) f)"
  have ok: "\<forall>ti \<in> set (ctx_info ctx). tensor_ok (ti_t ti)"
    using gguf_read_tensors_ok [OF assms(1)] .
  obtain k pool t where pool: "ggml_init mem ((word_of_nat ?n + 1) * ggml_tensor_overhead + ?size) False = Inr pool"
    "pool_size pool = word_of_nat k" "k < 2 ^ 64" "368 + unat ?size \<le> k"
    "ggml_new_tensor pool 24 [sint ?size] =
      Inr (pool\<lparr>pool_end := 368 + ggml_pad ?size 16\<rparr>, t, if ?size = 0 then 0 else 368)"
    "unat (368 + ggml_pad ?size 16) + 368 * ?n \<le> k"
    using pool_for_tensors [OF assms(2,3)] by blast
  have uk: "unat (pool_size pool) = k" using pool(2,3) by (simp add: unat_of_nat_small)
  let ?pool1 = "pool\<lparr>pool_end := 368 + ggml_pad ?size 16\<rparr>"
  let ?dst = "if ?size = 0 then 0 else 368 :: size_t"
  have "unat ?size = 0 \<or> unat ?dst + unat ?size \<le> unat (pool_size ?pool1)"
    using uk pool(4) by simp
  note blob = read_blob_fits [OF this, of f "unat (ctx_offset ctx)"]
  let ?data = "if ?dst = 0 then None else Some ?got"
  obtain ts where ts: "load_tensors ?data (ctx_info ctx) (?pool1\<lparr>pool_no_alloc := True\<rparr>) = Inr ts"
    "map t_data ts = map (\<lambda>ti. map_option (drop (unat (ti_offset ti))) ?data) (ctx_info ctx)"
    using load_tensors_ok [OF ok, of "?pool1\<lparr>pool_no_alloc := True\<rparr>" ?data] pool(6) uk
    by (auto simp: comp_def split del: if_split)
  show ?thesis
  proof (cases "unat ?size \<le> length (drop (unat (ctx_offset ctx)) f)")
    case True
    then have b: "read_blob ?pool1 ?dst ?size f (unat (ctx_offset ctx)) =
        Inr (?got, unat (ctx_offset ctx) + unat ?size)"
      using blob by (simp only: if_True)
    have r: "gguf_init_from_file_impl mem f (Some False) = Inr (ctx\<lparr>ctx_data := ?data\<rparr>, Some ts)"
      using assms(1) pool(1,5) b ts(1)
      by (simp add: gguf_init_from_file_impl_def gguf_get_n_tensors_def Let_def split del: if_split)
    have d: "0 < unat ?size \<longrightarrow> ?data = Some ?got" by auto
    show ?thesis unfolding if_P [OF True]
      by (intro exI [of _ ?data] exI [of _ ts] conjI) (fact r, fact d, fact ts(2))
  next
    case False
    then have b: "read_blob ?pool1 ?dst ?size f (unat (ctx_offset ctx)) = Inl Failed"
      using blob by (simp only: if_False)
    have "gguf_init_from_file_impl mem f (Some False) = Inl Failed"
      using assms(1) pool(1,5) b
      by (simp add: gguf_init_from_file_impl_def gguf_get_n_tensors_def Let_def split del: if_split)
    with False show ?thesis by (simp only: if_False)
  qed
qed

end
