(* ===== verification/Gguf_Examples.thy ===== *)
theory Gguf_Examples
  imports Gguf_Safety
begin

text \<open>
  Concrete contexts and files: a small context that satisfies the hypotheses of the theorems
  about writing and reading, and a crafted file that overruns the reader's memory pool.
\<close>

subsection \<open>A file that overruns the pool\<close>

definition huge_tensor :: ggml_tensor where
  "huge_tensor = \<lparr>t_name = bytes_of ''h'', t_type = 28, t_ne = [2 ^ 61 - 8, 1, 1, 1],
     t_nb = [8, 2 ^ 64 - 64, 2 ^ 64 - 64, 2 ^ 64 - 64], t_data = None\<rparr>"

definition huge_context :: gguf_context where
  "huge_context = gguf_init_empty\<lparr>ctx_info := [\<lparr>ti_t = huge_tensor, ti_offset = 0\<rparr>]\<rparr>"

definition huge_file :: bytes where
  "huge_file = meta_padded huge_context @ replicate 400 0"

lemma traits28: "ggml_blck_size 28 = 1" "ggml_type_size 28 = 8"
  by (simp_all add: ggml_blck_size_def ggml_type_size_def type_traits_def)

lemma huge_nbytes: "ggml_nbytes huge_tensor = 2 ^ 64 - 64" "ggml_pad (2 ^ 64 - 64) 32 = 2 ^ 64 - 64"
  by (simp_all add: ggml_nbytes_def huge_tensor_def traits28 ggml_pad_def)

lemma huge_ok: "tensor_ok huge_tensor"
  by (simp add: tensor_ok_def huge_tensor_def traits28 c_str_def bytes_of_def GGML_MAX_NAME_def
      GGML_MAX_DIMS_def GGML_TYPE_COUNT_def check_elements_def too_many_def c_div_nonneg row_strides_def c_mod_def Let_def)

lemma huge_writable: "writable huge_context"
proof -
  have "ctx_inv huge_context" "list_all kv_bools_ok (ctx_kv huge_context)"
    by (simp_all add: ctx_inv_def huge_context_def gguf_init_empty_def keys_distinct_def names_distinct_def)
  moreover have "is_pow2 (ctx_alignment huge_context)" "alignment_agrees huge_context"
    by (simp_all add: huge_context_def gguf_init_empty_def GGUF_DEFAULT_ALIGNMENT_def is_pow2_def
        alignment_agrees_def gguf_find_key_def)
  moreover have "sizes_fit (ctx_alignment huge_context) (ctx_info huge_context)"
    using huge_nbytes by (simp add: sizes_fit_def huge_context_def gguf_init_empty_def GGUF_DEFAULT_ALIGNMENT_def)
  ultimately show ?thesis using huge_ok
    by (simp add: writable_def huge_context_def gguf_init_empty_def GGUF_VERSION_def
        GGUF_DEFAULT_ALIGNMENT_def gguf_get_n_tensors_def gguf_get_n_kv_def max_n_tensors_def max_n_kv_def)
qed

lemma huge_meta_length: "length (meta_padded huge_context) = 64"
  by (simp add: meta_padded_def length_pad_loop meta_bytes_def huge_context_def gguf_init_empty_def GGUF_DEFAULT_ALIGNMENT_def GGUF_MAGIC_def bytes_of_def kv_bytes_def write_tensor_meta_def huge_tensor_def ggml_n_dims_def Let_def c_str_def)

lemma huge_pool:
  "ggml_init 10000 ((1 + 1) * ggml_tensor_overhead + (2 ^ 64 - 64)) False =
     Inr \<lparr>pool_size = 672, pool_end = 0, pool_no_alloc = False\<rparr>"
  by (simp add: ggml_init_def ggml_tensor_overhead_def GGML_OBJECT_SIZE_def GGML_TENSOR_SIZE_def GGML_MEM_ALIGN_def
      ggml_pad_def)

lemma huge_blob_object:
  "\<exists>t. ggml_new_tensor \<lparr>pool_size = 672, pool_end = 0, pool_no_alloc = False\<rparr> 24 [sint (2 ^ 64 - 64 :: size_t)] =
     Inr (\<lparr>pool_size = 672, pool_end = 304, pool_no_alloc = False\<rparr>, t, 368)"
proof -
  have t: "ggml_blck_size 24 = 1" "ggml_type_size 24 = 1"
    by (simp_all add: ggml_blck_size_def ggml_type_size_def type_traits_def)
  show ?thesis
    by (simp add: ggml_new_tensor_def ggml_new_object_def GGML_TYPE_COUNT_def GGML_MAX_DIMS_def Let_def
      GGML_TENSOR_SIZE_def GGML_OBJECT_SIZE_def GGML_MEM_ALIGN_def ggml_pad_def word_greater_zero_iff t)
qed

lemma huge_fits: "fits 10000 huge_file"
  using huge_meta_length by (simp add: fits_def huge_file_def)

text \<open>
  C31. Without that condition the pool can be overrun: a file of 464 bytes that declares one
  64-bit tensor of \<open>2 ^ 61 - 8\<close> elements is accepted, the size of the pool wraps around to 672
  bytes, and the blob is read over its end.
\<close>

theorem gguf_load_overrun:
  "gguf_init_from_file_impl 10000 huge_file (Some False) = Inl Undefined"
proof -
  obtain z where z: "meta_padded huge_context = meta_bytes huge_context @ z"
    by (metis pad_loop_replicate meta_padded_def huge_writable writable_def is_pow2_def unat_gt_0)
  have "read_meta 10000 huge_file = Inr (as_read huge_context)"
    using read_meta_written [OF huge_writable huge_fits, of "z @ replicate 400 0"] z by (simp add: huge_file_def)
  moreover have "ctx_size (as_read huge_context) = 2 ^ 64 - 64" "gguf_get_n_tensors (as_read huge_context) = 1"
    "ctx_offset (as_read huge_context) = 64"
    using huge_nbytes huge_meta_length
    by (simp_all add: as_read_def huge_context_def gguf_init_empty_def GGUF_DEFAULT_ALIGNMENT_def gguf_get_n_tensors_def)
  moreover have "drop 64 huge_file = replicate 400 0"
    using huge_meta_length by (simp add: huge_file_def)
  moreover have "length huge_file = 464"
    using huge_meta_length by (simp add: huge_file_def)
  moreover obtain t where "ggml_new_tensor \<lparr>pool_size = 672, pool_end = 0, pool_no_alloc = False\<rparr> 24
      [sint (2 ^ 64 - 64 :: size_t)] =
     Inr (\<lparr>pool_size = 672, pool_end = 304, pool_no_alloc = False\<rparr>, t, 368)"
    using huge_blob_object by blast
  ultimately show ?thesis
    using huge_pool by (simp add: gguf_init_from_file_impl_def read_blob_def Let_def)
qed

subsection \<open>A small context\<close>

definition sample_tensor :: ggml_tensor where
  "sample_tensor = \<lparr>t_name = bytes_of ''w'', t_type = 0, t_ne = [2, 1, 1, 1],
     t_nb = [4, 8, 8, 8], t_data = Some [1, 2, 3, 4, 5, 6, 7, 8]\<rparr>"

definition sample_context :: gguf_context where
  "sample_context = gguf_init_empty\<lparr>
     ctx_kv := [scalar_kv (bytes_of ''k'') GGUF_TYPE_UINT8 [7]],
     ctx_info := [\<lparr>ti_t = sample_tensor, ti_offset = 0\<rparr>,
       \<lparr>ti_t = sample_tensor\<lparr>t_name := bytes_of ''b''\<rparr>, ti_offset = 32\<rparr>]\<rparr>"

lemma sample_parts:
  "ctx_inv sample_context" "list_all kv_bools_ok (ctx_kv sample_context)"
  "is_pow2 (ctx_alignment sample_context)" "alignment_agrees sample_context"
  "list_all (\<lambda>ti. tensor_ok (ti_t ti)) (ctx_info sample_context)"
  "gguf_get_n_tensors sample_context \<le> max_n_tensors" "gguf_get_n_kv sample_context \<le> max_n_kv"
  by code_simp+

lemma sample_nbytes: "ggml_nbytes sample_tensor = 8" "ggml_pad 8 32 = 32"
  "ggml_nbytes (sample_tensor\<lparr>t_name := n\<rparr>) = 8"
  by (code_simp, code_simp) (simp add: ggml_nbytes_def sample_tensor_def ggml_blck_size_def ggml_type_size_def type_traits_def)

lemma sample_alignment: "ctx_alignment sample_context = 32" "ctx_version sample_context = 3"
  by (simp_all add: sample_context_def gguf_init_empty_def GGUF_VERSION_def GGUF_DEFAULT_ALIGNMENT_def)

lemma sample_fit: "sizes_fit (ctx_alignment sample_context) (ctx_info sample_context)"
  by (simp add: sizes_fit_def sample_context_def gguf_init_empty_def GGUF_DEFAULT_ALIGNMENT_def sample_nbytes)

lemma sample_writable: "writable sample_context"
  using sample_parts sample_alignment sample_fit by (simp add: writable_def list_all_iff)

lemma sample_meta_length: "length (meta_padded sample_context) = 128"
  by code_simp

lemma sample_size: "layout_end (ctx_alignment sample_context) 0 (ctx_info sample_context) = 64"
  by code_simp

lemma sample_data:
  "\<forall>ti \<in> set (ctx_info sample_context).
     \<exists>d. t_data (ti_t ti) = Some d \<and> unat (ggml_nbytes (ti_t ti)) \<le> length d"
  by (simp add: sample_context_def gguf_init_empty_def sample_nbytes) (simp add: sample_tensor_def)

lemma sample_written:
  "\<exists>buf. gguf_write_to_buf sample_context [] False = Inr buf \<and> length buf = 192"
proof -
  let ?m = "meta_padded sample_context" and ?tis = "ctx_info sample_context"
  have p: "sum_list (map (\<lambda>ti. unat (ggml_pad (ggml_nbytes (ti_t ti)) (ctx_alignment sample_context))) ?tis) = 64"
    by (simp add: sample_context_def gguf_init_empty_def GGUF_DEFAULT_ALIGNMENT_def sample_nbytes)
  have "\<exists>out. each_outcome (\<lambda>ti. write_tensor_data ti (length ?m) (ctx_alignment sample_context)) ?tis ?m = Inr out \<and>
    length out = length ?m + sum_list (map (\<lambda>ti. unat (ggml_pad (ggml_nbytes (ti_t ti)) (ctx_alignment sample_context))) ?tis)"
    by (rule write_data_succeeds [of _ 0])
      (use sample_parts sample_fit sample_data sample_meta_length p sample_alignment in
        \<open>auto simp: ctx_inv_def sizes_fit_def list_all_iff\<close>)
  then show ?thesis
    using write_all [OF sample_writable, of False] sample_meta_length p by auto
qed

subsection \<open>The theorems at the samples\<close>

lemma sample_read: "read_meta 4000 (meta_padded sample_context @ r) = Inr (as_read sample_context)"
  if "length r \<le> 100"
proof -
  obtain z where "meta_padded sample_context = meta_bytes sample_context @ z"
    by (metis pad_loop_replicate meta_padded_def sample_writable writable_def is_pow2_def unat_gt_0)
  moreover have "fits 4000 (meta_padded sample_context @ r)"
    using that sample_meta_length by (simp add: fits_def)
  ultimately show ?thesis
    using read_meta_written [OF sample_writable, of 4000 _ "z @ r"] by simp
qed

lemma sample_info: "length (ctx_info sample_context) = 2"
  "ti_t (ctx_info sample_context ! 0) = sample_tensor"
  by (simp_all add: sample_context_def)


theorem gguf_write_succeeds_witness:
  "\<exists>buf. gguf_write_to_buf sample_context [] False = Inr buf \<and> length buf = 192"
  using gguf_write_succeeds [OF sample_writable sample_data] sample_meta_length sample_size by auto

theorem gguf_reader_sound_witness:
  "read_meta 4000 (meta_padded sample_context) = Inr (as_read sample_context) \<and>
   layout_ok (ctx_alignment (as_read sample_context)) 0 (ctx_info (as_read sample_context)) \<and>
   names_distinct (as_read sample_context)"
proof -
  have r: "read_meta 4000 (meta_padded sample_context) = Inr (as_read sample_context)"
    using sample_read [of "[]"] by simp
  with gguf_reader_sound [OF r] show ?thesis by blast
qed

theorem gguf_load_safe_witness:
  "(\<exists>data ts. gguf_init_from_file_impl 4000 (meta_padded sample_context @ replicate 64 9) (Some False) =
      Inr ((as_read sample_context)\<lparr>ctx_data := data\<rparr>, Some ts)) \<and>
   gguf_init_from_file_impl 4000 (meta_padded sample_context @ replicate 63 9) (Some False) = Inl Failed"
proof -
  have r: "read_meta 4000 (meta_padded sample_context @ replicate n 9) = Inr (as_read sample_context)"
    if "n \<le> 100" for n
    using sample_read that by simp
  have c: "length (ctx_info (as_read sample_context)) = 2" "unat (ctx_size (as_read sample_context)) = 64"
    "unat (ctx_offset (as_read sample_context)) = 128"
    using sample_size sample_meta_length by (simp_all add: as_read_def sample_info)
  have m: "368 * (length (ctx_info (as_read sample_context)) + 1) +
      unat (ctx_size (as_read sample_context)) + 16 \<le> 4000" "(4000::nat) < 2 ^ 63"
    by (simp_all only: c) simp_all
  show ?thesis
    using gguf_load_safe [OF r [of 64] m] gguf_load_safe [OF r [of 63] m] c sample_meta_length
    by auto
qed

theorem gguf_set_get_scalar_witness:
  "bnd (gguf_set_val_u16 gguf_init_empty (bytes_of ''a'') 513)
     (\<lambda>c. gguf_get_val_u16 c (gguf_find_key c (bytes_of ''a''))) = Inr 513"
proof -
  have "keys_distinct gguf_init_empty" "bytes_of ''a'' \<noteq> []" "0 \<notin> set (bytes_of ''a'')"
    "bytes_of ''a'' \<noteq> GGUF_KEY_GENERAL_ALIGNMENT"
    by (simp_all add: keys_distinct_def gguf_init_empty_def bytes_of_def GGUF_KEY_GENERAL_ALIGNMENT_def)
  from gguf_set_get_scalar [OF this, of 1 513] show ?thesis by blast
qed



theorem gguf_built_invariant_witness:
  "\<exists>c. gguf_set_val_u8 gguf_init_empty (bytes_of ''a'') 1 = Inr c \<and> ctx_inv c"
proof -
  have "\<exists>c. gguf_set_val_u8 gguf_init_empty (bytes_of ''a'') 1 = Inr c"
    by (simp add: gguf_set_val_u8_def gguf_check_reserved_other_def set_scalar_def emplace_back_def
        gguf_kv_scalar_def bytes_of_def c_str_def GGUF_KEY_GENERAL_ALIGNMENT_def)
  then obtain c where c: "gguf_set_val_u8 gguf_init_empty (bytes_of ''a'') 1 = Inr c" ..
  then have "gguf_built c" by (blast intro: gguf_built.intros gguf_edit.intros)
  with c gguf_built_invariant [of c] show ?thesis by blast
qed

end
