(* ===== verification/Ieee.thy ===== *)
theory Ieee
  imports Prelude "HOL-Library.Log_Nat"
begin

text \<open>
  The arithmetic of the program's \<open>float\<close> and \<open>double\<close>: IEEE 754 binary32 and binary64 with
  rounding to nearest, ties to even.  A number is a sign and an exact magnitude; every
  operation computes the exact result and rounds it.  The two types are instances of the
  library's classes for arithmetic and order, so that the models read like the code; \<open><\<close> and
  \<open>\<le>\<close> are the comparisons of C++, false when an operand is a NaN.  The elementary functions of
  the C library have no specified results and are parameters of the models (\<open>libm\<close>); the
  square root is correctly rounded by the standard.
\<close>

subsection \<open>Formats and rounding\<close>

datatype fl = FNaN | FInf bool | FFin bool rat

record fl_format =
  fl_prec :: int
  fl_emin :: int
  fl_emax :: int

definition binary32 :: fl_format where
  "binary32 = \<lparr>fl_prec = 24, fl_emin = -149, fl_emax = 128\<rparr>"

definition binary64 :: fl_format where
  "binary64 = \<lparr>fl_prec = 53, fl_emin = -1074, fl_emax = 1024\<rparr>"

definition pow2 :: "int \<Rightarrow> rat" where
  "pow2 e = (if 0 \<le> e then 2 ^ nat e else 1 / 2 ^ nat (- e))"

text \<open>The exponent of a positive rational: \<open>pow2 (ilog2 r) \<le> r < pow2 (ilog2 r + 1)\<close>.\<close>

definition ilog2 :: "rat \<Rightarrow> int" where
  "ilog2 r =
     (let (a, b) = quotient_of r; e = bitlen a - bitlen b
      in if pow2 e \<le> r then e else e - 1)"

definition round_even :: "rat \<Rightarrow> int" where
  "round_even x =
     (let f = \<lfloor>x\<rfloor>; d = x - of_int f
      in if d < 1 / 2 then f else if d > 1 / 2 then f + 1 else if even f then f else f + 1)"

definition fl_round :: "fl_format \<Rightarrow> bool \<Rightarrow> rat \<Rightarrow> fl" where
  "fl_round fmt neg m =
     (if m = 0 then FFin neg 0
      else let e = max (ilog2 m - (fl_prec fmt - 1)) (fl_emin fmt);
               v = of_int (round_even (m / pow2 e)) * pow2 e
           in if pow2 (fl_emax fmt) \<le> v then FInf neg else FFin neg v)"

definition fl_val :: "bool \<Rightarrow> rat \<Rightarrow> rat" where
  "fl_val neg m = (if neg then - m else m)"

text \<open>Round an exact value; an exact zero gets the sign \<open>zs\<close>.\<close>

definition fl_of_rat :: "fl_format \<Rightarrow> bool \<Rightarrow> rat \<Rightarrow> fl" where
  "fl_of_rat fmt zs r = (if r = 0 then FFin zs 0 else fl_round fmt (r < 0) \<bar>r\<bar>)"

subsection \<open>Operations\<close>

fun fl_neg :: "fl \<Rightarrow> fl" where
  "fl_neg FNaN = FNaN"
| "fl_neg (FInf s) = FInf (\<not> s)"
| "fl_neg (FFin s m) = FFin (\<not> s) m"

fun fl_add :: "fl_format \<Rightarrow> fl \<Rightarrow> fl \<Rightarrow> fl" where
  "fl_add fmt FNaN y = FNaN"
| "fl_add fmt x FNaN = FNaN"
| "fl_add fmt (FInf s) (FInf t) = (if s = t then FInf s else FNaN)"
| "fl_add fmt (FInf s) y = FInf s"
| "fl_add fmt x (FInf t) = FInf t"
| "fl_add fmt (FFin s m) (FFin t n) = fl_of_rat fmt (s \<and> t) (fl_val s m + fl_val t n)"

fun fl_mul :: "fl_format \<Rightarrow> fl \<Rightarrow> fl \<Rightarrow> fl" where
  "fl_mul fmt FNaN y = FNaN"
| "fl_mul fmt x FNaN = FNaN"
| "fl_mul fmt (FInf s) (FInf t) = FInf (s \<noteq> t)"
| "fl_mul fmt (FInf s) (FFin t n) = (if n = 0 then FNaN else FInf (s \<noteq> t))"
| "fl_mul fmt (FFin s m) (FInf t) = (if m = 0 then FNaN else FInf (s \<noteq> t))"
| "fl_mul fmt (FFin s m) (FFin t n) = fl_round fmt (s \<noteq> t) (m * n)"

fun fl_div :: "fl_format \<Rightarrow> fl \<Rightarrow> fl \<Rightarrow> fl" where
  "fl_div fmt FNaN y = FNaN"
| "fl_div fmt x FNaN = FNaN"
| "fl_div fmt (FInf s) (FInf t) = FNaN"
| "fl_div fmt (FInf s) (FFin t n) = FInf (s \<noteq> t)"
| "fl_div fmt (FFin s m) (FInf t) = FFin (s \<noteq> t) 0"
| "fl_div fmt (FFin s m) (FFin t n) =
     (if n = 0 then (if m = 0 then FNaN else FInf (s \<noteq> t)) else fl_round fmt (s \<noteq> t) (m / n))"

text \<open>
  The square root of a positive rational, rounded: the significand is the integer square root
  of the scaled radicand, and the half-way comparison is exact.
\<close>

fun isqrt_from :: "nat \<Rightarrow> nat \<Rightarrow> nat \<Rightarrow> nat" where
  "isqrt_from 0 acc x = acc"
| "isqrt_from (Suc k) acc x =
     (let t = acc + 2 ^ k in if t * t \<le> x then isqrt_from k t x else isqrt_from k acc x)"

definition fl_sqrt_pos :: "fl_format \<Rightarrow> rat \<Rightarrow> fl" where
  "fl_sqrt_pos fmt r =
     (let e = ilog2 r div 2 - (fl_prec fmt - 1);
          x = r / (pow2 e * pow2 e);
          k = isqrt_from (nat (fl_prec fmt + 1)) 0 (nat \<lfloor>x\<rfloor>);
          h = (of_nat k + 1 / 2) * (of_nat k + 1 / 2);
          q = (if x < h then k else if x > h then k + 1 else if even k then k else k + 1)
      in FFin False (of_nat q * pow2 e))"

fun fl_sqrt :: "fl_format \<Rightarrow> fl \<Rightarrow> fl" where
  "fl_sqrt fmt FNaN = FNaN"
| "fl_sqrt fmt (FInf s) = (if s then FNaN else FInf False)"
| "fl_sqrt fmt (FFin s m) =
     (if m = 0 then FFin s 0 else if s then FNaN else fl_sqrt_pos fmt m)"

subsection \<open>Comparison\<close>

fun fl_key :: "fl \<Rightarrow> (int \<times> rat) option" where
  "fl_key FNaN = None"
| "fl_key (FInf s) = Some (if s then -1 else 1, 0)"
| "fl_key (FFin s m) = Some (0, fl_val s m)"

definition fl_less :: "fl \<Rightarrow> fl \<Rightarrow> bool" where
  "fl_less x y =
     (case (fl_key x, fl_key y) of
        (Some (a, r), Some (b, q)) \<Rightarrow> a < b \<or> (a = b \<and> r < q)
      | _ \<Rightarrow> False)"

definition fl_eq :: "fl \<Rightarrow> fl \<Rightarrow> bool" where
  "fl_eq x y \<longleftrightarrow> fl_key x \<noteq> None \<and> fl_key x = fl_key y"

definition fl_le :: "fl \<Rightarrow> fl \<Rightarrow> bool" where
  "fl_le x y \<longleftrightarrow> fl_less x y \<or> fl_eq x y"

lemma fl_less_irrefl: "\<not> fl_less x x"
  by (simp add: fl_less_def split: option.splits)

lemma fl_less_trans: "fl_less x y \<Longrightarrow> fl_less y z \<Longrightarrow> fl_less x z"
  by (auto simp: fl_less_def split: option.splits)

lemma fl_le_less_trans: "fl_le x y \<Longrightarrow> fl_less y z \<Longrightarrow> fl_less x z"
  by (auto simp: fl_le_def fl_eq_def fl_less_def split: option.splits)

lemma fl_less_le_trans: "fl_less x y \<Longrightarrow> fl_le y z \<Longrightarrow> fl_less x z"
  by (auto simp: fl_le_def fl_eq_def fl_less_def split: option.splits)

lemma fl_le_trans: "fl_le x y \<Longrightarrow> fl_le y z \<Longrightarrow> fl_le x z"
  by (auto simp: fl_le_def fl_eq_def fl_less_def split: option.splits)

lemma fl_not_less: "fl_key x \<noteq> None \<Longrightarrow> fl_key y \<noteq> None \<Longrightarrow> \<not> fl_less x y \<longleftrightarrow> fl_le y x"
  by (auto simp: fl_le_def fl_eq_def fl_less_def split: option.splits)

lemma fl_less_key: "fl_less x y \<Longrightarrow> fl_key x \<noteq> None \<and> fl_key y \<noteq> None"
  by (auto simp: fl_less_def split: option.splits)

subsection \<open>The types float and double\<close>

datatype f32 = F32 (fl32: fl)
datatype f64 = F64 (fl64: fl)

instantiation f32 :: "{zero, one, plus, minus, uminus, times, inverse, ord}"
begin

definition zero_f32 :: f32 where "0 = F32 (FFin False 0)"
definition one_f32 :: f32 where "1 = F32 (FFin False 1)"
definition plus_f32 :: "f32 \<Rightarrow> f32 \<Rightarrow> f32" where "x + y = F32 (fl_add binary32 (fl32 x) (fl32 y))"
definition uminus_f32 :: "f32 \<Rightarrow> f32" where "- x = F32 (fl_neg (fl32 x))"
definition minus_f32 :: "f32 \<Rightarrow> f32 \<Rightarrow> f32" where "x - y = F32 (fl_add binary32 (fl32 x) (fl_neg (fl32 y)))"
definition times_f32 :: "f32 \<Rightarrow> f32 \<Rightarrow> f32" where "x * y = F32 (fl_mul binary32 (fl32 x) (fl32 y))"
definition divide_f32 :: "f32 \<Rightarrow> f32 \<Rightarrow> f32" where "x div y = F32 (fl_div binary32 (fl32 x) (fl32 y))"
definition inverse_f32 :: "f32 \<Rightarrow> f32" where "inverse x = F32 (fl_div binary32 (FFin False 1) (fl32 x))"
definition less_f32 :: "f32 \<Rightarrow> f32 \<Rightarrow> bool" where "x < y \<longleftrightarrow> fl_less (fl32 x) (fl32 y)"
definition less_eq_f32 :: "f32 \<Rightarrow> f32 \<Rightarrow> bool" where "x \<le> y \<longleftrightarrow> fl_le (fl32 x) (fl32 y)"

instance ..

end

instantiation f64 :: "{zero, one, plus, minus, uminus, times, inverse, ord}"
begin

definition zero_f64 :: f64 where "0 = F64 (FFin False 0)"
definition one_f64 :: f64 where "1 = F64 (FFin False 1)"
definition plus_f64 :: "f64 \<Rightarrow> f64 \<Rightarrow> f64" where "x + y = F64 (fl_add binary64 (fl64 x) (fl64 y))"
definition uminus_f64 :: "f64 \<Rightarrow> f64" where "- x = F64 (fl_neg (fl64 x))"
definition minus_f64 :: "f64 \<Rightarrow> f64 \<Rightarrow> f64" where "x - y = F64 (fl_add binary64 (fl64 x) (fl_neg (fl64 y)))"
definition times_f64 :: "f64 \<Rightarrow> f64 \<Rightarrow> f64" where "x * y = F64 (fl_mul binary64 (fl64 x) (fl64 y))"
definition divide_f64 :: "f64 \<Rightarrow> f64 \<Rightarrow> f64" where "x div y = F64 (fl_div binary64 (fl64 x) (fl64 y))"
definition inverse_f64 :: "f64 \<Rightarrow> f64" where "inverse x = F64 (fl_div binary64 (FFin False 1) (fl64 x))"
definition less_f64 :: "f64 \<Rightarrow> f64 \<Rightarrow> bool" where "x < y \<longleftrightarrow> fl_less (fl64 x) (fl64 y)"
definition less_eq_f64 :: "f64 \<Rightarrow> f64 \<Rightarrow> bool" where "x \<le> y \<longleftrightarrow> fl_le (fl64 x) (fl64 y)"

instance ..

end

definition f32_of_rat :: "rat \<Rightarrow> f32" where "f32_of_rat r = F32 (fl_of_rat binary32 False r)"
definition f64_of_rat :: "rat \<Rightarrow> f64" where "f64_of_rat r = F64 (fl_of_rat binary64 False r)"
definition f32_of_int :: "int \<Rightarrow> f32" where "f32_of_int i = f32_of_rat (of_int i)"
definition f64_of_int :: "int \<Rightarrow> f64" where "f64_of_int i = f64_of_rat (of_int i)"

fun fl_convert :: "fl_format \<Rightarrow> fl \<Rightarrow> fl" where
  "fl_convert fmt (FFin s m) = fl_round fmt s m"
| "fl_convert fmt x = x"

definition f64_of_f32 :: "f32 \<Rightarrow> f64" where "f64_of_f32 x = F64 (fl_convert binary64 (fl32 x))"
definition f32_of_f64 :: "f64 \<Rightarrow> f32" where "f32_of_f64 x = F32 (fl_convert binary32 (fl64 x))"

definition f32_inf :: f32 where "f32_inf = F32 (FInf False)"
definition sqrt_f32 :: "f32 \<Rightarrow> f32" where "sqrt_f32 x = F32 (fl_sqrt binary32 (fl32 x))"
definition sqrt_f64 :: "f64 \<Rightarrow> f64" where "sqrt_f64 x = F64 (fl_sqrt binary64 (fl64 x))"

definition is_nan32 :: "f32 \<Rightarrow> bool" where "is_nan32 x \<longleftrightarrow> fl32 x = FNaN"
definition is_inf32 :: "f32 \<Rightarrow> bool" where "is_inf32 x \<longleftrightarrow> (\<exists>s \<in> {True, False}. fl32 x = FInf s)"

text \<open>The conversion to an integer truncates; outside the range of the type it is undefined.\<close>

definition fl_trunc :: "int \<Rightarrow> int \<Rightarrow> fl \<Rightarrow> int outcome" where
  "fl_trunc lo hi x =
     (case x of
        FFin s m \<Rightarrow>
          (let i = (if s then - \<lfloor>m\<rfloor> else \<lfloor>m\<rfloor>)
           in bnd (ensure (lo \<le> i \<and> i \<le> hi) Undefined) (\<lambda>_. Inr i))
      | _ \<Rightarrow> Inl Undefined)"

text \<open>\<open>floor\<close>, \<open>ceil\<close> and \<open>round\<close> (half-way cases away from zero) on a floating-point number.\<close>

fun fl_floor :: "fl \<Rightarrow> fl" where
  "fl_floor (FFin s m) = FFin s (of_int (if s then \<lceil>m\<rceil> else \<lfloor>m\<rfloor>))"
| "fl_floor x = x"

fun fl_ceil :: "fl \<Rightarrow> fl" where
  "fl_ceil (FFin s m) = FFin s (of_int (if s then \<lfloor>m\<rfloor> else \<lceil>m\<rceil>))"
| "fl_ceil x = x"

fun fl_rint :: "fl \<Rightarrow> fl" where
  "fl_rint (FFin s m) = FFin s (of_int \<lfloor>m + 1 / 2\<rfloor>)"
| "fl_rint x = x"

text \<open>Conversions to the 32-bit \<open>int\<close>.\<close>

definition int_of_f64 :: "f64 \<Rightarrow> int outcome" where
  "int_of_f64 x = fl_trunc (- (2 ^ 31)) (2 ^ 31 - 1) (fl64 x)"

definition int_of_f32 :: "f32 \<Rightarrow> int outcome" where
  "int_of_f32 x = fl_trunc (- (2 ^ 31)) (2 ^ 31 - 1) (fl32 x)"

definition floor_f64 :: "f64 \<Rightarrow> f64" where "floor_f64 x = F64 (fl_floor (fl64 x))"
definition ceil_f64 :: "f64 \<Rightarrow> f64" where "ceil_f64 x = F64 (fl_ceil (fl64 x))"
definition round_f64 :: "f64 \<Rightarrow> f64" where "round_f64 x = F64 (fl_rint (fl64 x))"
definition round_f32 :: "f32 \<Rightarrow> f32" where "round_f32 x = F32 (fl_rint (fl32 x))"

text \<open>The elementary functions the program calls.\<close>

record libm =
  expf :: "f32 \<Rightarrow> f32"
  logf :: "f32 \<Rightarrow> f32"
  tanhf :: "f32 \<Rightarrow> f32"
  cosf :: "f32 \<Rightarrow> f32"
  sinf :: "f32 \<Rightarrow> f32"
  powf :: "f32 \<Rightarrow> f32 \<Rightarrow> f32"
  log10f :: "f32 \<Rightarrow> f32"
  log64 :: "f64 \<Rightarrow> f64"
  exp64 :: "f64 \<Rightarrow> f64"
  cos64 :: "f64 \<Rightarrow> f64"
  sin64 :: "f64 \<Rightarrow> f64"

lemma f32_less_irrefl [simp]: "\<not> x < x" for x :: f32
  by (simp add: less_f32_def fl_less_irrefl)

lemma f32_less_trans: "x < y \<Longrightarrow> y < z \<Longrightarrow> x < z" for x y z :: f32
  by (auto simp: less_f32_def intro: fl_less_trans)

lemma f32_le_less_trans: "x \<le> y \<Longrightarrow> y < z \<Longrightarrow> x < z" for x y z :: f32
  by (auto simp: less_f32_def less_eq_f32_def intro: fl_le_less_trans)

lemma f32_less_le_trans: "x < y \<Longrightarrow> y \<le> z \<Longrightarrow> x < z" for x y z :: f32
  by (auto simp: less_f32_def less_eq_f32_def intro: fl_less_le_trans)

lemma f32_le_trans: "x \<le> y \<Longrightarrow> y \<le> z \<Longrightarrow> x \<le> z" for x y z :: f32
  by (auto simp: less_eq_f32_def intro: fl_le_trans)

lemma f64_less_trans: "x < y \<Longrightarrow> y < z \<Longrightarrow> x < z" for x y z :: f64
  by (auto simp: less_f64_def intro: fl_less_trans)

lemma f64_le_less_trans: "x \<le> y \<Longrightarrow> y < z \<Longrightarrow> x < z" for x y z :: f64
  by (auto simp: less_f64_def less_eq_f64_def intro: fl_le_less_trans)

lemma f64_less_irrefl [simp]: "\<not> x < x" for x :: f64
  by (simp add: less_f64_def fl_less_irrefl)

text \<open>Numbers that are not NaN are ordered linearly up to the sign of zero.\<close>

definition is_num32 :: "f32 \<Rightarrow> bool" where "is_num32 x \<longleftrightarrow> fl_key (fl32 x) \<noteq> None"
definition is_num64 :: "f64 \<Rightarrow> bool" where "is_num64 x \<longleftrightarrow> fl_key (fl64 x) \<noteq> None"

lemma fl_less_between: "fl_less x y \<Longrightarrow> fl_key z \<noteq> None \<Longrightarrow> fl_less x z \<or> fl_less z y"
  by (auto simp: fl_less_def split: option.splits)

lemma f64_less_between: "x < y \<Longrightarrow> is_num64 z \<Longrightarrow> x < z \<or> z < y" for x y z :: f64
  by (simp add: less_f64_def is_num64_def fl_less_between)

lemma f32_less_between: "x < y \<Longrightarrow> is_num32 z \<Longrightarrow> x < z \<or> z < y" for x y z :: f32
  by (simp add: less_f32_def is_num32_def fl_less_between)

text \<open>Sums and products of non-negative numbers are non-negative.\<close>

definition nonneg32 :: "f32 \<Rightarrow> bool" where
  "nonneg32 x \<longleftrightarrow> (case fl32 x of FNaN \<Rightarrow> False | FInf s \<Rightarrow> \<not> s | FFin s m \<Rightarrow> \<not> s \<and> 0 \<le> m)"

end
