(* ===== verification/Clustering.thy ===== *)
theory Clustering
  imports Ieee "HOL-Library.Multiset"
begin

text \<open>
  The agglomerative clustering of speaker embeddings in \<open>examples/main.cpp\<close>
  (\<open>agglomerative_clustering\<close>): average linkage over cosine distances, merging the closest pair
  of clusters until no pair is within the threshold.  A cluster is the list of its members, in
  the order the code keeps them.
\<close>

type_synonym embedding = "f32 list"

subsection \<open>Distances\<close>

fun dot_loop :: "f32 \<Rightarrow> f32 list \<Rightarrow> f32 list \<Rightarrow> f32 outcome" where
  "dot_loop dot [] b = Inr dot"
| "dot_loop dot (x # a) [] = Inl Undefined"
| "dot_loop dot (x # a) (y # b) = dot_loop (dot + x * y) a b"

definition cosine_distance :: "f32 list \<Rightarrow> f32 list \<Rightarrow> f32 outcome" where
  "cosine_distance a b = bnd (dot_loop 0 a b) (\<lambda>dot. Inr (1 - dot))"

definition member_pairs :: "nat list \<Rightarrow> nat list \<Rightarrow> (nat \<times> nat) list" where
  "member_pairs c1 c2 = concat (map (\<lambda>i. map (\<lambda>j. (i, j)) c2) c1)"

definition average_linkage :: "embedding list \<Rightarrow> nat list \<Rightarrow> nat list \<Rightarrow> f32 outcome" where
  "average_linkage embeddings c1 c2 =
     bnd (each_outcome
            (\<lambda>(i, j) (acc, count). bnd (cosine_distance (embeddings ! i) (embeddings ! j)) (\<lambda>d.
               Inr (acc + d, count + 1)))
            (member_pairs c1 c2) (0, 0 :: nat)) (\<lambda>(acc, count).
     Inr (if count > 0 then acc / f32_of_int (int count) else 0))"

subsection \<open>The closest pair of clusters\<close>

definition index_pairs :: "nat \<Rightarrow> (nat \<times> nat) list" where
  "index_pairs n = concat (map (\<lambda>i. map (\<lambda>j. (i, j)) [i + 1..<n]) [0..<n])"

definition closest_step ::
  "embedding list \<Rightarrow> nat list list \<Rightarrow> nat \<times> nat \<Rightarrow> f32 \<times> (nat \<times> nat) option \<Rightarrow>
   (f32 \<times> (nat \<times> nat) option) outcome" where
  "closest_step embeddings clusters p best =
     bnd (average_linkage embeddings (clusters ! fst p) (clusters ! snd p)) (\<lambda>dist.
     Inr (if dist < fst best then (dist, Some p) else best))"

definition closest_pair ::
  "embedding list \<Rightarrow> nat list list \<Rightarrow> (f32 \<times> (nat \<times> nat) option) outcome" where
  "closest_pair embeddings clusters =
     each_outcome (closest_step embeddings clusters) (index_pairs (length clusters)) (f32_inf, None)"

subsection \<open>The merge loop\<close>

definition merge_clusters :: "nat list list \<Rightarrow> nat \<Rightarrow> nat \<Rightarrow> nat list list" where
  "merge_clusters clusters i j = remove_nth j (clusters[i := clusters ! i @ clusters ! j])"

definition merge_step :: "embedding list \<Rightarrow> f32 \<Rightarrow> nat list list \<Rightarrow> nat list list option outcome" where
  "merge_step embeddings threshold clusters =
     bnd (closest_pair embeddings clusters) (\<lambda>(best_dist, best).
     case best of
       None \<Rightarrow> Inr None
     | Some (i, j) \<Rightarrow>
         if best_dist > threshold then Inr None else Inr (Some (merge_clusters clusters i j)))"

lemma index_pairs_bounds: "(i, j) \<in> set (index_pairs n) \<longleftrightarrow> i < j \<and> j < n"
  by (auto simp: index_pairs_def image_iff intro!: bexI [of _ i])

lemma closest_pair_bounds:
  assumes "closest_pair embeddings clusters = Inr (d, Some (i, j))"
  shows "i < j \<and> j < length clusters"
proof -
  define I where "I = (\<lambda>b :: f32 \<times> (nat \<times> nat) option.
    case snd b of None \<Rightarrow> True | Some (i, j) \<Rightarrow> i < j \<and> j < length clusters)"
  have "I (d, Some (i, j))"
    using assms unfolding closest_pair_def
    by (rule each_outcome_invariant [where I = I])
      (auto simp: I_def closest_step_def bnd_eq_Inr index_pairs_bounds split: if_splits option.splits)
  then show ?thesis by (simp add: I_def)
qed

lemma length_merge_clusters:
  "i < j \<Longrightarrow> j < length clusters \<Longrightarrow> length (merge_clusters clusters i j) = length clusters - 1"
  by (simp add: merge_clusters_def)

lemma merge_step_Some:
  "merge_step embeddings threshold clusters = Inr (Some clusters') \<longleftrightarrow>
     (\<exists>d i j. closest_pair embeddings clusters = Inr (d, Some (i, j)) \<and> \<not> threshold < d \<and>
        clusters' = merge_clusters clusters i j)"
proof (cases "closest_pair embeddings clusters")
  case (Inr p)
  then obtain d b where "closest_pair embeddings clusters = Inr (d, b)" by (cases p) auto
  then show ?thesis by (cases b) (auto simp: merge_step_def split: if_splits)
qed (simp add: merge_step_def)

lemma merge_step_None:
  "merge_step embeddings threshold clusters = Inr None \<longleftrightarrow>
     (\<exists>d b. closest_pair embeddings clusters = Inr (d, b) \<and> (b = None \<or> threshold < d))"
proof (cases "closest_pair embeddings clusters")
  case (Inr p)
  then obtain d b where "closest_pair embeddings clusters = Inr (d, b)" by (cases p) auto
  then show ?thesis by (cases b) (auto simp: merge_step_def split: if_splits)
qed (simp add: merge_step_def)

lemma merge_step_smaller:
  "merge_step embeddings threshold clusters = Inr (Some clusters') \<Longrightarrow>
   length clusters' < length clusters"
  by (auto simp: merge_step_Some length_merge_clusters dest!: closest_pair_bounds)

function merge_loop :: "embedding list \<Rightarrow> f32 \<Rightarrow> nat list list \<Rightarrow> nat list list outcome" where
  "merge_loop embeddings threshold clusters =
     (case merge_step embeddings threshold clusters of
        Inl e \<Rightarrow> Inl e
      | Inr None \<Rightarrow> Inr clusters
      | Inr (Some clusters') \<Rightarrow> merge_loop embeddings threshold clusters')"
  by pat_completeness auto
termination
  by (relation "measure (\<lambda>(_, _, clusters). length clusters)") (auto dest: merge_step_smaller)

declare merge_loop.simps [simp del]

subsection \<open>Labels\<close>

definition label_cluster :: "nat \<times> nat list \<Rightarrow> int list \<Rightarrow> int list" where
  "label_cluster kc labels = foldl (\<lambda>ls idx. ls[idx := int (fst kc)]) labels (snd kc)"

definition cluster_labels :: "nat \<Rightarrow> nat list list \<Rightarrow> int list" where
  "cluster_labels n clusters = fold label_cluster (enumerate 0 clusters) (replicate n (-1))"

definition agglomerative_clustering :: "embedding list \<Rightarrow> f32 \<Rightarrow> int \<Rightarrow> int list outcome" where
  "agglomerative_clustering embeddings threshold min_cluster_size =
     (let n = length embeddings in
      if n = 0 then Inr []
      else if n = 1 then Inr [0]
      else bnd (merge_loop embeddings threshold (map (\<lambda>i. [i]) [0..<n])) (\<lambda>clusters.
           Inr (cluster_labels n clusters)))"

subsection \<open>The clusters stay a partition\<close>

definition is_partition :: "nat \<Rightarrow> nat list list \<Rightarrow> bool" where
  "is_partition n clusters \<longleftrightarrow>
     distinct (concat clusters) \<and> set (concat clusters) = {0..<n} \<and> [] \<notin> set clusters"

lemma split_twice:
  assumes "i < j" "j < length xs"
  obtains A B C where "xs = A @ xs ! i # B @ xs ! j # C" "length A = i" "length B = j - i - 1"
proof -
  let ?A = "take i xs" and ?r = "drop (Suc i) xs"
  have a: "xs = ?A @ xs ! i # ?r" using assms by (intro id_take_nth_drop) simp
  have "?r = take (j - i - 1) ?r @ ?r ! (j - i - 1) # drop (Suc (j - i - 1)) ?r"
    using assms by (intro id_take_nth_drop) simp
  moreover have "?r ! (j - i - 1) = xs ! j" using assms by simp
  ultimately have "xs = ?A @ xs ! i # take (j - i - 1) ?r @ xs ! j # drop (Suc (j - i - 1)) ?r"
    using a by (metis append_Cons append_Nil)
  then show ?thesis using assms that [of ?A "take (j - i - 1) ?r"] by simp
qed

lemma merge_clusters_split:
  assumes "length A = i" "length B = j - i - 1" "i < j" "clusters = A @ x # B @ y # C"
  shows "merge_clusters clusters i j = A @ (x @ y) # B @ C"
proof -
  have i: "clusters ! i = x" using assms by (simp add: nth_append)
  have "clusters = (A @ x # B) @ y # C" "length (A @ x # B) = j" using assms by simp_all
  then have j: "clusters ! j = y" by (metis nth_append_length)
  define P where "P = A @ (x @ y) # B"
  have u: "clusters[i := x @ y] = P @ y # C"
    using assms by (simp add: list_update_append P_def)
  have "length P = j" using assms by (simp add: P_def)
  then have "take j (P @ y # C) = P" "drop (Suc j) (P @ y # C) = C" by simp_all
  then show ?thesis
    unfolding merge_clusters_def i j u remove_nth_def by (simp add: P_def)
qed

lemma is_partition_mset:
  "is_partition n clusters \<longleftrightarrow> mset (concat clusters) = mset [0..<n] \<and> [] \<notin> set clusters"
proof -
  have "distinct (concat clusters) \<and> set (concat clusters) = {0..<n} \<longleftrightarrow>
      mset (concat clusters) = mset [0..<n]"
    by (metis atLeastLessThan_upt distinct_upt mset_eq_imp_distinct_iff mset_eq_setD set_eq_iff_mset_eq_distinct)
  then show ?thesis by (auto simp: is_partition_def)
qed

lemma is_partition_merge:
  assumes "is_partition n clusters" "i < j" "j < length clusters"
  shows "is_partition n (merge_clusters clusters i j)"
proof -
  obtain A B C where s: "clusters = A @ clusters ! i # B @ clusters ! j # C" "length A = i" "length B = j - i - 1"
    using assms(2,3) by (rule split_twice)
  have m: "merge_clusters clusters i j = A @ (clusters ! i @ clusters ! j) # B @ C"
    using merge_clusters_split [OF s(2,3) assms(2) s(1)] .
  have "mset (concat (A @ clusters ! i # B @ clusters ! j # C)) = mset [0..<n]"
    "[] \<notin> set (A @ clusters ! i # B @ clusters ! j # C)"
    using assms(1) unfolding is_partition_mset by (subst s(1) [symmetric], blast)+
  then show ?thesis
    unfolding is_partition_mset m by (auto simp: add_ac)
qed

lemma is_partition_singletons: "is_partition n (map (\<lambda>i. [i]) [0..<n])"
  by (auto simp: is_partition_def)

lemma merge_loop_partition:
  "merge_loop embeddings threshold clusters = Inr final \<Longrightarrow> is_partition n clusters \<Longrightarrow>
   is_partition n final \<and> merge_step embeddings threshold final = Inr None"
proof (induction embeddings threshold clusters rule: merge_loop.induct)
  case (1 embeddings threshold clusters)
  show ?case
  proof (cases "merge_step embeddings threshold clusters")
    case (Inl e)
    then show ?thesis using 1 by (simp add: merge_loop.simps [of embeddings threshold clusters])
  next
    case (Inr r)
    show ?thesis
    proof (cases r)
      case None
      then show ?thesis using 1 Inr by (simp add: merge_loop.simps [of embeddings threshold clusters])
    next
      case (Some clusters')
      then have "merge_loop embeddings threshold clusters' = Inr final"
        using 1(2) Inr by (simp add: merge_loop.simps [of embeddings threshold clusters])
      moreover obtain d i j where "closest_pair embeddings clusters = Inr (d, Some (i, j))"
        "clusters' = merge_clusters clusters i j"
        using Inr Some by (auto simp: merge_step_Some)
      then have "is_partition n clusters'"
        using is_partition_merge [OF 1(3)] closest_pair_bounds by blast
      ultimately show ?thesis using 1(1) [OF Inr Some] by blast
    qed
  qed
qed

subsection \<open>No pair within the threshold is left\<close>

lemma closest_fold:
  assumes "each_outcome (closest_step embeddings clusters) ps s = Inr t"
  shows "(fst t = fst s \<and> snd t = snd s \<or> fst t < fst s \<and> snd t \<noteq> None) \<and>
    (\<forall>p \<in> set ps. \<forall>d. average_linkage embeddings (clusters ! fst p) (clusters ! snd p) = Inr d \<longrightarrow>
       \<not> d < fst t)"
  using assms
proof (induction ps arbitrary: s)
  case Nil
  then show ?case by simp
next
  case (Cons p ps)
  obtain u where v: "closest_step embeddings clusters p s = Inr u"
    "each_outcome (closest_step embeddings clusters) ps u = Inr t"
    using Cons.prems by (auto simp only: each_outcome.simps bnd_eq_Inr)
  then obtain d where u: "average_linkage embeddings (clusters ! fst p) (clusters ! snd p) = Inr d"
    "u = (if d < fst s then (d, Some p) else s)"
    by (auto simp: closest_step_def bnd_eq_Inr)
  note IH = Cons.IH [OF v(2)]
  have "\<not> d < fst t"
    using IH [THEN conjunct1] u(2) by (auto intro: f32_less_trans dest: f32_less_trans split: if_splits)
  moreover have "fst t = fst s \<and> snd t = snd s \<or> fst t < fst s \<and> snd t \<noteq> None"
    using IH [THEN conjunct1] u(2) by (auto intro: f32_less_trans split: if_splits)
  ultimately show ?case using IH [THEN conjunct2] u(1) by auto
qed

lemma merge_stop:
  assumes "merge_step embeddings threshold clusters = Inr None" "i < j" "j < length clusters"
    and "average_linkage embeddings (clusters ! i) (clusters ! j) = Inr d" "d < f32_inf"
  shows "\<not> d \<le> threshold"
proof -
  obtain bd b where b: "closest_pair embeddings clusters = Inr (bd, b)" "b = None \<or> threshold < bd"
    using assms(1) by (auto simp: merge_step_None)
  note c = closest_fold [OF b(1) [unfolded closest_pair_def]]
  have f1: "bd = f32_inf \<and> b = None \<or> bd < f32_inf \<and> b \<noteq> None"
    using c [THEN conjunct1] by simp
  have "(i, j) \<in> set (index_pairs (length clusters))" using assms(2,3) by (simp add: index_pairs_bounds)
  then have f2: "\<not> d < bd" using c [THEN conjunct2] assms(4) by fastforce
  have "threshold < bd" using b(2) assms(5) f1 f2 by auto
  then show ?thesis using f2 f32_le_less_trans by blast
qed

subsection \<open>Labels\<close>

lemma nth_update_beyond: "\<not> x < length ls \<Longrightarrow> ls[a := v] ! x = ls ! x"
  by (cases "a = x") (simp_all add: not_less list_update_beyond)

lemma label_cluster_nth:
  "label_cluster (k, c) labels ! x =
     (if x \<in> set c \<and> x < length labels then int k else labels ! x)"
proof -
  have "length (foldl (\<lambda>ls idx. ls[idx := int k]) ls c) = length ls \<and>
    foldl (\<lambda>ls idx. ls[idx := int k]) ls c ! x = (if x \<in> set c \<and> x < length ls then int k else ls ! x)" for ls
    by (induction c arbitrary: ls) (auto simp: nth_list_update nth_update_beyond)
  then show ?thesis by (simp add: label_cluster_def)
qed

lemma length_label_cluster [simp]: "length (label_cluster kc labels) = length labels"
proof -
  have "length (foldl (\<lambda>ls idx. ls[idx := v]) ls c) = length ls" for v :: int and ls and c :: "nat list"
    by (induction c arbitrary: ls) simp_all
  then show ?thesis by (simp add: label_cluster_def)
qed

lemma fold_labels:
  assumes "distinct (concat clusters)" "\<forall>x \<in> set (concat clusters). x < length labels"
  shows "length (fold label_cluster (enumerate k clusters) labels) = length labels \<and>
    (\<forall>x. x \<notin> set (concat clusters) \<longrightarrow> fold label_cluster (enumerate k clusters) labels ! x = labels ! x) \<and>
    (\<forall>m < length clusters. \<forall>x \<in> set (clusters ! m).
       fold label_cluster (enumerate k clusters) labels ! x = int (k + m))"
  using assms
proof (induction clusters arbitrary: k labels)
  case Nil
  then show ?case by simp
next
  case (Cons c clusters)
  let ?l = "label_cluster (k, c) labels"
  have IH: "length (fold label_cluster (enumerate (Suc k) clusters) ?l) = length ?l \<and>
    (\<forall>x. x \<notin> set (concat clusters) \<longrightarrow> fold label_cluster (enumerate (Suc k) clusters) ?l ! x = ?l ! x) \<and>
    (\<forall>m < length clusters. \<forall>x \<in> set (clusters ! m).
       fold label_cluster (enumerate (Suc k) clusters) ?l ! x = int (Suc k + m))"
    using Cons.prems by (intro Cons.IH) auto
  show ?case
  proof (intro conjI allI impI ballI)
    fix m x assume m: "m < length (c # clusters)" "x \<in> set ((c # clusters) ! m)"
    show "fold label_cluster (enumerate k (c # clusters)) labels ! x = int (k + m)"
    proof (cases m)
      case 0
      then have "x \<in> set c" "x \<notin> set (concat clusters)" "x < length labels"
        using m Cons.prems by auto
      then show ?thesis using IH 0 by (simp add: label_cluster_nth)
    next
      case (Suc m')
      then show ?thesis using IH m by simp
    qed
  qed (use IH in \<open>auto simp: label_cluster_nth\<close>)
qed

lemma partition_labels:
  assumes "is_partition n clusters"
  shows "length (cluster_labels n clusters) = n \<and>
    set (cluster_labels n clusters) = {0..<int (length clusters)} \<and>
    (\<forall>m < length clusters. \<forall>x \<in> set (clusters ! m). cluster_labels n clusters ! x = int m)"
proof -
  let ?L = "cluster_labels n clusters"
  have d: "distinct (concat clusters)" "\<forall>x \<in> set (concat clusters). x < length (replicate n (-1 :: int))"
    using assms by (auto simp: is_partition_def)
  have len: "length ?L = n" and lab: "\<forall>m < length clusters. \<forall>x \<in> set (clusters ! m). ?L ! x = int m"
    using fold_labels [OF d, of 0] by (simp_all add: cluster_labels_def)
  have "set ?L \<subseteq> {0..<int (length clusters)}"
  proof
    fix l assume "l \<in> set ?L"
    then obtain x where x: "x < n" "?L ! x = l" using len by (auto simp: in_set_conv_nth)
    then have "x \<in> set (concat clusters)" using assms by (simp add: is_partition_def)
    then obtain c where "c \<in> set clusters" "x \<in> set c" by auto
    then obtain m where "m < length clusters" "x \<in> set (clusters ! m)" by (metis in_set_conv_nth)
    then show "l \<in> {0..<int (length clusters)}" using lab x by auto
  qed
  moreover have "int m \<in> set ?L" if m: "m < length clusters" for m
  proof -
    have "clusters ! m \<noteq> []" using assms m nth_mem by (fastforce simp: is_partition_def)
    then obtain x where x: "x \<in> set (clusters ! m)" by (cases "clusters ! m") auto
    then have "x \<in> set (concat clusters)" using m by auto
    then have "x < n" using assms unfolding is_partition_def by (metis atLeastLessThan_iff)
    then show ?thesis using lab m x len by (metis nth_mem)
  qed
  then have "{0..<int (length clusters)} \<subseteq> set ?L"
    by (metis atLeastLessThan_iff nat_less_iff nonneg_int_cases of_nat_less_iff subsetI)
  ultimately show ?thesis using len lab by blast
qed

subsection \<open>The result\<close>

lemma agglomerative_clustering_partition:
  assumes "agglomerative_clustering embeddings threshold min_cluster_size = Inr labels"
  shows "\<exists>clusters. is_partition (length embeddings) clusters \<and>
    length labels = length embeddings \<and> set labels = {0..<int (length clusters)} \<and>
    (\<forall>m < length clusters. \<forall>x \<in> set (clusters ! m). labels ! x = int m) \<and>
    (\<forall>i j d. i < j \<longrightarrow> j < length clusters \<longrightarrow>
       average_linkage embeddings (clusters ! i) (clusters ! j) = Inr d \<longrightarrow> d < f32_inf \<longrightarrow>
       \<not> d \<le> threshold)"
proof -
  let ?n = "length embeddings"
  consider "?n = 0" | "?n = 1" | "1 < ?n" by linarith
  then show ?thesis
  proof cases
    case 1
    then show ?thesis using assms
      by (intro exI [of _ "[]"]) (simp add: agglomerative_clustering_def is_partition_def)
  next
    case 2
    then have "labels = [0]" using assms by (simp add: agglomerative_clustering_def)
    then show ?thesis using 2
      by (intro exI [of _ "[[0]]"]) (auto simp: is_partition_def)
  next
    case 3
    then obtain clusters where c: "merge_loop embeddings threshold (map (\<lambda>i. [i]) [0..<?n]) = Inr clusters"
      "labels = cluster_labels ?n clusters"
      using assms by (auto simp: agglomerative_clustering_def bnd_eq_Inr Let_def split: if_splits)
    note p = merge_loop_partition [OF c(1) is_partition_singletons]
    show ?thesis
      using partition_labels [OF p [THEN conjunct1]] p c(2) merge_stop by (intro exI [of _ clusters]) blast
  qed
qed

text \<open>
  C26. The labels are those of a partition into at least one cluster, numbered without gaps, and
  in the final clustering no two clusters have a finite average linkage within the threshold.
\<close>

theorem agglomerative_clustering_correct:
  assumes "agglomerative_clustering embeddings threshold min_cluster_size = Inr labels"
  shows "\<exists>clusters. is_partition (length embeddings) clusters \<and>
    length labels = length embeddings \<and> set labels = {0..<int (length clusters)} \<and>
    (\<forall>m < length clusters. \<forall>x \<in> set (clusters ! m). labels ! x = int m) \<and>
    (\<forall>i j d. i < j \<longrightarrow> j < length clusters \<longrightarrow>
       average_linkage embeddings (clusters ! i) (clusters ! j) = Inr d \<longrightarrow> d < f32_inf \<longrightarrow>
       \<not> d \<le> threshold)"
  using assms by (rule agglomerative_clustering_partition)

text \<open>With vectors of one dimension no access is out of bounds and the result always exists.\<close>

lemma dot_loop_defined: "length a \<le> length b \<Longrightarrow> \<exists>r. dot_loop s a b = Inr r"
  by (induction s a b rule: dot_loop.induct) simp_all

lemma average_linkage_defined:
  assumes "\<forall>i \<in> set c1. length (embeddings ! i) = n" "\<forall>j \<in> set c2. length (embeddings ! j) = n"
  shows "\<exists>d. average_linkage embeddings c1 c2 = Inr d"
proof -
  let ?step = "\<lambda>(i, j) (acc, count). bnd (cosine_distance (embeddings ! i) (embeddings ! j)) (\<lambda>d.
               Inr (acc + d, count + 1 :: nat))"
  have "\<forall>(i, j) \<in> set ps. length (embeddings ! i) = n \<and> length (embeddings ! j) = n \<Longrightarrow>
      \<exists>r. each_outcome ?step ps s = Inr r" for ps s
  proof (induction ps arbitrary: s)
    case (Cons p ps)
    obtain i j where p: "p = (i, j)" by (cases p)
    obtain acc count where s: "s = (acc, count)" by (cases s)
    have "length (embeddings ! i) \<le> length (embeddings ! j)" using Cons.prems p by simp
    then obtain r where "dot_loop 0 (embeddings ! i) (embeddings ! j) = Inr r"
      using dot_loop_defined by blast
    then show ?case using Cons p s by (simp add: cosine_distance_def)
  qed simp
  from this [of "member_pairs c1 c2" "(0, 0)"] obtain r where
    "each_outcome ?step (member_pairs c1 c2) (0, 0) = Inr r"
    using assms by (auto simp: member_pairs_def)
  then show ?thesis by (cases r) (simp add: average_linkage_def)
qed

lemma closest_pair_defined:
  assumes "\<forall>c \<in> set clusters. \<forall>i \<in> set c. length (embeddings ! i) = n"
  shows "\<exists>r. closest_pair embeddings clusters = Inr r"
proof -
  have "\<forall>(i, j) \<in> set ps. i < length clusters \<and> j < length clusters \<Longrightarrow>
      \<exists>r. each_outcome (closest_step embeddings clusters) ps s = Inr r" for ps s
  proof (induction ps arbitrary: s)
    case (Cons p ps)
    then have "\<exists>d. average_linkage embeddings (clusters ! fst p) (clusters ! snd p) = Inr d"
      using assms by (intro average_linkage_defined [of _ _ n]) auto
    then obtain d where "average_linkage embeddings (clusters ! fst p) (clusters ! snd p) = Inr d" ..
    then have "closest_step embeddings clusters p s = Inr (if d < fst s then (d, Some p) else s)"
      by (simp add: closest_step_def)
    moreover have "\<forall>(i, j) \<in> set ps. i < length clusters \<and> j < length clusters" using Cons.prems by simp
    ultimately show ?case using Cons.IH by simp
  qed simp
  moreover have "\<forall>(i, j) \<in> set (index_pairs (length clusters)). i < length clusters \<and> j < length clusters"
    by (auto simp: index_pairs_bounds)
  ultimately show ?thesis unfolding closest_pair_def by blast
qed

lemma merge_loop_defined:
  "is_partition n clusters \<Longrightarrow> \<forall>i < n. length (embeddings ! i) = width \<Longrightarrow>
   \<exists>final. merge_loop embeddings threshold clusters = Inr final"
proof (induction embeddings threshold clusters rule: merge_loop.induct)
  case (1 embeddings threshold clusters)
  have "\<forall>c \<in> set clusters. \<forall>i \<in> set c. i < n"
    using 1(2) by (auto simp: is_partition_def)
  then obtain d b where b: "closest_pair embeddings clusters = Inr (d, b)"
    using closest_pair_defined [of clusters embeddings width] 1(3) by auto
  show ?case
  proof (cases "merge_step embeddings threshold clusters")
    case (Inl e)
    then show ?thesis using b by (cases b) (auto simp: merge_step_def split: if_splits)
  next
    case (Inr r)
    show ?thesis
    proof (cases r)
      case None
      then show ?thesis using Inr by (simp add: merge_loop.simps [of embeddings threshold clusters])
    next
      case (Some clusters')
      then obtain d i j where "closest_pair embeddings clusters = Inr (d, Some (i, j))"
        "clusters' = merge_clusters clusters i j"
        using Inr by (auto simp: merge_step_Some)
      then have "is_partition n clusters'"
        using is_partition_merge [OF 1(2)] closest_pair_bounds by blast
      then show ?thesis using 1(1) [OF Inr Some] 1(3) Inr Some
        by (simp add: merge_loop.simps [of embeddings threshold clusters])
    qed
  qed
qed

lemma agglomerative_clustering_defined:
  assumes "\<forall>e \<in> set embeddings. length e = width"
  shows "\<exists>labels. agglomerative_clustering embeddings threshold min_cluster_size = Inr labels"
proof -
  have "\<exists>final. merge_loop embeddings threshold (map (\<lambda>i. [i]) [0..<length embeddings]) = Inr final"
    using assms by (intro merge_loop_defined [OF is_partition_singletons, where width = width]) simp
  then show ?thesis by (auto simp: agglomerative_clustering_def Let_def)
qed

text \<open>
  C27. The clustering terminates without a fault on any list of embeddings of one dimension.
\<close>

theorem agglomerative_clustering_total:
  assumes "\<forall>e \<in> set embeddings. length e = width"
  shows "\<exists>labels. agglomerative_clustering embeddings threshold min_cluster_size = Inr labels"
  using assms by (rule agglomerative_clustering_defined)

end
