(* ===== verification/Vbx_Math.thy ===== *)
theory Vbx_Math
  imports Ieee
begin

text \<open>
  The linear algebra of \<open>examples/vbx.cpp\<close>: dot products, matrix-vector products over row-major
  matrices, normalisation, \<open>logsumexp\<close>, and the embedding transform \<open>vbx_transform_embedding\<close>.
  Loops keep the order of the code, since floating-point sums depend on it.
\<close>

definition dot_product :: "f32 list \<Rightarrow> nat \<Rightarrow> f32 list \<Rightarrow> nat \<Rightarrow> f32 outcome" where
  "dot_product a off b n =
     each_outcome (\<lambda>i acc. bnd (elem a (off + i)) (\<lambda>x. bnd (elem b i) (\<lambda>y. Inr (acc + x * y))))
       [0..<n] 0"

definition mat_vec_mul :: "f32 list \<Rightarrow> f32 list \<Rightarrow> nat \<Rightarrow> nat \<Rightarrow> f32 list outcome" where
  "mat_vec_mul M v rows cols = map_outcome (\<lambda>i. dot_product M (i * cols) v cols) [0..<rows]"

definition trans_row :: "f32 list \<Rightarrow> nat \<Rightarrow> nat \<Rightarrow> f32 \<Rightarrow> f32 list \<Rightarrow> f32 list outcome" where
  "trans_row M cols i val out =
     each_outcome (\<lambda>j out. bnd (elem M (i * cols + j)) (\<lambda>x. Inr (out[j := out ! j + x * val])))
       [0..<cols] out"

definition mat_vec_mul_trans :: "f32 list \<Rightarrow> f32 list \<Rightarrow> nat \<Rightarrow> nat \<Rightarrow> f32 list outcome" where
  "mat_vec_mul_trans M v rows cols =
     each_outcome (\<lambda>i out. bnd (elem v i) (\<lambda>val. trans_row M cols i val out))
       [0..<rows] (replicate cols 0)"

text \<open>The transposed copy that \<open>vbx_transform_embeddings_batch\<close> makes of the LDA matrix.\<close>

definition lda_t_data :: "f32 list \<Rightarrow> nat \<Rightarrow> nat \<Rightarrow> f32 list outcome" where
  "lda_t_data lda D_emb D_lda =
     map_outcome (\<lambda>k. elem lda (k mod D_emb * D_lda + k div D_emb)) [0..<D_emb * D_lda]"

definition normalize :: "f32 list \<Rightarrow> f32 list" where
  "normalize v =
     (let norm = sqrt_f32 (foldl (\<lambda>acc x. acc + x * x) 0 v + f32_of_rat (1 / 10 ^ 12))
      in map (\<lambda>x. x / norm) v)"

definition logsumexp :: "libm \<Rightarrow> f32 list \<Rightarrow> f32" where
  "logsumexp m vals =
     (if vals = [] then - f32_inf
      else let max_val = foldl (\<lambda>best v. if v > best then v else best) (hd vals) vals;
               acc = foldl (\<lambda>acc v. acc + expf m (v - max_val)) 0 vals
           in max_val + logf m acc)"

record vbx_model =
  D_emb :: nat
  D_lda :: nat
  mean1 :: "f32 list"
  mean2 :: "f32 list"
  lda :: "f32 list"
  plda_mu :: "f32 list"
  plda_tr :: "f32 list"
  plda_psi :: "f32 list"

text \<open>\<open>for (i < n) out[i] = a[i] - b[i]\<close>\<close>

definition sub_loop :: "nat \<Rightarrow> f32 list \<Rightarrow> f32 list \<Rightarrow> f32 list outcome" where
  "sub_loop n a b =
     map_outcome (\<lambda>i. bnd (elem a i) (\<lambda>x. bnd (elem b i) (\<lambda>y. Inr (x - y)))) [0..<n]"

definition vbx_transform_embedding :: "vbx_model \<Rightarrow> f32 list \<Rightarrow> f32 list outcome" where
  "vbx_transform_embedding model emb_in =
     (let D = D_emb model; L = D_lda model in
      bnd (sub_loop D emb_in (mean1 model)) (\<lambda>x.
      let x = map (\<lambda>v. v * sqrt_f32 (f32_of_int (int D))) (normalize x) in
      bnd (mat_vec_mul_trans (lda model) x D L) (\<lambda>x_lda.
      bnd (sub_loop L x_lda (mean2 model)) (\<lambda>x_lda.
      let x_lda = map (\<lambda>v. v * sqrt_f32 (f32_of_int (int L))) (normalize x_lda) in
      bnd (sub_loop L x_lda (plda_mu model)) (\<lambda>x_lda.
      mat_vec_mul (plda_tr model) x_lda L L)))))"

subsection \<open>The products are defined on matrices of the right size\<close>

lemma row_major: "i < rows \<Longrightarrow> j < cols \<Longrightarrow> i * cols + j < rows * cols" for i j rows cols :: nat
proof -
  assume a: "i < rows" "j < cols"
  have "i * cols + j < (i + 1) * cols" using a(2) by simp
  also have "\<dots> \<le> rows * cols" using a(1) by (intro mult_right_mono) simp_all
  finally show ?thesis .
qed

lemma dot_product_fold:
  assumes "off + n \<le> length a" "n \<le> length b"
  shows "dot_product a off b n = Inr (fold (\<lambda>i acc. acc + a ! (off + i) * b ! i) [0..<n] 0)"
  unfolding dot_product_def by (rule each_outcome_all) (use assms in simp)

lemma mat_vec_mul_fold:
  assumes "length M = rows * cols" "length v = cols"
  shows "mat_vec_mul M v rows cols =
    Inr (map (\<lambda>i. fold (\<lambda>j acc. acc + M ! (i * cols + j) * v ! j) [0..<cols] 0) [0..<rows])"
  unfolding mat_vec_mul_def
proof (rule map_outcome_all)
  fix i assume "i \<in> set [0..<rows]"
  then have i: "i < rows" by simp
  have "(i + 1) * cols \<le> rows * cols" using i by (intro mult_right_mono) simp_all
  then have "i * cols + cols \<le> length M" using assms(1) by simp
  then show "dot_product M (i * cols) v cols =
      Inr (fold (\<lambda>j acc. acc + M ! (i * cols + j) * v ! j) [0..<cols] 0)"
    using assms(2) by (intro dot_product_fold) simp_all
qed

lemma fold_update_upt:
  "n \<le> length out \<Longrightarrow>
   length (fold (\<lambda>j out. out[j := g j (out ! j)]) [0..<n] out) = length out \<and>
   (\<forall>k. fold (\<lambda>j out. out[j := g j (out ! j)]) [0..<n] out ! k = (if k < n then g k (out ! k) else out ! k))"
proof (induction n)
  case 0
  then show ?case by simp
next
  case (Suc n)
  then show ?case by (auto simp: nth_list_update less_Suc_eq)
qed

lemma trans_row_update:
  assumes "length M = rows * cols" "i < rows" "length out = cols"
  shows "trans_row M cols i val out =
    Inr (map (\<lambda>j. out ! j + M ! (i * cols + j) * val) [0..<cols])"
proof -
  let ?f = "\<lambda>j out. out[j := out ! j + M ! (i * cols + j) * val]"
  have "trans_row M cols i val out = Inr (fold ?f [0..<cols] out)"
    unfolding trans_row_def
    by (rule each_outcome_all) (use assms row_major in simp)
  moreover have "fold ?f [0..<cols] out = map (\<lambda>j. out ! j + M ! (i * cols + j) * val) [0..<cols]"
    using fold_update_upt [of cols out "\<lambda>j x. x + M ! (i * cols + j) * val"] assms(3)
    by (intro nth_equalityI) simp_all
  ultimately show ?thesis by simp
qed

lemma mat_vec_mul_trans_fold:
  assumes "length M = rows * cols" "length v = rows"
  shows "mat_vec_mul_trans M v rows cols =
    Inr (map (\<lambda>j. fold (\<lambda>i acc. acc + M ! (i * cols + j) * v ! i) [0..<rows] 0) [0..<cols])"
proof -
  let ?step = "\<lambda>i out. bnd (elem v i) (\<lambda>val. trans_row M cols i val out)"
  have "each_outcome ?step [0..<n] (replicate cols 0) =
      Inr (map (\<lambda>j. fold (\<lambda>i acc. acc + M ! (i * cols + j) * v ! i) [0..<n] 0) [0..<cols])"
    if "n \<le> rows" for n
    using that
  proof (induction n)
    case 0
    then show ?case by (simp add: map_replicate_const)
  next
    case (Suc n)
    then show ?case using assms
      by (simp add: each_outcome_append trans_row_update [OF assms(1)])
  qed
  then show ?thesis by (simp add: mat_vec_mul_trans_def)
qed

lemma lda_t_data_nth:
  assumes "length M = rows * cols"
  shows "\<exists>Mt. lda_t_data M rows cols = Inr Mt \<and> length Mt = cols * rows \<and>
    (\<forall>j < cols. \<forall>i < rows. Mt ! (j * rows + i) = M ! (i * cols + j))"
proof -
  let ?g = "\<lambda>k. M ! (k mod rows * cols + k div rows)"
  have "lda_t_data M rows cols = Inr (map ?g [0..<rows * cols])"
    unfolding lda_t_data_def
  proof (rule map_outcome_all)
    fix k assume "k \<in> set [0..<rows * cols]"
    then have k: "k < rows * cols" by simp
    then have "0 < rows" by (cases rows) simp_all
    then have "k mod rows < rows" "k div rows < cols"
      using k by (simp_all add: less_mult_imp_div_less mult.commute)
    then show "elem M (k mod rows * cols + k div rows) = Inr (?g k)"
      using row_major assms by simp
  qed
  moreover have "map ?g [0..<rows * cols] ! (j * rows + i) = M ! (i * cols + j)"
    if "j < cols" "i < rows" for i j
    using that row_major [OF that] by (simp add: mult.commute)
  ultimately show ?thesis by (intro exI [of _ "map ?g [0..<rows * cols]"]) simp
qed


subsection \<open>The transform\<close>

definition vbx_model_ok :: "vbx_model \<Rightarrow> bool" where
  "vbx_model_ok model \<longleftrightarrow>
     D_emb model \<le> length (mean1 model) \<and> D_lda model \<le> length (mean2 model) \<and>
     length (lda model) = D_emb model * D_lda model \<and> D_lda model \<le> length (plda_mu model) \<and>
     length (plda_tr model) = D_lda model * D_lda model \<and> D_lda model \<le> length (plda_psi model)"

lemma sub_loop_defined:
  "n \<le> length a \<Longrightarrow> n \<le> length b \<Longrightarrow> sub_loop n a b = Inr (map (\<lambda>i. a ! i - b ! i) [0..<n])"
  unfolding sub_loop_def by (rule map_outcome_all) simp

lemma length_normalize [simp]: "length (normalize v) = length v"
  by (simp add: normalize_def Let_def)

lemma vbx_transform_total:
  assumes "vbx_model_ok model" "D_emb model \<le> length emb"
  shows "\<exists>out. vbx_transform_embedding model emb = Inr out \<and> length out = D_lda model"
proof -
  let ?D = "D_emb model" and ?L = "D_lda model"
  let ?x = "map (\<lambda>v. v * sqrt_f32 (f32_of_int (int ?D))) (normalize (map (\<lambda>i. emb ! i - mean1 model ! i) [0..<?D]))"
  note m = assms(1) [unfolded vbx_model_ok_def]
  have x: "length ?x = ?D" by simp
  obtain y where y: "mat_vec_mul_trans (lda model) ?x ?D ?L = Inr y" "length y = ?L"
    using mat_vec_mul_trans_fold [OF _ x, of "lda model" ?L] m by simp
  let ?y = "map (\<lambda>v. v * sqrt_f32 (f32_of_int (int ?L))) (normalize (map (\<lambda>i. y ! i - mean2 model ! i) [0..<?L]))"
  let ?z = "map (\<lambda>i. ?y ! i - plda_mu model ! i) [0..<?L]"
  have z: "length ?z = ?L" by simp
  obtain w where w: "mat_vec_mul (plda_tr model) ?z ?L ?L = Inr w" "length w = ?L"
    using mat_vec_mul_fold [OF _ z, of "plda_tr model" ?L] m by simp
  show ?thesis
    using assms(2) m y w by (simp add: vbx_transform_embedding_def Let_def sub_loop_defined)
qed

text \<open>
  C29. The embedding transform of a model whose tensors have the declared sizes never reads out
  of bounds and returns a vector of the LDA dimension.
\<close>

theorem vbx_transform_defined:
  assumes "vbx_model_ok model" "D_emb model \<le> length emb"
  shows "\<exists>out. vbx_transform_embedding model emb = Inr out \<and> length out = D_lda model"
  using assms by (rule vbx_transform_total)

end
