(* ===== verification/Vbx_Ahc.thy ===== *)
theory Vbx_Ahc
  imports Vbx_Math
begin

text \<open>
  \<open>simple_ahc\<close> of \<open>examples/vbx.cpp\<close>: centroid-linkage clustering with a cached distance matrix, a
  union-find array of parents with path compression, and the numbering of labels in the order
  of their first occurrence that it shares with \<open>cluster_vbx\<close>.  The Gram matrix that the ggml
  backend computes is an argument.
\<close>

subsection \<open>Numbering in the order of first occurrence\<close>

text \<open>
  \<open>remap\<close> of \<open>cluster_vbx\<close> and \<open>root_to_label\<close> of \<open>simple_ahc\<close>: the table of the numbers given so
  far, and the next number.
\<close>

fun renumber :: "('a \<Rightarrow> int option) \<Rightarrow> int \<Rightarrow> 'a list \<Rightarrow> int list" where
  "renumber remap next_id [] = []"
| "renumber remap next_id (lbl # lbls) =
     (case remap lbl of
        None \<Rightarrow> next_id # renumber (remap(lbl \<mapsto> next_id)) (next_id + 1) lbls
      | Some k \<Rightarrow> k # renumber remap next_id lbls)"

text \<open>Every label is at most one more than the labels before it, starting from 0.\<close>

fun first_order :: "int \<Rightarrow> int list \<Rightarrow> bool" where
  "first_order m [] = True"
| "first_order m (l # ls) = (0 \<le> l \<and> l \<le> m \<and> first_order (max m (l + 1)) ls)"

lemma first_order_prefix:
  "first_order m ls \<Longrightarrow> 0 \<le> m \<Longrightarrow> \<exists>k. m \<le> k \<and> {0..<m} \<union> set ls = {0..<k}"
proof (induction m ls rule: first_order.induct)
  case (1 m)
  then show ?case by (intro exI [of _ m]) auto
next
  case (2 m l ls)
  define m' where "m' = max m (l + 1)"
  have "first_order m' ls" "0 \<le> m'" using 2(2,3) by (auto simp: m'_def)
  then obtain k where k: "m' \<le> k" "{0..<m'} \<union> set ls = {0..<k}"
    using 2(1) by (auto simp: m'_def)
  have l: "0 \<le> l" "l \<le> m" using 2(2) by simp_all
  then have "{0..<m} \<union> {l} = {0..<m'}" by (cases "l = m") (auto simp: m'_def)
  then have "{0..<m} \<union> set (l # ls) = {0..<k}" using k(2) by auto
  moreover have "m \<le> k" using k(1) by (simp add: m'_def)
  ultimately show ?case by blast
qed

lemma first_order_onto: "first_order 0 ls \<Longrightarrow> \<exists>k \<ge> 0. set ls = {0..<k}"
  using first_order_prefix [of 0 ls] by auto

definition table_ok :: "('a \<Rightarrow> int option) \<Rightarrow> int \<Rightarrow> bool" where
  "table_ok remap next_id \<longleftrightarrow>
     0 \<le> next_id \<and> (\<forall>x k. remap x = Some k \<longrightarrow> 0 \<le> k \<and> k < next_id) \<and>
     (\<forall>x y k. remap x = Some k \<longrightarrow> remap y = Some k \<longrightarrow> x = y)"

lemma table_ok_update:
  "table_ok remap next_id \<Longrightarrow> remap x = None \<Longrightarrow> table_ok (remap(x \<mapsto> next_id)) (next_id + 1)"
  by (auto simp: table_ok_def split: if_splits) force+

lemma renumber_length [simp]: "length (renumber remap next_id lbls) = length lbls"
  by (induction lbls arbitrary: remap next_id) (auto split: option.splits)

lemma renumber_first_order:
  "table_ok remap next_id \<Longrightarrow> first_order next_id (renumber remap next_id lbls)"
proof (induction lbls arbitrary: remap next_id)
  case Nil
  then show ?case by simp
next
  case (Cons lbl lbls)
  show ?case
  proof (cases "remap lbl")
    case None
    have "first_order (next_id + 1) (renumber (remap(lbl \<mapsto> next_id)) (next_id + 1) lbls)"
      by (rule Cons.IH) (rule table_ok_update [OF Cons.prems None])
    moreover have "max next_id (next_id + 1) = next_id + 1" "0 \<le> next_id"
      using Cons.prems by (simp_all add: table_ok_def)
    ultimately show ?thesis using None by simp
  next
    case (Some k)
    then have "0 \<le> k" "k < next_id" using Cons.prems by (auto simp: table_ok_def)
    moreover from this have "max next_id (k + 1) = next_id" by simp
    ultimately show ?thesis using Cons.IH [OF Cons.prems] Some by simp
  qed
qed

lemma renumber_table:
  "table_ok remap next_id \<Longrightarrow> i < length lbls \<Longrightarrow>
   (\<forall>k. remap (lbls ! i) = Some k \<longrightarrow> renumber remap next_id lbls ! i = k) \<and>
   (remap (lbls ! i) = None \<longrightarrow> next_id \<le> renumber remap next_id lbls ! i)"
proof (induction lbls arbitrary: i remap next_id)
  case Nil
  then show ?case by simp
next
  case (Cons lbl lbls)
  show ?case
  proof (cases i)
    case 0
    then show ?thesis by (auto split: option.splits)
  next
    case (Suc j)
    then have j: "j < length lbls" using Cons.prems(2) by simp
    show ?thesis
    proof (cases "remap lbl")
      case None
      let ?r = "renumber (remap(lbl \<mapsto> next_id)) (next_id + 1) lbls"
      have IH: "(\<forall>k. (remap(lbl \<mapsto> next_id)) (lbls ! j) = Some k \<longrightarrow> ?r ! j = k) \<and>
          ((remap(lbl \<mapsto> next_id)) (lbls ! j) = None \<longrightarrow> next_id + 1 \<le> ?r ! j)"
        by (rule Cons.IH) (rule table_ok_update [OF Cons.prems(1) None], rule j)
      show ?thesis using IH None Suc by (cases "lbls ! j = lbl") auto
    next
      case (Some k)
      then show ?thesis using Cons.IH [OF Cons.prems(1) j] Suc by simp
    qed
  qed
qed

lemma renumber_known:
  assumes "table_ok remap next_id" "remap lbl = Some k" "i < length lbls"
  shows "renumber remap next_id lbls ! i = k \<longleftrightarrow> lbls ! i = lbl"
proof (cases "remap (lbls ! i)")
  case None
  have "k < next_id" using assms(1,2) by (auto simp: table_ok_def)
  moreover have "next_id \<le> renumber remap next_id lbls ! i"
    using renumber_table [OF assms(1,3)] None by simp
  ultimately show ?thesis using None assms(2) by auto
next
  case (Some k')
  then have "renumber remap next_id lbls ! i = k'" using renumber_table [OF assms(1,3)] by simp
  moreover have "k' = k \<longleftrightarrow> lbls ! i = lbl"
    using assms(1,2) Some by (auto simp: table_ok_def)
  ultimately show ?thesis by simp
qed

lemma renumber_classes:
  "table_ok remap next_id \<Longrightarrow> i < length lbls \<Longrightarrow> j < length lbls \<Longrightarrow>
   renumber remap next_id lbls ! i = renumber remap next_id lbls ! j \<longleftrightarrow> lbls ! i = lbls ! j"
proof (induction lbls arbitrary: i j remap next_id)
  case Nil
  then show ?case by simp
next
  case (Cons lbl lbls)
  have "\<exists>remap' next' k. renumber remap next_id (lbl # lbls) = k # renumber remap' next' lbls \<and>
      table_ok remap' next' \<and> remap' lbl = Some k"
  proof (cases "remap lbl")
    case None
    show ?thesis
    proof (intro exI conjI)
      show "renumber remap next_id (lbl # lbls) =
          next_id # renumber (remap(lbl \<mapsto> next_id)) (next_id + 1) lbls"
        using None by simp
      show "table_ok (remap(lbl \<mapsto> next_id)) (next_id + 1)"
        by (rule table_ok_update [OF Cons.prems(1) None])
    qed simp
  next
    case (Some k)
    then show ?thesis using Cons.prems(1) by auto
  qed
  then obtain remap' next' k where r: "renumber remap next_id (lbl # lbls) = k # renumber remap' next' lbls"
    "table_ok remap' next'" "remap' lbl = Some k" by blast
  note known = renumber_known [OF r(2,3)]
  show ?case
  proof (cases i)
    case i: 0
    show ?thesis
    proof (cases j)
      case (Suc j')
      then have "k = renumber remap' next' lbls ! j' \<longleftrightarrow> lbl = lbls ! j'"
        using known [of j'] Cons.prems(3) by auto
      then show ?thesis using i Suc r(1) by simp
    qed (use i in simp)
  next
    case i: (Suc i')
    show ?thesis
    proof (cases j)
      case 0
      then show ?thesis using i r(1) known [of i'] Cons.prems(2) by simp
    next
      case (Suc j')
      then show ?thesis using i r(1) Cons.IH [OF r(2), of i' j'] Cons.prems(2,3) by simp
    qed
  qed
qed

lemma table_ok_empty [simp]: "table_ok Map.empty 0"
  by (simp add: table_ok_def)

subsection \<open>The state of the clustering\<close>

record ahc_state =
  active :: "bool list"
  centroids :: "f32 list list"
  cluster_size :: "int list"
  parent :: "nat list"
  dist_matrix :: "f32 list"
  num_active :: nat

text \<open>The distance of two unit vectors from their dot product, clamped.\<close>

definition gram_distance :: "f32 \<Rightarrow> f32" where
  "gram_distance dot =
     (let dot = (if dot > 1 then 1 else dot);
          dsq = f32_of_rat 2 * (1 - dot);
          dsq = (if dsq < 0 then 0 else dsq)
      in sqrt_f32 dsq)"

definition upper_pairs :: "nat \<Rightarrow> (nat \<times> nat) list" where
  "upper_pairs n = concat (map (\<lambda>i. map (\<lambda>j. (i, j)) [i + 1..<n]) [0..<n])"

definition init_distances :: "nat \<Rightarrow> f32 list \<Rightarrow> f32 list" where
  "init_distances n gram =
     fold (\<lambda>(i, j) dist. let d = gram_distance (gram ! (j * n + i))
                         in (dist[i * n + j := d])[j * n + i := d])
       (upper_pairs n) (replicate (n * n) (f32_of_rat (10 ^ 20)))"

definition ahc_init :: "f32 list list \<Rightarrow> f32 list \<Rightarrow> ahc_state" where
  "ahc_init normed gram =
     (let n = length normed in
      \<lparr>active = replicate n True, centroids = normed, cluster_size = replicate n 1,
       parent = [0..<n], dist_matrix = init_distances n gram, num_active = n\<rparr>)"

definition best_step :: "ahc_state \<Rightarrow> nat \<times> nat \<Rightarrow> f32 \<times> (nat \<times> nat) option \<Rightarrow> f32 \<times> (nat \<times> nat) option" where
  "best_step st p best =
     (let i = fst p; j = snd p; d = dist_matrix st ! (i * length (active st) + j)
      in if active st ! i \<and> active st ! j \<and> d < fst best then (d, Some (i, j)) else best)"

definition best_pair :: "ahc_state \<Rightarrow> f32 \<times> (nat \<times> nat) option" where
  "best_pair st =
     fold (best_step st) (upper_pairs (length (active st))) (f32_of_rat (10 ^ 20), None)"

definition merge_centroid :: "nat \<Rightarrow> f32 list \<Rightarrow> f32 list \<Rightarrow> int \<Rightarrow> int \<Rightarrow> f32 list" where
  "merge_centroid width ci cj size_i size_j =
     fold (\<lambda>k c. c[k := (c ! k * f32_of_int size_i + cj ! k * f32_of_int size_j) / f32_of_int (size_i + size_j)])
       [0..<width] ci"

definition centroid_distance :: "nat \<Rightarrow> f32 list \<Rightarrow> f32 list \<Rightarrow> f32" where
  "centroid_distance width a b =
     sqrt_f32 (fold (\<lambda>k d. let diff = a ! k - b ! k in d + diff * diff) [0..<width] 0)"

definition update_distances :: "nat \<Rightarrow> nat \<Rightarrow> ahc_state \<Rightarrow> f32 list" where
  "update_distances width best_i st =
     (let n = length (active st) in
      fold (\<lambda>k dist.
              if \<not> active st ! k \<or> k = best_i then dist
              else let d = centroid_distance width (centroids st ! best_i) (centroids st ! k)
                   in (dist[best_i * n + k := d])[k * n + best_i := d])
        [0..<n] (dist_matrix st))"

text \<open>The body of a merge: cluster \<open>j\<close> goes into cluster \<open>i\<close>.\<close>

definition ahc_merge :: "nat \<Rightarrow> nat \<Rightarrow> nat \<Rightarrow> ahc_state \<Rightarrow> ahc_state" where
  "ahc_merge width i j st =
     (let size_i = cluster_size st ! i; size_j = cluster_size st ! j;
          st' = st\<lparr>centroids := (centroids st)[i := merge_centroid width (centroids st ! i) (centroids st ! j) size_i size_j],
                   cluster_size := (cluster_size st)[i := size_i + size_j],
                   active := (active st)[j := False],
                   parent := (parent st)[j := i],
                   num_active := num_active st - 1\<rparr>
      in st'\<lparr>dist_matrix := update_distances width i st'\<rparr>)"

function ahc_loop :: "nat \<Rightarrow> f32 \<Rightarrow> ahc_state \<Rightarrow> ahc_state" where
  "ahc_loop width threshold st =
     (if num_active st > 1 then
        (case best_pair st of
           (best_dist, None) \<Rightarrow> st
         | (best_dist, Some (i, j)) \<Rightarrow>
             if best_dist > threshold then st
             else ahc_loop width threshold (ahc_merge width i j st))
      else st)"
  by pat_completeness auto
termination
  by (relation "measure (\<lambda>(_, _, st). num_active st)") (auto simp: ahc_merge_def Let_def)

declare ahc_loop.simps [simp del]

subsection \<open>Roots and labels\<close>

fun find_root :: "nat \<Rightarrow> nat list \<Rightarrow> nat \<Rightarrow> nat outcome" where
  "find_root 0 p r = Inl Diverged"
| "find_root (Suc k) p r = (if p ! r = r then Inr r else find_root k p (p ! r))"

fun compress :: "nat \<Rightarrow> nat list \<Rightarrow> nat \<Rightarrow> nat \<Rightarrow> nat list outcome" where
  "compress 0 p rt cur = Inl Diverged"
| "compress (Suc k) p rt cur =
     (if p ! cur = rt then Inr p
      else (let next = p ! cur in compress k (p[cur := rt]) rt next))"

fun label_loop :: "nat \<Rightarrow> nat list \<Rightarrow> nat list \<Rightarrow> int list \<Rightarrow> int \<Rightarrow> int list outcome" where
  "label_loop fuel [] p root_to_label next_label = Inr []"
| "label_loop fuel (i # is) p root_to_label next_label =
     bnd (find_root fuel p i) (\<lambda>rt.
     bnd (compress fuel p rt i) (\<lambda>p'.
     if root_to_label ! rt = -1
     then bnd (label_loop fuel is p' (root_to_label[rt := next_label]) (next_label + 1)) (\<lambda>ls.
          Inr (next_label # ls))
     else bnd (label_loop fuel is p' root_to_label next_label) (\<lambda>ls.
          Inr (root_to_label ! rt # ls))))"

text \<open>
  \<open>gram\<close> computes the Gram matrix of the normalised vectors on the backend, each of which is
  copied with the length of the first.  The fuel of the two root loops is the number of points.
\<close>

definition ahc_final :: "(f32 list list \<Rightarrow> f32 list) \<Rightarrow> f32 list list \<Rightarrow> f32 \<Rightarrow> ahc_state" where
  "ahc_final gram embeddings threshold =
     (let normed = map normalize embeddings
      in ahc_loop (length (hd embeddings)) threshold (ahc_init normed (gram normed)))"

definition simple_ahc :: "(f32 list list \<Rightarrow> f32 list) \<Rightarrow> f32 list list \<Rightarrow> f32 \<Rightarrow> int list outcome" where
  "simple_ahc gram embeddings threshold =
     (let n = length embeddings in
      if n = 0 then Inr []
      else if n = 1 then Inr [0]
      else bnd (ensure (list_all (\<lambda>e. length (hd embeddings) \<le> length e) embeddings) Undefined) (\<lambda>_.
           label_loop n [0..<n] (parent (ahc_final gram embeddings threshold)) (replicate n (-1)) 0))"

subsection \<open>The forest of parents\<close>

definition forest :: "nat list \<Rightarrow> bool" where
  "forest p \<longleftrightarrow> (\<forall>i < length p. p ! i \<le> i)"

definition root_of :: "nat list \<Rightarrow> nat \<Rightarrow> nat" where
  "root_of p i = (case find_root (Suc i) p i of Inr r \<Rightarrow> r | Inl _ \<Rightarrow> i)"

lemma find_root_total:
  "forest p \<Longrightarrow> i < length p \<Longrightarrow> i < k \<Longrightarrow> \<exists>r. find_root k p i = Inr r \<and> p ! r = r \<and> r \<le> i"
proof (induction k arbitrary: i)
  case 0
  then show ?case by simp
next
  case (Suc k)
  have le: "p ! i \<le> i" using Suc.prems by (simp add: forest_def)
  show ?case
  proof (cases "p ! i = i")
    case False
    then have "p ! i < i" using le by simp
    then have "\<exists>r. find_root k p (p ! i) = Inr r \<and> p ! r = r \<and> r \<le> p ! i"
      using Suc.prems by (intro Suc.IH) simp_all
    then show ?thesis using False le by auto
  qed simp
qed

lemma find_root_more: "find_root k p i = Inr r \<Longrightarrow> k \<le> m \<Longrightarrow> find_root m p i = Inr r"
proof (induction k p i arbitrary: m rule: find_root.induct)
  case (2 k p i)
  then obtain m' where "m = Suc m'" by (cases m) auto
  with 2 show ?case by (auto split: if_splits)
qed simp

lemma root_of_find:
  "forest p \<Longrightarrow> i < length p \<Longrightarrow> i < k \<Longrightarrow> find_root k p i = Inr (root_of p i)"
proof -
  assume a: "forest p" "i < length p" "i < k"
  obtain r where "find_root (Suc i) p i = Inr r" using find_root_total [OF a(1,2), of "Suc i"] by auto
  then show ?thesis using find_root_more [of "Suc i" p i r k] a(3) by (simp add: root_of_def)
qed

lemma root_of_props:
  "forest p \<Longrightarrow> i < length p \<Longrightarrow> p ! root_of p i = root_of p i \<and> root_of p i \<le> i"
  using find_root_total [of p i "Suc i"] root_of_find [of p i "Suc i"] by auto

lemma root_of_step:
  assumes "forest p" "i < length p"
  shows "root_of p i = (if p ! i = i then i else root_of p (p ! i))"
proof (cases "p ! i = i")
  case True
  then show ?thesis by (simp add: root_of_def)
next
  case False
  then have "p ! i < i" using assms by (auto simp: forest_def intro: le_neq_implies_less)
  then have "find_root i p (p ! i) = Inr (root_of p (p ! i))"
    using assms by (intro root_of_find) simp_all
  then show ?thesis using False by (simp add: root_of_def [of p i])
qed

lemma root_of_unique:
  assumes "forest p" "forest q" "length q = length p"
    and "\<And>i. i < length p \<Longrightarrow> if q ! i = i then root_of p i = i else q ! i < i \<and> root_of p (q ! i) = root_of p i"
    and "i < length p"
  shows "root_of q i = root_of p i"
  using assms(5)
proof (induction i rule: less_induct)
  case (less i)
  show ?case
  proof (cases "q ! i = i")
    case True
    then show ?thesis using assms(4) [OF less.prems] root_of_step [OF assms(2), of i] assms(3) less.prems by simp
  next
    case False
    then have "q ! i < i" "root_of p (q ! i) = root_of p i" using assms(4) [OF less.prems] by simp_all
    then show ?thesis
      using less.IH [of "q ! i"] root_of_step [OF assms(2), of i] assms(3) less.prems False by simp
  qed
qed

text \<open>Path compression keeps the forest and every element's root, and ends within the fuel.\<close>

lemma compress_one:
  assumes "forest p" "i < length p"
  shows "forest (p[i := root_of p i])" "j < length p \<Longrightarrow> root_of (p[i := root_of p i]) j = root_of p j"
proof -
  let ?q = "p[i := root_of p i]"
  have r: "p ! root_of p i = root_of p i" "root_of p i \<le> i" using root_of_props [OF assms] by simp_all
  show f: "forest ?q" using assms r(2) by (auto simp: forest_def nth_list_update)
  assume j: "j < length p"
  show "root_of ?q j = root_of p j"
  proof (rule root_of_unique [OF assms(1) f _ _ j])
    fix k assume k: "k < length p"
    show "if ?q ! k = k then root_of p k = k else ?q ! k < k \<and> root_of p (?q ! k) = root_of p k"
    proof (cases "k = i")
      case True
      have "root_of p (root_of p i) = root_of p i"
        using root_of_step [OF assms(1), of "root_of p i"] r assms(2) by simp
      then show ?thesis using True assms(2) r by auto
    next
      case False
      then show ?thesis using root_of_step [OF assms(1) k] assms(1) k
        by (auto simp: forest_def intro: le_neq_implies_less)
    qed
  qed simp
qed

lemma compress_roots:
  assumes "forest p" "i < length p" "i < k"
  shows "\<exists>q. compress k p (root_of p i) i = Inr q \<and> forest q \<and> length q = length p \<and>
    (\<forall>j < length p. root_of q j = root_of p j)"
  using assms
proof (induction k arbitrary: p i)
  case 0
  then show ?case by simp
next
  case (Suc k)
  show ?case
  proof (cases "p ! i = root_of p i")
    case True
    then show ?thesis using Suc.prems by simp
  next
    case False
    let ?q = "p[i := root_of p i]"
    have ne: "p ! i \<noteq> i" using False root_of_step [OF Suc.prems(1,2)] by auto
    then have lt: "p ! i < i" using Suc.prems(1,2) by (auto simp: forest_def intro: le_neq_implies_less)
    have q: "forest ?q" "\<forall>j < length p. root_of ?q j = root_of p j"
      using compress_one [OF Suc.prems(1,2)] by simp_all
    have same: "root_of ?q (p ! i) = root_of p i"
      using q(2) lt Suc.prems(2) root_of_step [OF Suc.prems(1,2)] ne by simp
    have "\<exists>q'. compress k ?q (root_of ?q (p ! i)) (p ! i) = Inr q' \<and> forest q' \<and> length q' = length ?q \<and>
        (\<forall>j < length ?q. root_of q' j = root_of ?q j)"
      using q(1) lt Suc.prems(2,3) by (intro Suc.IH) simp_all
    then show ?thesis using False same q(2) by auto
  qed
qed

subsection \<open>The labels number the roots\<close>

lemma card_image_le_classes:
  assumes "finite A" "\<And>i j. i \<in> A \<Longrightarrow> j \<in> A \<Longrightarrow> g i = g j \<Longrightarrow> f i = f j"
  shows "card (f ` A) \<le> card (g ` A)"
proof -
  have "f ` A \<subseteq> (\<lambda>y. f (inv_into A g y)) ` (g ` A)"
  proof
    fix y assume "y \<in> f ` A"
    then obtain i where i: "i \<in> A" "y = f i" by blast
    then have "f (inv_into A g (g i)) = f i"
      using assms(2) [of "inv_into A g (g i)" i] by (simp add: inv_into_into f_inv_into_f)
    then show "y \<in> (\<lambda>y. f (inv_into A g y)) ` (g ` A)" using i by (metis imageI)
  qed
  then show ?thesis by (meson assms(1) card_image_le card_mono finite_imageI order_trans)
qed

lemma card_image_classes:
  assumes "finite A" "\<And>i j. i \<in> A \<Longrightarrow> j \<in> A \<Longrightarrow> f i = f j \<longleftrightarrow> g i = g j"
  shows "card (f ` A) = card (g ` A)"
  using assms by (intro antisym card_image_le_classes) auto


definition table_agrees :: "nat \<Rightarrow> int list \<Rightarrow> (nat \<Rightarrow> int option) \<Rightarrow> bool" where
  "table_agrees n tab remap \<longleftrightarrow>
     length tab = n \<and> (\<forall>r < n. tab ! r = (case remap r of None \<Rightarrow> -1 | Some k \<Rightarrow> k))"

lemma label_loop_renumber:
  assumes "forest p" "length p = n" "\<forall>j < n. root_of p j = rt j" "\<forall>i \<in> set is. i < n" "n \<le> fuel"
    and "table_agrees n tab remap" "table_ok remap next_label"
  shows "label_loop fuel is p tab next_label = Inr (renumber remap next_label (map rt is))"
  using assms
proof (induction "is" arbitrary: p tab remap next_label)
  case Nil
  then show ?case by simp
next
  case (Cons i "is")
  have i: "i < n" using Cons.prems(4) by simp
  have f: "find_root fuel p i = Inr (rt i)"
    using root_of_find [of p i fuel] Cons.prems(1,2,3,5) i by simp
  obtain q where q: "compress fuel p (rt i) i = Inr q" "forest q" "length q = n"
    "\<forall>j < n. root_of q j = rt j"
    using compress_roots [of p i fuel] Cons.prems(1,2,3,5) i by auto
  have rn: "rt i < n" using root_of_props [of p i] Cons.prems(1,2,3) i by auto
  have tab: "tab ! rt i = (case remap (rt i) of None \<Rightarrow> -1 | Some k \<Rightarrow> k)"
    using Cons.prems(6) rn by (simp add: table_agrees_def)
  have is_ok: "\<forall>i \<in> set is. i < n" using Cons.prems(4) by simp
  show ?case
  proof (cases "remap (rt i)")
    case None
    let ?tab = "tab[rt i := next_label]" and ?remap = "remap(rt i \<mapsto> next_label)"
    have "table_agrees n ?tab ?remap"
      using Cons.prems(6) by (auto simp: table_agrees_def nth_list_update)
    then have "label_loop fuel is q ?tab (next_label + 1) = Inr (renumber ?remap (next_label + 1) (map rt is))"
      by (rule Cons.IH [OF q(2,3,4) is_ok Cons.prems(5)]) (rule table_ok_update [OF Cons.prems(7) None])
    then show ?thesis using f q(1) tab None by simp
  next
    case (Some k)
    then have "0 \<le> k" using Cons.prems(7) unfolding table_ok_def by blast
    then have "k \<noteq> -1" by simp
    moreover have "label_loop fuel is q tab next_label = Inr (renumber remap next_label (map rt is))"
      by (rule Cons.IH [OF q(2,3,4) is_ok Cons.prems(5,6,7)])
    ultimately show ?thesis using f q(1) tab Some by simp
  qed
qed

subsection \<open>The loop keeps a forest whose roots are the active clusters\<close>

definition ahc_inv :: "nat \<Rightarrow> ahc_state \<Rightarrow> bool" where
  "ahc_inv n st \<longleftrightarrow>
     length (active st) = n \<and> length (parent st) = n \<and> forest (parent st) \<and>
     (\<forall>i < n. active st ! i \<longleftrightarrow> parent st ! i = i) \<and>
     num_active st = card {i. i < n \<and> active st ! i}"

lemma upper_pairs_bounds: "(i, j) \<in> set (upper_pairs n) \<longleftrightarrow> i < j \<and> j < n"
  by (auto simp: upper_pairs_def image_iff intro!: bexI [of _ i])

lemma best_pair_active:
  assumes "best_pair st = (d, Some (i, j))"
  shows "i < j \<and> j < length (active st) \<and> active st ! i \<and> active st ! j"
proof -
  let ?n = "length (active st)"
  define I where "I = (\<lambda>b :: f32 \<times> (nat \<times> nat) option. case snd b of None \<Rightarrow> True
    | Some (i, j) \<Rightarrow> i < j \<and> j < ?n \<and> active st ! i \<and> active st ! j)"
  have "I (fold (best_step st) ps b)" if "\<forall>p \<in> set ps. fst p < snd p \<and> snd p < ?n" "I b" for ps b
    using that
  proof (induction ps arbitrary: b)
    case (Cons p ps)
    have "I (best_step st p b)" using Cons.prems by (auto simp: I_def best_step_def Let_def)
    then show ?case using Cons by simp
  qed simp
  moreover have "\<forall>p \<in> set (upper_pairs ?n). fst p < snd p \<and> snd p < ?n"
    by (auto simp: upper_pairs_bounds)
  moreover have "I (f32_of_rat (10 ^ 20), None)" by (simp add: I_def)
  ultimately have "I (best_pair st)" unfolding best_pair_def by blast
  then show ?thesis using assms by (simp add: I_def)
qed

lemma ahc_inv_merge:
  assumes "ahc_inv n st" "i < j" "j < n" "active st ! i" "active st ! j"
  shows "ahc_inv n (ahc_merge w i j st)"
proof -
  have a: "length (active st) = n" "length (parent st) = n" "forest (parent st)"
    "\<forall>i < n. active st ! i \<longleftrightarrow> parent st ! i = i" "num_active st = card {i. i < n \<and> active st ! i}"
    using assms(1) by (simp_all add: ahc_inv_def)
  have "{k. k < n \<and> (active st)[j := False] ! k} = {k. k < n \<and> active st ! k} - {j}"
    using a(1) assms(3) by (auto simp: nth_list_update split: if_splits)
  then have "card {k. k < n \<and> (active st)[j := False] ! k} = num_active st - 1"
    using a(5) assms(3,5) by simp
  moreover have "forest ((parent st)[j := i])"
    using a(2,3) assms(2,3) by (auto simp: forest_def nth_list_update)
  moreover have "\<forall>k < n. (active st)[j := False] ! k \<longleftrightarrow> (parent st)[j := i] ! k = k"
    using a(1,2,4) assms(2,3) by (auto simp: nth_list_update)
  ultimately show ?thesis using a(1,2) by (simp add: ahc_inv_def ahc_merge_def Let_def)
qed

lemma ahc_inv_loop: "ahc_inv n st \<Longrightarrow> ahc_inv n (ahc_loop w threshold st)"
proof (induction w threshold st rule: ahc_loop.induct)
  case (1 w threshold st)
  obtain d b where b: "best_pair st = (d, b)" by (cases "best_pair st")
  show ?case
  proof (cases "num_active st > 1 \<and> b \<noteq> None \<and> \<not> d > threshold")
    case True
    then obtain i j where ij: "b = Some (i, j)" by auto
    have "ahc_inv n (ahc_merge w i j st)"
      using best_pair_active [of st d i j] b ij 1(2) by (intro ahc_inv_merge) (auto simp: ahc_inv_def)
    then show ?thesis
      using 1(1) True b ij by (simp add: ahc_loop.simps [of w threshold st])
  next
    case False
    then have "ahc_loop w threshold st = st"
      using b by (auto simp: ahc_loop.simps [of w threshold st] split: option.splits)
    then show ?thesis using 1(2) by simp
  qed
qed

lemma ahc_inv_init: "ahc_inv (length normed) (ahc_init normed gram)"
  by (auto simp: ahc_inv_def ahc_init_def Let_def forest_def cong: conj_cong)

lemma ahc_inv_final: "ahc_inv (length embeddings) (ahc_final gram embeddings threshold)"
  using ahc_inv_loop [OF ahc_inv_init [of "map normalize embeddings"]] by (simp add: ahc_final_def Let_def)

definition ahc_labels :: "(f32 list list \<Rightarrow> f32 list) \<Rightarrow> f32 list list \<Rightarrow> f32 \<Rightarrow> int list" where
  "ahc_labels gram embeddings threshold =
     renumber Map.empty 0
       (map (root_of (parent (ahc_final gram embeddings threshold))) [0..<length embeddings])"

lemma simple_ahc_run:
  assumes "\<forall>e \<in> set embeddings. length e = width" "1 < length embeddings"
  shows "simple_ahc gram embeddings threshold = Inr (ahc_labels gram embeddings threshold)"
proof -
  let ?n = "length embeddings" and ?st = "ahc_final gram embeddings threshold"
  have inv: "length (parent ?st) = ?n" "forest (parent ?st)"
    using ahc_inv_final [of embeddings gram threshold] by (simp_all add: ahc_inv_def)
  have "embeddings \<noteq> []" using assms(2) by auto
  then have dims: "list_all (\<lambda>e. length (hd embeddings) \<le> length e) embeddings"
    using assms(1) by (auto simp: list_all_iff)
  have "label_loop ?n [0..<?n] (parent ?st) (replicate ?n (-1)) 0 = Inr (ahc_labels gram embeddings threshold)"
    unfolding ahc_labels_def
    using inv by (intro label_loop_renumber [where n = ?n]) (simp_all add: table_agrees_def)
  then show ?thesis using assms(2) dims \<open>embeddings \<noteq> []\<close> by (simp add: simple_ahc_def Let_def)
qed

lemma ahc_labels_shape [simp]:
  "length (ahc_labels gram embeddings threshold) = length embeddings"
  "first_order 0 (ahc_labels gram embeddings threshold)"
  by (simp_all add: ahc_labels_def renumber_first_order)


end
