(* ===== verification/Vbx_Cluster.thy ===== *)
theory Vbx_Cluster
  imports Vbx_Ahc
begin

text \<open>
  \<open>cluster_vbx\<close> of \<open>examples/vbx.cpp\<close>: the variational iteration over speaker responsibilities,
  started from the labels of \<open>simple_ahc\<close>, and the final assignment.  Sums are taken in the order
  of the loops; the elementary functions come from the parameter \<open>m\<close>.
\<close>

record vbx_params =
  Fa :: f32
  Fb :: f32
  vbx_threshold :: f32
  max_iters :: int
  init_smoothing :: f32

record em_state =
  gamma :: "f32 list list"
  spk_pi :: "f32 list"

definition eps8 :: f32 where "eps8 = f32_of_rat (1 / 10 ^ 8)"
definition minus_1e20 :: f32 where "minus_1e20 = f32_of_rat (- (10 ^ 20))"

text \<open>The loop \<open>for (v : vals) if (v > best) best = v\<close> and a sum in the order of the list.\<close>

definition max_from :: "f32 \<Rightarrow> f32 list \<Rightarrow> f32" where
  "max_from lo vals = foldl (\<lambda>best v. if v > best then v else best) lo vals"

definition sum_of :: "f32 list \<Rightarrow> f32" where
  "sum_of vals = foldl (+) 0 vals"

subsection \<open>Initial values\<close>

definition count_clusters :: "int list \<Rightarrow> int" where
  "count_clusters labels = foldl (\<lambda>K_init l. max K_init (l + 1)) 0 labels"

definition smooth_row :: "libm \<Rightarrow> f32 \<Rightarrow> f32 list \<Rightarrow> f32 list" where
  "smooth_row m smoothing row =
     (let max_v = max_from minus_1e20 (map (\<lambda>g. g * smoothing) row);
          es = map (\<lambda>g. expf m (g * smoothing - max_v)) row;
          inv = 1 / (sum_of es + eps8)
      in map (\<lambda>g. g * inv) es)"

definition init_gamma :: "libm \<Rightarrow> f32 \<Rightarrow> nat \<Rightarrow> int list \<Rightarrow> f32 list list" where
  "init_gamma m smoothing K labels =
     (let onehot = map (\<lambda>l. (replicate K 0)[nat l := 1]) labels
      in if smoothing \<ge> 0 then map (smooth_row m smoothing) onehot else onehot)"

text \<open>\<open>-0.5f * (sum_sq + D * std::log(2 * M_PI))\<close>: the logarithm is a \<open>double\<close>, so is the sum.\<close>

definition log_two_pi :: "libm \<Rightarrow> f64" where
  "log_two_pi m = log64 m (f64_of_rat 2 * f64_of_rat (314159265358979323846 / 10 ^ 20))"

definition gauss_const :: "libm \<Rightarrow> nat \<Rightarrow> f32 list \<Rightarrow> f32" where
  "gauss_const m D x =
     (let sum_sq = foldl (\<lambda>acc v. acc + v * v) 0 x
      in f32_of_f64 (f64_of_rat (- 1 / 2) * (f64_of_f32 sum_sq + f64_of_int (int D) * log_two_pi m)))"

definition scale_rho :: "nat \<Rightarrow> f32 list \<Rightarrow> f32 list \<Rightarrow> f32 list" where
  "scale_rho D psi x = map (\<lambda>j. x ! j * sqrt_f32 (psi ! j)) [0..<D]"

subsection \<open>One iteration\<close>

definition inv_row :: "vbx_params \<Rightarrow> nat \<Rightarrow> f32 list \<Rightarrow> f32 \<Rightarrow> f32 list" where
  "inv_row params D psi gamma_sum =
     map (\<lambda>d. 1 / (1 + (Fa params / Fb params) * gamma_sum * psi ! d)) [0..<D]"

definition alpha_row :: "vbx_params \<Rightarrow> nat \<Rightarrow> f32 list \<Rightarrow> f32 list list \<Rightarrow> f32 list list \<Rightarrow> nat \<Rightarrow> f32 list" where
  "alpha_row params D invL rho gam k =
     map (\<lambda>d. (Fa params / Fb params) * invL ! d *
              sum_of (map (\<lambda>i. gam ! i ! k * rho ! i ! d) [0..<length rho])) [0..<D]"

definition log_p_entry :: "vbx_params \<Rightarrow> nat \<Rightarrow> f32 list \<Rightarrow> f32 list \<Rightarrow> f32 list \<Rightarrow> f32 list \<Rightarrow> f32 \<Rightarrow> f32" where
  "log_p_entry params D psi invL alpha rho G =
     (let term2 = sum_of (map (\<lambda>d. (invL ! d + alpha ! d * alpha ! d) * psi ! d) [0..<D]) * f32_of_rat (1 / 2);
          term1 = sum_of (map (\<lambda>d. rho ! d * alpha ! d) [0..<D])
      in Fa params * (term1 - term2 + G))"

text \<open>The responsibilities of one embedding and its contribution to \<open>log_pX\<close>.\<close>

definition gamma_row :: "libm \<Rightarrow> f32 list \<Rightarrow> f32 list \<Rightarrow> f32 list \<times> f32" where
  "gamma_row m log_p pri =
     (let log_probs = map (\<lambda>k. log_p ! k + logf m (pri ! k + eps8)) [0..<length pri];
          max_lp = max_from minus_1e20 log_probs;
          es = map (\<lambda>v. expf m (v - max_lp)) log_probs;
          sum_prob = sum_of es
      in (map (\<lambda>g. g / (sum_prob + eps8)) es, max_lp + logf m (sum_prob + eps8)))"

definition new_priors :: "nat \<Rightarrow> f32 list list \<Rightarrow> f32 list" where
  "new_priors K gam =
     (let pri = map (\<lambda>k. sum_of (map (\<lambda>row. row ! k) gam)) [0..<K];
          sum_pi = sum_of pri
      in map (\<lambda>p. p / (sum_pi + eps8)) pri)"

definition elbo_regularizer :: "libm \<Rightarrow> nat \<Rightarrow> f32 list list \<Rightarrow> f32 list list \<Rightarrow> f32" where
  "elbo_regularizer m D invL alpha =
     sum_of (concat (map (\<lambda>k. map (\<lambda>d.
       logf m (invL ! k ! d + eps8) - invL ! k ! d - alpha ! k ! d * alpha ! k ! d + 1) [0..<D])
       [0..<length invL]))"

definition em_step :: "libm \<Rightarrow> vbx_params \<Rightarrow> nat \<Rightarrow> f32 list \<Rightarrow> f32 list list \<Rightarrow> f32 list \<Rightarrow> nat \<Rightarrow> em_state \<Rightarrow> em_state \<times> f32" where
  "em_step m params D psi rho G K st =
     (let gamma_sum = map (\<lambda>k. sum_of (map (\<lambda>row. row ! k) (gamma st))) [0..<K];
          invL = map (inv_row params D psi) gamma_sum;
          alpha = map (\<lambda>k. alpha_row params D (invL ! k) rho (gamma st) k) [0..<K];
          log_p = map (\<lambda>i. map (\<lambda>k. log_p_entry params D psi (invL ! k) (alpha ! k) (rho ! i) (G ! i)) [0..<K])
                    [0..<length rho];
          rows = map (\<lambda>lp. gamma_row m lp (spk_pi st)) log_p;
          log_pX = sum_of (map snd rows);
          gam = map fst rows;
          elbo = log_pX + Fb params * f32_of_rat (1 / 2) * elbo_regularizer m D invL alpha
      in (\<lparr>gamma = gam, spk_pi = new_priors K gam\<rparr>, elbo))"

function em_loop :: "libm \<Rightarrow> vbx_params \<Rightarrow> nat \<Rightarrow> f32 list \<Rightarrow> f32 list list \<Rightarrow> f32 list \<Rightarrow> nat \<Rightarrow>
    int \<Rightarrow> f32 \<Rightarrow> em_state \<Rightarrow> em_state" where
  "em_loop m params D psi rho G K iter prev_elbo st =
     (if iter < max_iters params then
        let (st', elbo) = em_step m params D psi rho G K st
        in if iter > 0 \<and> elbo - prev_elbo < f32_of_rat (1 / 10 ^ 4) then st'
           else em_loop m params D psi rho G K (iter + 1) elbo st'
      else st)"
  by pat_completeness auto
termination
  by (relation "measure (\<lambda>(m, params, D, psi, rho, G, K, iter, _). nat (max_iters params - iter))") auto

declare em_loop.simps [simp del]

subsection \<open>The assignment\<close>

definition kept_speakers :: "nat \<Rightarrow> f32 list \<Rightarrow> nat list" where
  "kept_speakers K pri =
     (let keep = filter (\<lambda>k. pri ! k > f32_of_rat (1 / 10 ^ 7)) [0..<K]
      in if keep = [] then [0..<K] else keep)"

definition best_speaker :: "nat list \<Rightarrow> f32 list \<Rightarrow> nat" where
  "best_speaker keep row =
     foldl (\<lambda>best_k k. if row ! k > row ! best_k then k else best_k) (hd keep) (tl keep)"

definition vbx_em :: "libm \<Rightarrow> vbx_model \<Rightarrow> f32 list list \<Rightarrow> int list \<Rightarrow> nat \<Rightarrow> vbx_params \<Rightarrow> em_state" where
  "vbx_em m model vbx_embeddings init_labels K params =
     (let D = D_lda model;
          G = map (gauss_const m D) vbx_embeddings;
          rho = map (scale_rho D (plda_psi model)) vbx_embeddings
      in em_loop m params D (plda_psi model) rho G K 0 minus_1e20
           \<lparr>gamma = init_gamma m (init_smoothing params) K init_labels,
            spk_pi = replicate K (1 / f32_of_int (int K))\<rparr>)"

text \<open>
  The reads of \<open>init_labels[i]\<close>, \<open>vbx_embeddings[i][j]\<close> and \<open>plda_psi[i]\<close> are in bounds when the
  number of raw embeddings and the dimensions allow it; all other arrays are made with the sizes
  they are read with.
\<close>

definition cluster_vbx :: "libm \<Rightarrow> (f32 list list \<Rightarrow> f32 list) \<Rightarrow> vbx_model \<Rightarrow>
    f32 list list \<Rightarrow> f32 list list \<Rightarrow> vbx_params \<Rightarrow> int list outcome" where
  "cluster_vbx m gram model vbx_embeddings raw_embeddings params =
     (if vbx_embeddings = [] then Inr []
      else bnd (simple_ahc gram raw_embeddings (vbx_threshold params)) (\<lambda>init_labels.
        let N = length vbx_embeddings; K = nat (count_clusters init_labels)
        in if K \<le> 1 then Inr init_labels
           else bnd (ensure (N \<le> length init_labels \<and> D_lda model \<le> length (plda_psi model) \<and>
                             list_all (\<lambda>x. D_lda model \<le> length x) vbx_embeddings) Undefined) (\<lambda>_.
             let st = vbx_em m model vbx_embeddings (take N init_labels) K params;
                 keep = kept_speakers K (spk_pi st)
             in Inr (renumber Map.empty 0 (map (best_speaker keep) (gamma st))))))"

subsection \<open>Shapes\<close>

definition em_shape :: "nat \<Rightarrow> nat \<Rightarrow> em_state \<Rightarrow> bool" where
  "em_shape N K st \<longleftrightarrow>
     length (gamma st) = N \<and> (\<forall>row \<in> set (gamma st). length row = K) \<and> length (spk_pi st) = K"

lemma length_smooth_row [simp]: "length (smooth_row m s row) = length row"
  by (simp add: smooth_row_def Let_def)

lemma length_gamma_row [simp]: "length (fst (gamma_row m lp pri)) = length pri"
  by (simp add: gamma_row_def Let_def)

lemma length_new_priors [simp]: "length (new_priors K gam) = K"
  by (simp add: new_priors_def Let_def)

lemma init_gamma_shape:
  "length (init_gamma m s K labels) = length labels \<and> (\<forall>row \<in> set (init_gamma m s K labels). length row = K)"
  by (auto simp: init_gamma_def Let_def)

lemma em_step_shape: "em_shape N K st \<Longrightarrow> length rho = N \<Longrightarrow> em_shape N K (fst (em_step m params D psi rho G K st))"
  by (auto simp: em_shape_def em_step_def Let_def)

lemma em_loop_shape:
  "em_shape N K st \<Longrightarrow> length rho = N \<Longrightarrow> em_shape N K (em_loop m params D psi rho G K iter prev_elbo st)"
proof (induction m params D psi rho G K iter prev_elbo st rule: em_loop.induct)
  case (1 m params D psi rho G K iter prev_elbo st)
  obtain st' elbo where step: "em_step m params D psi rho G K st = (st', elbo)" by fastforce
  then have shape: "em_shape N K st'" using em_step_shape [OF 1(2,3), of m params D psi G] by simp
  show ?case
    using 1(1) [OF _ refl step [symmetric]] 1(2,3) shape step
    by (subst em_loop.simps) (simp split: if_splits)
qed

lemma vbx_em_shape:
  "length init_labels = length vbx_embeddings \<Longrightarrow>
   em_shape (length vbx_embeddings) K (vbx_em m model vbx_embeddings init_labels K params)"
  unfolding vbx_em_def Let_def
  by (rule em_loop_shape) (simp_all add: em_shape_def init_gamma_shape)

subsection \<open>The assignment picks a best kept speaker\<close>

lemma count_clusters_from: "foldl (\<lambda>K_init l. max K_init (l + 1)) a ls = fold max (map (\<lambda>l. l + 1) ls) a" for a :: int
  by (induction ls arbitrary: a) (simp_all add: max.commute)

lemma count_clusters_onto: "0 \<le> k \<Longrightarrow> set ls = {0..<k} \<Longrightarrow> count_clusters ls = k"
proof -
  assume k: "0 \<le> k" "set ls = {0..<k}"
  have "count_clusters ls = Max (insert 0 ((\<lambda>l. l + 1) ` set ls))"
    by (simp add: count_clusters_def count_clusters_from Max.set_eq_fold [symmetric])
  also have "insert 0 ((\<lambda>l. l + 1) ` set ls) = {0..k}"
    using k by (auto simp: image_iff intro: bexI [of _ "_ - 1"])
  finally show ?thesis using k(1) by (simp add: Max_eq_iff)
qed

lemma best_from:
  fixes row :: "f32 list"
  defines "pick \<equiv> \<lambda>best_k k. if row ! k > row ! best_k then k else best_k"
  shows "foldl pick b ks \<in> set (b # ks) \<and>
    (foldl pick b ks = b \<or> row ! (foldl pick b ks) > row ! b) \<and>
    (\<forall>k \<in> set (b # ks). \<not> row ! k > row ! (foldl pick b ks))"
proof (induction ks arbitrary: b)
  case Nil
  then show ?case by simp
next
  case (Cons k ks)
  let ?r = "foldl pick (pick b k) ks"
  have r: "?r \<in> set (pick b k # ks)" "?r = pick b k \<or> row ! ?r > row ! pick b k"
    "\<forall>k \<in> set (pick b k # ks). \<not> row ! k > row ! ?r"
    using Cons.IH [of "pick b k"] by blast+
  note trans = f32_less_trans [of "row ! b" "row ! k" "row ! ?r"]
    f32_less_trans [of "row ! b" "row ! ?r" "row ! k"] f32_less_trans [of "row ! ?r" "row ! b" "row ! k"]
  show ?case
  proof (cases "row ! k > row ! b")
    case True
    then have "pick b k = k" by (simp add: pick_def)
    then show ?thesis using r True trans by auto
  next
    case False
    then have "pick b k = b" by (simp add: pick_def)
    then show ?thesis using r False trans by auto
  qed
qed

lemma kept_speakers_props: "0 < K \<Longrightarrow> kept_speakers K pri \<noteq> [] \<and> set (kept_speakers K pri) \<subseteq> {0..<K}"
  by (auto simp: kept_speakers_def Let_def)

lemma best_speaker_props:
  "keep \<noteq> [] \<Longrightarrow> best_speaker keep row \<in> set keep \<and> (\<forall>k \<in> set keep. \<not> row ! k > row ! best_speaker keep row)"
  using best_from [of row "hd keep" "tl keep"] by (simp add: best_speaker_def)

lemma renumber_bound:
  assumes "set lbls \<subseteq> {0..<K}"
  shows "\<exists>k \<le> int K. set (renumber Map.empty 0 lbls) = {0..<k}"
proof -
  let ?ls = "renumber Map.empty 0 lbls"
  obtain k where k: "0 \<le> k" "set ?ls = {0..<k}"
    using first_order_onto [OF renumber_first_order [of Map.empty 0 lbls]] by auto
  have imgs: "set xs = (\<lambda>i. xs ! i) ` {0..<length xs}" for xs :: "'b list"
    by (auto simp: in_set_conv_nth image_iff) (metis atLeastLessThan_iff le0)
  have "card (set ?ls) = card (set lbls)"
    using imgs [of ?ls] imgs [of lbls] renumber_classes [of Map.empty 0 _ lbls]
    by (simp only: renumber_length) (rule card_image_classes, auto)
  also have "\<dots> \<le> card {0..<K}" using assms by (intro card_mono) simp_all
  finally show ?thesis using k by (intro exI [of _ k]) simp
qed

lemma cluster_vbx_labelling:
  assumes "\<forall>e \<in> set raw_embeddings. length e = width" "1 < length raw_embeddings"
    and "length raw_embeddings = length vbx_embeddings"
    and "D_lda model \<le> length (plda_psi model)" "\<forall>x \<in> set vbx_embeddings. D_lda model \<le> length x"
  shows "\<exists>labels init. simple_ahc gram raw_embeddings (vbx_threshold params) = Inr init \<and>
    cluster_vbx m gram model vbx_embeddings raw_embeddings params = Inr labels \<and>
    length labels = length vbx_embeddings \<and> first_order 0 labels \<and>
    (\<exists>k \<le> count_clusters init. set labels = {0..<k}) \<and>
    (count_clusters init > 1 \<longrightarrow>
       (let st = vbx_em m model vbx_embeddings init (nat (count_clusters init)) params;
            keep = kept_speakers (nat (count_clusters init)) (spk_pi st)
        in keep \<noteq> [] \<and>
           (\<forall>i < length labels. \<forall>j < length labels.
              labels ! i = labels ! j \<longleftrightarrow>
              best_speaker keep (gamma st ! i) = best_speaker keep (gamma st ! j)) \<and>
           (\<forall>i < length labels. \<forall>k \<in> set keep.
              \<not> gamma st ! i ! k > gamma st ! i ! best_speaker keep (gamma st ! i))))"
proof -
  define init where "init = ahc_labels gram raw_embeddings (vbx_threshold params)"
  let ?N = "length vbx_embeddings" and ?K = "nat (count_clusters init)"
  have run: "simple_ahc gram raw_embeddings (vbx_threshold params) = Inr init"
    unfolding init_def by (rule simple_ahc_run [OF assms(1,2)])
  have init: "length init = ?N" "first_order 0 init"
    using assms(3) by (simp_all add: init_def)
  have nonempty: "vbx_embeddings \<noteq> []" using assms(2,3) by auto
  show ?thesis
  proof (cases "count_clusters init \<le> 1")
    case True
    then have "cluster_vbx m gram model vbx_embeddings raw_embeddings params = Inr init"
      using run nonempty True nat_mono [OF True] by (simp add: cluster_vbx_def Let_def)
    moreover obtain k where "0 \<le> k" "set init = {0..<k}" using first_order_onto [OF init(2)] by auto
    ultimately show ?thesis
      using True run init count_clusters_onto [of k init] by (intro exI [of _ init]) auto
  next
    case False
    define st where "st = vbx_em m model vbx_embeddings init ?K params"
    define keep where "keep = kept_speakers ?K (spk_pi st)"
    let ?best = "map (best_speaker keep) (gamma st)"
    have many: "\<not> ?K \<le> 1" using False by simp
    have shape: "length (gamma st) = ?N"
      using vbx_em_shape [OF init(1)] by (simp add: st_def em_shape_def)
    have keep: "keep \<noteq> []" "set keep \<subseteq> {0..<?K}"
      using kept_speakers_props [of ?K "spk_pi st"] False by (simp_all add: keep_def)
    have sub: "set ?best \<subseteq> {0..<?K}" using keep best_speaker_props by fastforce
    have "cluster_vbx m gram model vbx_embeddings raw_embeddings params = Inr (renumber Map.empty 0 ?best)"
      using run nonempty init(1) False assms(4,5) many
      by (simp add: cluster_vbx_def Let_def list_all_iff st_def keep_def)
    moreover have "first_order 0 (renumber Map.empty 0 ?best)" by (rule renumber_first_order) simp
    moreover obtain k where "k \<le> count_clusters init" "set (renumber Map.empty 0 ?best) = {0..<k}"
      using renumber_bound [OF sub] False by auto
    moreover have "renumber Map.empty 0 ?best ! i = renumber Map.empty 0 ?best ! j \<longleftrightarrow>
        best_speaker keep (gamma st ! i) = best_speaker keep (gamma st ! j)" if "i < ?N" "j < ?N" for i j
      using renumber_classes [of Map.empty 0 i ?best j] that shape by simp
    moreover have "\<not> gamma st ! i ! k > gamma st ! i ! best_speaker keep (gamma st ! i)"
      if "k \<in> set keep" for i k
      using best_speaker_props [OF keep(1)] that by blast
    ultimately show ?thesis
      using run keep(1) shape
      by (intro exI [of _ "renumber Map.empty 0 ?best"] exI [of _ init])
        (auto simp: Let_def st_def keep_def)
  qed
qed


end
