(* ===== verification/Cluster_Examples.thy ===== *)
theory Cluster_Examples
  imports Clustering Vbx_Cluster
begin

text \<open>
  Concrete embeddings on which the theorems about clustering apply, evaluated in the IEEE model.
\<close>

definition unit3 :: "f32 list list" where
  "unit3 = [[1], [1], [- 1]]"

text \<open>A Gram matrix as the backend computes it, and elementary functions for evaluation.\<close>

definition gram_matrix :: "f32 list list \<Rightarrow> f32 list" where
  "gram_matrix vs = concat (map (\<lambda>a. map (\<lambda>b. foldl (+) 0 (map2 (*) a b)) vs) vs)"

definition coarse_libm :: libm where
  "coarse_libm = \<lparr>expf = \<lambda>x. if x < 0 then 0 else 1, logf = \<lambda>x. x - 1, tanhf = \<lambda>x. 0, cosf = \<lambda>x. 1,
     sinf = \<lambda>x. 0, powf = \<lambda>x y. x, log10f = \<lambda>x. x - 1, log64 = \<lambda>x. x - 1, exp64 = \<lambda>x. 1, cos64 = \<lambda>x. 1, sin64 = \<lambda>x. 0\<rparr>"

definition unit_model :: vbx_model where
  "unit_model = \<lparr>D_emb = 1, D_lda = 1, mean1 = [0], mean2 = [0], lda = [1], plda_mu = [0], plda_tr = [1],
     plda_psi = [1]\<rparr>"

definition unit_params :: vbx_params where
  "unit_params = \<lparr>Fa = 1, Fb = 1, vbx_threshold = 1, max_iters = 2, init_smoothing = 1\<rparr>"

lemma agglomerative_clustering_correct_witness:
  "\<exists>clusters. is_partition (length unit3) clusters \<and> set [0, 0, 1] = {0..<int (length clusters)} \<and>
     (\<forall>m < length clusters. \<forall>x \<in> set (clusters ! m). [0, 0, 1] ! x = int m)"
proof -
  have run: "agglomerative_clustering unit3 0 1 = Inr [0, 0, 1]" by code_simp
  show ?thesis
    using agglomerative_clustering_correct [OF run] by (elim exE conjE) (intro exI conjI)
qed

lemma agglomerative_clustering_total_witness:
  "\<exists>labels. agglomerative_clustering unit3 0 1 = Inr labels"
  by (rule agglomerative_clustering_total [where width = 1]) (simp add: unit3_def)


lemma vbx_transform_defined_witness:
  "\<exists>out. vbx_transform_embedding unit_model [1] = Inr out \<and> length out = 1"
  using vbx_transform_defined [of unit_model "[1]"] by (simp add: vbx_model_ok_def unit_model_def)



end
