(* ===== verification/Ieee_Bounds.thy ===== *)
theory Ieee_Bounds
  imports Ieee
begin

text \<open>
  Facts about rounding that the component proofs use: the exponent of a rational, the error of
  one rounding, exactness on small integers, monotonicity below 1.
\<close>

lemma pow2_nonneg [simp]: "0 \<le> e \<Longrightarrow> pow2 e = 2 ^ nat e"
  by (simp add: pow2_def)

lemma pow2_pos [simp]: "0 < pow2 e"
  by (simp add: pow2_def)

lemma pow2_simps [simp]: "pow2 e \<noteq> 0" "0 \<le> pow2 e" "\<bar>pow2 e\<bar> = pow2 e"
  using pow2_pos [of e] by linarith+

lemma pow2_powi: "pow2 e = 2 powi e"
  by (simp add: pow2_def power_int_def field_simps)

lemma pow2_add: "pow2 (a + b) = pow2 a * pow2 b"
  by (simp add: pow2_powi power_int_add)

lemma pow2_diff: "pow2 (a - b) = pow2 a / pow2 b"
  by (simp add: pow2_powi power_int_diff)

lemma pow2_mono: "a \<le> b \<Longrightarrow> pow2 a \<le> pow2 b"
  by (simp add: pow2_powi power_int_increasing)

lemma pow2_less: "pow2 a < pow2 b \<longleftrightarrow> a < b"
  by (metis linorder_not_less nless_le order_antisym pow2_mono pow2_powi power_int_strict_increasing one_less_numeral_iff semiring_norm(76))

lemma pow2_int: "e \<le> 0 \<Longrightarrow> \<exists>k. 1 / pow2 e = of_int k \<and> 0 < k"
  by (rule exI [of _ "2 ^ nat (- e)"]) (simp add: pow2_def)

lemma ilog2_bounds:
  assumes "0 < r"
  shows "pow2 (ilog2 r) \<le> r" "r < pow2 (ilog2 r + 1)"
proof -
  obtain a b where q: "quotient_of r = (a, b)" by fastforce
  have b: "0 < b" using quotient_of_denom_pos [OF q] .
  have r: "r = of_int a / of_int b" using quotient_of_div [OF q] .
  have a: "0 < a" using assms b r by (simp add: zero_less_divide_iff)
  define e where "e = bitlen a - bitlen b"
  have bits: "(2 :: rat) ^ nat (bitlen x - 1) \<le> of_int x \<and> of_int x < (2 :: rat) ^ nat (bitlen x)" if "0 < x" for x
  proof -
    have "2 ^ nat (bitlen x - 1) \<le> x" "x < 2 ^ nat (bitlen x)" using bitlen_bounds [OF that] by auto
    then show ?thesis by (metis of_int_less_iff of_int_le_iff of_int_numeral of_int_power)
  qed
  have pos: "0 < bitlen x" if "0 < x" for x
    using bitlen_bounds [OF that] that by (cases "0 < bitlen x") auto
  have ab: "pow2 (bitlen a - 1) \<le> of_int a" "of_int a < pow2 (bitlen a)"
    "pow2 (bitlen b - 1) \<le> of_int b" "of_int b < pow2 (bitlen b)"
    using bits [OF a] bits [OF b] pos [OF a] pos [OF b] by simp_all
  have lo: "pow2 (e - 1) \<le> r"
  proof -
    have "pow2 (bitlen a - 1) / pow2 (bitlen b) \<le> of_int a / of_int b"
      using ab a b by (intro frac_le) simp_all
    then show ?thesis by (simp add: r e_def pow2_diff [symmetric] algebra_simps)
  qed
  have hi: "r < pow2 (e + 1)"
  proof -
    have "of_int a / of_int b < pow2 (bitlen a) / pow2 (bitlen b - 1)"
      using ab a b by (intro frac_less) simp_all
    then show ?thesis by (simp add: r e_def pow2_diff [symmetric] algebra_simps)
  qed
  have il: "ilog2 r = (if pow2 e \<le> r then e else e - 1)"
    by (simp add: ilog2_def q e_def Let_def)
  show "pow2 (ilog2 r) \<le> r" "r < pow2 (ilog2 r + 1)" using il lo hi by auto
qed

lemma ilog2_ge: "0 < r \<Longrightarrow> pow2 k \<le> r \<Longrightarrow> k \<le> ilog2 r"
  using ilog2_bounds(2) [of r] pow2_less [of k "ilog2 r + 1"] by simp

lemma ilog2_less: "0 < r \<Longrightarrow> r < pow2 k \<Longrightarrow> ilog2 r < k"
  using ilog2_bounds(1) [of r] pow2_less [of "ilog2 r" k] by simp

lemma round_even_error: "\<bar>of_int (round_even x) - x\<bar> \<le> 1 / 2"
proof -
  have "of_int \<lfloor>x\<rfloor> \<le> x" "x < of_int \<lfloor>x\<rfloor> + 1" by linarith+
  then show ?thesis by (auto simp: round_even_def Let_def abs_le_iff)
qed

lemma round_even_int [simp]: "round_even (of_int k) = k"
  by (simp add: round_even_def)

lemma round_even_mono: "x \<le> y \<Longrightarrow> round_even x \<le> round_even y"
proof -
  assume xy: "x \<le> y"
  show ?thesis
  proof (cases "\<lfloor>x\<rfloor> = \<lfloor>y\<rfloor>")
    case True
    then show ?thesis using xy by (auto simp: round_even_def Let_def)
  next
    case False
    then have "\<lfloor>x\<rfloor> + 1 \<le> \<lfloor>y\<rfloor>" using floor_mono [OF xy] by simp
    moreover have "round_even x \<le> \<lfloor>x\<rfloor> + 1" "\<lfloor>y\<rfloor> \<le> round_even y"
      by (simp_all add: round_even_def Let_def)
    ultimately show ?thesis by simp
  qed
qed

subsection \<open>One rounding\<close>

definition fl_format_ok :: "fl_format \<Rightarrow> bool" where
  "fl_format_ok fmt \<longleftrightarrow> 1 < fl_prec fmt \<and> fl_emin fmt < 0 \<and> 1 < fl_emax fmt"

lemma formats_ok [simp]: "fl_format_ok binary32" "fl_format_ok binary64"
  by (simp_all add: fl_format_ok_def binary32_def binary64_def)

lemma format_simps [simp]:
  "fl_prec binary32 = 24" "fl_emin binary32 = - 149" "fl_emax binary32 = 128"
  "fl_prec binary64 = 53" "fl_emin binary64 = - 1074" "fl_emax binary64 = 1024"
  by (simp_all add: binary32_def binary64_def)

lemma ilog2_unique: "pow2 k \<le> r \<Longrightarrow> r < pow2 (k + 1) \<Longrightarrow> ilog2 r = k"
  using ilog2_ge [of r k] ilog2_less [of r "k + 1"] pow2_pos [of k] by linarith

definition ulp_exp :: "fl_format \<Rightarrow> rat \<Rightarrow> int" where
  "ulp_exp fmt m = max (ilog2 m - (fl_prec fmt - 1)) (fl_emin fmt)"

definition rounded :: "fl_format \<Rightarrow> rat \<Rightarrow> rat" where
  "rounded fmt m = of_int (round_even (m / pow2 (ulp_exp fmt m))) * pow2 (ulp_exp fmt m)"

lemma fl_round_cases:
  "m \<noteq> 0 \<Longrightarrow> fl_round fmt neg m = (if pow2 (fl_emax fmt) \<le> rounded fmt m then FInf neg else FFin neg (rounded fmt m))"
  by (simp add: fl_round_def rounded_def ulp_exp_def Let_def)

lemma rounded_error: "\<bar>rounded fmt m - m\<bar> \<le> pow2 (ulp_exp fmt m) / 2"
proof -
  let ?u = "pow2 (ulp_exp fmt m)"
  have "rounded fmt m - m = (of_int (round_even (m / ?u)) - m / ?u) * ?u"
    by (simp add: rounded_def field_simps)
  then have "\<bar>rounded fmt m - m\<bar> = \<bar>of_int (round_even (m / ?u)) - m / ?u\<bar> * ?u"
    by (simp add: abs_mult)
  also have "\<dots> \<le> 1 / 2 * ?u" by (intro mult_right_mono round_even_error) (simp add: less_imp_le)
  finally show ?thesis by simp
qed

text \<open>Relative error for numbers in the normal range.\<close>

lemma rounded_relative:
  assumes "0 < m" "pow2 (fl_emin fmt + fl_prec fmt - 1) \<le> m"
  shows "\<bar>rounded fmt m - m\<bar> \<le> m / pow2 (fl_prec fmt)"
proof -
  have "fl_emin fmt + fl_prec fmt - 1 \<le> ilog2 m" using ilog2_ge assms by blast
  then have e: "ulp_exp fmt m = (ilog2 m + 1) - fl_prec fmt" by (simp add: ulp_exp_def)
  have "pow2 (ulp_exp fmt m) / 2 = pow2 (ilog2 m) / pow2 (fl_prec fmt)"
    by (simp add: e pow2_diff pow2_add)
  also have "\<dots> \<le> m / pow2 (fl_prec fmt)"
    using ilog2_bounds(1) [OF assms(1)] by (intro divide_right_mono) (simp_all add: less_imp_le)
  finally show ?thesis by (rule order_trans [OF rounded_error])
qed

lemma rounded_integer:
  assumes "0 < k" "of_int k < pow2 (fl_prec fmt)" "fl_format_ok fmt"
  shows "rounded fmt (of_int k) = of_int k"
proof -
  have "ilog2 (of_int k) < fl_prec fmt" using assms by (intro ilog2_less) simp_all
  then have "ulp_exp fmt (of_int k) \<le> 0" using assms(3) by (simp add: ulp_exp_def fl_format_ok_def)
  then obtain u where u: "1 / pow2 (ulp_exp fmt (of_int k)) = of_int u" using pow2_int by blast
  have "of_int k / pow2 (ulp_exp fmt (of_int k)) = of_int k * (1 / pow2 (ulp_exp fmt (of_int k)))"
    by simp
  also have "\<dots> = of_int (k * u)" by (simp only: u of_int_mult)
  finally have "of_int k / pow2 (ulp_exp fmt (of_int k)) = of_int (k * u)" .
  then have "rounded fmt (of_int k) = of_int (k * u) * pow2 (ulp_exp fmt (of_int k))"
    by (simp only: rounded_def round_even_int)
  also have "\<dots> = of_int k" using u by (simp add: field_simps)
  finally show ?thesis .
qed

lemma rounded_le_int:
  assumes "0 < m" "m \<le> of_int i" "of_int i < pow2 (fl_prec fmt)" "fl_format_ok fmt"
  shows "0 \<le> rounded fmt m" "rounded fmt m \<le> of_int i"
proof -
  let ?u = "pow2 (ulp_exp fmt m)"
  have "ilog2 m < fl_prec fmt" using assms by (intro ilog2_less) linarith+
  then have "ulp_exp fmt m \<le> 0" using assms(4) by (simp add: ulp_exp_def fl_format_ok_def)
  then obtain k where k: "1 / ?u = of_int k" using pow2_int by blast
  have "round_even 0 \<le> round_even (m / ?u)"
    using assms(1) by (intro round_even_mono) (simp add: less_imp_le)
  then show "0 \<le> rounded fmt m"
    using round_even_int [of 0] by (simp add: rounded_def less_imp_le)
  have "m / ?u \<le> of_int i * (1 / ?u)" using assms(2) by (simp add: divide_right_mono)
  then have "m / ?u \<le> of_int (i * k)" by (simp only: k of_int_mult)
  from round_even_mono [OF this] have "round_even (m / ?u) \<le> i * k" by (simp only: round_even_int)
  then have "rounded fmt m \<le> of_int (i * k) * ?u"
    unfolding rounded_def by (intro mult_right_mono) (simp_all only: of_int_le_iff pow2_simps)
  also have "\<dots> = of_int i" using k by (simp add: field_simps)
  finally show "rounded fmt m \<le> of_int i" .
qed

lemma rounded_le_one:
  assumes "0 < m" "m \<le> 1" "fl_format_ok fmt"
  shows "0 \<le> rounded fmt m" "rounded fmt m \<le> 1"
  using rounded_le_int [of m 1 fmt] pow2_less [of 0 "fl_prec fmt"] assms by (simp_all add: fl_format_ok_def)

lemma rounded_pos:
  assumes "0 < m" "pow2 (fl_emin fmt + fl_prec fmt - 1) \<le> m" "fl_format_ok fmt"
  shows "0 < rounded fmt m"
proof -
  have "1 < pow2 (fl_prec fmt)" using pow2_less [of 0 "fl_prec fmt"] assms(3) by (simp add: fl_format_ok_def)
  then have "m / pow2 (fl_prec fmt) < m" using assms(1) by (simp add: divide_less_eq)
  then show ?thesis using rounded_relative [OF assms(1,2)] by linarith
qed

lemma f64_of_int_exact:
  assumes "0 \<le> k" "k < 2 ^ 53"
  shows "f64_of_int k = F64 (FFin False (of_int k))"
proof (cases "k = 0")
  case True
  then show ?thesis by (simp add: f64_of_int_def f64_of_rat_def fl_of_rat_def)
next
  case False
  have k: "of_int k < (2 :: rat) ^ 53" using assms(2) by (metis of_int_less_iff of_int_numeral of_int_power)
  then have eq: "rounded binary64 (of_int k) = of_int k"
    using False assms(1) by (intro rounded_integer) simp_all
  have "(2 :: rat) ^ 53 \<le> 2 ^ 1024" by (rule power_increasing) simp_all
  then have "\<not> pow2 (fl_emax binary64) \<le> of_int k" using k by (simp add: not_le)
  then show ?thesis
    using assms False eq by (simp add: f64_of_int_def f64_of_rat_def fl_of_rat_def fl_round_cases)
qed

lemma rounded_ge_one:
  assumes "1 \<le> m" "fl_format_ok fmt"
  shows "1 \<le> rounded fmt m"
proof -
  have m: "0 < m" using assms(1) by simp
  have k: "0 \<le> ilog2 m" using ilog2_ge [OF m, of 0] assms(1) by simp
  show ?thesis
  proof (cases "ulp_exp fmt m \<le> 0")
    case True
    then obtain u where u: "1 / pow2 (ulp_exp fmt m) = of_int u" "0 < u" using pow2_int by blast
    have "of_int u \<le> m / pow2 (ulp_exp fmt m)"
      unfolding u(1) [symmetric] using assms(1) by (intro divide_right_mono) simp_all
    then have "u \<le> round_even (m / pow2 (ulp_exp fmt m))" using round_even_mono round_even_int by metis
    then have "of_int u * pow2 (ulp_exp fmt m) \<le> rounded fmt m"
      unfolding rounded_def by (intro mult_right_mono) simp_all
    then show ?thesis using u(1) by (simp add: field_simps)
  next
    case False
    then have e: "1 \<le> pow2 (ulp_exp fmt m)" using pow2_mono [of 0 "ulp_exp fmt m"] by simp
    have "ulp_exp fmt m \<le> ilog2 m" using False assms(2) by (auto simp: ulp_exp_def fl_format_ok_def)
    then have "pow2 (ulp_exp fmt m) \<le> m" using pow2_mono ilog2_bounds(1) [OF m] order_trans by blast
    then have "of_int 1 \<le> m / pow2 (ulp_exp fmt m)" by simp
    then have "1 \<le> round_even (m / pow2 (ulp_exp fmt m))" using round_even_mono round_even_int by metis
    then have "1 * pow2 (ulp_exp fmt m) \<le> rounded fmt m"
      unfolding rounded_def by (intro mult_right_mono) simp_all
    then show ?thesis using e by simp
  qed
qed

lemma fl_round_le_one:
  assumes "0 \<le> m" "m \<le> 1" "fl_format_ok fmt"
  shows "\<exists>v. fl_round fmt s m = FFin s v \<and> 0 \<le> v \<and> v \<le> 1"
proof (cases "m = 0")
  case True
  then show ?thesis by (simp add: fl_round_def)
next
  case False
  then have r: "0 \<le> rounded fmt m" "rounded fmt m \<le> 1" using rounded_le_one [of m fmt] assms by simp_all
  moreover have "1 < pow2 (fl_emax fmt)"
    using pow2_less [of 0 "fl_emax fmt"] assms(3) by (simp add: fl_format_ok_def)
  ultimately show ?thesis using fl_round_cases [OF False, of fmt s] by auto
qed

subsection \<open>Numbers between -1 and 1\<close>

definition unit_or_nan :: "f32 \<Rightarrow> bool" where
  "unit_or_nan x \<longleftrightarrow> (case fl32 x of FNaN \<Rightarrow> True | FInf s \<Rightarrow> False | FFin s m \<Rightarrow> 0 \<le> m \<and> m \<le> 1)"

definition nonneg_or_nan :: "f32 \<Rightarrow> bool" where
  "nonneg_or_nan x \<longleftrightarrow> (case fl32 x of FNaN \<Rightarrow> True | FInf s \<Rightarrow> \<not> s | FFin s m \<Rightarrow> \<not> s \<and> 0 \<le> m)"

lemma unit_or_nan_times: "unit_or_nan x \<Longrightarrow> unit_or_nan y \<Longrightarrow> unit_or_nan (x * y)"
proof -
  assume x: "unit_or_nan x" and y: "unit_or_nan y"
  show ?thesis
  proof (cases "fl32 x")
    case X: (FFin s m)
    then have m: "0 \<le> m" "m \<le> 1" using x by (simp_all add: unit_or_nan_def)
    show ?thesis
    proof (cases "fl32 y")
      case Y: (FFin t n)
      then have n: "0 \<le> n" "n \<le> 1" using y by (simp_all add: unit_or_nan_def)
      have "m * n \<le> 1" using mult_mono [OF m(2) n(2)] m n by simp
      then show ?thesis
        using fl_round_le_one [of "m * n" binary32 "s \<noteq> t"] m n X Y
        by (auto simp: unit_or_nan_def times_f32_def)
    qed (use y X in \<open>auto simp: unit_or_nan_def times_f32_def\<close>)
  qed (use x in \<open>auto simp: unit_or_nan_def times_f32_def\<close>)
qed

lemma unit_or_nan_inverse_of_one_plus: "nonneg_or_nan e \<Longrightarrow> unit_or_nan (1 / (1 + e))"
proof -
  assume e: "nonneg_or_nan e"
  show ?thesis
  proof (cases "fl32 e")
    case F: (FFin s m)
    then have m: "\<not> s" "0 \<le> m" using e by (simp_all add: nonneg_or_nan_def)
    then have sum: "fl32 (1 + e) = fl_round binary32 False (1 + m)"
      using F by (simp add: plus_f32_def one_f32_def fl_of_rat_def fl_val_def)
    show ?thesis
    proof (cases "pow2 (fl_emax binary32) \<le> rounded binary32 (1 + m)")
      case True
      then show ?thesis
        using sum m fl_round_cases [of "1 + m" binary32 False]
        by (simp add: unit_or_nan_def divide_f32_def one_f32_def)
    next
      case False
      let ?v = "rounded binary32 (1 + m)"
      have v: "1 \<le> ?v" using rounded_ge_one [of "1 + m" binary32] m by simp
      have "fl32 (1 + e) = FFin False ?v"
        using sum m False fl_round_cases [of "1 + m" binary32 False] by simp
      then have "fl32 (1 / (1 + e)) = fl_round binary32 False (1 / ?v)"
        using v by (auto simp: divide_f32_def one_f32_def)
      then show ?thesis
        using fl_round_le_one [of "1 / ?v" binary32 False] v by (auto simp: unit_or_nan_def)
    qed
  next
    case (FInf s)
    then show ?thesis using e by (simp add: nonneg_or_nan_def unit_or_nan_def plus_f32_def divide_f32_def one_f32_def)
  next
    case FNaN
    then show ?thesis by (simp add: unit_or_nan_def plus_f32_def divide_f32_def one_f32_def)
  qed
qed

text \<open>What the C library documents of the two functions: \<open>exp\<close> is never negative, \<open>tanh\<close> lies in [-1, 1].\<close>

definition libm_ranges :: "libm \<Rightarrow> bool" where
  "libm_ranges m \<longleftrightarrow> (\<forall>x. nonneg_or_nan (expf m x)) \<and> (\<forall>x. unit_or_nan (tanhf m x))"

lemma f32_of_int_exact:
  assumes "0 \<le> k" "k < 2 ^ 24"
  shows "f32_of_int k = F32 (FFin False (of_int k))"
proof (cases "k = 0")
  case True
  then show ?thesis by (simp add: f32_of_int_def f32_of_rat_def fl_of_rat_def)
next
  case False
  have k: "of_int k < (2 :: rat) ^ 24" using assms(2) by (metis of_int_less_iff of_int_numeral of_int_power)
  then have eq: "rounded binary32 (of_int k) = of_int k"
    using False assms(1) by (intro rounded_integer) simp_all
  have "\<not> pow2 (fl_emax binary32) \<le> of_int k" using k by (simp add: not_le)
  then show ?thesis
    using assms False eq by (simp add: f32_of_int_def f32_of_rat_def fl_of_rat_def fl_round_cases)
qed

end
