(* ===== verification/Wav.thy ===== *)
theory Wav
  imports Bytes Ieee_Bounds
begin

text \<open>
  WAV files: \<open>read_wav\<close> of \<open>examples/common_audio.cpp\<close> and the class \<open>wav_writer\<close> of
  \<open>examples/common.h\<close>.  The input stream is the bytes not yet read and the flag that \<open>std::ifstream\<close>
  calls good; a variable that a failed read leaves uninitialised is \<open>None\<close>, and using it is
  undefined.
\<close>

subsection \<open>Input streams\<close>

record istream =
  rest :: bytes
  good :: bool

definition stream_read :: "nat \<Rightarrow> istream \<Rightarrow> bytes \<times> istream" where
  "stream_read n is =
     (if \<not> good is then ([], is)
      else if n \<le> length (rest is) then (take n (rest is), is\<lparr>rest := drop n (rest is)\<rparr>)
      else (rest is, \<lparr>rest = [], good = False\<rparr>))"

definition stream_ignore :: "nat \<Rightarrow> istream \<Rightarrow> istream" where
  "stream_ignore n is =
     (if \<not> good is then is
      else if n \<le> length (rest is) then is\<lparr>rest := drop n (rest is)\<rparr>
      else \<lparr>rest = [], good = False\<rparr>)"

text \<open>\<open>f.read((char*)&x, n)\<close> for an uninitialised scalar \<open>x\<close>.\<close>

definition read_scalar :: "istream \<Rightarrow> ('a::len word) option \<times> istream" where
  "read_scalar is =
     (let (bs, is') = stream_read (LENGTH('a) div 8) is
      in (if length bs = LENGTH('a) div 8 then Some (dec_word bs) else None, is'))"

text \<open>\<open>f.read(buf, 4)\<close> overwrites a prefix of the buffer.\<close>

definition read_buf :: "byte option list \<Rightarrow> istream \<Rightarrow> byte option list \<times> istream" where
  "read_buf buf is =
     (let (bs, is') = stream_read 4 is in (map Some bs @ drop (length bs) buf, is'))"

fun strncmp_eq :: "byte option list \<Rightarrow> bytes \<Rightarrow> bool outcome" where
  "strncmp_eq (Some b # bs) (c # cs) = (if b \<noteq> c then Inr False else if b = 0 then Inr True else strncmp_eq bs cs)"
| "strncmp_eq (None # bs) (c # cs) = Inl Undefined"
| "strncmp_eq bs cs = Inr True"

definition known :: "'a option \<Rightarrow> 'a outcome" where
  "known v = (case v of None \<Rightarrow> Inl Undefined | Some x \<Rightarrow> Inr x)"

subsection \<open>Reading\<close>

record wav_file =
  wav_data :: "f32 list"
  sample_rate :: int
  channels :: int
  bits_per_sample :: int

record wav_format =
  fmt_channels :: "16 word option"
  fmt_rate :: "32 word option"
  fmt_bits :: "16 word option"

fun read_samples :: "nat \<Rightarrow> istream \<Rightarrow> f32 list outcome" where
  "read_samples 0 is = Inr []"
| "read_samples (Suc n) is =
     (let (val, is') = read_scalar is in
      bnd (known val) (\<lambda>v. bnd (read_samples n is') (\<lambda>vs.
      Inr (f32_of_int (sint (v :: 16 word)) / f32_of_int 32768 # vs))))"

definition is_int32 :: "int \<Rightarrow> bool" where
  "is_int32 i \<longleftrightarrow> - (2 ^ 31) \<le> i \<and> i < 2 ^ 31"

text \<open>
  \<open>chunk_size / (channels * bits_per_sample / 8)\<close>: the product is an \<open>int\<close>, the quotient a
  \<open>uint32_t\<close> that is converted to \<open>int\<close>; a negative length makes \<open>resize\<close> throw.
\<close>

definition read_data_chunk :: "32 word \<Rightarrow> wav_format \<Rightarrow> istream \<Rightarrow> wav_file option outcome" where
  "read_data_chunk chunk_size fmt is =
     bnd (known (fmt_rate fmt)) (\<lambda>rate.
     bnd (known (fmt_channels fmt)) (\<lambda>ch.
     bnd (known (fmt_bits fmt)) (\<lambda>bits.
     bnd (ensure (is_int32 (uint ch * uint bits)) Undefined) (\<lambda>_.
     let frame = uint ch * uint bits div 8 in
     bnd (ensure (frame \<noteq> 0) Trapped) (\<lambda>_.
     let num_samples = sint (word_of_int (uint chunk_size div frame) :: 32 word);
         n = num_samples * uint ch in
     bnd (ensure (is_int32 n) Undefined) (\<lambda>_.
     bnd (ensure (0 \<le> n) Threw) (\<lambda>_.
     if bits = 16 then
       bnd (read_samples (nat n) is) (\<lambda>samples.
       Inr (Some \<lparr>wav_data = samples, sample_rate = sint rate, channels = uint ch, bits_per_sample = uint bits\<rparr>))
     else Inr None)))))))"

function read_chunks :: "byte option list \<Rightarrow> wav_format \<Rightarrow> istream \<Rightarrow> wav_file option outcome" where
  "read_chunks buf fmt is =
     (let (buf, is1) = read_buf buf is in
      if \<not> good is1 then Inr None
      else let (chunk_size, is2) = read_scalar is1 in
           bnd (strncmp_eq buf (bytes_of ''data'')) (\<lambda>data.
           bnd (known chunk_size) (\<lambda>chunk_size.
           if data then read_data_chunk chunk_size fmt is2
           else read_chunks buf fmt (stream_ignore (unat (chunk_size :: 32 word)) is2))))"
  by pat_completeness auto
termination
proof (relation "measure (\<lambda>(_, _, is). length (rest is))")
  fix buf fmt "is" p buf' is1 q chunk is2 data size
  assume p: "p = read_buf buf is" "(buf', is1) = p" "\<not> \<not> good is1"
    and q: "q = (read_scalar is1 :: 32 word option \<times> istream)" "(chunk, is2) = q"
  have "stream_read 4 is = (take 4 (rest is), is1)" "4 \<le> length (rest is)" "length (rest is1) = length (rest is) - 4"
    using p by (auto simp: read_buf_def stream_read_def split: if_splits)
  moreover have "length (rest is2) \<le> length (rest is1)"
    using q by (auto simp: read_scalar_def stream_read_def split: if_splits)
  ultimately have "length (rest (stream_ignore n is2)) < length (rest is)" for n
    by (auto simp: stream_ignore_def)
  then show "((buf', fmt, stream_ignore (unat (size :: 32 word)) is2), buf, fmt, is) \<in> measure (\<lambda>(_, _, is). length (rest is))"
    by simp
qed simp

declare read_chunks.simps [simp del]

definition read_wav :: "bytes option \<Rightarrow> wav_file option outcome" where
  "read_wav file =
     (case file of
        None \<Rightarrow> Inr None
      | Some bs \<Rightarrow>
          (let (buf, is) = read_buf (replicate 4 None) \<lparr>rest = bs, good = True\<rparr> in
           bnd (strncmp_eq buf (bytes_of ''RIFF'')) (\<lambda>ok. if \<not> ok then Inr None else
           let (buf, is) = read_buf buf (stream_ignore 4 is) in
           bnd (strncmp_eq buf (bytes_of ''WAVE'')) (\<lambda>ok. if \<not> ok then Inr None else
           let (buf, is) = read_buf buf is in
           bnd (strncmp_eq buf (bytes_of ''fmt '')) (\<lambda>ok. if \<not> ok then Inr None else
           let (fmt_size, is) = (read_scalar is :: 32 word option \<times> istream);
               (audio_format, is) = (read_scalar is :: 16 word option \<times> istream);
               (ch, is) = read_scalar is;
               (rate, is) = read_scalar is;
               (bits, is) = read_scalar (stream_ignore 6 is) in
           bnd (known fmt_size) (\<lambda>fmt_size.
           let is = (if fmt_size > 16 then stream_ignore (unat (fmt_size - 16)) is else is)
           in read_chunks buf \<lparr>fmt_channels = ch, fmt_rate = rate, fmt_bits = bits\<rparr> is))))))"

subsection \<open>Writing\<close>

record wav_writer =
  w_open :: bool
  w_bytes :: bytes
  w_pos :: nat
  w_data_size :: "32 word"
  w_filename :: string

definition file_write :: "bytes \<Rightarrow> wav_writer \<Rightarrow> wav_writer" where
  "file_write bs w =
     (if w_open w then
        w\<lparr>w_bytes := take (w_pos w) (w_bytes w) @ bs @ drop (w_pos w + length bs) (w_bytes w),
          w_pos := w_pos w + length bs\<rparr>
      else w)"

definition file_seek :: "nat \<Rightarrow> wav_writer \<Rightarrow> wav_writer" where
  "file_seek p w = w\<lparr>w_pos := p\<rparr>"

definition header_bytes :: "32 word \<Rightarrow> 16 word \<Rightarrow> 16 word \<Rightarrow> bytes list" where
  "header_bytes rate bits ch =
     [bytes_of ''RIFF'', replicate 4 0, bytes_of ''WAVE'', bytes_of ''fmt '',
      enc_word (16 :: 32 word), enc_word (1 :: 16 word), enc_word ch, enc_word rate,
      enc_word (rate * ucast ch * ucast bits div 8 :: 32 word),
      enc_word (word_of_int (uint ch * uint bits div 8) :: 16 word), enc_word bits,
      bytes_of ''data'', replicate 4 0]"

definition write_header :: "32 word \<Rightarrow> 16 word \<Rightarrow> 16 word \<Rightarrow> wav_writer \<Rightarrow> wav_writer outcome" where
  "write_header rate bits ch w =
     bnd (ensure (is_int32 (uint ch * uint bits)) Undefined) (\<lambda>_.
     Inr (fold file_write (header_bytes rate bits ch) w))"

definition sample_bytes :: "f32 \<Rightarrow> bytes outcome" where
  "sample_bytes x =
     bnd (fl_trunc (- 32768) 32767 (fl32 (x * f32_of_int 32767))) (\<lambda>i. Inr (enc_word (word_of_int i :: 16 word)))"

definition write_sample :: "f32 \<Rightarrow> wav_writer \<Rightarrow> wav_writer outcome" where
  "write_sample x w =
     bnd (sample_bytes x) (\<lambda>bs. Inr ((file_write bs w)\<lparr>w_data_size := w_data_size w + 2\<rparr>))"

definition write_audio :: "f32 list \<Rightarrow> wav_writer \<Rightarrow> wav_writer outcome" where
  "write_audio data w =
     bnd (each_outcome write_sample data w) (\<lambda>w.
     Inr (if w_open w then
            let w = file_write (enc_word (36 + w_data_size w)) (file_seek 4 w);
                w = file_write (enc_word (w_data_size w)) (file_seek 40 w)
            in file_seek (length (w_bytes w)) w
          else w))"

text \<open>\<open>creatable\<close> says whether the file can be opened for writing.\<close>

definition open_wav :: "bool \<Rightarrow> string \<Rightarrow> wav_writer \<Rightarrow> bool \<times> wav_writer" where
  "open_wav creatable filename w =
     (let w = (if filename \<noteq> w_filename w then w\<lparr>w_open := False\<rparr> else w);
          w = (if \<not> w_open w
               then w\<lparr>w_open := creatable, w_bytes := (if creatable then [] else w_bytes w), w_pos := 0,
                      w_data_size := 0, w_filename := filename\<rparr>
               else w)
      in (w_open w, w))"

definition wav_open :: "bool \<Rightarrow> string \<Rightarrow> 32 word \<Rightarrow> 16 word \<Rightarrow> 16 word \<Rightarrow> wav_writer \<Rightarrow> (bool \<times> wav_writer) outcome" where
  "wav_open creatable filename rate bits ch w =
     (let (ok, w) = open_wav creatable filename w in
      if ok then bnd (write_header rate bits ch w) (\<lambda>w. Inr (True, w)) else Inr (False, w))"

definition wav_close :: "wav_writer \<Rightarrow> wav_writer" where
  "wav_close w = w\<lparr>w_open := False\<rparr>"

definition new_wav_writer :: wav_writer where
  "new_wav_writer = \<lparr>w_open = False, w_bytes = [], w_pos = 0, w_data_size = 0, w_filename = ''''\<rparr>"

text \<open>A file written with one \<open>open\<close>, any number of \<open>write\<close>s and a \<open>close\<close>.\<close>

definition wav_session :: "string \<Rightarrow> 32 word \<Rightarrow> 16 word \<Rightarrow> 16 word \<Rightarrow> f32 list list \<Rightarrow> bytes outcome" where
  "wav_session filename rate bits ch blocks =
     bnd (wav_open True filename rate bits ch new_wav_writer) (\<lambda>(ok, w).
     bnd (each_outcome write_audio blocks w) (\<lambda>w.
     Inr (w_bytes (wav_close w))))"

subsection \<open>The bytes of a session\<close>

definition fmt_part :: "32 word \<Rightarrow> 16 word \<Rightarrow> 16 word \<Rightarrow> bytes" where
  "fmt_part rate bits ch =
     bytes_of ''WAVE'' @ bytes_of ''fmt '' @ enc_word (16 :: 32 word) @ enc_word (1 :: 16 word) @ enc_word ch @
     enc_word rate @ enc_word (rate * ucast ch * ucast bits div 8 :: 32 word) @
     enc_word (word_of_int (uint ch * uint bits div 8) :: 16 word) @ enc_word bits @ bytes_of ''data''"

definition wav_image :: "32 word \<Rightarrow> 16 word \<Rightarrow> 16 word \<Rightarrow> 32 word \<Rightarrow> 32 word \<Rightarrow> bytes \<Rightarrow> bytes" where
  "wav_image rate bits ch file_size data_size samples =
     bytes_of ''RIFF'' @ enc_word file_size @ fmt_part rate bits ch @ enc_word data_size @ samples"

definition sample_value :: "f32 \<Rightarrow> int" where
  "sample_value x = (case fl_trunc (- 32768) 32767 (fl32 (x * f32_of_int 32767)) of Inl _ \<Rightarrow> 0 | Inr i \<Rightarrow> i)"

definition encode_samples :: "f32 list \<Rightarrow> bytes" where
  "encode_samples xs = concat (map (\<lambda>x. enc_word (word_of_int (sample_value x) :: 16 word)) xs)"

lemma length_fmt_part [simp]: "length (fmt_part rate bits ch) = 32"
  by (simp add: fmt_part_def bytes_of_def)

lemma length_encode_samples [simp]: "length (encode_samples xs) = 2 * length xs"
  by (induction xs) (simp_all add: encode_samples_def)

lemma encode_samples_append: "encode_samples (xs @ ys) = encode_samples xs @ encode_samples ys"
  by (simp add: encode_samples_def)

lemma file_write_append:
  "w_open w \<Longrightarrow> w_pos w = length (w_bytes w) \<Longrightarrow>
   file_write bs w = w\<lparr>w_bytes := w_bytes w @ bs, w_pos := length (w_bytes w @ bs)\<rparr>"
  by (simp add: file_write_def)

lemma fold_file_write:
  "w_open w \<Longrightarrow> w_pos w = length (w_bytes w) \<Longrightarrow>
   fold file_write bss w = w\<lparr>w_bytes := w_bytes w @ concat bss, w_pos := length (w_bytes w @ concat bss)\<rparr>"
  by (induction bss arbitrary: w) (simp_all add: file_write_append)

text \<open>The writer between two calls.\<close>

definition writer_at :: "32 word \<Rightarrow> 16 word \<Rightarrow> 16 word \<Rightarrow> f32 list \<Rightarrow> wav_writer \<Rightarrow> bool" where
  "writer_at rate bits ch xs w \<longleftrightarrow>
     w_open w \<and> w_pos w = length (w_bytes w) \<and> w_data_size w = word_of_nat (2 * length xs) \<and>
     (\<exists>fs ds. w_bytes w = wav_image rate bits ch fs ds (encode_samples xs))"

lemma le_enc_zero: "le_enc n 0 = replicate n 0"
  by (induction n) simp_all

lemma wav_open_new:
  assumes "is_int32 (uint ch * uint bits)"
  shows "\<exists>w. wav_open True filename rate bits ch new_wav_writer = Inr (True, w) \<and> writer_at rate bits ch [] w"
proof -
  have "replicate 4 0 = (enc_word (0 :: 32 word))" by (simp add: enc_word_def le_enc_zero)
  then have image: "concat (header_bytes rate bits ch) = wav_image rate bits ch 0 0 (encode_samples [])"
    by (simp add: header_bytes_def wav_image_def fmt_part_def encode_samples_def)
  let ?w = "new_wav_writer\<lparr>w_open := True, w_bytes := [], w_pos := 0, w_data_size := 0, w_filename := filename\<rparr>"
  have "open_wav True filename new_wav_writer = (True, ?w)"
    by (simp add: open_wav_def new_wav_writer_def)
  moreover have "fold file_write (header_bytes rate bits ch) ?w =
      ?w\<lparr>w_bytes := concat (header_bytes rate bits ch), w_pos := length (concat (header_bytes rate bits ch))\<rparr>"
    by (simp add: fold_file_write)
  ultimately show ?thesis
    using assms unfolding image
    by (auto simp: wav_open_def write_header_def writer_at_def)
qed

definition in_range :: "f32 \<Rightarrow> bool" where
  "in_range x \<longleftrightarrow> fl32 x \<noteq> FNaN \<and> unit_or_nan x"

lemma sample_bytes_in_range:
  assumes "in_range x"
  shows "sample_bytes x = Inr (enc_word (word_of_int (sample_value x) :: 16 word))"
    and "- 32768 \<le> sample_value x \<and> sample_value x \<le> 32767"
proof -
  obtain s m where x: "fl32 x = FFin s m" "0 \<le> m" "m \<le> 1"
    using assms by (cases "fl32 x") (auto simp: in_range_def unit_or_nan_def)
  have "fl32 (x * f32_of_int 32767) = fl_round binary32 (s \<noteq> False) (m * 32767)"
    using x f32_of_int_exact [of 32767] by (simp add: times_f32_def)
  moreover have "\<exists>v. fl_round binary32 (s \<noteq> False) (m * 32767) = FFin s v \<and> 0 \<le> v \<and> v \<le> 32767"
  proof (cases "m = 0")
    case True
    then show ?thesis by (simp add: fl_round_def)
  next
    case False
    then have "0 \<le> rounded binary32 (m * 32767)" "rounded binary32 (m * 32767) \<le> 32767"
      using rounded_le_int [of "m * 32767" 32767 binary32] x by simp_all
    moreover from this have "\<not> pow2 (fl_emax binary32) \<le> rounded binary32 (m * 32767)" by simp
    ultimately show ?thesis using fl_round_cases [of "m * 32767" binary32 s] False by simp
  qed
  ultimately obtain v where v: "fl32 (x * f32_of_int 32767) = FFin s v" "0 \<le> v" "v \<le> 32767" by auto
  define k where "k = \<lfloor>v\<rfloor>"
  have "0 \<le> k" "k \<le> 32767" using v(2,3) by (simp_all add: k_def floor_le_iff)
  then show "sample_bytes x = Inr (enc_word (word_of_int (sample_value x) :: 16 word))"
    "- 32768 \<le> sample_value x \<and> sample_value x \<le> 32767"
    using v(1) by (auto simp: sample_bytes_def sample_value_def fl_trunc_def Let_def k_def [symmetric])
qed

lemma write_samples:
  "\<forall>x \<in> set data. in_range x \<Longrightarrow> w_open w \<Longrightarrow> w_pos w = length (w_bytes w) \<Longrightarrow>
   each_outcome write_sample data w =
     Inr (w\<lparr>w_bytes := w_bytes w @ encode_samples data, w_pos := length (w_bytes w @ encode_samples data),
            w_data_size := w_data_size w + word_of_nat (2 * length data)\<rparr>)"
proof (induction data arbitrary: w)
  case Nil
  then show ?case by (simp add: encode_samples_def)
next
  case (Cons x data)
  then show ?case
    by (simp add: write_sample_def sample_bytes_in_range file_write_append encode_samples_def algebra_simps)
qed

lemma write_audio_step:
  assumes "writer_at rate bits ch xs w" "\<forall>x \<in> set data. in_range x"
  shows "\<exists>w'. write_audio data w = Inr w' \<and> writer_at rate bits ch (xs @ data) w' \<and>
    w_bytes w' = wav_image rate bits ch (36 + w_data_size w') (w_data_size w') (encode_samples (xs @ data))"
proof -
  obtain fs ds where w: "w_open w" "w_pos w = length (w_bytes w)" "w_data_size w = word_of_nat (2 * length xs)"
    "w_bytes w = wav_image rate bits ch fs ds (encode_samples xs)"
    using assms(1) by (auto simp: writer_at_def)
  have "length (bytes_of ''RIFF'') = 4" by (simp add: bytes_of_def)
  then show ?thesis
    using w
    by (simp add: write_audio_def write_samples [OF assms(2)] file_write_def file_seek_def Let_def writer_at_def
        wav_image_def encode_samples_append) blast
qed

lemma write_blocks:
  "writer_at rate bits ch xs w \<Longrightarrow> \<forall>data \<in> set blocks. \<forall>x \<in> set data. in_range x \<Longrightarrow>
   w_bytes w = wav_image rate bits ch (36 + w_data_size w) (w_data_size w) (encode_samples xs) \<or> blocks \<noteq> [] \<Longrightarrow>
   \<exists>w'. each_outcome write_audio blocks w = Inr w' \<and>
     w_bytes w' = (let n = word_of_nat (2 * length (xs @ concat blocks))
                   in wav_image rate bits ch (36 + n) n (encode_samples (xs @ concat blocks)))"
proof (induction blocks arbitrary: w xs)
  case Nil
  then show ?case by (simp add: writer_at_def Let_def)
next
  case (Cons data blocks)
  obtain w1 where w1: "write_audio data w = Inr w1" "writer_at rate bits ch (xs @ data) w1"
    "w_bytes w1 = wav_image rate bits ch (36 + w_data_size w1) (w_data_size w1) (encode_samples (xs @ data))"
    using write_audio_step [OF Cons.prems(1), of data] Cons.prems(2) by auto
  then show ?case using Cons.IH [OF w1(2)] Cons.prems(2) by auto
qed

lemma wav_session_bytes:
  assumes "is_int32 (uint ch * uint bits)" "\<forall>data \<in> set blocks. \<forall>x \<in> set data. in_range x" "blocks \<noteq> []"
  shows "wav_session filename rate bits ch blocks =
    Inr (let n = word_of_nat (2 * length (concat blocks))
         in wav_image rate bits ch (36 + n) n (encode_samples (concat blocks)))"
proof -
  obtain w where w: "wav_open True filename rate bits ch new_wav_writer = Inr (True, w)" "writer_at rate bits ch [] w"
    using wav_open_new [OF assms(1)] by blast
  obtain w' where "each_outcome write_audio blocks w = Inr w'"
    "w_bytes w' = (let n = word_of_nat (2 * length (concat blocks))
                   in wav_image rate bits ch (36 + n) n (encode_samples (concat blocks)))"
    using write_blocks [OF w(2) assms(2)] assms(3) by auto
  then show ?thesis using w(1) by (simp add: wav_session_def wav_close_def)
qed

subsection \<open>Reading it back\<close>

lemma read_buf_append:
  "length xs = 4 \<Longrightarrow> length buf = 4 \<Longrightarrow>
   read_buf buf \<lparr>rest = xs @ r, good = True\<rparr> = (map Some xs, \<lparr>rest = r, good = True\<rparr>)"
  by (simp add: read_buf_def stream_read_def)

lemma read_scalar_append:
  "read_scalar \<lparr>rest = enc_word (a :: 16 word) @ r, good = True\<rparr> = (Some a, \<lparr>rest = r, good = True\<rparr>)"
  "read_scalar \<lparr>rest = enc_word (b :: 32 word) @ r, good = True\<rparr> = (Some b, \<lparr>rest = r, good = True\<rparr>)"
  by (simp_all add: read_scalar_def stream_read_def)

lemma stream_ignore_append:
  "length xs = n \<Longrightarrow> stream_ignore n \<lparr>rest = xs @ r, good = True\<rparr> = \<lparr>rest = r, good = True\<rparr>"
  by (simp add: stream_ignore_def)

lemma strncmp_eq_same: "0 \<notin> set bs \<Longrightarrow> strncmp_eq (map Some bs) bs = Inr True"
  by (induction bs) simp_all

lemma length_tags [simp]:
  "length (bytes_of ''RIFF'') = 4" "length (bytes_of ''WAVE'') = 4" "length (bytes_of ''fmt '') = 4"
  "length (bytes_of ''data'') = 4"
  by (simp_all add: bytes_of_def)

lemma tags_same [simp]:
  "strncmp_eq (map Some (bytes_of ''RIFF'')) (bytes_of ''RIFF'') = Inr True"
  "strncmp_eq (map Some (bytes_of ''WAVE'')) (bytes_of ''WAVE'') = Inr True"
  "strncmp_eq (map Some (bytes_of ''fmt '')) (bytes_of ''fmt '') = Inr True"
  "strncmp_eq (map Some (bytes_of ''data'')) (bytes_of ''data'') = Inr True"
  by (rule strncmp_eq_same, simp add: bytes_of_def)+

lemma read_samples_encoded:
  "\<forall>x \<in> set xs. in_range x \<Longrightarrow>
   read_samples (length xs) \<lparr>rest = encode_samples xs, good = True\<rparr> =
   Inr (map (\<lambda>x. f32_of_int (sample_value x) / f32_of_int 32768) xs)"
proof (induction xs)
  case Nil
  then show ?case by simp
next
  case (Cons x xs)
  have "- 32768 \<le> sample_value x" "sample_value x \<le> 32767" using sample_bytes_in_range(2) [of x] Cons.prems by auto
  then have "sint (word_of_int (sample_value x) :: 16 word) = sample_value x"
    by (intro sint_of_int_small) simp_all
  then show ?case using Cons by (simp add: encode_samples_def read_scalar_append known_def)
qed

lemma stream_ignore_fmt_rates:
  "stream_ignore 6 \<lparr>rest = enc_word (a :: 32 word) @ enc_word (b :: 16 word) @ r, good = True\<rparr> = \<lparr>rest = r, good = True\<rparr>"
  by (simp add: stream_ignore_def)

text \<open>
  C14. What \<open>wav_writer\<close> writes, \<open>read_wav\<close> reads back: 16-bit audio written in any number of calls
  comes back with its rate, its channels and the quantised samples, when it fills whole frames
  and the sizes fit their 32-bit fields.
\<close>

theorem wav_roundtrip:
  assumes "blocks \<noteq> []" "\<forall>data \<in> set blocks. \<forall>x \<in> set data. in_range x"
    and "ch \<noteq> 0" "unat ch dvd length (concat blocks)" "2 * length (concat blocks) < 2 ^ 32"
  shows "\<exists>bs. wav_session filename rate 16 ch blocks = Inr bs \<and>
    read_wav (Some bs) = Inr (Some \<lparr>
      wav_data = map (\<lambda>x. f32_of_int (sample_value x) / f32_of_int 32768) (concat blocks),
      sample_rate = sint rate, channels = uint ch, bits_per_sample = 16\<rparr>)"
proof -
  let ?xs = "concat blocks"
  define n :: "32 word" where "n = word_of_nat (2 * length ?xs)"
  let ?fmt = "\<lparr>fmt_channels = Some ch, fmt_rate = Some rate, fmt_bits = Some 16\<rparr>"
  have ch: "0 < uint ch" "uint ch < 2 ^ 16" using uint_pos [OF assms(3)] unsigned_less [of ch, where ?'a = int]
    by simp_all
  have int32: "is_int32 (uint ch * uint (16 :: 16 word))" using ch by (simp add: is_int32_def)
  have "unat n = 2 * length ?xs" unfolding n_def by (rule unat_of_nat_small) (use assms(5) in simp)
  then have "uint n = 2 * int (length ?xs)" by (simp only: uint_nat of_nat_mult of_nat_numeral)
  moreover have "uint ch dvd int (length ?xs)" using assms(4) by (simp only: uint_nat int_dvd_int_iff)
  moreover from this obtain k where k: "int (length ?xs) = uint ch * k" by (elim dvdE)
  moreover have "0 \<le> k" using k ch(1) by (metis mult_less_0_iff not_less of_nat_0_le_iff)
  moreover from this have "1 * k \<le> uint ch * k" using ch(1) by (intro mult_right_mono) simp_all
  ultimately have count: "uint n div (uint ch * 16 div 8) = k" "k \<le> int (length ?xs)"
    using ch by simp_all
  have "sint (word_of_int k :: 32 word) = k"
    using \<open>0 \<le> k\<close> count(2) assms(5) by (intro sint_of_int_small) simp_all
  moreover have "nat (k * uint ch) = length ?xs" using k by (metis mult.commute nat_int)
  ultimately have data: "read_data_chunk n ?fmt \<lparr>rest = encode_samples ?xs, good = True\<rparr> =
      Inr (Some \<lparr>wav_data = map (\<lambda>x. f32_of_int (sample_value x) / f32_of_int 32768) ?xs,
        sample_rate = sint rate, channels = uint ch, bits_per_sample = 16\<rparr>)"
    using count int32 k ch assms(2,5) read_samples_encoded [of ?xs]
    by (simp add: read_data_chunk_def known_def is_int32_def mult.commute Let_def)
  have chunks: "read_chunks buf ?fmt \<lparr>rest = bytes_of ''data'' @ enc_word n @ encode_samples ?xs, good = True\<rparr> =
      read_data_chunk n ?fmt \<lparr>rest = encode_samples ?xs, good = True\<rparr>" if "length buf = 4" for buf
    using that by (simp add: read_chunks.simps read_buf_append read_scalar_append known_def)
  have "read_wav (Some (wav_image rate 16 ch (36 + n) n (encode_samples ?xs))) =
      read_data_chunk n ?fmt \<lparr>rest = encode_samples ?xs, good = True\<rparr>"
    using chunks
    by (simp add: read_wav_def wav_image_def fmt_part_def read_buf_append read_scalar_append stream_ignore_append
        stream_ignore_fmt_rates known_def)
  then show ?thesis
    using wav_session_bytes [OF int32 assms(2,1), of filename rate] data by (simp add: Let_def n_def)
qed

end
