(* ===== verification/Runs.thy ===== *)
theory Runs
  imports Prelude
begin

text \<open>
  The scan that turns a row of per-frame decisions into segments, which the program does twice:
  for the active segments of a chunk and for the final segments of a speaker.  \<open>scan\<close> is the
  loop with the start of the open segment as its state (-1 in the code when none is open);
  \<open>runs_of\<close> states what it computes: the maximal runs, in order.
\<close>

type_synonym span = "nat \<times> nat"

definition scan_step :: "nat \<times> bool \<Rightarrow> nat option \<times> span list \<Rightarrow> nat option \<times> span list" where
  "scan_step tb st =
     (let (t, on) = tb; (start, segs) = st
      in if on then (if start = None then Some t else start, segs)
         else (case start of None \<Rightarrow> (None, segs) | Some s \<Rightarrow> (None, segs @ [(s, t)])))"

definition scan :: "bool list \<Rightarrow> span list" where
  "scan bs =
     (let (start, segs) = fold scan_step (enumerate 0 bs) (None, [])
      in case start of None \<Rightarrow> segs | Some s \<Rightarrow> segs @ [(s, length bs)])"

text \<open>The specification: maximal runs of \<open>True\<close>, in order, separated by gaps.\<close>

definition is_run :: "bool list \<Rightarrow> span \<Rightarrow> bool" where
  "is_run bs r \<longleftrightarrow>
     fst r < snd r \<and> snd r \<le> length bs \<and> (\<forall>t. fst r \<le> t \<and> t < snd r \<longrightarrow> bs ! t) \<and>
     (0 < fst r \<longrightarrow> \<not> bs ! (fst r - 1)) \<and> (snd r < length bs \<longrightarrow> \<not> bs ! snd r)"

definition runs_of :: "bool list \<Rightarrow> span list \<Rightarrow> bool" where
  "runs_of bs rs \<longleftrightarrow>
     (\<forall>r \<in> set rs. is_run bs r) \<and> sorted_wrt (\<lambda>r q. snd r < fst q) rs \<and>
     (\<forall>t < length bs. bs ! t \<longrightarrow> (\<exists>r \<in> set rs. fst r \<le> t \<and> t < snd r))"

text \<open>The state of the scan after a prefix.\<close>

definition scan_inv :: "bool list \<Rightarrow> nat option \<times> span list \<Rightarrow> bool" where
  "scan_inv bs st \<longleftrightarrow>
     (case st of
        (None, segs) \<Rightarrow> runs_of bs segs \<and> (bs \<noteq> [] \<longrightarrow> \<not> last bs)
      | (Some s, segs) \<Rightarrow> runs_of bs (segs @ [(s, length bs)]))"

lemma run_extend_closed: "is_run bs r \<Longrightarrow> snd r < length bs \<Longrightarrow> is_run (bs @ [b]) r"
  by (auto simp: is_run_def nth_append)

lemma run_extend_off: "is_run bs r \<Longrightarrow> is_run (bs @ [False]) r"
  by (auto simp: is_run_def nth_append)

lemma run_ends_before: "is_run bs r \<Longrightarrow> bs \<noteq> [] \<Longrightarrow> \<not> last bs \<Longrightarrow> snd r < length bs"
  by (cases "snd r = length bs") (auto simp: is_run_def last_conv_nth dest: spec [of _ "length bs - 1"])

lemma runs_extend_off: "runs_of bs rs \<Longrightarrow> runs_of (bs @ [False]) rs"
  by (auto simp: runs_of_def nth_append less_Suc_eq intro: run_extend_off)

lemma runs_open:
  assumes "runs_of bs rs" "bs \<noteq> [] \<Longrightarrow> \<not> last bs"
  shows "runs_of (bs @ [True]) (rs @ [(length bs, length (bs @ [True]))])"
proof -
  have ends: "snd r < length bs" if "r \<in> set rs" for r
  proof -
    have "is_run bs r" using assms(1) that by (simp add: runs_of_def)
    moreover from this have "bs \<noteq> []" by (auto simp: is_run_def)
    ultimately show ?thesis using run_ends_before assms(2) by blast
  qed
  have new: "is_run (bs @ [True]) (length bs, length (bs @ [True]))"
    using assms(2) by (cases "bs = []") (auto simp: is_run_def nth_append last_conv_nth)
  have "\<forall>r \<in> set rs. is_run (bs @ [True]) r"
    using assms(1) ends run_extend_closed by (auto simp: runs_of_def)
  moreover have "sorted_wrt (\<lambda>r q. snd r < fst q) (rs @ [(length bs, length (bs @ [True]))])"
    using assms(1) ends by (auto simp: runs_of_def sorted_wrt_append)
  ultimately show ?thesis
    using assms(1) new by (auto simp: runs_of_def nth_append less_Suc_eq split: if_splits)
qed

lemma runs_continue:
  assumes "runs_of bs (rs @ [(s, length bs)])"
  shows "runs_of (bs @ [True]) (rs @ [(s, length (bs @ [True]))])"
proof -
  have old: "is_run bs (s, length bs)" "\<forall>r \<in> set rs. is_run bs r \<and> snd r < s"
    using assms by (auto simp: runs_of_def sorted_wrt_append)
  have "is_run (bs @ [True]) (s, length (bs @ [True]))"
    using old(1) by (auto simp: is_run_def nth_append less_Suc_eq)
  moreover have "\<forall>r \<in> set rs. is_run (bs @ [True]) r"
  proof
    fix r assume "r \<in> set rs"
    then have "is_run bs r" "snd r < length bs" using old by (force simp: is_run_def)+
    then show "is_run (bs @ [True]) r" by (rule run_extend_closed)
  qed
  moreover have "sorted_wrt (\<lambda>r q. snd r < fst q) (rs @ [(s, length (bs @ [True]))])"
    using assms by (auto simp: runs_of_def sorted_wrt_append)
  moreover have "\<exists>r \<in> set (rs @ [(s, length (bs @ [True]))]). fst r \<le> t \<and> t < snd r"
    if "t < length (bs @ [True])" "(bs @ [True]) ! t" for t
  proof (cases "t < length bs")
    case True
    have "bs ! t" using that(2) True by (simp add: nth_append)
    then obtain r where "r \<in> set (rs @ [(s, length bs)])" "fst r \<le> t" "t < snd r"
      using assms True unfolding runs_of_def by blast
    then show ?thesis by (auto intro: bexI [of _ r])
  next
    case False
    then show ?thesis using that(1) old(1) by (auto simp: is_run_def)
  qed
  ultimately show ?thesis by (auto simp: runs_of_def)
qed

lemma scan_inv_step: "scan_inv bs st \<Longrightarrow> scan_inv (bs @ [b]) (scan_step (length bs, b) st)"
  by (cases st; cases "fst st"; cases b)
    (auto simp: scan_inv_def scan_step_def Let_def runs_extend_off
      intro: runs_open [simplified] runs_continue [simplified])

lemma scan_inv_fold: "scan_inv bs (fold scan_step (enumerate 0 bs) (None, []))"
proof (induction bs rule: rev_induct)
  case Nil
  then show ?case by (simp add: scan_inv_def runs_of_def)
next
  case (snoc b bs)
  then show ?case using scan_inv_step [OF snoc] by (simp add: enumerate_append_eq)
qed

lemma scan_runs: "runs_of bs (scan bs)"
  using scan_inv_fold [of bs]
  by (cases "fold scan_step (enumerate 0 bs) (None, [])") (auto simp: scan_inv_def scan_def split: option.splits)

lemma scan_bounds: "r \<in> set (scan bs) \<Longrightarrow> fst r < snd r \<and> snd r \<le> length bs"
  using scan_runs [of bs] by (auto simp: runs_of_def is_run_def)

lemma scan_covers: "t < length bs \<Longrightarrow> bs ! t \<longleftrightarrow> (\<exists>r \<in> set (scan bs). fst r \<le> t \<and> t < snd r)"
  using scan_runs [of bs] by (auto simp: runs_of_def is_run_def)

text \<open>A loop that records a function of the frame instead of the frame does the same scan.\<close>

definition scan_step_by :: "(nat \<Rightarrow> 'a) \<Rightarrow> nat \<times> bool \<Rightarrow> ('a option) \<times> ('a \<times> 'a) list \<Rightarrow> ('a option) \<times> ('a \<times> 'a) list" where
  "scan_step_by time tb st =
     (let (t, on) = tb; (start, segs) = st
      in if on then (if start = None then Some (time t) else start, segs)
         else (case start of None \<Rightarrow> (None, segs) | Some s \<Rightarrow> (None, segs @ [(s, time t)])))"

lemma scan_by_fold:
  "fold (scan_step_by time) xs (map_option time a, map (map_prod time time) segs) =
   map_prod (map_option time) (map (map_prod time time)) (fold scan_step xs (a, segs))"
proof (induction xs arbitrary: a segs)
  case Nil
  then show ?case by simp
next
  case (Cons x xs)
  obtain t on where x: "x = (t, on)" by (cases x)
  obtain a' segs' where st: "scan_step x (a, segs) = (a', segs')" by fastforce
  then have "scan_step_by time x (map_option time a, map (map_prod time time) segs) =
      (map_option time a', map (map_prod time time) segs')"
    by (cases a; cases on) (auto simp: x scan_step_def scan_step_by_def)
  then show ?case using Cons.IH [of a' segs'] st by simp
qed

end
