(* ===== verification/Sorting.thy ===== *)
theory Sorting
  imports Ieee "HOL-Library.Multiset"
begin

text \<open>
  The contract of \<open>std::sort\<close>: it permutes its range, and when the comparison is a strict weak
  order on the elements the result is ordered.  With a comparison that is not, the behaviour is
  undefined, which is why the callers show that theirs is one.  The models take the sorting
  function as an argument; insertion sort satisfies the contract.
\<close>

definition weak_order_on :: "'a set \<Rightarrow> ('a \<Rightarrow> 'a \<Rightarrow> bool) \<Rightarrow> bool" where
  "weak_order_on A before \<longleftrightarrow>
     (\<forall>x \<in> A. \<not> before x x) \<and>
     (\<forall>x \<in> A. \<forall>y \<in> A. \<forall>z \<in> A. before x y \<longrightarrow> before y z \<longrightarrow> before x z) \<and>
     (\<forall>x \<in> A. \<forall>y \<in> A. \<forall>z \<in> A. before x y \<longrightarrow> before x z \<or> before z y)"

lemma weak_order_on_subset: "weak_order_on A before \<Longrightarrow> B \<subseteq> A \<Longrightarrow> weak_order_on B before"
  unfolding weak_order_on_def subset_iff by blast

definition sorts :: "('a \<Rightarrow> 'a \<Rightarrow> bool) \<Rightarrow> ('a list \<Rightarrow> 'a list) \<Rightarrow> bool" where
  "sorts before srt \<longleftrightarrow>
     (\<forall>xs. mset (srt xs) = mset xs \<and>
           (weak_order_on (set xs) before \<longrightarrow> sorted_wrt (\<lambda>a b. \<not> before b a) (srt xs)))"

locale sorting =
  fixes before :: "'a \<Rightarrow> 'a \<Rightarrow> bool" and srt :: "'a list \<Rightarrow> 'a list"
  assumes permutes: "mset (srt xs) = mset xs"
    and ordered: "weak_order_on (set xs) before \<Longrightarrow> sorted_wrt (\<lambda>a b. \<not> before b a) (srt xs)"
begin

lemma set_sort: "set (srt xs) = set xs"
  using permutes [of xs] by (metis set_mset_mset)

lemma length_sort: "length (srt xs) = length xs"
  using permutes [of xs] by (metis size_mset)

lemma distinct_sort: "distinct (srt xs) \<longleftrightarrow> distinct xs"
  using permutes [of xs] by (metis mset_eq_imp_distinct_iff)

lemma sorts: "sorts before srt"
  by (simp add: sorts_def permutes ordered)

end

lemma sorting_sorts: "sorts before srt \<longleftrightarrow> sorting before srt"
  by (auto simp: sorts_def sorting_def)

subsection \<open>Insertion sort\<close>

fun insert_by :: "('a \<Rightarrow> 'a \<Rightarrow> bool) \<Rightarrow> 'a \<Rightarrow> 'a list \<Rightarrow> 'a list" where
  "insert_by before x [] = [x]"
| "insert_by before x (y # ys) = (if before y x then y # insert_by before x ys else x # y # ys)"

definition insertion_sort :: "('a \<Rightarrow> 'a \<Rightarrow> bool) \<Rightarrow> 'a list \<Rightarrow> 'a list" where
  "insertion_sort before xs = foldr (insert_by before) xs []"

lemma mset_insert_by [simp]: "mset (insert_by before x ys) = add_mset x (mset ys)"
  by (induction ys) auto

lemma set_insert_by [simp]: "set (insert_by before x ys) = insert x (set ys)"
  by (metis mset_insert_by set_mset_add_mset_insert set_mset_mset)

lemma mset_insertion_sort [simp]: "mset (insertion_sort before xs) = mset xs"
  by (induction xs) (simp_all add: insertion_sort_def)

lemma sorted_insert_by:
  assumes "weak_order_on (insert x (set ys)) before" "sorted_wrt (\<lambda>a b. \<not> before b a) ys"
  shows "sorted_wrt (\<lambda>a b. \<not> before b a) (insert_by before x ys)"
  using assms
proof (induction ys)
  case Nil
  then show ?case by simp
next
  case (Cons y ys)
  have sub: "weak_order_on (insert x (set ys)) before"
    using Cons.prems(1) by (rule weak_order_on_subset) auto
  show ?case
  proof (cases "before y x")
    case True
    then have "\<not> before x y" using Cons.prems(1) unfolding weak_order_on_def by (meson insertCI list.set_intros(1))
    then show ?thesis using True Cons.IH [OF sub] Cons.prems(2) by auto
  next
    case False
    have "\<not> before z x" if "z \<in> set ys" for z
    proof
      assume "before z x"
      then have "before z y \<or> before y x"
        using Cons.prems(1) that unfolding weak_order_on_def
        by (metis insertCI list.set_intros(1,2))
      then show False using False Cons.prems(2) that by auto
    qed
    then show ?thesis using False Cons.prems(2) by auto
  qed
qed

lemma sorted_insertion_sort:
  "weak_order_on (set xs) before \<Longrightarrow> sorted_wrt (\<lambda>a b. \<not> before b a) (insertion_sort before xs)"
proof (induction xs)
  case Nil
  then show ?case by (simp add: insertion_sort_def)
next
  case (Cons x xs)
  have "weak_order_on (set xs) before" using Cons.prems by (rule weak_order_on_subset) auto
  then have IH: "sorted_wrt (\<lambda>a b. \<not> before b a) (insertion_sort before xs)" by (rule Cons.IH)
  have "set (insertion_sort before xs) = set xs" by (metis mset_insertion_sort set_mset_mset)
  then show ?case
    using sorted_insert_by [of x "insertion_sort before xs"] Cons.prems IH
    by (simp add: insertion_sort_def)
qed

interpretation isort: sorting before "insertion_sort before" for before :: "'a \<Rightarrow> 'a \<Rightarrow> bool"
  by unfold_locales (simp_all add: sorted_insertion_sort)

lemma weak_order_on_key64:
  "(\<And>x. x \<in> A \<Longrightarrow> is_num64 (key x)) \<Longrightarrow> weak_order_on A (\<lambda>a b. key a < key b)"
  unfolding weak_order_on_def by (meson f64_less_between f64_less_irrefl f64_less_trans)

lemma weak_order_on_key32:
  "(\<And>x. x \<in> A \<Longrightarrow> is_num32 (key x)) \<Longrightarrow> weak_order_on A (\<lambda>a b. key a < key b)"
  unfolding weak_order_on_def by (meson f32_less_between f32_less_irrefl f32_less_trans)

end
