(* ===== verification/Timeline.thy ===== *)
theory Timeline
  imports Runs Sorting Ieee_Bounds
begin

text \<open>
  The reconstruction of the global timeline at the end of \<open>main\<close> in \<open>examples/main.cpp\<close>: the
  votes of the overlapping chunks on each global speaker and grid frame, the final segments, and
  their sorting and merging.
\<close>

record chunk_prediction =
  pred_chunk_idx :: int
  pred_start_time :: f64
  pred_end_time :: f64
  multilabel_probs :: "f32 list"
  num_frames :: nat

record chunk_embedding =
  emb_chunk_idx :: int
  local_speaker :: int
  emb_vector :: "f32 list"

definition model_frame_duration :: f64 where
  "model_frame_duration = f64_of_rat 270 / f64_of_rat 16000"

text \<open>The seven classes of the powerset to three speakers.\<close>

definition clamp_one :: "f32 \<Rightarrow> f32" where
  "clamp_one p = (if p > 1 then 1 else p)"

definition powerset_to_multilabel :: "f32 list \<Rightarrow> int \<Rightarrow> f32 list" where
  "powerset_to_multilabel probs num_classes =
     (if num_classes \<noteq> 7 then (if num_classes = 3 then probs else replicate 3 0)
      else map clamp_one
             [probs ! 1 + probs ! 4 + probs ! 5,
              probs ! 2 + probs ! 4 + probs ! 6,
              probs ! 3 + probs ! 5 + probs ! 6])"

definition active_segments :: "chunk_prediction \<Rightarrow> nat \<Rightarrow> span list" where
  "active_segments pred s =
     scan (map (\<lambda>t. multilabel_probs pred ! (t * 3 + s) > f32_of_rat (1 / 2)) [0..<num_frames pred])"

subsection \<open>Votes\<close>

text \<open>A later embedding of the same chunk and local speaker replaces an earlier one.\<close>

definition assignment_map :: "chunk_embedding list \<Rightarrow> int list \<Rightarrow> (int \<times> int \<Rightarrow> int option) outcome" where
  "assignment_map embeddings global_labels =
     each_outcome (\<lambda>i m. bnd (elem embeddings i) (\<lambda>e. bnd (elem global_labels i) (\<lambda>l.
         Inr (m((emb_chunk_idx e, local_speaker e) \<mapsto> l)))))
       [0..<length embeddings] Map.empty"

definition count_speakers :: "bool \<Rightarrow> chunk_embedding list \<Rightarrow> int list \<Rightarrow> int" where
  "count_speakers use_embedding embeddings global_labels =
     (let n = foldl (\<lambda>n l. if l \<ge> n then l + 1 else n) 0 global_labels;
          n = (if n = 0 \<and> embeddings \<noteq> [] then 1 else n)
      in if \<not> use_embedding then 3 else n)"

definition global_id :: "bool \<Rightarrow> (int \<times> int \<Rightarrow> int option) \<Rightarrow> int \<Rightarrow> nat \<Rightarrow> int" where
  "global_id use_embedding assigned chunk s =
     (if use_embedding then (case assigned (chunk, int s) of None \<Rightarrow> -1 | Some l \<Rightarrow> l) else int s)"

type_synonym grid = "f32 list list \<times> f32 list list"

text \<open>\<open>global_acc[id][g_t] += prob; global_count[id][g_t] += 1\<close>\<close>

definition cast_vote :: "int \<Rightarrow> int \<Rightarrow> f32 \<Rightarrow> grid \<Rightarrow> grid outcome" where
  "cast_vote gid g prob gr =
     (let (acc, cnt) = gr; i = nat gid; t = nat g in
      bnd (ensure (0 \<le> gid \<and> i < length acc \<and> 0 \<le> g \<and> t < length (acc ! i)) Undefined) (\<lambda>_.
      Inr (acc[i := (acc ! i)[t := acc ! i ! t + prob]], cnt[i := (cnt ! i)[t := cnt ! i ! t + 1]])))"

definition vote_speaker :: "int \<Rightarrow> (nat \<Rightarrow> int) \<Rightarrow> chunk_prediction \<Rightarrow> int \<Rightarrow> nat \<Rightarrow> nat \<Rightarrow> grid \<Rightarrow> grid outcome" where
  "vote_speaker speakers ids pred g t s gr =
     bnd (elem (multilabel_probs pred) (t * 3 + s)) (\<lambda>prob.
     if ids s \<noteq> -1 \<and> ids s < speakers then cast_vote (ids s) g prob gr else Inr gr)"

fun vote_frames :: "int \<Rightarrow> int \<Rightarrow> (nat \<Rightarrow> int) \<Rightarrow> chunk_prediction \<Rightarrow> int \<Rightarrow> nat list \<Rightarrow> grid \<Rightarrow> grid outcome" where
  "vote_frames speakers grid_frames ids pred start [] gr = Inr gr"
| "vote_frames speakers grid_frames ids pred start (t # ts) gr =
     (let g = start + int t
      in if g \<ge> grid_frames then Inr gr
         else bnd (each_outcome (vote_speaker speakers ids pred g t) [0..<3] gr)
                (vote_frames speakers grid_frames ids pred start ts))"

definition start_frame :: "chunk_prediction \<Rightarrow> int outcome" where
  "start_frame pred = int_of_f64 (round_f64 (pred_start_time pred / model_frame_duration))"

definition vote_chunk :: "bool \<Rightarrow> (int \<times> int \<Rightarrow> int option) \<Rightarrow> int \<Rightarrow> int \<Rightarrow> chunk_prediction \<Rightarrow> grid \<Rightarrow> grid outcome" where
  "vote_chunk use_embedding assigned speakers grid_frames pred gr =
     bnd (start_frame pred) (\<lambda>start.
     vote_frames speakers grid_frames (global_id use_embedding assigned (pred_chunk_idx pred)) pred start
       [0..<num_frames pred] gr)"

definition empty_grid :: "int \<Rightarrow> int \<Rightarrow> grid" where
  "empty_grid speakers grid_frames =
     (let rows = replicate (nat speakers) (replicate (nat grid_frames) 0) in (rows, rows))"

definition vote :: "bool \<Rightarrow> (int \<times> int \<Rightarrow> int option) \<Rightarrow> int \<Rightarrow> int \<Rightarrow> chunk_prediction list \<Rightarrow> grid outcome" where
  "vote use_embedding assigned speakers grid_frames predictions =
     each_outcome (vote_chunk use_embedding assigned speakers grid_frames) predictions
       (empty_grid speakers grid_frames)"

subsection \<open>Final segments\<close>

definition frame_active :: "f32 \<Rightarrow> f32 \<Rightarrow> bool" where
  "frame_active acc cnt = ((if cnt > 0 then acc / cnt else 0) > f32_of_rat (1 / 2))"

definition frame_time :: "nat \<Rightarrow> f64" where
  "frame_time t = f64_of_int (int t) * model_frame_duration"

text \<open>\<open>active\<close> and \<open>start\<close> of the loop are one optional start time.\<close>

definition final_segments :: "f32 list \<Rightarrow> f32 list \<Rightarrow> (f64 \<times> f64) list" where
  "final_segments acc cnt =
     (let (start, segs) = fold (scan_step_by frame_time) (enumerate 0 (map2 frame_active acc cnt)) (None, [])
      in case start of None \<Rightarrow> segs | Some s \<Rightarrow> segs @ [(s, frame_time (length acc))])"

record final_seg =
  seg_start :: f64
  seg_end :: f64
  seg_speaker :: nat

definition collect_segments :: "grid \<Rightarrow> final_seg list" where
  "collect_segments gr =
     concat (map (\<lambda>s. map (\<lambda>seg. \<lparr>seg_start = fst seg, seg_end = snd seg, seg_speaker = s\<rparr>)
                       (filter (\<lambda>seg. snd seg - fst seg > 0) (final_segments (fst gr ! s) (snd gr ! s))))
              [0..<length (fst gr)])"

definition starts_before :: "final_seg \<Rightarrow> final_seg \<Rightarrow> bool" where
  "starts_before a b \<longleftrightarrow> seg_start a < seg_start b"

definition std_max :: "f64 \<Rightarrow> f64 \<Rightarrow> f64" where
  "std_max a b = (if a < b then b else a)"

definition merges :: "final_seg \<Rightarrow> final_seg \<Rightarrow> bool" where
  "merges prev cur \<longleftrightarrow>
     seg_speaker prev = seg_speaker cur \<and> seg_start cur - seg_end prev < f64_of_rat (1 / 10)"

fun merge_from :: "final_seg \<Rightarrow> final_seg list \<Rightarrow> final_seg list" where
  "merge_from prev [] = [prev]"
| "merge_from prev (cur # segs) =
     (if merges prev cur then merge_from (prev\<lparr>seg_end := std_max (seg_end prev) (seg_end cur)\<rparr>) segs
      else prev # merge_from cur segs)"

fun merge_segments :: "final_seg list \<Rightarrow> final_seg list" where
  "merge_segments [] = []"
| "merge_segments (seg # segs) = merge_from seg segs"

text \<open>The whole reconstruction; \<open>srt\<close> is the sorting function.\<close>

definition grid_size :: "nat \<Rightarrow> int outcome" where
  "grid_size total_samples =
     int_of_f64 (ceil_f64 (f64_of_int (int total_samples) / f64_of_rat 16000 / model_frame_duration))"

definition reconstruct :: "(final_seg list \<Rightarrow> final_seg list) \<Rightarrow> bool \<Rightarrow> nat \<Rightarrow> chunk_prediction list \<Rightarrow>
    chunk_embedding list \<Rightarrow> int list \<Rightarrow> final_seg list outcome" where
  "reconstruct srt use_embedding total_samples predictions embeddings global_labels =
     (let speakers = count_speakers use_embedding embeddings global_labels in
      bnd (grid_size total_samples) (\<lambda>grid_frames.
      bnd (assignment_map embeddings global_labels) (\<lambda>assigned.
      bnd (vote use_embedding assigned speakers grid_frames predictions) (\<lambda>gr.
      Inr (merge_segments (srt (collect_segments gr)))))))"

subsection \<open>Merging sorted segments\<close>

definition seg_within :: "final_seg \<Rightarrow> final_seg \<Rightarrow> bool" where
  "seg_within a b \<longleftrightarrow>
     seg_speaker a = seg_speaker b \<and> \<not> seg_start a < seg_start b \<and> \<not> seg_end b < seg_end a"

lemma seg_within_refl [simp]: "seg_within a a"
  by (simp add: seg_within_def)

lemma std_max_bounds: "\<not> std_max a b < a" "\<not> std_max a b < b"
  using f64_less_trans [of a b a] by (auto simp: std_max_def)

lemma std_max_cases: "std_max a b = a \<or> std_max a b = b"
  by (simp add: std_max_def)

definition seg_numeric :: "final_seg \<Rightarrow> bool" where
  "seg_numeric a \<longleftrightarrow> is_num64 (seg_start a) \<and> is_num64 (seg_end a)"

lemma seg_within_trans: "seg_within a b \<Longrightarrow> seg_within b c \<Longrightarrow> seg_numeric b \<Longrightarrow> seg_within a c"
  unfolding seg_within_def seg_numeric_def by (metis f64_less_between)

lemma std_max_end: "\<not> a < x \<Longrightarrow> \<not> std_max a b < x"
  using f64_less_trans [of a b x] by (auto simp: std_max_def)

lemma merge_from_head: "hd (merge_from prev segs) = prev\<lparr>seg_end := seg_end (hd (merge_from prev segs))\<rparr> \<and> merge_from prev segs \<noteq> []"
  by (induction prev segs rule: merge_from.induct) auto

lemma merge_from_separated: "successively (\<lambda>a b. \<not> merges a b) (merge_from prev segs)"
proof (induction prev segs rule: merge_from.induct)
  case (1 prev)
  then show ?case by simp
next
  case (2 prev cur segs)
  show ?case
  proof (cases "merges prev cur")
    case False
    have "hd (merge_from cur segs) = cur\<lparr>seg_end := seg_end (hd (merge_from cur segs))\<rparr>" "merge_from cur segs \<noteq> []"
      using merge_from_head by blast+
    then have "merges prev (hd (merge_from cur segs)) = merges prev cur"
      unfolding merges_def by (metis final_seg.select_convs(1,3) final_seg.surjective final_seg.update_convs(2))
    then show ?thesis
      using 2(2) False \<open>merge_from cur segs \<noteq> []\<close> by (simp add: successively_Cons)
  qed (use 2(1) in simp)
qed

lemma merge_from_covers:
  assumes "sorted_wrt (\<lambda>a b. \<not> starts_before b a) (prev # segs)" "\<forall>a \<in> set (prev # segs). seg_numeric a"
    "a \<in> set (prev # segs)"
  shows "\<exists>b \<in> set (merge_from prev segs). seg_within a b"
  using assms
proof (induction prev segs arbitrary: a rule: merge_from.induct)
  case (1 prev)
  then show ?case by auto
next
  case (2 prev cur segs)
  show ?case
  proof (cases "merges prev cur")
    case True
    let ?p = "prev\<lparr>seg_end := std_max (seg_end prev) (seg_end cur)\<rparr>"
    have sorted: "sorted_wrt (\<lambda>a b. \<not> starts_before b a) (?p # segs)"
      using 2(3) by (auto simp: starts_before_def)
    have num: "\<forall>a \<in> set (?p # segs). seg_numeric a"
      using 2(4) std_max_cases [of "seg_end prev" "seg_end cur"] by (auto simp: seg_numeric_def)
    have into: "seg_within prev ?p" "seg_within cur ?p"
      using 2(3) True by (auto simp: seg_within_def merges_def starts_before_def std_max_bounds)
    obtain b where b: "b \<in> set (merge_from ?p segs)" "seg_within ?p b"
      using 2(1) [OF True sorted num, of ?p] by auto
    consider "a \<in> {prev, cur}" | "a \<in> set segs" using 2(5) by auto
    then show ?thesis
    proof cases
      case 1
      then have "seg_within a ?p" using into by auto
      then have "seg_within a b" using b(2) num by (auto intro: seg_within_trans)
      then show ?thesis using b(1) True by auto
    next
      case 2
      then show ?thesis using "2.IH"(1) [OF True sorted num, of a] True by auto
    qed
  next
    case False
    then show ?thesis using 2(2) [OF False, of a] 2(3,4,5) by auto
  qed
qed

lemma merge_from_sources:
  "b \<in> set (merge_from prev segs) \<Longrightarrow>
   (\<exists>a \<in> set (prev # segs). seg_speaker a = seg_speaker b \<and> seg_start a = seg_start b) \<and>
   (\<exists>a \<in> set (prev # segs). seg_speaker a = seg_speaker b \<and> seg_end a = seg_end b)"
proof (induction prev segs rule: merge_from.induct)
  case (1 prev)
  then show ?case by auto
next
  case (2 prev cur segs)
  show ?case
  proof (cases "merges prev cur")
    case True
    then show ?thesis
      using 2(1) [OF True] 2(3) std_max_cases [of "seg_end prev" "seg_end cur"]
      by (auto simp: merges_def)
  next
    case False
    then show ?thesis using 2(2) [OF False] 2(3) by auto
  qed
qed

text \<open>What the report promises about a list of segments.\<close>

definition merged_ok :: "final_seg list \<Rightarrow> final_seg list \<Rightarrow> bool" where
  "merged_ok segs out \<longleftrightarrow>
     (\<forall>a \<in> set segs. \<exists>b \<in> set out. seg_within a b) \<and>
     (\<forall>b \<in> set out. (\<exists>a \<in> set segs. seg_speaker a = seg_speaker b \<and> seg_start a = seg_start b) \<and>
                     (\<exists>a \<in> set segs. seg_speaker a = seg_speaker b \<and> seg_end a = seg_end b)) \<and>
     successively (\<lambda>a b. \<not> merges a b) out"

lemma merge_segments_ok:
  assumes "sorting starts_before srt" "\<forall>a \<in> set segs. seg_numeric a"
  shows "merged_ok segs (merge_segments (srt segs))"
proof -
  have sorted: "sorted_wrt (\<lambda>a b. \<not> starts_before b a) (srt segs)"
    using sorting.ordered [OF assms(1), of segs] weak_order_on_key64 [of "set segs" seg_start] assms(2)
    by (simp add: starts_before_def [abs_def] seg_numeric_def)
  have set: "set (srt segs) = set segs" by (rule sorting.set_sort [OF assms(1)])
  show ?thesis
  proof (cases "srt segs")
    case Nil
    then show ?thesis using set by (simp add: merged_ok_def)
  next
    case (Cons prev rest)
    have num: "\<forall>a \<in> set (prev # rest). seg_numeric a" using assms(2) set Cons by simp
    have "merged_ok (prev # rest) (merge_from prev rest)"
      unfolding merged_ok_def
      using merge_from_covers [OF sorted [unfolded Cons] num] merge_from_sources merge_from_separated
      by (intro conjI ballI) blast+
    moreover have eq: "set (prev # rest) = set segs" using set Cons by simp
    ultimately show ?thesis unfolding merged_ok_def Cons merge_segments.simps eq by blast
  qed
qed

subsection \<open>The grid counts the votes\<close>

definition add_votes :: "f32 list \<Rightarrow> f32 \<times> f32 \<Rightarrow> f32 \<times> f32" where
  "add_votes vs ac = (foldl (+) (fst ac) vs, foldl (\<lambda>c _. c + 1) (snd ac) vs)"

definition tally :: "grid \<Rightarrow> nat \<Rightarrow> nat \<Rightarrow> f32 \<times> f32" where
  "tally gr i t = (fst gr ! i ! t, snd gr ! i ! t)"

definition grid_shape :: "nat \<Rightarrow> nat \<Rightarrow> grid \<Rightarrow> bool" where
  "grid_shape n m gr \<longleftrightarrow>
     length (fst gr) = n \<and> length (snd gr) = n \<and>
     (\<forall>row \<in> set (fst gr). length row = m) \<and> (\<forall>row \<in> set (snd gr). length row = m)"

text \<open>\<open>gr'\<close> is \<open>gr\<close> with the votes \<open>f i t\<close> added to every cell.\<close>

definition voted :: "nat \<Rightarrow> nat \<Rightarrow> (nat \<Rightarrow> nat \<Rightarrow> f32 list) \<Rightarrow> grid \<Rightarrow> grid \<Rightarrow> bool" where
  "voted n m f gr gr' \<longleftrightarrow>
     grid_shape n m gr' \<and> (\<forall>i < n. \<forall>t < m. tally gr' i t = add_votes (f i t) (tally gr i t))"

text \<open>The votes of a chunk, in the order of the loops.\<close>

definition frame_votes :: "(nat \<Rightarrow> int) \<Rightarrow> chunk_prediction \<Rightarrow> nat \<Rightarrow> nat \<Rightarrow> f32 list" where
  "frame_votes ids pred t gid =
     map (\<lambda>s. multilabel_probs pred ! (t * 3 + s)) (filter (\<lambda>s. ids s = int gid) [0..<3])"

definition chunk_votes :: "(nat \<Rightarrow> int) \<Rightarrow> chunk_prediction \<Rightarrow> int \<Rightarrow> nat list \<Rightarrow> nat \<Rightarrow> nat \<Rightarrow> f32 list" where
  "chunk_votes ids pred start ts gid g =
     concat (map (\<lambda>t. if start + int t = int g then frame_votes ids pred t gid else []) ts)"

definition all_votes :: "bool \<Rightarrow> (int \<times> int \<Rightarrow> int option) \<Rightarrow> chunk_prediction list \<Rightarrow> nat \<Rightarrow> nat \<Rightarrow> f32 list" where
  "all_votes use_embedding assigned predictions gid g =
     concat (map (\<lambda>pred. case start_frame pred of
                    Inl e \<Rightarrow> []
                  | Inr start \<Rightarrow> chunk_votes (global_id use_embedding assigned (pred_chunk_idx pred)) pred start
                                  [0..<num_frames pred] gid g) predictions)"

lemma add_votes_append: "add_votes (us @ vs) ac = add_votes vs (add_votes us ac)"
  by (simp add: add_votes_def)

lemma add_votes_Nil [simp]: "add_votes [] ac = ac"
  by (simp add: add_votes_def)

lemma voted_none: "grid_shape n m gr \<Longrightarrow> voted n m (\<lambda>i t. []) gr gr"
  by (simp add: voted_def)

lemma voted_trans: "voted n m f gr gr' \<Longrightarrow> voted n m g gr' gr'' \<Longrightarrow> voted n m (\<lambda>i t. f i t @ g i t) gr gr''"
  by (simp add: voted_def add_votes_append)

lemma voted_loop:
  assumes "\<And>x gr. x \<in> set xs \<Longrightarrow> grid_shape n m gr \<Longrightarrow> \<exists>gr'. step x gr = Inr gr' \<and> voted n m (f x) gr gr'"
    and "grid_shape n m gr"
  shows "\<exists>gr'. each_outcome step xs gr = Inr gr' \<and> voted n m (\<lambda>i t. concat (map (\<lambda>x. f x i t) xs)) gr gr'"
  using assms
proof (induction xs arbitrary: gr)
  case Nil
  then show ?case by (simp add: voted_none)
next
  case (Cons x xs)
  obtain gr1 where gr1: "step x gr = Inr gr1" "voted n m (f x) gr gr1"
    using Cons.prems(1) [of x gr] Cons.prems(2) by auto
  then have "grid_shape n m gr1" by (simp add: voted_def)
  then obtain gr2 where "each_outcome step xs gr1 = Inr gr2"
    "voted n m (\<lambda>i t. concat (map (\<lambda>x. f x i t) xs)) gr1 gr2"
    using Cons.IH [of gr1] Cons.prems(1) by auto
  then show ?case using gr1 voted_trans [OF gr1(2)] by auto
qed

lemma nth_update_cell:
  "i < length xs \<Longrightarrow> t < length (xs ! a) \<Longrightarrow>
   xs[a := (xs ! a)[b := v]] ! i ! t = (if i = a \<and> t = b then v else xs ! i ! t)"
  by (cases "i = a") (auto simp: nth_list_update)

lemma cast_vote_voted:
  assumes "grid_shape n m gr" "0 \<le> gid" "nat gid < n" "0 \<le> g" "nat g < m"
  shows "\<exists>gr'. cast_vote gid g prob gr = Inr gr' \<and>
    voted n m (\<lambda>i t. if int i = gid \<and> int t = g then [prob] else []) gr gr'"
proof -
  obtain acc cnt where gr: "gr = (acc, cnt)" by (cases gr)
  have s: "length acc = n" "length cnt = n" "length (acc ! nat gid) = m" "length (cnt ! nat gid) = m"
    using assms(1,3) by (simp_all add: gr grid_shape_def)
  let ?gr = "(acc[nat gid := (acc ! nat gid)[nat g := acc ! nat gid ! nat g + prob]],
    cnt[nat gid := (cnt ! nat gid)[nat g := cnt ! nat gid ! nat g + 1]])"
  have "cast_vote gid g prob gr = Inr ?gr" using assms s by (simp add: cast_vote_def gr Let_def)
  moreover have "grid_shape n m ?gr"
    using assms(1) s by (auto simp: gr grid_shape_def dest!: subsetD [OF set_update_subset_insert])
  moreover have "tally ?gr i t = add_votes (if int i = gid \<and> int t = g then [prob] else []) (tally gr i t)"
    if "i < n" "t < m" for i t
    using that assms(2,4) s by (auto simp: tally_def gr add_votes_def nth_update_cell)
  ultimately show ?thesis by (auto simp: voted_def)
qed

lemma vote_speaker_voted:
  assumes "grid_shape (nat speakers) m gr" "t * 3 + s < length (multilabel_probs pred)"
    and "ids s \<ge> -1" "0 \<le> g" "nat g < m"
  shows "\<exists>gr'. vote_speaker speakers ids pred g t s gr = Inr gr' \<and>
    voted (nat speakers) m
      (\<lambda>i t'. if g = int t' \<and> ids s = int i then [multilabel_probs pred ! (t * 3 + s)] else []) gr gr'"
proof (cases "ids s \<noteq> -1 \<and> ids s < speakers")
  case True
  then show ?thesis
    using cast_vote_voted [OF assms(1) _ _ assms(4,5), of "ids s" "multilabel_probs pred ! (t * 3 + s)"] assms(2,3)
    by (auto simp: vote_speaker_def voted_def conj_commute)
next
  case False
  then have "\<not> (i < nat speakers \<and> ids s = int i)" for i using assms(3) by auto
  then have "voted (nat speakers) m
      (\<lambda>i t'. if g = int t' \<and> ids s = int i then [multilabel_probs pred ! (t * 3 + s)] else []) gr gr"
    using assms(1) by (auto simp: voted_def)
  then show ?thesis using False assms(2) by (intro exI [of _ gr]) (auto simp: vote_speaker_def)
qed

lemma frame_votes_concat:
  "(if start + int t = int g then frame_votes ids pred t gid else []) =
   concat (map (\<lambda>s. if start + int t = int g \<and> ids s = int gid
                    then [multilabel_probs pred ! (t * 3 + s)] else []) [0..<3])"
  by (simp add: frame_votes_def upt_rec)

lemma vote_frames_voted:
  assumes "grid_shape (nat speakers) (nat G) gr" "sorted ts" "0 \<le> start"
    and "\<forall>t \<in> set ts. t * 3 + 3 \<le> length (multilabel_probs pred)" "\<forall>s. ids s \<ge> -1"
  shows "\<exists>gr'. vote_frames speakers G ids pred start ts gr = Inr gr' \<and>
    voted (nat speakers) (nat G) (\<lambda>i t. chunk_votes ids pred start ts i t) gr gr'"
  using assms
proof (induction speakers G ids pred start ts gr rule: vote_frames.induct)
  case (1 speakers G ids pred start gr)
  then show ?case by (simp add: chunk_votes_def voted_none)
next
  case (2 speakers G ids pred start t ts gr)
  show ?case
  proof (cases "start + int t \<ge> G")
    case True
    have "chunk_votes ids pred start (t # ts) i g = []" if "g < nat G" for i g
      using that True 2(3) by (auto simp: chunk_votes_def)
    then have "voted (nat speakers) (nat G) (\<lambda>i g. chunk_votes ids pred start (t # ts) i g) gr gr"
      using 2(2) by (simp add: voted_def)
    then show ?thesis using True by (auto simp: Let_def)
  next
    case False
    let ?f = "\<lambda>s i g. if start + int t = int g \<and> ids s = int i then [multilabel_probs pred ! (t * 3 + s)] else []"
    have "\<exists>gr'. each_outcome (vote_speaker speakers ids pred (start + int t) t) [0..<3] gr = Inr gr' \<and>
        voted (nat speakers) (nat G) (\<lambda>i g. concat (map (\<lambda>s. ?f s i g) [0..<3])) gr gr'"
      using 2(2,4,5,6) False by (intro voted_loop vote_speaker_voted) auto
    then obtain gr1 where gr1: "each_outcome (vote_speaker speakers ids pred (start + int t) t) [0..<3] gr = Inr gr1"
      "voted (nat speakers) (nat G) (\<lambda>i g. if start + int t = int g then frame_votes ids pred t i else []) gr gr1"
      by (auto simp only: frame_votes_concat)
    then have "grid_shape (nat speakers) (nat G) gr1" by (simp add: voted_def)
    then obtain gr2 where gr2: "vote_frames speakers G ids pred start ts gr1 = Inr gr2"
      "voted (nat speakers) (nat G) (\<lambda>i t. chunk_votes ids pred start ts i t) gr1 gr2"
      using 2(1) [OF refl, of gr1] gr1(1) False 2(3,4,5,6) by auto
    have "(\<lambda>i g. (if start + int t = int g then frame_votes ids pred t i else []) @ chunk_votes ids pred start ts i g)
        = (\<lambda>i g. chunk_votes ids pred start (t # ts) i g)"
      by (intro ext) (simp add: chunk_votes_def)
    then have "voted (nat speakers) (nat G) (\<lambda>i g. chunk_votes ids pred start (t # ts) i g) gr gr2"
      using voted_trans [OF gr1(2) gr2(2)] by simp
    then show ?thesis using gr1(1) gr2(1) False by (auto simp: Let_def)
  qed
qed

text \<open>What the model assumes of a chunk's prediction, and what \<open>main\<close> gives it.\<close>

definition prediction_ok :: "chunk_prediction \<Rightarrow> bool" where
  "prediction_ok pred \<longleftrightarrow>
     length (multilabel_probs pred) = num_frames pred * 3 \<and>
     (case start_frame pred of Inl _ \<Rightarrow> False | Inr start \<Rightarrow> 0 \<le> start)"

lemma vote_voted:
  assumes "\<forall>pred \<in> set predictions. prediction_ok pred" "\<forall>c s. global_id use_embedding assigned c s \<ge> -1"
  shows "\<exists>gr. vote use_embedding assigned speakers G predictions = Inr gr \<and>
    voted (nat speakers) (nat G) (\<lambda>i g. all_votes use_embedding assigned predictions i g) (empty_grid speakers G) gr"
proof -
  have "\<exists>gr'. vote_chunk use_embedding assigned speakers G pred gr = Inr gr' \<and>
      voted (nat speakers) (nat G) (\<lambda>i g. case start_frame pred of Inl e \<Rightarrow> [] | Inr start \<Rightarrow>
         chunk_votes (global_id use_embedding assigned (pred_chunk_idx pred)) pred start [0..<num_frames pred] i g) gr gr'"
    if "pred \<in> set predictions" "grid_shape (nat speakers) (nat G) gr" for pred gr
  proof -
    have p: "prediction_ok pred" using assms(1) that(1) by simp
    then obtain start where st: "start_frame pred = Inr start" "0 \<le> start"
      by (auto simp: prediction_ok_def split: sum.splits)
    have "t * 3 + 3 \<le> length (multilabel_probs pred)" if "t < num_frames pred" for t
      using p that by (simp add: prediction_ok_def)
    then show ?thesis
      using vote_frames_voted [OF that(2), of "[0..<num_frames pred]" start] st assms(2)
      by (simp add: vote_chunk_def)
  qed
  moreover have "grid_shape (nat speakers) (nat G) (empty_grid speakers G)"
    by (simp add: empty_grid_def grid_shape_def Let_def)
  ultimately show ?thesis unfolding vote_def all_votes_def by (rule voted_loop)
qed

text \<open>
  The decision the timeline is made of: a frame is active when the mean of its votes, summed in
  the order of the chunks, exceeds one half.
\<close>

definition majority :: "f32 list \<Rightarrow> bool" where
  "majority vs = frame_active (foldl (+) 0 vs) (foldl (\<lambda>c _. c + 1) 0 vs)"

lemma final_segments_scan:
  "length acc = length cnt \<Longrightarrow>
   final_segments acc cnt = map (map_prod frame_time frame_time) (scan (map2 frame_active acc cnt))"
  using scan_by_fold [of frame_time "enumerate 0 (map2 frame_active acc cnt)" None "[]"]
  by (cases "fold scan_step (enumerate 0 (map2 frame_active acc cnt)) (None, [])")
    (auto simp: final_segments_def scan_def Let_def split: option.splits)

definition speaker_frames :: "bool \<Rightarrow> (int \<times> int \<Rightarrow> int option) \<Rightarrow> int \<Rightarrow> chunk_prediction list \<Rightarrow> nat \<Rightarrow> bool list" where
  "speaker_frames use_embedding assigned G predictions s =
     map (\<lambda>t. majority (all_votes use_embedding assigned predictions s t)) [0..<nat G]"

lemma collect_segments_scan:
  assumes "voted n m (\<lambda>i g. all_votes use_embedding assigned predictions i g) (empty_grid speakers G) gr"
    and "n = nat speakers" "m = nat G"
  shows "collect_segments gr =
    concat (map (\<lambda>s. map (\<lambda>r. \<lparr>seg_start = frame_time (fst r), seg_end = frame_time (snd r), seg_speaker = s\<rparr>)
       (filter (\<lambda>r. frame_time (snd r) - frame_time (fst r) > 0)
          (scan (speaker_frames use_embedding assigned G predictions s)))) [0..<nat speakers])"
proof -
  have shape: "length (fst gr) = n" "length (snd gr) = n"
    "s < n \<Longrightarrow> length (fst gr ! s) = m" "s < n \<Longrightarrow> length (snd gr ! s) = m" for s
    using assms(1) by (simp_all add: voted_def grid_shape_def)
  have "map2 frame_active (fst gr ! s) (snd gr ! s) = speaker_frames use_embedding assigned G predictions s"
    if s: "s < n" for s
  proof (rule nth_equalityI)
    show "length (map2 frame_active (fst gr ! s) (snd gr ! s)) =
        length (speaker_frames use_embedding assigned G predictions s)"
      using shape s assms(3) by (simp add: speaker_frames_def)
  next
    fix t assume "t < length (map2 frame_active (fst gr ! s) (snd gr ! s))"
    then have t: "t < m" using shape s by simp
    have "tally gr s t = add_votes (all_votes use_embedding assigned predictions s t) (0, 0)"
      using assms s t by (simp add: voted_def tally_def empty_grid_def Let_def)
    then have "fst gr ! s ! t = foldl (+) 0 (all_votes use_embedding assigned predictions s t)"
      "snd gr ! s ! t = foldl (\<lambda>c _. c + 1) 0 (all_votes use_embedding assigned predictions s t)"
      by (simp_all add: tally_def add_votes_def)
    then show "map2 frame_active (fst gr ! s) (snd gr ! s) ! t =
        speaker_frames use_embedding assigned G predictions s ! t"
      using shape s t assms(3) by (simp add: speaker_frames_def majority_def)
  qed
  then have "final_segments (fst gr ! s) (snd gr ! s) =
      map (map_prod frame_time frame_time) (scan (speaker_frames use_embedding assigned G predictions s))"
    if "s < n" for s
    using shape that final_segments_scan by simp
  then show ?thesis
    unfolding collect_segments_def using shape(1) assms(2)
    by (intro arg_cong [where f = concat] map_cong) (simp_all add: filter_map comp_def)
qed

subsection \<open>The clock of the grid\<close>

text \<open>270/16000 is not a binary fraction; the code computes with the nearest double.\<close>

definition frame_period :: rat where
  "frame_period = 4863887597560136 / 2 ^ 58"

lemma model_frame_duration_value: "model_frame_duration = F64 (FFin False frame_period)"
proof -
  have "ilog2 (27 / 1600) = -6" by (rule ilog2_unique) (simp_all add: pow2_def)
  then have e: "ulp_exp binary64 (27 / 1600) = -58" by (simp add: ulp_exp_def)
  have "\<lfloor>121597189939003392 / 25 :: rat\<rfloor> = 4863887597560135" by (rule floor_unique) simp_all
  then have "rounded binary64 (27 / 1600) = frame_period"
    by (simp add: rounded_def e pow2_def round_even_def Let_def frame_period_def)
  moreover have "f64_of_rat 270 = F64 (FFin False 270)" "f64_of_rat 16000 = F64 (FFin False 16000)"
    using f64_of_int_exact [of 270] f64_of_int_exact [of 16000] by (simp_all add: f64_of_int_def)
  moreover have "\<not> pow2 1024 \<le> frame_period"
    using power_increasing [of 0 1024 "2 :: rat"] by (simp add: frame_period_def)
  ultimately show ?thesis
    by (simp add: model_frame_duration_def divide_f64_def fl_round_cases)
qed

lemma frame_period_bounds: "1 / 64 \<le> frame_period" "frame_period \<le> 1 / 32"
  by (simp_all add: frame_period_def)

lemma frame_period_pos [simp]: "0 < frame_period" "0 \<le> frame_period" "frame_period \<noteq> 0"
  using frame_period_bounds by linarith+

lemma frame_time_value:
  assumes "t \<le> 2 ^ 31"
  shows "\<exists>v. frame_time t = F64 (FFin False v) \<and> 0 \<le> v \<and>
    \<bar>v - of_nat t * frame_period\<bar> \<le> of_nat t * frame_period / 2 ^ 53"
proof -
  let ?m = "of_nat t * frame_period :: rat"
  have "int t < 2 ^ 53" using assms by simp
  then have prod: "frame_time t = F64 (fl_round binary64 False ?m)"
    using f64_of_int_exact [of "int t"] by (simp add: frame_time_def times_f64_def model_frame_duration_value)
  show ?thesis
  proof (cases "t = 0")
    case True
    then show ?thesis using prod by (simp add: fl_round_def)
  next
    case False
    have "1 * frame_period \<le> ?m" using False frame_period_bounds by (intro mult_right_mono) simp_all
    then have lo: "1 / 64 \<le> ?m" using frame_period_bounds(1) by linarith
    have "pow2 (fl_emin binary64 + fl_prec binary64 - 1) \<le> 1 / 64"
      using pow2_mono [of "fl_emin binary64 + fl_prec binary64 - 1" "-6"] by (simp add: pow2_def)
    then have norm: "pow2 (fl_emin binary64 + fl_prec binary64 - 1) \<le> ?m" using lo by (rule order_trans)
    have "of_nat t \<le> (2 :: rat) ^ 31" using assms by (metis of_nat_le_iff of_nat_numeral of_nat_power)
    then have hi: "?m \<le> 2 ^ 31 * (1 / 32)" using frame_period_bounds by (intro mult_mono) simp_all
    have err: "\<bar>rounded binary64 ?m - ?m\<bar> \<le> ?m / 2 ^ 53"
      using rounded_relative [OF _ norm] lo by simp
    moreover have "?m / 2 ^ 53 \<le> ?m" using lo by (simp add: divide_le_eq)
    ultimately have v: "0 \<le> rounded binary64 ?m" "rounded binary64 ?m \<le> 2 * ?m" by linarith+
    have "\<not> pow2 1024 \<le> rounded binary64 ?m"
    proof -
      have "rounded binary64 ?m < 2 ^ 31" using v(2) hi by simp
      also have "(2 :: rat) ^ 31 \<le> 2 ^ 1024" by (rule power_increasing) simp_all
      finally show ?thesis by simp
    qed
    then have "frame_time t = F64 (FFin False (rounded binary64 ?m))"
      using prod False fl_round_cases [of ?m binary64 False] by simp
    then show ?thesis using v err by auto
  qed
qed

lemma frame_time_gap:
  assumes "a < b" "b \<le> 2 ^ 31"
  shows "frame_time b - frame_time a > 0" "frame_time a < frame_time b"
proof -
  have "a \<le> 2 ^ 31" using assms by simp
  then obtain u where u: "frame_time a = F64 (FFin False u)"
    "\<bar>u - of_nat a * frame_period\<bar> \<le> of_nat a * frame_period / 2 ^ 53"
    using frame_time_value by blast
  obtain v where v: "frame_time b = F64 (FFin False v)"
    "\<bar>v - of_nat b * frame_period\<bar> \<le> of_nat b * frame_period / 2 ^ 53"
    using frame_time_value [OF assms(2)] by blast
  have small: "of_nat t * frame_period \<le> 2 ^ 26" if "t \<le> 2 ^ 31" for t
  proof -
    have "of_nat t \<le> (2 :: rat) ^ 31" using that by (metis of_nat_le_iff of_nat_numeral of_nat_power)
    then have "of_nat t * frame_period \<le> 2 ^ 31 * (1 / 32)"
      using frame_period_bounds by (intro mult_mono) simp_all
    then show ?thesis by simp
  qed
  have "of_nat b * frame_period - of_nat a * frame_period = of_nat (b - a) * frame_period"
    using assms(1) by (simp add: of_nat_diff algebra_simps)
  also have "\<dots> \<ge> 1 * frame_period" using assms(1) frame_period_bounds by (intro mult_right_mono) simp_all
  finally have "1 / 64 \<le> of_nat b * frame_period - of_nat a * frame_period"
    using frame_period_bounds by simp
  moreover have "\<bar>u - of_nat a * frame_period\<bar> \<le> 1 / 1000" "\<bar>v - of_nat b * frame_period\<bar> \<le> 1 / 1000"
    using u(2) v(2) small [OF \<open>a \<le> 2 ^ 31\<close>] small [OF assms(2)] by simp_all
  ultimately have d: "1 / 128 \<le> v - u" unfolding abs_le_iff by linarith
  have "pow2 (fl_emin binary64 + fl_prec binary64 - 1) \<le> v - u"
    using pow2_mono [of "fl_emin binary64 + fl_prec binary64 - 1" "-7"] d by (simp add: pow2_def)
  then have pos: "0 < rounded binary64 (v - u)" using d by (intro rounded_pos) simp_all
  have "frame_time b - frame_time a = F64 (fl_round binary64 False (v - u))"
    using u(1) v(1) d by (simp add: minus_f64_def fl_of_rat_def fl_val_def)
  then show "frame_time b - frame_time a > 0"
    using fl_round_cases [of "v - u" binary64 False] d pos
    by (auto simp: less_f64_def zero_f64_def fl_less_def fl_val_def)
  show "frame_time a < frame_time b"
    using u(1) v(1) d by (simp add: less_f64_def fl_less_def fl_val_def)
qed

lemma frame_time_mono: "a \<le> b \<Longrightarrow> b \<le> 2 ^ 31 \<Longrightarrow> \<not> frame_time b < frame_time a"
  using frame_time_gap(2) [of a b] f64_less_trans [of "frame_time a" "frame_time b" "frame_time a"]
  by (cases "a = b") auto

lemma frame_time_numeric: "t \<le> 2 ^ 31 \<Longrightarrow> is_num64 (frame_time t)"
  using frame_time_value [of t] by (auto simp: is_num64_def)

subsection \<open>The reconstruction\<close>

definition speaker_segments :: "bool list \<Rightarrow> nat \<Rightarrow> final_seg list" where
  "speaker_segments bs s =
     map (\<lambda>r. \<lparr>seg_start = frame_time (fst r), seg_end = frame_time (snd r), seg_speaker = s\<rparr>) (scan bs)"

lemma scan_filter_all:
  assumes "length bs \<le> 2 ^ 31"
  shows "filter (\<lambda>r. frame_time (snd r) - frame_time (fst r) > 0) (scan bs) = scan bs"
  by (rule filter_True) (use scan_bounds [of _ bs] assms frame_time_gap(1) in force)

lemma assignment_map_defined:
  assumes "length labels = length embeddings" "\<forall>l \<in> set labels. 0 \<le> l"
  shows "\<exists>assigned. assignment_map embeddings labels = Inr assigned \<and>
    (\<forall>c s. global_id use_embedding assigned c s \<ge> -1)"
proof -
  let ?step = "\<lambda>i m. m((emb_chunk_idx (embeddings ! i), local_speaker (embeddings ! i)) \<mapsto> labels ! i)"
  have run: "assignment_map embeddings labels = Inr (fold ?step [0..<length embeddings] Map.empty)"
    unfolding assignment_map_def by (rule each_outcome_all) (use assms(1) in simp)
  define I where "I = (\<lambda>m :: int \<times> int \<Rightarrow> int option. \<forall>k l. m k = Some l \<longrightarrow> 0 \<le> l)"
  have "I (fold ?step [0..<length embeddings] Map.empty)"
    using run unfolding assignment_map_def
    by (rule each_outcome_invariant [where I = I])
      (use assms(2) in \<open>auto simp: I_def bnd_eq_Inr elem_eq_Inr\<close>)
  then have "\<forall>k l. fold ?step [0..<length embeddings] Map.empty k = Some l \<longrightarrow> 0 \<le> l"
    by (simp add: I_def)
  then show ?thesis using run by (fastforce simp: global_id_def split: option.splits)
qed

lemma grid_size_bound: "grid_size n = Inr G \<Longrightarrow> nat G < 2 ^ 31"
  by (auto simp: grid_size_def int_of_f64_def fl_trunc_def bnd_eq_Inr Let_def split: fl.splits)

lemma collect_segments_speakers:
  assumes "voted (nat speakers) (nat G) (\<lambda>i g. all_votes use_embedding assigned predictions i g) (empty_grid speakers G) gr"
    and "nat G < 2 ^ 31"
  shows "set (collect_segments gr) =
    (\<Union>s \<in> {0..<nat speakers}. set (speaker_segments (speaker_frames use_embedding assigned G predictions s) s))"
proof -
  have "length (speaker_frames use_embedding assigned G predictions s) \<le> 2 ^ 31" for s
    using assms(2) by (simp add: speaker_frames_def)
  then show ?thesis
    by (simp add: collect_segments_scan [OF assms(1) refl refl] scan_filter_all speaker_segments_def)
qed

lemma speaker_segments_props:
  assumes "length bs < 2 ^ 31" "seg \<in> set (speaker_segments bs s)"
  shows "seg_numeric seg" "seg_speaker seg = s"
    "\<exists>t < length bs. bs ! t \<and> seg_start seg = frame_time t"
    "\<exists>t < length bs. bs ! t \<and> seg_end seg = frame_time (t + 1)"
proof -
  obtain r where r: "r \<in> set (scan bs)" "seg = \<lparr>seg_start = frame_time (fst r), seg_end = frame_time (snd r), seg_speaker = s\<rparr>"
    using assms(2) by (auto simp: speaker_segments_def)
  have b: "fst r < snd r" "snd r \<le> length bs" using scan_bounds [OF r(1)] by auto
  have on: "bs ! t" if "fst r \<le> t" "t < snd r" for t
    using scan_covers [of t bs] r(1) b that by auto
  show "seg_speaker seg = s" using r by simp
  show "seg_numeric seg" using r b assms(1) by (simp add: seg_numeric_def frame_time_numeric)
  show "\<exists>t < length bs. bs ! t \<and> seg_start seg = frame_time t"
    using r b on [of "fst r"] by (intro exI [of _ "fst r"]) auto
  show "\<exists>t < length bs. bs ! t \<and> seg_end seg = frame_time (t + 1)"
    using r b on [of "snd r - 1"] by (intro exI [of _ "snd r - 1"]) auto
qed

lemma speaker_segments_cover:
  assumes "length bs < 2 ^ 31" "t < length bs" "bs ! t"
  shows "\<exists>seg \<in> set (speaker_segments bs s). \<not> frame_time t < seg_start seg \<and> \<not> seg_end seg < frame_time (t + 1)"
proof -
  obtain r where r: "r \<in> set (scan bs)" "fst r \<le> t" "t < snd r"
    using scan_covers [OF assms(2)] assms(3) by blast
  have "snd r \<le> length bs" using scan_bounds [OF r(1)] by simp
  then have "\<not> frame_time t < frame_time (fst r)" "\<not> frame_time (snd r) < frame_time (t + 1)"
    using r assms(1,2) by (intro frame_time_mono; simp)+
  then show ?thesis using r(1) by (auto simp: speaker_segments_def)
qed

lemma reconstruct_segments:
  fixes use_embedding :: bool
  assumes "sorts starts_before srt" "\<forall>pred \<in> set predictions. prediction_ok pred"
    and "length labels = length embeddings" "\<forall>l \<in> set labels. 0 \<le> l" "grid_size total_samples = Inr G"
  defines "speakers \<equiv> nat (count_speakers use_embedding embeddings labels)"
  shows "\<exists>assigned segs. assignment_map embeddings labels = Inr assigned \<and>
    reconstruct srt use_embedding total_samples predictions embeddings labels = Inr segs \<and>
    (\<forall>s < speakers. \<forall>t < nat G. majority (all_votes use_embedding assigned predictions s t) \<longrightarrow>
       (\<exists>seg \<in> set segs. seg_speaker seg = s \<and> \<not> frame_time t < seg_start seg \<and> \<not> seg_end seg < frame_time (t + 1))) \<and>
    (\<forall>seg \<in> set segs. seg_speaker seg < speakers \<and>
       (\<exists>t < nat G. majority (all_votes use_embedding assigned predictions (seg_speaker seg) t) \<and> seg_start seg = frame_time t) \<and>
       (\<exists>t < nat G. majority (all_votes use_embedding assigned predictions (seg_speaker seg) t) \<and> seg_end seg = frame_time (t + 1))) \<and>
    successively (\<lambda>a b. \<not> merges a b) segs"
proof -
  obtain assigned where assigned: "assignment_map embeddings labels = Inr assigned"
    "\<forall>c s. global_id use_embedding assigned c s \<ge> -1"
    using assignment_map_defined [OF assms(3,4)] by blast
  let ?n = "count_speakers use_embedding embeddings labels"
  let ?bs = "speaker_frames use_embedding assigned G predictions"
  obtain gr where gr: "vote use_embedding assigned ?n G predictions = Inr gr"
    "voted (nat ?n) (nat G) (\<lambda>i g. all_votes use_embedding assigned predictions i g) (empty_grid ?n G) gr"
    using vote_voted [OF assms(2) assigned(2)] by blast
  have G: "nat G < 2 ^ 31" using grid_size_bound [OF assms(5)] .
  have bs: "length (?bs s) = nat G" "t < nat G \<Longrightarrow> ?bs s ! t = majority (all_votes use_embedding assigned predictions s t)" for s t
    by (simp_all add: speaker_frames_def)
  define segs where "segs = merge_segments (srt (collect_segments gr))"
  have collected: "set (collect_segments gr) = (\<Union>s \<in> {0..<speakers}. set (speaker_segments (?bs s) s))"
    using collect_segments_speakers [OF gr(2) G] by (simp add: speakers_def)
  note props = speaker_segments_props [of "?bs _", unfolded bs(1), OF G]
  have ok: "merged_ok (collect_segments gr) segs"
    unfolding segs_def using assms(1) collected props(1)
    by (intro merge_segments_ok) (auto simp: sorting_sorts)
  have "reconstruct srt use_embedding total_samples predictions embeddings labels = Inr segs"
    using assms(5) assigned(1) gr(1) by (simp add: reconstruct_def Let_def segs_def)
  moreover have "\<exists>seg \<in> set segs. seg_speaker seg = s \<and> \<not> frame_time t < seg_start seg \<and> \<not> seg_end seg < frame_time (t + 1)"
    if a: "s < speakers" "t < nat G" "majority (all_votes use_embedding assigned predictions s t)" for s t
  proof -
    obtain seg where seg: "seg \<in> set (speaker_segments (?bs s) s)" "\<not> frame_time t < seg_start seg"
      "\<not> seg_end seg < frame_time (t + 1)"
      using speaker_segments_cover [of "?bs s" t s] bs G a by auto
    then have "seg \<in> set (collect_segments gr)" using collected a(1) by auto
    then obtain b where "b \<in> set segs" "seg_within seg b" using ok by (auto simp: merged_ok_def)
    then show ?thesis
      using seg props(1,2) [OF seg(1)] f64_less_between unfolding seg_within_def seg_numeric_def by metis
  qed
  moreover have "seg_speaker seg < speakers \<and>
      (\<exists>t < nat G. majority (all_votes use_embedding assigned predictions (seg_speaker seg) t) \<and> seg_start seg = frame_time t) \<and>
      (\<exists>t < nat G. majority (all_votes use_embedding assigned predictions (seg_speaker seg) t) \<and> seg_end seg = frame_time (t + 1))"
    if seg: "seg \<in> set segs" for seg
  proof -
    obtain a b where "a \<in> set (collect_segments gr)" "seg_speaker a = seg_speaker seg" "seg_start a = seg_start seg"
      "b \<in> set (collect_segments gr)" "seg_speaker b = seg_speaker seg" "seg_end b = seg_end seg"
      using ok seg unfolding merged_ok_def by blast
    then obtain s where "s < speakers" "a \<in> set (speaker_segments (?bs s) s)" "b \<in> set (speaker_segments (?bs s) s)" "seg_speaker seg = s"
      using collected props(2) by fastforce
    then show ?thesis using props(3) [of a s s] props(4) [of b s s] bs(2) \<open>seg_start a = seg_start seg\<close> \<open>seg_end b = seg_end seg\<close>
      by metis
  qed
  moreover have "successively (\<lambda>a b. \<not> merges a b) segs" using ok by (simp add: merged_ok_def)
  ultimately show ?thesis using assigned(1) by blast
qed

text \<open>
  C9. The reported timeline is exactly the majority of the votes.  Every frame in which more
  than half of a speaker's votes is activity lies in a reported segment of that speaker; every
  segment starts and ends at such frames; and no two adjacent segments of one speaker are left
  closer than 0.1 s.
\<close>

theorem reconstruct_correct:
  fixes use_embedding :: bool
  assumes "sorts starts_before srt" "\<forall>pred \<in> set predictions. prediction_ok pred"
    and "length labels = length embeddings" "\<forall>l \<in> set labels. 0 \<le> l" "grid_size total_samples = Inr G"
  defines "speakers \<equiv> nat (count_speakers use_embedding embeddings labels)"
  shows "\<exists>assigned segs. assignment_map embeddings labels = Inr assigned \<and>
    reconstruct srt use_embedding total_samples predictions embeddings labels = Inr segs \<and>
    (\<forall>s < speakers. \<forall>t < nat G. majority (all_votes use_embedding assigned predictions s t) \<longrightarrow>
       (\<exists>seg \<in> set segs. seg_speaker seg = s \<and> \<not> frame_time t < seg_start seg \<and> \<not> seg_end seg < frame_time (t + 1))) \<and>
    (\<forall>seg \<in> set segs. seg_speaker seg < speakers \<and>
       (\<exists>t < nat G. majority (all_votes use_embedding assigned predictions (seg_speaker seg) t) \<and> seg_start seg = frame_time t) \<and>
       (\<exists>t < nat G. majority (all_votes use_embedding assigned predictions (seg_speaker seg) t) \<and> seg_end seg = frame_time (t + 1))) \<and>
    successively (\<lambda>a b. \<not> merges a b) segs"
  using assms(1-5) unfolding speakers_def by (rule reconstruct_segments)

end
