(* ===== verification/Lstm.thy ===== *)
theory Lstm
  imports Ieee_Bounds
begin

text \<open>
  The bidirectional LSTM layers of the segmentation network, which both programs compute in
  plain loops: \<open>main\<close> of \<open>examples/main.cpp\<close> adds the input projections that a ggml graph has
  computed for all time steps, \<open>run_segmentation\<close> of \<open>examples/main_streaming.cpp\<close> computes them
  in the loop.  A layer's output is kept as one row per time step.
\<close>

record lstm_weights =
  w_ih :: "f32 list"
  w_hh :: "f32 list"
  b_ih :: "f32 list"
  b_hh :: "f32 list"

text \<open>\<open>for (j < n) sum += w[off + j] * x[j]\<close>, continuing from \<open>z\<close>.\<close>

definition row_dot :: "f32 \<Rightarrow> f32 list \<Rightarrow> nat \<Rightarrow> f32 list \<Rightarrow> nat \<Rightarrow> f32" where
  "row_dot z w off x n = foldl (\<lambda>acc j. acc + w ! (off + j) * x ! j) z [0..<n]"

definition batch_gates :: "nat \<Rightarrow> lstm_weights \<Rightarrow> f32 list \<Rightarrow> nat \<Rightarrow> f32 list \<Rightarrow> f32 list" where
  "batch_gates hidden w gates_x t h =
     map (\<lambda>g. gates_x ! (g + t * (4 * hidden)) + b_ih w ! g + b_hh w ! g + row_dot 0 (w_hh w) (g * hidden) h hidden)
       [0..<4 * hidden]"

definition stream_gates :: "nat \<Rightarrow> nat \<Rightarrow> lstm_weights \<Rightarrow> f32 list \<Rightarrow> nat \<Rightarrow> f32 list \<Rightarrow> f32 list" where
  "stream_gates input_dim hidden w h_state t h =
     map (\<lambda>i. let acc = row_dot 0 (w_ih w) (i * input_dim) (drop (t * input_dim) h_state) input_dim;
                  acc = acc + b_ih w ! i;
                  acc = row_dot acc (w_hh w) (i * hidden) h hidden
              in acc + b_hh w ! i)
       [0..<4 * hidden]"

definition sigmoid :: "libm \<Rightarrow> f32 \<Rightarrow> f32" where
  "sigmoid m x = 1 / (1 + expf m (- x))"

text \<open>The activations: new hidden and cell values from the gates.\<close>

definition lstm_cell :: "libm \<Rightarrow> nat \<Rightarrow> f32 list \<Rightarrow> f32 list \<Rightarrow> f32 list \<times> f32 list" where
  "lstm_cell m hidden gates c =
     (let c' = map (\<lambda>i. sigmoid m (gates ! (hidden + i)) * c ! i +
                         sigmoid m (gates ! i) * tanhf m (gates ! (2 * hidden + i))) [0..<hidden];
          h' = map (\<lambda>i. sigmoid m (gates ! (3 * hidden + i)) * tanhf m (c' ! i)) [0..<hidden]
      in (h', c'))"

text \<open>One pass over the time steps in the order \<open>ts\<close>; \<open>gates\<close> gives the gates of a step.\<close>

definition lstm_step :: "libm \<Rightarrow> nat \<Rightarrow> (nat \<Rightarrow> f32 list \<Rightarrow> f32 list) \<Rightarrow> nat \<Rightarrow>
    (f32 list \<times> f32 list) \<times> f32 list list \<Rightarrow> (f32 list \<times> f32 list) \<times> f32 list list" where
  "lstm_step m hidden gates t st =
     (let ((h, c), out) = st; hc = lstm_cell m hidden (gates t h) c in (hc, out[t := fst hc]))"

definition lstm_pass :: "libm \<Rightarrow> nat \<Rightarrow> (nat \<Rightarrow> f32 list \<Rightarrow> f32 list) \<Rightarrow> nat \<Rightarrow> nat list \<Rightarrow> f32 list list" where
  "lstm_pass m hidden gates seq_len ts =
     snd (fold (lstm_step m hidden gates) ts
            ((replicate hidden 0, replicate hidden 0), replicate seq_len (replicate hidden 0)))"

definition weights_fit :: "nat \<Rightarrow> nat \<Rightarrow> lstm_weights \<Rightarrow> bool" where
  "weights_fit input_dim hidden w \<longleftrightarrow>
     4 * hidden * input_dim \<le> length (w_ih w) \<and> 4 * hidden * hidden \<le> length (w_hh w) \<and>
     4 * hidden \<le> length (b_ih w) \<and> 4 * hidden \<le> length (b_hh w)"

text \<open>
  A layer of the streaming program.  The reads of the weights and of \<open>h_state\<close> are in bounds when
  the tensors have the sizes the loops use.
\<close>

definition bidirectional :: "libm \<Rightarrow> nat \<Rightarrow> (nat \<Rightarrow> f32 list \<Rightarrow> f32 list) \<Rightarrow> (nat \<Rightarrow> f32 list \<Rightarrow> f32 list) \<Rightarrow> nat \<Rightarrow> f32 list" where
  "bidirectional m hidden gates_fwd gates_rev seq_len =
     (let output_fwd = lstm_pass m hidden gates_fwd seq_len [0..<seq_len];
          output_rev = lstm_pass m hidden gates_rev seq_len (rev [0..<seq_len])
      in concat (map (\<lambda>t. output_fwd ! t @ output_rev ! t) [0..<seq_len]))"

definition stream_layer :: "libm \<Rightarrow> nat \<Rightarrow> nat \<Rightarrow> lstm_weights \<Rightarrow> lstm_weights \<Rightarrow> nat \<Rightarrow> f32 list \<Rightarrow> f32 list outcome" where
  "stream_layer m input_dim hidden fwd bwd seq_len h_state =
     bnd (ensure (weights_fit input_dim hidden fwd \<and> weights_fit input_dim hidden bwd \<and>
                  seq_len * input_dim \<le> length h_state) Undefined) (\<lambda>_.
     Inr (bidirectional m hidden (stream_gates input_dim hidden fwd h_state)
            (stream_gates input_dim hidden bwd h_state) seq_len))"

text \<open>
  A layer of the offline program: \<open>project\<close> is the ggml product of the input weights with the
  inputs of all steps.
\<close>

definition batch_layer :: "libm \<Rightarrow> (lstm_weights \<Rightarrow> f32 list \<Rightarrow> f32 list) \<Rightarrow> nat \<Rightarrow> nat \<Rightarrow> lstm_weights \<Rightarrow>
    lstm_weights \<Rightarrow> nat \<Rightarrow> f32 list \<Rightarrow> f32 list outcome" where
  "batch_layer m project input_dim hidden fwd bwd seq_len h_state =
     bnd (ensure (weights_fit input_dim hidden fwd \<and> weights_fit input_dim hidden bwd \<and>
                  seq_len * input_dim \<le> length h_state) Undefined) (\<lambda>_.
     Inr (bidirectional m hidden (batch_gates hidden fwd (project fwd h_state))
            (batch_gates hidden bwd (project bwd h_state)) seq_len))"

text \<open>The four layers: 60 inputs for the first, 256 for the others; 128 hidden units.\<close>

definition lstm_layers :: "(nat \<Rightarrow> nat \<Rightarrow> lstm_weights \<Rightarrow> lstm_weights \<Rightarrow> nat \<Rightarrow> f32 list \<Rightarrow> f32 list outcome) \<Rightarrow>
    lstm_weights list \<Rightarrow> lstm_weights list \<Rightarrow> nat \<Rightarrow> f32 list \<Rightarrow> f32 list outcome" where
  "lstm_layers layer fwd bwd seq_len sinc_out =
     each_outcome (\<lambda>l h_state. bnd (elem fwd l) (\<lambda>wf. bnd (elem bwd l) (\<lambda>wr.
         layer (if l = 0 then 60 else 256) 128 wf wr seq_len h_state)))
       [0..<4] sinc_out"

subsection \<open>Shapes\<close>

lemma length_lstm_cell [simp]:
  "length (fst (lstm_cell m hidden g c)) = hidden" "length (snd (lstm_cell m hidden g c)) = hidden"
  by (simp_all add: lstm_cell_def Let_def)

lemma lstm_step_simp [simp]:
  "lstm_step m hidden gates t ((h, c), out) =
   (lstm_cell m hidden (gates t h) c, out[t := fst (lstm_cell m hidden (gates t h) c)])"
  by (simp add: lstm_step_def Let_def)

lemma lstm_fold_shape:
  "length out = n \<Longrightarrow> \<forall>row \<in> set out. length row = hidden \<Longrightarrow>
   length (snd (fold (lstm_step m hidden gates) ts (hc, out))) = n \<and>
   (\<forall>row \<in> set (snd (fold (lstm_step m hidden gates) ts (hc, out))). length row = hidden)"
proof (induction ts arbitrary: hc out)
  case Nil
  then show ?case by simp
next
  case (Cons t ts)
  obtain h c where hc: "hc = (h, c)" by fastforce
  let ?hc = "lstm_cell m hidden (gates t h) c"
  have "\<forall>row \<in> set (out[t := fst ?hc]). length row = hidden"
    using Cons.prems(2) by (auto dest!: subsetD [OF set_update_subset_insert])
  then show ?case using Cons.IH [of "out[t := fst ?hc]" ?hc] Cons.prems(1) by (simp add: hc)
qed

lemma lstm_pass_shape:
  "length (lstm_pass m hidden gates n ts) = n" "t < n \<Longrightarrow> length (lstm_pass m hidden gates n ts ! t) = hidden"
  using lstm_fold_shape [of "replicate n (replicate hidden 0)" n hidden m gates ts "(replicate hidden 0, replicate hidden 0)"]
  by (simp_all add: lstm_pass_def)

lemma length_bidirectional: "length (bidirectional m hidden gf gr n) = n * (2 * hidden)"
  unfolding bidirectional_def Let_def by (rule length_concat_rows) (simp add: lstm_pass_shape)

subsection \<open>The reverse pass is the forward pass on the reversed sequence\<close>

text \<open>The states of a pass, in the order of its steps.\<close>

fun hidden_states :: "libm \<Rightarrow> nat \<Rightarrow> (f32 list \<Rightarrow> f32 list) list \<Rightarrow> f32 list \<times> f32 list \<Rightarrow> f32 list list" where
  "hidden_states m hidden [] hc = []"
| "hidden_states m hidden (g # gs) hc =
     (let hc' = lstm_cell m hidden (g (fst hc)) (snd hc) in fst hc' # hidden_states m hidden gs hc')"

lemma length_hidden_states [simp]: "length (hidden_states m hidden gs hc) = length gs"
  by (induction gs arbitrary: hc) (simp_all add: Let_def)

lemma lstm_fold_states:
  "distinct ts \<Longrightarrow> set ts \<subseteq> {0..<length out} \<Longrightarrow>
   (\<forall>i < length ts. snd (fold (lstm_step m hidden gates) ts (hc, out)) ! (ts ! i) =
      hidden_states m hidden (map gates ts) hc ! i) \<and>
   (\<forall>t < length out. t \<notin> set ts \<longrightarrow> snd (fold (lstm_step m hidden gates) ts (hc, out)) ! t = out ! t)"
proof (induction ts arbitrary: hc out)
  case Nil
  then show ?case by simp
next
  case (Cons t ts)
  obtain h c where hc: "hc = (h, c)" by fastforce
  let ?hc = "lstm_cell m hidden (gates t h) c" and ?out = "out[t := fst (lstm_cell m hidden (gates t h) c)]"
  have IH: "(\<forall>i < length ts. snd (fold (lstm_step m hidden gates) ts (?hc, ?out)) ! (ts ! i) =
      hidden_states m hidden (map gates ts) ?hc ! i) \<and>
    (\<forall>t' < length ?out. t' \<notin> set ts \<longrightarrow> snd (fold (lstm_step m hidden gates) ts (?hc, ?out)) ! t' = ?out ! t')"
    using Cons.prems by (intro Cons.IH) auto
  then show ?case
    using Cons.prems by (auto simp: hc nth_Cons Let_def split: nat.splits)
qed

lemma lstm_pass_states:
  assumes "distinct ts" "set ts = {0..<n}" "i < length ts"
  shows "lstm_pass m hidden gates n ts ! (ts ! i) =
    hidden_states m hidden (map gates ts) (replicate hidden 0, replicate hidden 0) ! i"
  using lstm_fold_states [of ts "replicate n (replicate hidden 0)" m hidden gates "(replicate hidden 0, replicate hidden 0)"] assms
  by (simp add: lstm_pass_def)


subsection \<open>Bounded outputs\<close>

lemma sigmoid_unit: "libm_ranges m \<Longrightarrow> unit_or_nan (sigmoid m x)"
  by (simp add: sigmoid_def libm_ranges_def unit_or_nan_inverse_of_one_plus)

lemma lstm_cell_unit: "libm_ranges m \<Longrightarrow> x \<in> set (fst (lstm_cell m hidden g c)) \<Longrightarrow> unit_or_nan x"
  by (auto simp: lstm_cell_def Let_def libm_ranges_def intro!: unit_or_nan_times sigmoid_unit)

lemma hidden_states_unit:
  "libm_ranges m \<Longrightarrow> row \<in> set (hidden_states m hidden gs hc) \<Longrightarrow> x \<in> set row \<Longrightarrow> unit_or_nan x"
proof (induction gs arbitrary: hc)
  case (Cons g gs)
  let ?hc = "lstm_cell m hidden (g (fst hc)) (snd hc)"
  consider "row = fst ?hc" | "row \<in> set (hidden_states m hidden gs ?hc)"
    using Cons.prems(2) by (auto simp: Let_def)
  then show ?case using lstm_cell_unit Cons.IH Cons.prems(1,3) by cases blast+
qed simp

lemma lstm_pass_unit:
  assumes "libm_ranges m" "distinct ts" "set ts = {0..<n}" "t < n" "x \<in> set (lstm_pass m hidden gates n ts ! t)"
  shows "unit_or_nan x"
proof -
  obtain i where i: "i < length ts" "ts ! i = t" using assms(3,4) by (metis atLeastLessThan_iff in_set_conv_nth zero_le)
  let ?hs = "hidden_states m hidden (map gates ts) (replicate hidden 0, replicate hidden 0)"
  have "lstm_pass m hidden gates n ts ! t = ?hs ! i" using lstm_pass_states [OF assms(2,3) i(1)] i(2) by simp
  moreover have "?hs ! i \<in> set ?hs" using i(1) by (intro nth_mem) simp
  ultimately show ?thesis using hidden_states_unit [OF assms(1)] assms(5) by metis
qed

lemma bidirectional_unit:
  "libm_ranges m \<Longrightarrow> x \<in> set (bidirectional m hidden gf gr n) \<Longrightarrow> unit_or_nan x"
  by (auto simp: bidirectional_def Let_def dest: lstm_pass_unit [rotated 4])

lemma lstm_layers_induct:
  assumes run: "lstm_layers layer fwd bwd n x = Inr y"
    and layer: "\<And>d wf wr x y. layer d 128 wf wr n x = Inr y \<Longrightarrow> P y"
  shows "P y"
proof -
  obtain z wf wr where "layer 256 128 wf wr n z = Inr y"
    using run by (auto simp: lstm_layers_def bnd_eq_Inr upt_rec numeral_eq_Suc)
  then show ?thesis by (rule layer)
qed

text \<open>
  C13. Whatever the weights and the input, every output of the LSTM stack of either program is a
  NaN or lies between -1 and 1, and there are 256 values per time step.
\<close>

theorem lstm_layers_bounded:
  assumes "libm_ranges m"
    and "lstm_layers (stream_layer m) fwd bwd seq_len x = Inr y \<or>
         lstm_layers (batch_layer m project) fwd bwd seq_len x = Inr y"
  shows "length y = seq_len * 256 \<and> (\<forall>v \<in> set y. unit_or_nan v)"
proof -
  let ?P = "\<lambda>y. length y = seq_len * 256 \<and> (\<forall>v \<in> set y. unit_or_nan v)"
  have "?P y" if "stream_layer m d 128 wf wr seq_len x = Inr y" for d wf wr x y
    using that bidirectional_unit [OF assms(1)] by (auto simp: stream_layer_def bnd_eq_Inr length_bidirectional)
  moreover have "?P y" if "batch_layer m project d 128 wf wr seq_len x = Inr y" for d wf wr x y
    using that bidirectional_unit [OF assms(1)] by (auto simp: batch_layer_def bnd_eq_Inr length_bidirectional)
  ultimately show ?thesis using assms(2) lstm_layers_induct [where P = ?P] by blast
qed

text \<open>The stack is defined on weights of the expected sizes.\<close>

lemma stream_layers_defined:
  assumes "length fwd = 4" "length bwd = 4" "seq_len * 60 \<le> length x"
    and "\<forall>l < 4. weights_fit (if l = 0 then 60 else 256) 128 (fwd ! l) \<and> weights_fit (if l = 0 then 60 else 256) 128 (bwd ! l)"
  shows "\<exists>y. lstm_layers (stream_layer m) fwd bwd seq_len x = Inr y"
proof -
  have fit: "weights_fit 60 128 (fwd ! 0)" "weights_fit 60 128 (bwd ! 0)"
    "weights_fit 256 128 (fwd ! 1)" "weights_fit 256 128 (bwd ! 1)" "weights_fit 256 128 (fwd ! 2)"
    "weights_fit 256 128 (bwd ! 2)" "weights_fit 256 128 (fwd ! 3)" "weights_fit 256 128 (bwd ! 3)"
    using assms(4) [rule_format, of 0] assms(4) [rule_format, of 1] assms(4) [rule_format, of 2] assms(4) [rule_format, of 3]
    by simp_all
  have idx: "[0..<4] = [0, 1, 2, 3 :: nat]" by (simp add: upt_rec)
  show ?thesis
    using fit assms(1,2,3) by (simp add: lstm_layers_def idx stream_layer_def bnd_ensure length_bidirectional)
qed

lemma batch_layers_defined:
  assumes "length fwd = 4" "length bwd = 4" "seq_len * 60 \<le> length x"
    and "\<forall>l < 4. weights_fit (if l = 0 then 60 else 256) 128 (fwd ! l) \<and> weights_fit (if l = 0 then 60 else 256) 128 (bwd ! l)"
  shows "\<exists>y. lstm_layers (batch_layer m project) fwd bwd seq_len x = Inr y"
proof -
  obtain y where y: "lstm_layers (stream_layer m) fwd bwd seq_len x = Inr y"
    using stream_layers_defined [OF assms] by blast
  have idx: "[0..<4] = [0, 1, 2, 3 :: nat]" by (simp add: upt_rec)
  show ?thesis
    using y by (auto simp: lstm_layers_def idx stream_layer_def batch_layer_def bnd_ensure bnd_eq_Inr length_bidirectional
        elem_eq_Inr split: if_splits)
qed

end
