(* ===== verification/Fft.thy ===== *)
theory Fft
  imports Ieee
begin

unbundle bit_operations_syntax

text \<open>
  The in-place radix-2 Fourier transform \<open>fft\<close> of \<open>examples/common_audio.cpp\<close>: the bit-reversal
  permutation and the butterfly stages.  The transform is written over any type with the
  arithmetic of \<open>std::complex\<close> and a twiddle function \<open>wm m\<close> for
  \<open>std::polar(1.0f, -2 * M_PI / m)\<close>, so that the same definitions are the program's
  (\<open>cf32\<close>, \<open>polar32\<close>) and, on the complex numbers with exact roots of unity, what it
  approximates.
\<close>

subsection \<open>The transform\<close>

fun log2_from :: "nat \<Rightarrow> nat \<Rightarrow> nat \<Rightarrow> nat" where
  "log2_from 0 l n = l"
| "log2_from (Suc fuel) l n = (if 2 ^ l < n then log2_from fuel (l + 1) n else l)"

text \<open>\<open>while ((1 << log2n) < n) log2n++\<close>; at most 31 steps for an \<open>int\<close>.\<close>

definition log2n :: "nat \<Rightarrow> nat" where
  "log2n n = log2_from 31 0 n"

definition reverse_bits :: "nat \<Rightarrow> nat \<Rightarrow> nat" where
  "reverse_bits l i = foldl (\<lambda>j k. j OR push_bit (l - 1 - k) (drop_bit k i AND 1)) 0 [0..<l]"

definition swap_step :: "nat \<Rightarrow> nat \<Rightarrow> 'a list \<Rightarrow> 'a list outcome" where
  "swap_step l i x =
     (let j = reverse_bits l i
      in if j > i then bnd (ensure (j < length x) Undefined) (\<lambda>_. Inr (x[i := x ! j, j := x ! i])) else Inr x)"

definition butterfly :: "'a::{one,plus,minus,times} \<Rightarrow> nat \<Rightarrow> nat \<Rightarrow> nat \<Rightarrow> 'a \<times> 'a list \<Rightarrow> ('a \<times> 'a list) outcome" where
  "butterfly wm k half j st =
     (let (w, x) = st in
      bnd (elem x (k + j + half)) (\<lambda>b. bnd (elem x (k + j)) (\<lambda>u.
      let t = w * b in Inr (w * wm, x[k + j := u + t, k + j + half := u - t]))))"

definition fft_block :: "'a::{one,plus,minus,times} \<Rightarrow> nat \<Rightarrow> nat \<Rightarrow> 'a list \<Rightarrow> 'a list outcome" where
  "fft_block wm m b x = bnd (each_outcome (butterfly wm (b * m) (m div 2)) [0..<m div 2] (1, x)) (\<lambda>(w, x). Inr x)"

text \<open>\<open>for (k = 0; k < n; k += m)\<close> visits the multiples of \<open>m\<close> below \<open>n\<close>.\<close>

definition fft_stage :: "(nat \<Rightarrow> 'a::{one,plus,minus,times}) \<Rightarrow> nat \<Rightarrow> nat \<Rightarrow> 'a list \<Rightarrow> 'a list outcome" where
  "fft_stage wm n s x = (let m = 2 ^ s in each_outcome (fft_block (wm m) m) [0..<(n + m - 1) div m] x)"

definition fft :: "(nat \<Rightarrow> 'a::{one,plus,minus,times}) \<Rightarrow> 'a list \<Rightarrow> 'a list outcome" where
  "fft wm x =
     (let n = length x; l = log2n n in
      if n \<le> 1 then Inr x
      else bnd (ensure (n \<le> 2 ^ 30) Undefined) (\<lambda>_.
           bnd (each_outcome (swap_step l) [0..<n] x) (each_outcome (\<lambda>s. fft_stage wm n (s + 1)) [0..<l])))"

subsection \<open>The complex numbers of the program\<close>

datatype cf32 = CF32 (re32: f32) (im32: f32)

text \<open>
  The product of two \<open>std::complex<float>\<close>: the plain formula, and the recovery of infinities of
  the C standard (annex G) when both parts come out as NaN.
\<close>

definition unit_sign :: "f32 \<Rightarrow> f32" where
  "unit_sign x =
     (case fl32 x of FInf s \<Rightarrow> F32 (FFin s 1) | FFin s m \<Rightarrow> F32 (FFin s 0) | FNaN \<Rightarrow> 0)"

definition nan_to_zero :: "f32 \<Rightarrow> f32" where
  "nan_to_zero x = (if is_nan32 x then 0 else x)"

definition complex_times :: "cf32 \<Rightarrow> cf32 \<Rightarrow> cf32" where
  "complex_times z w =
     (let a = re32 z; b = im32 z; c = re32 w; d = im32 w;
          ac = a * c; bd = b * d; ad = a * d; bc = b * c; x = ac - bd; y = ad + bc
      in if \<not> (is_nan32 x \<and> is_nan32 y) then CF32 x y
         else
           let z_inf = is_inf32 a \<or> is_inf32 b;
               (a, b, c, d) = (if z_inf then (unit_sign a, unit_sign b, nan_to_zero c, nan_to_zero d) else (a, b, c, d));
               w_inf = is_inf32 c \<or> is_inf32 d;
               (a, b, c, d) = (if w_inf then (nan_to_zero a, nan_to_zero b, unit_sign c, unit_sign d) else (a, b, c, d));
               over = \<not> z_inf \<and> \<not> w_inf \<and> (is_inf32 ac \<or> is_inf32 bd \<or> is_inf32 ad \<or> is_inf32 bc);
               (a, b, c, d) = (if over then (nan_to_zero a, nan_to_zero b, nan_to_zero c, nan_to_zero d) else (a, b, c, d))
           in if z_inf \<or> w_inf \<or> over then CF32 (f32_inf * (a * c - b * d)) (f32_inf * (a * d + b * c))
              else CF32 x y)"

instantiation cf32 :: "{zero, one, plus, minus, times}"
begin

definition zero_cf32 :: cf32 where "0 = CF32 0 0"
definition one_cf32 :: cf32 where "1 = CF32 1 0"
definition plus_cf32 :: "cf32 \<Rightarrow> cf32 \<Rightarrow> cf32" where "z + w = CF32 (re32 z + re32 w) (im32 z + im32 w)"
definition minus_cf32 :: "cf32 \<Rightarrow> cf32 \<Rightarrow> cf32" where "z - w = CF32 (re32 z - re32 w) (im32 z - im32 w)"
definition times_cf32 :: "cf32 \<Rightarrow> cf32 \<Rightarrow> cf32" where "z * w = complex_times z w"

instance ..

end

text \<open>\<open>M_PI\<close> as a \<open>float\<close>, and \<open>std::polar(1.0f, -2.0f * (float)M_PI / m)\<close>.\<close>

definition pi32 :: f32 where
  "pi32 = F32 (FFin False (13176795 / 2 ^ 22))"

definition polar32 :: "libm \<Rightarrow> nat \<Rightarrow> cf32" where
  "polar32 lm m =
     (let theta = - f32_of_int 2 * pi32 / f32_of_int (int m)
      in CF32 (1 * cosf lm theta) (1 * sinf lm theta))"

subsection \<open>Bit reversal\<close>

lemma log2_from_le: "l \<le> p \<Longrightarrow> p - l \<le> fuel \<Longrightarrow> log2_from fuel l (2 ^ p) = p"
proof (induction fuel arbitrary: l)
  case (Suc fuel)
  then show ?case by (cases "l = p") (simp_all add: power_strict_increasing_iff)
qed simp

lemma log2n_pow2: "p \<le> 31 \<Longrightarrow> log2n (2 ^ p) = p"
  by (simp add: log2n_def log2_from_le)

lemma bit_drop_and_one: "bit (drop_bit k i AND 1 :: nat) q \<longleftrightarrow> q = 0 \<and> bit i k"
  by (auto simp: bit_simps simp flip: bit_iff_odd_drop_bit)

lemma bit_foldl_or:
  "bit (foldl (\<lambda>j k. j OR g k) a ks) q \<longleftrightarrow> bit a q \<or> (\<exists>k \<in> set ks. bit (g k) q)" for a :: nat
  by (induction ks arbitrary: a) (auto simp: bit_or_iff)

lemma bit_reverse_bits: "bit (reverse_bits l i) q \<longleftrightarrow> q < l \<and> bit i (l - 1 - q)"
proof -
  have "bit (push_bit (l - 1 - k) (drop_bit k i AND 1)) q \<longleftrightarrow> q = l - 1 - k \<and> bit i k" for k
    unfolding bit_push_bit_iff bit_drop_and_one by auto
  then have "bit (reverse_bits l i) q \<longleftrightarrow> (\<exists>k < l. q = l - 1 - k \<and> bit i k)"
    unfolding reverse_bits_def bit_foldl_or by auto
  also have "\<dots> \<longleftrightarrow> q < l \<and> bit i (l - 1 - q)"
  proof
    assume "\<exists>k < l. q = l - 1 - k \<and> bit i k"
    then obtain k where k: "k < l" "q = l - 1 - k" "bit i k" by blast
    then have "l - 1 - q = k" by simp
    then show "q < l \<and> bit i (l - 1 - q)" using k by simp
  next
    assume "q < l \<and> bit i (l - 1 - q)"
    then show "\<exists>k < l. q = l - 1 - k \<and> bit i k" by (intro exI [of _ "l - 1 - q"]) auto
  qed
  finally show ?thesis .
qed

lemma bit_ge_pow2: "i < 2 ^ l \<Longrightarrow> l \<le> q \<Longrightarrow> \<not> bit i q" for i :: nat
  by (metis bit_take_bit_iff linorder_not_less take_bit_nat_eq_self_iff)

lemma reverse_bits_less: "reverse_bits l i < 2 ^ l"
proof -
  have "take_bit l (reverse_bits l i) = reverse_bits l i"
    by (rule bit_eqI) (auto simp: bit_take_bit_iff bit_reverse_bits)
  then show ?thesis by (simp add: take_bit_nat_eq_self_iff)
qed

lemma reverse_bits_self: "i < 2 ^ l \<Longrightarrow> reverse_bits l (reverse_bits l i) = i"
proof (rule bit_eqI)
  fix q assume i: "i < 2 ^ l"
  show "bit (reverse_bits l (reverse_bits l i)) q = bit i q"
  proof (cases "q < l")
    case True
    then have "l - Suc (l - Suc q) = q" by simp
    then show ?thesis using True by (simp add: bit_reverse_bits)
  next
    case False
    then show ?thesis using bit_ge_pow2 [OF i] by (simp add: bit_reverse_bits)
  qed
qed

lemma bit_top: "p < 2 ^ l \<Longrightarrow> q \<le> l \<Longrightarrow> bit (2 ^ l + p) q \<longleftrightarrow> q = l \<or> bit p q" for p :: nat
proof -
  assume p: "p < 2 ^ l" and q: "q \<le> l"
  have "(2 :: nat) ^ l = 2 ^ (l - q) * 2 ^ q" using q by (simp flip: power_add)
  then have "(2 ^ l + p) div 2 ^ q = 2 ^ (l - q) + p div 2 ^ q"
    by (metis div_mult_self3 nat_zero_less_power_iff not_gr_zero zero_neq_numeral)
  moreover have "\<not> bit p l" using p by (simp add: bit_ge_pow2)
  ultimately show ?thesis using q by (cases "q = l") (auto simp: bit_iff_odd)
qed

lemma reverse_bits_low: "p < 2 ^ l \<Longrightarrow> reverse_bits (Suc l) p = 2 * reverse_bits l p"
proof (rule bit_eqI)
  fix q assume "p < 2 ^ l"
  then have "\<not> bit p l" by (simp add: bit_ge_pow2)
  then show "bit (reverse_bits (Suc l) p) q = bit (2 * reverse_bits l p) q"
    by (cases q) (auto simp: bit_reverse_bits bit_double_iff bit_0 simp flip: bit_0)
qed

lemma reverse_bits_high: "p < 2 ^ l \<Longrightarrow> reverse_bits (Suc l) (2 ^ l + p) = 2 * reverse_bits l p + 1"
proof (rule bit_eqI)
  fix q assume p: "p < 2 ^ l"
  have "bit (reverse_bits (Suc l) (2 ^ l + p)) q \<longleftrightarrow> q \<le> l \<and> (q = 0 \<or> bit p (l - q))"
    using bit_top [OF p, of "l - q"] by (auto simp: bit_reverse_bits)
  also have "\<dots> \<longleftrightarrow> bit (2 * reverse_bits l p + 1) q"
    using even_bit_succ_iff [of "2 * reverse_bits l p" q]
    by (cases q) (auto simp: bit_reverse_bits bit_double_iff bit_0)
  finally show "bit (reverse_bits (Suc l) (2 ^ l + p)) q = bit (2 * reverse_bits l p + 1) q" .
qed

subsection \<open>The swaps permute by bit reversal\<close>

lemma swaps_permute:
  assumes "length x = 2 ^ l"
  shows "each_outcome (swap_step l) [0..<2 ^ l] x = Inr (map (\<lambda>p. x ! reverse_bits l p) [0..<2 ^ l])"
proof -
  let ?r = "reverse_bits l"
  define I where "I t y \<longleftrightarrow> length y = 2 ^ l \<and>
    (\<forall>p < 2 ^ l. y ! p = (if p < t \<or> ?r p < t then x ! ?r p else x ! p))" for t y
  have inj: "?r p = ?r q \<longleftrightarrow> p = q" if "p < 2 ^ l" "q < 2 ^ l" for p q
    using that reverse_bits_self by metis
  have "\<exists>y. each_outcome (swap_step l) [0..<2 ^ l] x = Inr y \<and> I (2 ^ l) y"
  proof (rule each_outcome_upt)
    show "I 0 x" using assms by (simp add: I_def)
  next
    fix i y assume i: "i < 2 ^ l" and inv: "I i y"
    have y: "length y = 2 ^ l" "\<And>p. p < 2 ^ l \<Longrightarrow> y ! p = (if p < i \<or> ?r p < i then x ! ?r p else x ! p)"
      using inv by (auto simp: I_def)
    have ri: "?r i < 2 ^ l" "?r (?r i) = i" using i by (simp_all add: reverse_bits_less reverse_bits_self)
    have step: "swap_step l i y = Inr (if ?r i > i then y[i := y ! ?r i, ?r i := y ! i] else y)"
      using ri y(1) by (simp add: swap_step_def Let_def)
    have "I (Suc i) (if ?r i > i then y[i := y ! ?r i, ?r i := y ! i] else y)"
      unfolding I_def
    proof (intro conjI allI impI)
      fix p :: nat assume p: "p < 2 ^ l"
      have cases: "?r p = i \<longleftrightarrow> p = ?r i" using inj [OF p ri(1)] ri(2) reverse_bits_self p by metis
      show "(if ?r i > i then y[i := y ! ?r i, ?r i := y ! i] else y) ! p =
          (if p < Suc i \<or> ?r p < Suc i then x ! ?r p else x ! p)"
        using p i ri cases y by (auto simp: nth_list_update less_Suc_eq)
    qed (simp add: y)
    then show "\<exists>y'. swap_step l i y = Inr y' \<and> I (Suc i) y'" using step by simp
  qed
  then obtain y where y: "each_outcome (swap_step l) [0..<2 ^ l] x = Inr y" "I (2 ^ l) y" by blast
  have "y = map (\<lambda>p. x ! ?r p) [0..<2 ^ l]"
    using y(2) by (intro nth_equalityI) (auto simp: I_def)
  then show ?thesis using y(1) by simp
qed

subsection \<open>A stage in closed form\<close>

definition stage_entry :: "nat \<Rightarrow> 'a::comm_ring_1 \<Rightarrow> 'a list \<Rightarrow> nat \<Rightarrow> 'a" where
  "stage_entry h w x p =
     (let j = p mod (2 * h)
      in if j < h then x ! p + w ^ j * x ! (p + h) else x ! (p - h) - w ^ (j - h) * x ! p)"

definition stage_at :: "nat \<Rightarrow> 'a::comm_ring_1 \<Rightarrow> 'a list \<Rightarrow> 'a list" where
  "stage_at h w x = map (stage_entry h w x) [0..<length x]"

lemma block_mod: "b * m \<le> p \<Longrightarrow> p < b * m + m \<Longrightarrow> p mod m = p - b * m" for p :: nat
proof -
  assume "b * m \<le> p" "p < b * m + m"
  then have "p = (p - b * m) + m * b" "p - b * m < m" by simp_all
  then show ?thesis by (metis mod_less mod_mult_self2)
qed

lemma fft_block_result:
  fixes w :: "'a::comm_ring_1"
  assumes "0 < h" "b * (2 * h) + 2 * h \<le> length x"
  shows "\<exists>y. fft_block w (2 * h) b x = Inr y \<and> length y = length x \<and>
    (\<forall>p < length x. y ! p = (if b * (2 * h) \<le> p \<and> p < b * (2 * h) + 2 * h then stage_entry h w x p else x ! p))"
proof -
  let ?k = "b * (2 * h)"
  define I where "I j st \<longleftrightarrow> fst st = w ^ j \<and> length (snd st) = length x \<and>
    (\<forall>p < length x. snd st ! p = (if ?k \<le> p \<and> p < ?k + j \<or> ?k + h \<le> p \<and> p < ?k + h + j then stage_entry h w x p else x ! p))"
    for j and st :: "'a \<times> 'a list"
  have "\<exists>st. each_outcome (butterfly w ?k h) [0..<h] (1, x) = Inr st \<and> I h st"
  proof (rule each_outcome_upt)
    show "I 0 (1, x)" by (auto simp: I_def)
  next
    fix j and st :: "'a \<times> 'a list" assume j: "j < h" and inv: "I j st"
    obtain w' y where st: "st = (w', y)" by fastforce
    have w': "w' = w ^ j" and len: "length y = length x"
      and y: "\<And>p. p < length x \<Longrightarrow> y ! p = (if ?k \<le> p \<and> p < ?k + j \<or> ?k + h \<le> p \<and> p < ?k + h + j then stage_entry h w x p else x ! p)"
      using inv st by (auto simp: I_def)
    have in1: "?k + j < length x" and in2: "?k + j + h < length x" using j assms by simp_all
    have y12: "y ! (?k + j) = x ! (?k + j)" "y ! (?k + j + h) = x ! (?k + j + h)"
      using y [OF in1] y [OF in2] j by simp_all
    have e1: "stage_entry h w x (?k + j) = x ! (?k + j) + w ^ j * x ! (?k + j + h)"
      using block_mod [of b "2 * h" "?k + j"] j by (simp add: stage_entry_def)
    have e2: "stage_entry h w x (?k + j + h) = x ! (?k + j) - w ^ j * x ! (?k + j + h)"
      using block_mod [of b "2 * h" "?k + j + h"] j by (simp add: stage_entry_def)
    let ?y' = "y[?k + j := x ! (?k + j) + w ^ j * x ! (?k + j + h), ?k + j + h := x ! (?k + j) - w ^ j * x ! (?k + j + h)]"
    have "butterfly w ?k h j st = Inr (w ^ Suc j, ?y')"
      using in1 in2 len y12 by (simp add: butterfly_def st w' Let_def)
    moreover have "I (Suc j) (w ^ Suc j, ?y')"
      unfolding I_def
    proof (intro conjI allI impI)
      fix p assume p: "p < length x"
      show "snd (w ^ Suc j, ?y') ! p = (if ?k \<le> p \<and> p < ?k + Suc j \<or> ?k + h \<le> p \<and> p < ?k + h + Suc j then stage_entry h w x p else x ! p)"
      proof (cases "p = ?k + j \<or> p = ?k + j + h")
        case True
        then show ?thesis using e1 e2 in1 in2 len j assms(1) by (auto simp: nth_list_update)
      next
        case False
        then show ?thesis using y [OF p] by (auto simp: nth_list_update)
      qed
    qed (simp_all add: len)
    ultimately show "\<exists>st'. butterfly w ?k h j st = Inr st' \<and> I (Suc j) st'" by blast
  qed
  then obtain w' y where "each_outcome (butterfly w ?k h) [0..<h] (1, x) = Inr (w', y)" "I h (w', y)" by auto
  moreover from this have "y ! p = (if ?k \<le> p \<and> p < ?k + 2 * h then stage_entry h w x p else x ! p)" if "p < length x" for p
    using that by (auto simp: I_def)
  ultimately show ?thesis by (auto simp: fft_block_def I_def)
qed

lemma stage_entry_cong:
  assumes "0 < h" "b * (2 * h) \<le> p" "p < b * (2 * h) + 2 * h" "2 * h dvd d"
    and "\<And>q. b * (2 * h) \<le> q \<Longrightarrow> q < b * (2 * h) + 2 * h \<Longrightarrow> y ! (q + d) = x ! q"
  shows "stage_entry h w y (p + d) = stage_entry h w x p"
proof -
  have p: "p mod (2 * h) = p - b * (2 * h)" using block_mod assms(2,3) by blast
  moreover have "(p + d) mod (2 * h) = p mod (2 * h)" using assms(4) by (metis dvdE mod_mult_self2)
  moreover have "y ! (p + d) = x ! p" using assms by blast
  moreover have "y ! (p + d + h) = x ! (p + h)" if "p - b * (2 * h) < h"
    using assms(5) [of "p + h"] assms(2) that by (simp add: ac_simps)
  moreover have "y ! (p + d - h) = x ! (p - h)" if "\<not> p - b * (2 * h) < h"
    using assms(5) [of "p - h"] assms(1,2,3) that by simp
  ultimately show ?thesis by (simp add: stage_entry_def Let_def)
qed

lemma count_blocks: "0 < m \<Longrightarrow> (c * m + m - 1) div m = c" for m :: nat
proof -
  assume m: "0 < m"
  then have "c * m + m - 1 = c * m + (m - 1)" by simp
  moreover have "(c * m + (m - 1)) div m = c + (m - 1) div m" using m by (intro div_mult_self3) simp
  ultimately show ?thesis using m by simp
qed

lemma fft_stage_result:
  assumes "0 < h" "2 * h = 2 ^ s" "2 * h dvd n" "length x = n"
  shows "fft_stage wm n s x = Inr (stage_at h (wm (2 * h)) x)"
proof -
  let ?w = "wm (2 * h)"
  obtain c where n: "n = c * (2 * h)" using assms(3) by (metis dvdE mult.commute)
  have blocks: "(n + 2 * h - 1) div (2 * h) = c" unfolding n using assms(1) by (intro count_blocks) simp
  define I where "I b y \<longleftrightarrow> length y = n \<and> (\<forall>p < n. y ! p = (if p < b * (2 * h) then stage_entry h ?w x p else x ! p))" for b y
  have "\<exists>y. each_outcome (fft_block ?w (2 * h)) [0..<c] x = Inr y \<and> I c y"
  proof (rule each_outcome_upt)
    show "I 0 x" by (simp add: I_def assms(4))
  next
    fix b y assume b: "b < c" and inv: "I b y"
    have "(b + 1) * (2 * h) \<le> n" unfolding n using b by (intro mult_le_mono1) simp
    then have fits: "b * (2 * h) + 2 * h \<le> length y" using inv by (simp add: I_def)
    obtain y' where y': "fft_block ?w (2 * h) b y = Inr y'" "length y' = length y"
      "\<forall>p < length y. y' ! p = (if b * (2 * h) \<le> p \<and> p < b * (2 * h) + 2 * h then stage_entry h ?w y p else y ! p)"
      using fft_block_result [OF assms(1) fits] by blast
    have "stage_entry h ?w y p = stage_entry h ?w x p" if "b * (2 * h) \<le> p" "p < b * (2 * h) + 2 * h" for p
      using stage_entry_cong [of h b p 0 y x ?w] assms(1) that inv fits by (auto simp: I_def)
    then have "I (Suc b) y'" using inv y'(2,3) by (auto simp: I_def)
    then show "\<exists>y'. fft_block ?w (2 * h) b y = Inr y' \<and> I (Suc b) y'" using y'(1) by blast
  qed
  then obtain y where y: "each_outcome (fft_block ?w (2 * h)) [0..<c] x = Inr y" "I c y" by blast
  have "y = stage_at h ?w x" using y(2) n assms(4) by (intro nth_equalityI) (auto simp: I_def stage_at_def)
  then show ?thesis using y(1) blocks by (simp add: fft_stage_def assms(2) [symmetric] Let_def)
qed

lemma stage_at_append:
  assumes "0 < h" "2 * h dvd length a" "2 * h dvd length b"
  shows "stage_at h w (a @ b) = stage_at h w a @ stage_at h w b"
proof (rule nth_equalityI)
  fix p assume "p < length (stage_at h w (a @ b))"
  then have p: "p < length a + length b" by (simp add: stage_at_def)
  show "stage_at h w (a @ b) ! p = (stage_at h w a @ stage_at h w b) ! p"
  proof (cases "p < length a")
    case True
    let ?b = "p div (2 * h)"
    have lo: "?b * (2 * h) \<le> p" "p < ?b * (2 * h) + 2 * h"
      using assms(1) by (simp, metis dividend_less_div_times mult.commute add.commute nat_0_less_mult_iff pos2)
    have "?b < length a div (2 * h)" using True assms(2) by (simp add: div_less_iff_less_mult assms(1))
    then have "(?b + 1) * (2 * h) \<le> (length a div (2 * h)) * (2 * h)" by (intro mult_le_mono1) simp
    then have "?b * (2 * h) + 2 * h \<le> length a" using assms(2) by simp
    then have "stage_entry h w (a @ b) (p + 0) = stage_entry h w a p"
      using lo assms(1) by (intro stage_entry_cong [where b = ?b]) (auto simp: nth_append)
    then show ?thesis using True p by (simp add: stage_at_def nth_append)
  next
    case False
    let ?q = "p - length a"
    have lo: "?q div (2 * h) * (2 * h) \<le> ?q" "?q < ?q div (2 * h) * (2 * h) + 2 * h"
      using assms(1) by (simp, metis dividend_less_div_times mult.commute add.commute nat_0_less_mult_iff pos2)
    have "stage_entry h w (a @ b) (?q + length a) = stage_entry h w b ?q"
      using lo assms by (intro stage_entry_cong [where b = "?q div (2 * h)"]) (auto simp: nth_append)
    then show ?thesis using False p by (simp add: stage_at_def nth_append)
  qed
qed (simp add: stage_at_def)

subsection \<open>The discrete Fourier transform\<close>

definition dft :: "'a::comm_ring_1 \<Rightarrow> 'a list \<Rightarrow> 'a list" where
  "dft w xs = map (\<lambda>k. \<Sum>j<length xs. xs ! j * w ^ (j * k)) [0..<length xs]"

lemma length_dft [simp]: "length (dft w xs) = length xs"
  by (simp add: dft_def)

definition evens :: "'a list \<Rightarrow> 'a list" where
  "evens xs = map (\<lambda>i. xs ! (2 * i)) [0..<length xs div 2]"

definition odds :: "'a list \<Rightarrow> 'a list" where
  "odds xs = map (\<lambda>i. xs ! (2 * i + 1)) [0..<length xs div 2]"

definition bit_reversed :: "nat \<Rightarrow> 'a list \<Rightarrow> 'a list" where
  "bit_reversed l x = map (\<lambda>p. x ! reverse_bits l p) [0..<2 ^ l]"

definition stages :: "(nat \<Rightarrow> 'a::comm_ring_1) \<Rightarrow> nat \<Rightarrow> 'a list \<Rightarrow> 'a list" where
  "stages wm l x = fold (\<lambda>s. stage_at (2 ^ s) (wm (2 * 2 ^ s))) [0..<l] x"

lemma bit_reversed_Suc:
  assumes "length x = 2 ^ Suc l"
  shows "bit_reversed (Suc l) x = bit_reversed l (evens x) @ bit_reversed l (odds x)"
proof (rule nth_equalityI)
  fix p assume "p < length (bit_reversed (Suc l) x)"
  then have p: "p < 2 * 2 ^ l" by (simp add: bit_reversed_def)
  show "bit_reversed (Suc l) x ! p = (bit_reversed l (evens x) @ bit_reversed l (odds x)) ! p"
  proof (cases "p < 2 ^ l")
    case True
    then show ?thesis
      using p assms reverse_bits_less [of l p] by (simp add: bit_reversed_def nth_append reverse_bits_low evens_def)
  next
    case False
    then obtain q where q: "p = 2 ^ l + q" "q < 2 ^ l" using p by (metis add_less_cancel_left le_Suc_ex mult_2 not_less)
    then show ?thesis
      using assms reverse_bits_less [of l q] by (simp add: bit_reversed_def nth_append reverse_bits_high odds_def)
  qed
qed (simp add: bit_reversed_def)

lemma length_stages [simp]: "length (stages wm l x) = length x"
  by (induction l) (simp_all add: stages_def stage_at_def)

lemma stages_append:
  "k \<le> l \<Longrightarrow> length a = 2 ^ l \<Longrightarrow> length b = 2 ^ l \<Longrightarrow> stages wm k (a @ b) = stages wm k a @ stages wm k b"
proof (induction k)
  case (Suc k)
  have "2 * 2 ^ k dvd (2 :: nat) ^ l" using Suc.prems(1) le_imp_power_dvd [of "Suc k" l "2 :: nat"] by simp
  then show ?case
    using Suc stage_at_append [of "2 ^ k" "stages wm k a" "stages wm k b"]
    by (simp add: stages_def length_stages [unfolded stages_def])
qed (simp add: stages_def)

lemma sum_even_odd: "(\<Sum>j<2 * n. f j) = (\<Sum>j<n. f (2 * j)) + (\<Sum>j<n. f (2 * j + 1))" for f :: "nat \<Rightarrow> 'a::comm_monoid_add"
  by (induction n) (simp_all add: ac_simps)

locale twiddles =
  fixes wm :: "nat \<Rightarrow> 'a::comm_ring_1"
  assumes wm_square: "0 < m \<Longrightarrow> wm (2 * m) ^ 2 = wm m"
    and wm_half: "0 < m \<Longrightarrow> wm (2 * m) ^ m = - 1"
begin

lemma dft_radix2:
  assumes "length x = 2 * m" "0 < m"
  shows "stage_at m (wm (2 * m)) (dft (wm m) (evens x) @ dft (wm m) (odds x)) = dft (wm (2 * m)) x"
proof (rule nth_equalityI)
  let ?w = "wm (2 * m)" and ?y = "dft (wm m) (evens x) @ dft (wm m) (odds x)"
  fix p assume "p < length (stage_at m ?w ?y)"
  then have p: "p < 2 * m" using assms(1) by (simp add: stage_at_def dft_def evens_def odds_def)
  have sq: "wm m ^ k = ?w ^ (2 * k)" for k using wm_square [OF assms(2)] by (simp add: power_mult)
  have ev: "?y ! q = (\<Sum>j<m. x ! (2 * j) * ?w ^ (2 * (j * q)))" if "q < m" for q
    using that assms(1) by (simp add: dft_def nth_append evens_def sq)
  have od: "?y ! (q + m) = (\<Sum>j<m. x ! (2 * j + 1) * ?w ^ (2 * (j * q)))" if "q < m" for q
    using that assms(1) by (simp add: dft_def nth_append evens_def odds_def sq)
  have split: "dft ?w x ! p = (\<Sum>j<m. x ! (2 * j) * ?w ^ (2 * (j * p))) + ?w ^ p * (\<Sum>j<m. x ! (2 * j + 1) * ?w ^ (2 * (j * p)))"
  proof -
    have "dft ?w x ! p = (\<Sum>j<2 * m. x ! j * ?w ^ (j * p))" using p assms(1) by (simp add: dft_def)
    also have "\<dots> = (\<Sum>j<m. x ! (2 * j) * ?w ^ (2 * j * p)) + (\<Sum>j<m. x ! (2 * j + 1) * ?w ^ ((2 * j + 1) * p))"
      by (rule sum_even_odd)
    also have "(\<Sum>j<m. x ! (2 * j + 1) * ?w ^ ((2 * j + 1) * p)) = ?w ^ p * (\<Sum>j<m. x ! (2 * j + 1) * ?w ^ (2 * (j * p)))"
      unfolding sum_distrib_left by (rule sum.cong) (simp_all add: power_add ac_simps)
    finally show ?thesis by (simp add: mult.assoc)
  qed
  show "stage_at m ?w ?y ! p = dft ?w x ! p"
  proof (cases "p < m")
    case True
    then show ?thesis
      using p assms(1) ev [OF True] od [OF True] split
      by (simp add: stage_at_def stage_entry_def evens_def odds_def length_dft)
  next
    case False
    then obtain q where q: "p = q + m" "q < m" using p by (metis add.commute add_less_cancel_left le_Suc_ex mult_2 not_less)
    have shift: "?w ^ (2 * (j * p)) = ?w ^ (2 * (j * q))" for j
    proof -
      have "?w ^ (2 * (j * p)) = ?w ^ (2 * (j * q)) * (?w ^ m) ^ (2 * j)"
        by (simp add: q(1) power_add [symmetric] power_mult [symmetric] algebra_simps)
      then show ?thesis by (simp add: wm_half [OF assms(2)])
    qed
    have "?w ^ p = - (?w ^ q)" by (simp add: q(1) power_add wm_half [OF assms(2)])
    then show ?thesis
      using p q assms(1) ev [OF q(2)] od [OF q(2)] split shift
      by (simp add: stage_at_def stage_entry_def evens_def odds_def length_dft)
  qed
qed (simp add: stage_at_def dft_def evens_def odds_def assms)

lemma stages_dft: "length x = 2 ^ l \<Longrightarrow> stages wm l (bit_reversed l x) = dft (wm (2 ^ l)) x"
proof (induction l arbitrary: x)
  case 0
  then show ?case by (simp add: stages_def bit_reversed_def dft_def reverse_bits_def)
next
  case (Suc l)
  have len: "length (evens x) = 2 ^ l" "length (odds x) = 2 ^ l" using Suc.prems by (simp_all add: evens_def odds_def)
  have "stages wm (Suc l) (bit_reversed (Suc l) x) =
      stage_at (2 ^ l) (wm (2 * 2 ^ l)) (stages wm l (bit_reversed l (evens x) @ bit_reversed l (odds x)))"
    using bit_reversed_Suc [OF Suc.prems] by (simp add: stages_def)
  also have "stages wm l (bit_reversed l (evens x) @ bit_reversed l (odds x)) =
      dft (wm (2 ^ l)) (evens x) @ dft (wm (2 ^ l)) (odds x)"
    using Suc.IH [OF len(1)] Suc.IH [OF len(2)]
      stages_append [of l l "bit_reversed l (evens x)" "bit_reversed l (odds x)" wm]
    by (simp add: bit_reversed_def)
  finally show ?case using dft_radix2 [of x "2 ^ l"] Suc.prems by simp
qed

lemma fft_dft:
  assumes "length x = 2 ^ l" "l \<le> 30"
  shows "fft wm x = Inr (dft (wm (2 ^ l)) x)"
proof (cases "l = 0")
  case True
  then show ?thesis using assms(1) stages_dft [of x 0]
    by (cases x) (simp_all add: fft_def dft_def)
next
  case False
  have n: "1 < (2 :: nat) ^ l" "(2 :: nat) ^ l \<le> 2 ^ 30" using False one_less_power [of "2 :: nat" l] power_increasing [OF assms(2), of "2 :: nat"] by simp_all
  have run: "each_outcome (\<lambda>s. fft_stage wm (2 ^ l) (s + 1)) [0..<k] y = Inr (stages wm k y)"
    if "length y = 2 ^ l" "k \<le> l" for y k
    using that(2)
  proof (induction k)
    case (Suc k)
    have "2 * 2 ^ k dvd (2 :: nat) ^ l" using Suc.prems le_imp_power_dvd [of "Suc k" l "2 :: nat"] by simp
    then have "fft_stage wm (2 ^ l) (k + 1) (stages wm k y) = Inr (stage_at (2 ^ k) (wm (2 * 2 ^ k)) (stages wm k y))"
      by (intro fft_stage_result) (simp_all add: that(1))
    then show ?case using Suc by (simp add: each_outcome_append stages_def)
  qed (simp add: stages_def)
  show ?thesis
    using n assms swaps_permute [OF assms(1)] log2n_pow2 [of l] run [of "bit_reversed l x" l] stages_dft [OF assms(1)]
    by (simp add: fft_def Let_def bnd_ensure flip: bit_reversed_def) (simp add: bit_reversed_def)
qed

end

text \<open>The exact value of \<open>std::polar(1, -2 * pi / m)\<close>.\<close>

definition unit_root :: "nat \<Rightarrow> complex" where
  "unit_root m = cis (- 2 * pi / of_nat m)"

interpretation complex_fft: twiddles unit_root
proof unfold_locales
  fix m :: nat assume m: "0 < m"
  show "unit_root (2 * m) ^ 2 = unit_root m" by (simp add: unit_root_def DeMoivre)
  have "real m * (- 2 * pi / real (2 * m)) = - pi" using m by simp
  then show "unit_root (2 * m) ^ m = - 1" by (simp add: unit_root_def DeMoivre complex_eq_iff)
qed

text \<open>
  C16. On exact complex numbers the iterative transform with bit reversal computes the discrete
  Fourier transform of every list whose length is a power of two.
\<close>

theorem fft_correct:
  assumes "length x = 2 ^ l" "l \<le> 30"
  shows "fft unit_root x = Inr (map (\<lambda>k. \<Sum>j<2 ^ l. x ! j * cis (- 2 * pi / 2 ^ l) ^ (j * k)) [0..<2 ^ l])"
  using complex_fft.fft_dft [OF assms] assms(1) by (simp add: dft_def unit_root_def)

lemma fft_correct_witness:
  "fft unit_root [1, 1] = Inr (map (\<lambda>k. \<Sum>j<2 ^ 1. [1, 1] ! j * cis (- 2 * pi / 2 ^ 1) ^ (j * k)) [0..<2 ^ 1])"
  by (rule fft_correct) simp_all

subsection \<open>Where the transform is defined\<close>

lemma butterfly_defined:
  "(\<exists>st'. butterfly w k h j st = Inr st') \<longleftrightarrow> k + j + h < length (snd st)"
  by (cases st) (auto simp: butterfly_def bnd_eq_Inr Let_def elem_def)

lemma butterfly_length: "butterfly w k h j st = Inr st' \<Longrightarrow> length (snd st') = length (snd st)"
  by (cases st) (auto simp: butterfly_def bnd_eq_Inr Let_def)

lemma fft_block_length: "fft_block w m b x = Inr y \<Longrightarrow> length y = length x"
  using each_outcome_invariant [of "butterfly w (b * m) (m div 2)" "[0..<m div 2]" "(1, x)" _ "\<lambda>st. length (snd st) = length x"]
  by (fastforce simp: fft_block_def bnd_eq_Inr butterfly_length)

lemma fft_stage_length: "fft_stage wm n s x = Inr y \<Longrightarrow> length y = length x"
  unfolding fft_stage_def Let_def
  by (erule each_outcome_invariant [where I = "\<lambda>y. length y = length x"]) (simp_all add: fft_block_length)

lemma swap_step_length: "swap_step l i x = Inr y \<Longrightarrow> length y = length x"
  by (auto simp: swap_step_def Let_def bnd_eq_Inr split: if_splits)

lemma fft_block_total:
  assumes "b * (2 * h) + 2 * h \<le> length x"
  shows "\<exists>y. fft_block w (2 * h) b x = Inr y \<and> length y = length x"
proof -
  have "\<exists>st. each_outcome (butterfly w (b * (2 * h)) h) [0..<h] (1, x) = Inr st \<and> length (snd st) = length x"
  proof (rule each_outcome_upt)
    fix j and st :: "'a \<times> 'a list" assume j: "j < h" and st: "length (snd st) = length x"
    then obtain st' where "butterfly w (b * (2 * h)) h j st = Inr st'"
      using butterfly_defined [of w "b * (2 * h)" h j st] assms by auto
    then show "\<exists>st'. butterfly w (b * (2 * h)) h j st = Inr st' \<and> length (snd st') = length x"
      using butterfly_length st by metis
  qed simp
  then show ?thesis by (auto simp: fft_block_def)
qed

lemma log2_from_bounds:
  "2 ^ l < 2 * n \<Longrightarrow> n \<le> 2 ^ (l + fuel) \<Longrightarrow> n \<le> 2 ^ log2_from fuel l n \<and> 2 ^ log2_from fuel l n < 2 * n"
proof (induction fuel arbitrary: l)
  case (Suc fuel)
  then show ?case using Suc.IH [of "l + 1"] by simp
qed simp

lemma log2n_bounds: "0 < n \<Longrightarrow> n \<le> 2 ^ 30 \<Longrightarrow> n \<le> 2 ^ log2n n \<and> 2 ^ log2n n < 2 * n"
  using log2_from_bounds [of 0 n 31] by (simp add: log2n_def)

lemma fft_total:
  assumes "length x = 2 ^ l" "l \<le> 30"
  shows "\<exists>y. fft wm x = Inr y"
proof (cases "l = 0")
  case False
  have n: "1 < (2 :: nat) ^ l" "(2 :: nat) ^ l \<le> 2 ^ 30"
    using False one_less_power [of "2 :: nat" l] power_increasing [OF assms(2), of "2 :: nat"] by simp_all
  have "\<exists>y. each_outcome (\<lambda>s. fft_stage wm (2 ^ l) (s + 1)) [0..<l] (bit_reversed l x) = Inr y \<and> length y = 2 ^ l"
  proof (rule each_outcome_upt [where I = "\<lambda>i y. length y = 2 ^ l"])
    fix s and y :: "'a list" assume s: "s < l" and y: "length y = 2 ^ l"
    have dv: "2 * 2 ^ s * 2 ^ (l - Suc s) = (2 :: nat) ^ l"
      using s by (simp flip: power_Suc power_add)
    then have "2 ^ l = 2 ^ (l - Suc s) * (2 * 2 ^ s :: nat)" by (simp add: ac_simps)
    then have count: "(2 ^ l + 2 * 2 ^ s - 1) div (2 * 2 ^ s) = (2 ^ (l - Suc s) :: nat)"
      using count_blocks [of "2 * 2 ^ s" "2 ^ (l - Suc s)"] by simp
    have "\<exists>z. each_outcome (fft_block (wm (2 * 2 ^ s)) (2 * 2 ^ s)) [0..<2 ^ (l - Suc s)] y = Inr z \<and> length z = 2 ^ l"
    proof (rule each_outcome_upt)
      fix b :: nat and z :: "'a list" assume b: "b < 2 ^ (l - Suc s)" and z: "length z = 2 ^ l"
      have "(b + 1) * (2 * 2 ^ s) \<le> 2 ^ (l - Suc s) * (2 * 2 ^ s)" using b by (intro mult_le_mono1) simp
      then have "b * (2 * 2 ^ s) + 2 * 2 ^ s \<le> length z" using dv z by (simp add: ac_simps)
      then show "\<exists>z'. fft_block (wm (2 * 2 ^ s)) (2 * 2 ^ s) b z = Inr z' \<and> length z' = 2 ^ l"
        using fft_block_total [of b "2 ^ s" z] z by metis
    qed (rule y)
    with count show "\<exists>z. fft_stage wm (2 ^ l) (s + 1) y = Inr z \<and> length z = 2 ^ l"
      by (simp add: fft_stage_def Let_def)
  qed (simp add: bit_reversed_def)
  then show ?thesis
    using n assms swaps_permute [OF assms(1)] log2n_pow2 [of l]
    by (auto simp: fft_def Let_def bnd_ensure simp flip: bit_reversed_def)
qed (use assms in \<open>simp add: fft_def\<close>)

text \<open>
  C22. On any arithmetic, and so on the program's, the transform stays inside its vector exactly
  when the length is 0, 1 or a power of two up to \<open>2 ^ 30\<close>; otherwise it reads out of bounds.
\<close>

theorem fft_defined_iff:
  fixes wm :: "nat \<Rightarrow> 'a::{one,plus,minus,times}"
  shows "(\<exists>y. fft wm x = Inr y) \<longleftrightarrow> length x = 0 \<or> (\<exists>l \<in> {0..30}. length x = 2 ^ l)"
proof
  assume "\<exists>y. fft wm x = Inr y"
  then obtain y where y: "fft wm x = Inr y" by blast
  let ?n = "length x" and ?l = "log2n (length x)"
  show "?n = 0 \<or> (\<exists>l \<in> {0..30}. ?n = 2 ^ l)"
  proof (cases "?n \<le> 1")
    case True
    then have "?n = 0 \<or> ?n = 2 ^ 0" unfolding power_0 by linarith
    then show ?thesis by (meson atLeastAtMost_iff le0)
  next
    case False
    then have small: "?n \<le> 2 ^ 30" using y by (auto simp: fft_def Let_def bnd_ensure split: if_splits)
    have bounds: "?n \<le> 2 ^ ?l" "2 ^ ?l < 2 * ?n" using log2n_bounds [OF _ small] False by linarith+
    obtain z where z: "each_outcome (swap_step ?l) [0..<?n] x = Inr z"
      "each_outcome (\<lambda>s. fft_stage wm ?n (s + 1)) [0..<?l] z = Inr y"
      using y False small by (auto simp: fft_def Let_def bnd_ensure bnd_eq_Inr split: if_splits)
    have "length z = ?n"
      using z(1) by (rule each_outcome_invariant [where I = "\<lambda>y. length y = ?n"]) (simp_all add: swap_step_length)
    moreover have l: "0 < ?l" using bounds False by (cases "?l = 0") auto
    ultimately have "\<exists>u v. length u = ?n \<and> fft_stage wm ?n (?l - 1 + 1) u = Inr v"
      by (intro each_outcome_reaches [OF z(2), of "?l - 1" "\<lambda>y. length y = ?n"]) (simp_all add: fft_stage_length)
    then obtain u v where u: "length u = ?n" "fft_stage wm ?n ?l u = Inr v" using l by auto
    let ?m = "2 ^ ?l :: nat"
    have "0 < (?n + ?m - 1) div ?m" using False by (simp add: div_greater_zero_iff)
    then have "0 \<in> set [0..<(?n + ?m - 1) div ?m]" by simp
    then have "\<exists>u' v'. length u' = ?n \<and> fft_block (wm ?m) ?m 0 u' = Inr v'"
      using u(1) by (intro each_outcome_reaches [OF u(2) [unfolded fft_stage_def Let_def], of 0 "\<lambda>y. length y = ?n"])
        (simp_all add: fft_block_length)
    then obtain u' v' where u': "length u' = ?n" "fft_block (wm ?m) ?m 0 u' = Inr v'" by blast
    have half: "?m div 2 + ?m div 2 = ?m" "0 < ?m div 2" using l by (cases ?l; simp)+
    obtain st where st: "each_outcome (butterfly (wm ?m) (0 * ?m) (?m div 2)) [0..<?m div 2] (1, u') = Inr st"
      using u'(2) by (auto simp: fft_block_def bnd_eq_Inr)
    have "\<exists>st st'. length (snd st) = ?n \<and> butterfly (wm ?m) (0 * ?m) (?m div 2) (?m div 2 - 1) st = Inr st'"
      using half(2) u'(1) by (intro each_outcome_reaches [OF st, of "?m div 2 - 1" "\<lambda>st. length (snd st) = ?n"])
        (simp_all add: butterfly_length)
    then obtain st st' where "length (snd st) = ?n" "butterfly (wm ?m) (0 * ?m) (?m div 2) (?m div 2 - 1) st = Inr st'"
      by blast
    then have "0 * ?m + (?m div 2 - 1) + ?m div 2 < ?n" using butterfly_defined by metis
    then have "?n = ?m" using half bounds(1) by simp
    moreover from this have "?l \<le> 30" using small power_le_imp_le_exp [of "2 :: nat" ?l 30] by simp
    ultimately show ?thesis by (intro disjI2 bexI [of _ ?l]) simp_all
  qed
next
  assume "length x = 0 \<or> (\<exists>l \<in> {0..30}. length x = 2 ^ l)"
  then consider "length x = 0" | l where "l \<le> 30" "length x = 2 ^ l" by auto
  then show "\<exists>y. fft wm x = Inr y"
  proof cases
    case 1
    then show ?thesis by (simp add: fft_def)
  next
    case 2
    then show ?thesis by (intro fft_total)
  qed
qed

end
