(* ===== verification/Fbank.thy ===== *)
theory Fbank
  imports Fft
begin

text \<open>
  The acoustic features of \<open>compute_fbank\<close> in \<open>examples/common_audio.cpp\<close>: framing, removal of
  the mean, pre-emphasis, Hamming window, power spectrum by \<open>fft\<close>, mel filters, logarithm, and
  the mean normalisation over time.
\<close>

subsection \<open>Frames\<close>

text \<open>\<open>static_cast<int>(ms * sample_rate / 1000.0f)\<close>\<close>

definition samples_of_ms :: "int \<Rightarrow> int \<Rightarrow> int outcome" where
  "samples_of_ms ms sample_rate = int_of_f32 (f32_of_int ms * f32_of_int sample_rate / f32_of_int 1000)"

text \<open>\<open>fft_size = 1; while (fft_size < frame_length) fft_size *= 2\<close>\<close>

definition fft_size :: "int \<Rightarrow> nat outcome" where
  "fft_size frame_length =
     bnd (ensure (frame_length \<le> 2 ^ 30) Undefined) (\<lambda>_. Inr (2 ^ log2n (nat frame_length)))"

text \<open>
  The size of the waveform is compared as an \<open>int\<close>; the number of frames is computed in
  \<open>size_t\<close> and converted back to \<open>int\<close>.
\<close>

definition frame_count :: "nat \<Rightarrow> int \<Rightarrow> int \<Rightarrow> int outcome" where
  "frame_count n frame_length frame_shift =
     (if sint (of_nat n :: 32 word) \<ge> frame_length then
        bnd (ensure ((of_int frame_shift :: 64 word) \<noteq> 0) Trapped) (\<lambda>_.
        Inr (sint (ucast (1 + (of_nat n - of_int frame_length) div of_int frame_shift :: 64 word) :: 32 word)))
      else Inr 0)"

subsection \<open>Mel filters\<close>

definition hz_to_mel :: "libm \<Rightarrow> f32 \<Rightarrow> f32" where
  "hz_to_mel m hz = f32_of_int 2595 * log10f m (1 + hz / f32_of_int 700)"

definition mel_to_hz :: "libm \<Rightarrow> f32 \<Rightarrow> f32" where
  "mel_to_hz m mel = f32_of_int 700 * (powf m (f32_of_int 10) (mel / f32_of_int 2595) - 1)"

definition high_freq :: "int \<Rightarrow> f32" where
  "high_freq sample_rate =
     (let nyquist = f32_of_int sample_rate / f32_of_int 2; high = nyquist + 0
      in if high > nyquist then nyquist else high)"

definition hz_points :: "libm \<Rightarrow> int \<Rightarrow> nat \<Rightarrow> f32 list" where
  "hz_points m sample_rate n_mels =
     (let low_mel = hz_to_mel m (f32_of_int 20); high_mel = hz_to_mel m (high_freq sample_rate)
      in map (\<lambda>i. mel_to_hz m (low_mel + (high_mel - low_mel) * f32_of_int (int i) / f32_of_int (int n_mels + 1)))
           [0..<n_mels + 2])"

text \<open>\<open>freq \<ge> left\<close> etc. are the comparisons of \<open>float\<close>; \<open>!=\<close> is true on a NaN.\<close>

definition filter_weight :: "f32 \<Rightarrow> f32 \<Rightarrow> f32 \<Rightarrow> f32 \<Rightarrow> f32" where
  "filter_weight left_hz center_hz right_hz freq =
     (if freq \<ge> left_hz \<and> freq < center_hz then
        (if \<not> fl_eq (fl32 center_hz) (fl32 left_hz) then (freq - left_hz) / (center_hz - left_hz) else 0)
      else if freq \<ge> center_hz \<and> freq \<le> right_hz then
        (if \<not> fl_eq (fl32 right_hz) (fl32 center_hz) then (right_hz - freq) / (right_hz - center_hz) else 0)
      else 0)"

definition filterbank :: "libm \<Rightarrow> int \<Rightarrow> nat \<Rightarrow> nat \<Rightarrow> f32 list list" where
  "filterbank m sample_rate n_mels size_fft =
     (let hz = hz_points m sample_rate n_mels
      in map (\<lambda>i. map (\<lambda>j. filter_weight (hz ! i) (hz ! (i + 1)) (hz ! (i + 2))
                 (f32_of_int (int j) * f32_of_int sample_rate / f32_of_int (int size_fft)))
               [0..<size_fft div 2 + 1])
           [0..<n_mels])"

subsection \<open>One frame\<close>

definition hamming_window :: "libm \<Rightarrow> nat \<Rightarrow> f32 list" where
  "hamming_window m frame_length =
     map (\<lambda>i. f32_of_rat (54 / 100) -
              f32_of_rat (46 / 100) * cosf m (f32_of_int 2 * pi32 * f32_of_int (int i) / f32_of_int (int frame_length)))
       [0..<frame_length]"

definition remove_mean :: "f32 list \<Rightarrow> f32 list" where
  "remove_mean xs = (let mean = foldl (+) 0 xs / f32_of_int (int (length xs)) in map (\<lambda>x. x - mean) xs)"

text \<open>The loop runs downwards, so every sample is reduced by its unchanged predecessor.\<close>

definition pre_emphasis :: "f32 list \<Rightarrow> f32 list outcome" where
  "pre_emphasis frame =
     (let coeff = f32_of_rat (97 / 100);
          frame' = foldl (\<lambda>f i. f[i := f ! i - coeff * f ! (i - 1)]) frame (rev [1..<length frame])
      in bnd (elem frame' 0) (\<lambda>x. Inr (frame'[0 := x * (1 - coeff)])))"

definition power_spectrum :: "libm \<Rightarrow> nat \<Rightarrow> f32 list \<Rightarrow> f32 list outcome" where
  "power_spectrum m size_fft frame =
     bnd (ensure (length frame \<le> size_fft) Undefined) (\<lambda>_.
     bnd (fft (polar32 m) (map (\<lambda>x. CF32 x 0) frame @ replicate (size_fft - length frame) (CF32 0 0))) (\<lambda>z.
     Inr (map (\<lambda>i. re32 (z ! i) * re32 (z ! i) + im32 (z ! i) * im32 (z ! i)) [0..<size_fft div 2 + 1])))"

definition mel_energy :: "libm \<Rightarrow> f32 list \<Rightarrow> f32 list \<Rightarrow> f32" where
  "mel_energy m spectrum weights =
     (let s = foldl (\<lambda>s j. s + spectrum ! j * weights ! j) 0 [0..<length spectrum];
          energy_floor = f32_of_rat (1192092896 / 10 ^ 16)
      in logf m (if s < energy_floor then energy_floor else s))"

definition frame_features :: "libm \<Rightarrow> f32 list list \<Rightarrow> f32 list \<Rightarrow> nat \<Rightarrow> f32 list \<Rightarrow> f32 list outcome" where
  "frame_features m filters window size_fft frame =
     bnd (pre_emphasis (remove_mean frame)) (\<lambda>frame.
     bnd (power_spectrum m size_fft (map2 (*) frame window)) (\<lambda>spectrum.
     Inr (map (mel_energy m spectrum) filters)))"

subsection \<open>The features of a waveform\<close>

text \<open>Mean normalisation of the column \<open>i\<close>, in place.\<close>

definition normalize_column :: "nat \<Rightarrow> nat \<Rightarrow> nat \<Rightarrow> f32 list \<Rightarrow> f32 list" where
  "normalize_column num_frames n_mels i fbank =
     (let mean = foldl (\<lambda>s t. s + fbank ! (t * n_mels + i)) 0 [0..<num_frames] / f32_of_int (int num_frames)
      in foldl (\<lambda>f t. f[t * n_mels + i := f ! (t * n_mels + i) - mean]) fbank [0..<num_frames])"

definition compute_fbank :: "libm \<Rightarrow> f32 list \<Rightarrow> int \<Rightarrow> nat \<Rightarrow> f32 list outcome" where
  "compute_fbank m waveform_in sample_rate n_mels =
     (let waveform = map (\<lambda>v. v * f32_of_int 32768) waveform_in in
      bnd (samples_of_ms 25 sample_rate) (\<lambda>frame_length.
      bnd (samples_of_ms 10 sample_rate) (\<lambda>frame_shift.
      bnd (fft_size frame_length) (\<lambda>size_fft.
      bnd (frame_count (length waveform) frame_length frame_shift) (\<lambda>num_frames.
      if num_frames = 0 then Inr []
      else
        bnd (ensure (num_frames * int n_mels \<in> {- (2 ^ 31)..<2 ^ 31}) Undefined) (\<lambda>_.
        bnd (ensure (0 \<le> num_frames * int n_mels \<and> 0 \<le> frame_length) Threw) (\<lambda>_.
        let L = nat frame_length; filters = filterbank m sample_rate n_mels size_fft; window = hamming_window m L in
        bnd (map_outcome (\<lambda>t.
               bnd (map_outcome (\<lambda>i. bnd (ensure (int t * frame_shift + int i \<in> {0..<2 ^ 31}) Undefined) (\<lambda>_.
                      elem waveform (nat (int t * frame_shift + int i)))) [0..<L]) (\<lambda>frame.
               frame_features m filters window size_fft frame)) [0..<nat num_frames]) (\<lambda>rows.
        Inr (foldl (\<lambda>f i. normalize_column (nat num_frames) n_mels i f) (concat rows) [0..<n_mels])))))))))"

subsection \<open>Totality at the sampling rate of the models\<close>

lemma length_updates [simp]: "length (foldl (\<lambda>f i. f[j i := g f i]) xs js) = length xs"
  by (induction js arbitrary: xs) simp_all

lemma pre_emphasis_defined: "xs \<noteq> [] \<Longrightarrow> \<exists>ys. pre_emphasis xs = Inr ys \<and> length ys = length xs"
  by (simp add: pre_emphasis_def Let_def elem_def del: length_greater_0_conv)

lemma length_normalize_column [simp]: "length (normalize_column k n i f) = length f"
  by (simp add: normalize_column_def Let_def)

lemma length_normalized [simp]: "length (foldl (\<lambda>f i. normalize_column k n i f) f is) = length f"
  by (induction "is" arbitrary: f) simp_all

lemma sizes_16k:
  "samples_of_ms 25 16000 = Inr 400" "samples_of_ms 10 16000 = Inr 160" "fft_size 400 = Inr (2 ^ 9)"
  by code_simp+

lemma sint_of_nat_small: "n < 2 ^ 31 \<Longrightarrow> sint (of_nat n :: 32 word) = int n"
proof -
  assume "n < 2 ^ 31"
  then have "int n < 2 ^ 31" by simp
  then have "sint (word_of_int (int n) :: 32 word) = int n" by (intro sint_of_int_small) simp_all
  then show ?thesis by simp
qed

lemma ucast_of_nat_small: "k < 2 ^ 64 \<Longrightarrow> ucast (of_nat k :: 64 word) = (of_nat k :: 32 word)"
  by (simp add: unsigned_of_nat take_bit_nat_eq_self)

lemma frame_count_16k:
  assumes "n < 2 ^ 31"
  shows "frame_count n 400 160 = Inr (if 400 \<le> n then int (1 + (n - 400) div 160) else 0)"
proof (cases "400 \<le> n")
  case True
  let ?k = "1 + (n - 400) div 160"
  have k: "?k < 2 ^ 31" using assms by simp
  have "(of_nat n - 400 :: 64 word) = of_nat (n - 400)" using True by (simp add: of_nat_diff)
  moreover have "(of_nat (n - 400) div 160 :: 64 word) = of_nat ((n - 400) div 160)"
    using assms by (simp add: word_unat_eq_iff unat_div unat_of_nat_small)
  ultimately have "(1 + (of_nat n - of_int 400) div of_int 160 :: 64 word) = of_nat ?k" by simp
  moreover have "ucast (of_nat ?k :: 64 word) = (of_nat ?k :: 32 word)"
    using k by (intro ucast_of_nat_small, elim less_trans) simp
  ultimately show ?thesis
    using True assms sint_of_nat_small [OF k] sint_of_nat_small [OF assms] by (simp add: frame_count_def)
qed (use sint_of_nat_small [OF assms] in \<open>simp add: frame_count_def\<close>)

lemma frame_features_defined:
  assumes "length frame = 400" "length window = 400"
  shows "\<exists>row. frame_features m filters window (2 ^ 9) frame = Inr row \<and> length row = length filters"
proof -
  have "length (remove_mean frame) = 400" using assms(1) by (simp add: remove_mean_def Let_def)
  then obtain f where f: "pre_emphasis (remove_mean frame) = Inr f" "length f = 400"
    using pre_emphasis_defined by (metis list.size(3) zero_neq_numeral)
  have "\<exists>z. fft (polar32 m) (map (\<lambda>x. CF32 x 0) (map2 (*) f window) @ replicate (2 ^ 9 - length (map2 (*) f window)) (CF32 0 0)) = Inr z"
    using f(2) assms(2) by (intro fft_total [where l = 9]) simp_all
  then show ?thesis using f assms(2) by (auto simp: frame_features_def power_spectrum_def bnd_ensure)
qed

lemma compute_fbank_defined:
  assumes "length waveform < 2 ^ 31" "n_mels \<le> 80"
  shows "\<exists>fbank. compute_fbank m waveform 16000 n_mels = Inr fbank \<and>
    length fbank = (if 400 \<le> length waveform then 1 + (length waveform - 400) div 160 else 0) * n_mels"
proof -
  let ?n = "length waveform" and ?w = "map (\<lambda>v. v * f32_of_int 32768) waveform"
  note start = compute_fbank_def sizes_16k Let_def frame_count_16k [OF assms(1)]
  show ?thesis
  proof (cases "400 \<le> ?n")
    case False
    then show ?thesis by (simp add: start)
  next
    case True
    let ?k = "1 + (?n - 400) div 160" and ?filters = "filterbank m 16000 n_mels (2 ^ 9)" and ?window = "hamming_window m 400"
    define row where "row t = bnd (map_outcome (\<lambda>i. bnd (ensure (int t * 160 + int i \<in> {0..<2 ^ 31}) Undefined) (\<lambda>_.
        elem ?w (nat (int t * 160 + int i)))) [0..<400]) (frame_features m ?filters ?window (2 ^ 9))" for t
    have "\<exists>r. row t = Inr r \<and> length r = n_mels" if "t < ?k" for t
    proof -
      have "t * 160 \<le> (?n - 400) div 160 * 160" using that by (intro mult_le_mono1) simp
      then have t: "t * 160 + 400 \<le> ?n" using True by (meson div_times_less_eq_dividend le_diff_conv2 order_trans)
      have "bnd (ensure (int t * 160 + int i \<in> {0..<2 ^ 31}) Undefined) (\<lambda>_. elem ?w (nat (int t * 160 + int i))) =
          Inr (?w ! (t * 160 + i))" if "i < 400" for i
      proof -
        have "int t * 160 + int i = int (t * 160 + i)" by simp
        moreover have "t * 160 + i < ?n" "t * 160 + i < 2 ^ 31" using t that assms(1) by simp_all
        ultimately show ?thesis by (simp only: nat_int) (simp add: bnd_ensure)
      qed
      then have "map_outcome (\<lambda>i. bnd (ensure (int t * 160 + int i \<in> {0..<2 ^ 31}) Undefined) (\<lambda>_.
          elem ?w (nat (int t * 160 + int i)))) [0..<400] = Inr (map (\<lambda>i. ?w ! (t * 160 + i)) [0..<400])"
        by (intro map_outcome_all) simp
      moreover have "length ?filters = n_mels" "length ?window = 400"
        by (simp_all add: filterbank_def hamming_window_def Let_def)
      ultimately show ?thesis
        using frame_features_defined [of "map (\<lambda>i. ?w ! (t * 160 + i)) [0..<400]" ?window m ?filters] by (simp add: row_def)
    qed
    then have row: "\<forall>t < ?k. \<exists>r. row t = Inr r \<and> length r = n_mels" by blast
    define r where "r t = projr (row t)" for t
    have r: "row t = Inr (r t)" "length (r t) = n_mels" if "t < ?k" for t using row that by (auto simp: r_def)
    have rows: "map_outcome row [0..<?k] = Inr (map r [0..<?k])" using r by (intro map_outcome_all) (simp only: set_upt atLeastLessThan_iff)
    have total: "length (concat (map r [0..<?k])) = ?k * n_mels"
      by (rule length_concat_rows) (rule r(2))
    have "?k * n_mels \<le> ?k * 80" using assms(2) by (intro mult_le_mono2)
    also have "\<dots> < 2 ^ 31" using assms(1) by simp
    finally have "int ?k * int n_mels < 2 ^ 31" by (metis of_nat_less_iff of_nat_mult of_nat_numeral of_nat_power)
    moreover have "0 \<le> int ?k * int n_mels" by (intro mult_nonneg_nonneg of_nat_0_le_iff)
    moreover have "x \<in> {- (2 ^ 31)..<2 ^ 31}" if "0 \<le> x" "x < 2 ^ 31" for x :: int using that by simp
    ultimately have size: "int ?k * int n_mels \<in> {- (2 ^ 31)..<2 ^ 31}" "0 \<le> int ?k * int n_mels \<and> 0 \<le> (400 :: int)"
      by blast (use \<open>0 \<le> int ?k * int n_mels\<close> in simp)
    have "nat (400 :: int) = 400" "int ?k \<noteq> 0" by simp_all
    then have "compute_fbank m waveform 16000 n_mels =
        bnd (map_outcome row [0..<?k]) (\<lambda>rows. Inr (foldl (\<lambda>f i. normalize_column ?k n_mels i f) (concat rows) [0..<n_mels]))"
      unfolding compute_fbank_def Let_def sizes_16k bnd_Inr length_map frame_count_16k [OF assms(1)] if_P [OF True] row_def
      by (simp only: if_False size simp_thms ensure_True bnd_Inr nat_int)
    then show ?thesis using rows total True by simp
  qed
qed

text \<open>
  C21. At 16 kHz the features of every waveform that fits an \<open>int\<close> are computed without reading
  out of bounds: one row of \<open>n_mels\<close> values for each of the \<open>1 + (n - 400) / 160\<close> frames, and
  none for a waveform shorter than 400 samples.
\<close>

theorem compute_fbank_total:
  assumes "length waveform < 2 ^ 31" "n_mels \<le> 80"
  shows "\<exists>fbank. compute_fbank m waveform 16000 n_mels = Inr fbank \<and>
    length fbank = (if 400 \<le> length waveform then 1 + (length waveform - 400) div 160 else 0) * n_mels"
  using assms by (rule compute_fbank_defined)

end
