(* ===== verification/Embedding.thy ===== *)
theory Embedding
  imports Ieee_Bounds
begin

text \<open>
  Speaker embeddings of \<open>examples/main.cpp\<close>: \<open>get_embedding\<close> cuts long features into pieces of
  100 frames, runs the network on each and averages.  The network itself, a ggml graph, is the
  parameter \<open>resnet\<close>: frames, mel bands and input values to output values.
\<close>

definition EMBEDDING_DIM :: nat where "EMBEDDING_DIM = 256"
definition MAX_EMBEDDING_FRAMES :: nat where "MAX_EMBEDDING_FRAMES = 100"

type_synonym resnet = "nat \<Rightarrow> nat \<Rightarrow> f32 list \<Rightarrow> f32 list"

text \<open>\<open>out[i * cols + j] = x[j * rows + i]\<close>\<close>

definition transposed :: "nat \<Rightarrow> nat \<Rightarrow> 'a list \<Rightarrow> 'a list outcome" where
  "transposed rows cols x =
     bnd (ensure (rows * cols \<le> length x) Undefined) (\<lambda>_.
     Inr (concat (map (\<lambda>i. map (\<lambda>j. x ! (j * rows + i)) [0..<cols]) [0..<rows])))"

text \<open>\<open>sqrtf(norm + 1e-7f)\<close>\<close>

definition vector_norm :: "f32 list \<Rightarrow> f32" where
  "vector_norm xs = sqrt_f32 (foldl (\<lambda>s x. s + x * x) 0 xs + f32_of_rat (1 / 10 ^ 7))"

text \<open>
  At most 100 frames: one run of the network.  \<open>ggml_backend_tensor_get\<close> asserts that the output
  has the 256 values it copies.
\<close>

definition embed_frames :: "resnet \<Rightarrow> f32 list \<Rightarrow> nat \<Rightarrow> nat \<Rightarrow> bool \<Rightarrow> f32 list outcome" where
  "embed_frames net fbank T n_mels unit_norm =
     bnd (transposed n_mels T fbank) (\<lambda>in_data.
     bnd (ensure (EMBEDDING_DIM \<le> length (net T n_mels in_data)) Aborted) (\<lambda>_.
     let embedding = take EMBEDDING_DIM (net T n_mels in_data); norm = vector_norm embedding
     in Inr (if unit_norm \<and> norm > f32_of_rat (1 / 10 ^ 8) then map (\<lambda>x. x / norm) embedding else embedding)))"

definition piece_starts :: "nat \<Rightarrow> nat list" where
  "piece_starts T = map (\<lambda>k. k * MAX_EMBEDDING_FRAMES) [0..<(T + MAX_EMBEDDING_FRAMES - 1) div MAX_EMBEDDING_FRAMES]"

definition piece_len :: "nat \<Rightarrow> nat \<Rightarrow> nat" where
  "piece_len T start = min MAX_EMBEDDING_FRAMES (T - start)"

definition embed_piece :: "resnet \<Rightarrow> f32 list \<Rightarrow> nat \<Rightarrow> nat \<Rightarrow> nat \<Rightarrow> f32 list outcome" where
  "embed_piece net fbank T n_mels start =
     (let len = piece_len T start in
      bnd (ensure ((start + len) * n_mels \<le> length fbank) Undefined) (\<lambda>_.
      embed_frames net (take (len * n_mels) (drop (start * n_mels) fbank)) len n_mels False))"

definition add_piece :: "resnet \<Rightarrow> f32 list \<Rightarrow> nat \<Rightarrow> nat \<Rightarrow> nat \<Rightarrow> f32 list \<times> nat \<Rightarrow> (f32 list \<times> nat) outcome" where
  "add_piece net fbank T n_mels start st =
     (if piece_len T start < 50 then Inr st
      else bnd (embed_piece net fbank T n_mels start) (\<lambda>emb. Inr (map2 (+) (fst st) emb, snd st + 1)))"

definition get_embedding :: "resnet \<Rightarrow> f32 list \<Rightarrow> nat \<Rightarrow> nat \<Rightarrow> bool \<Rightarrow> f32 list outcome" where
  "get_embedding net fbank T n_mels unit_norm =
     (if T > MAX_EMBEDDING_FRAMES then
        bnd (each_outcome (add_piece net fbank T n_mels) (piece_starts T) (replicate EMBEDDING_DIM 0, 0)) (\<lambda>(avg, num_chunks).
        let avg = (if num_chunks > 0 then map (\<lambda>x. x / f32_of_int (int num_chunks)) avg else avg)
        in Inr (if unit_norm then map (\<lambda>x. x / vector_norm avg) avg else avg))
      else embed_frames net fbank T n_mels unit_norm)"

subsection \<open>Which frames an embedding is made of\<close>

text \<open>What the network must give: the 256 values that are copied.\<close>

definition resnet_ok :: "resnet \<Rightarrow> bool" where
  "resnet_ok net \<longleftrightarrow> (\<forall>T n_mels xs. EMBEDDING_DIM \<le> length (net T n_mels xs))"

lemma transposed_defined: "rows * cols \<le> length x \<Longrightarrow> \<exists>y. transposed rows cols x = Inr y"
  by (simp add: transposed_def bnd_ensure)

lemma length_transposed: "transposed rows cols x = Inr y \<Longrightarrow> length y = rows * cols"
  using length_concat_rows [of rows "\<lambda>i. map (\<lambda>j. x ! (j * rows + i)) [0..<cols]" cols]
  by (simp add: transposed_def bnd_eq_Inr)

lemma embed_frames_defined:
  assumes "resnet_ok net" "n_mels * T \<le> length fbank"
  shows "\<exists>e. embed_frames net fbank T n_mels unit_norm = Inr e \<and> length e = EMBEDDING_DIM"
  using assms by (simp add: embed_frames_def transposed_def bnd_ensure resnet_ok_def Let_def)

text \<open>The whole pieces, and the rest when it has at least 50 frames.\<close>

definition pieces_used :: "nat \<Rightarrow> nat" where
  "pieces_used T = T div 100 + (if T mod 100 \<ge> 50 then 1 else 0)"

lemma piece_starts_split:
  "piece_starts T = map (\<lambda>k. k * 100) [0..<T div 100] @ (if T mod 100 = 0 then [] else [T div 100 * 100])"
proof -
  have T: "T = 100 * (T div 100) + T mod 100" "T mod 100 < 100" by simp_all
  have "(T + 99) div 100 = T div 100 + (if T mod 100 = 0 then 0 else 1)"
    by (rule div_nat_eqI) (use T in \<open>simp_all split: if_splits, linarith+\<close>)
  then show ?thesis by (simp add: piece_starts_def MAX_EMBEDDING_FRAMES_def add.commute [of 99])
qed

lemma piece_len_split:
  "k < T div 100 \<Longrightarrow> piece_len T (k * 100) = 100" "piece_len T (T div 100 * 100) = T mod 100"
proof -
  assume "k < T div 100"
  then have "(k + 1) * 100 \<le> T div 100 * 100" by (intro mult_le_mono1) simp
  also have "\<dots> \<le> T" by simp
  finally show "piece_len T (k * 100) = 100" by (simp add: piece_len_def MAX_EMBEDDING_FRAMES_def)
next
  have "T - T div 100 * 100 = T mod 100" by (rule minus_div_mult_eq_mod)
  then show "piece_len T (T div 100 * 100) = T mod 100"
    using mod_less_divisor [of 100 T] by (simp add: piece_len_def MAX_EMBEDDING_FRAMES_def min_def)
qed

lemma embed_piece_defined:
  assumes "resnet_ok net" "T * n_mels \<le> length fbank" "start \<le> T"
  shows "\<exists>e. embed_piece net fbank T n_mels start = Inr e \<and> length e = EMBEDDING_DIM"
proof -
  have "start + piece_len T start \<le> T" using assms(3) by (simp add: piece_len_def)
  then have fits: "(start + piece_len T start) * n_mels \<le> length fbank"
    using assms(2) mult_le_mono1 order_trans by blast
  then have "start * n_mels + piece_len T start * n_mels \<le> length fbank" by (simp only: add_mult_distrib)
  then have "n_mels * piece_len T start \<le> length (take (piece_len T start * n_mels) (drop (start * n_mels) fbank))"
    by (simp add: mult.commute)
  then show ?thesis using fits embed_frames_defined [OF assms(1)] by (simp add: embed_piece_def Let_def bnd_ensure)
qed

text \<open>
  C23. A long stretch of features is embedded as the average of the embeddings of its consecutive
  pieces of 100 frames; the last, shorter piece counts only when it has 50 frames or more.
\<close>

theorem get_embedding_average:
  assumes "resnet_ok net" "T * n_mels \<le> length fbank" "100 < T"
  shows "\<exists>embs. length embs = pieces_used T \<and>
    (\<forall>k < pieces_used T. embed_piece net fbank T n_mels (k * 100) = Inr (embs ! k)) \<and>
    get_embedding net fbank T n_mels False =
      Inr (map (\<lambda>x. x / f32_of_int (int (pieces_used T))) (foldl (map2 (+)) (replicate 256 0) embs))"
proof -
  define e where "e k = projr (embed_piece net fbank T n_mels (k * 100))" for k
  have e: "embed_piece net fbank T n_mels (k * 100) = Inr (e k)" if "k * 100 \<le> T" for k
    using embed_piece_defined [OF assms(1,2) that] by (auto simp: e_def)
  have run: "each_outcome (add_piece net fbank T n_mels) (map (\<lambda>k. k * 100) ks) (avg, n) =
      Inr (foldl (map2 (+)) avg (map e ks), n + length ks)"
    if "\<forall>k \<in> set ks. k * 100 \<le> T \<and> 50 \<le> piece_len T (k * 100)" for ks avg n
    using that by (induction ks arbitrary: avg n) (simp_all add: add_piece_def e)
  have whole: "k * 100 \<le> T \<and> 50 \<le> piece_len T (k * 100)" if "k < T div 100" for k
    using that piece_len_split(1) [OF that] div_times_less_eq_dividend [of T 100] by simp
  have last: "T div 100 * 100 \<le> T" by simp
  have "each_outcome (add_piece net fbank T n_mels) (piece_starts T) (replicate EMBEDDING_DIM 0, 0) =
      Inr (foldl (map2 (+)) (replicate EMBEDDING_DIM 0) (map e [0..<pieces_used T]), pieces_used T)"
  proof (cases "50 \<le> T mod 100")
    case True
    then have "piece_starts T = map (\<lambda>k. k * 100) [0..<pieces_used T]"
      by (simp add: piece_starts_split pieces_used_def)
    moreover have "\<forall>k \<in> set [0..<pieces_used T]. k * 100 \<le> T \<and> 50 \<le> piece_len T (k * 100)"
      using True whole last piece_len_split(2) [of T] by (auto simp: pieces_used_def less_Suc_eq)
    ultimately show ?thesis using run by simp
  next
    case False
    then have "piece_len T (T div 100 * 100) < 50" using piece_len_split(2) [of T] by simp
    then have "each_outcome (add_piece net fbank T n_mels) (if T mod 100 = 0 then [] else [T div 100 * 100]) st = Inr st" for st
      by (simp add: add_piece_def)
    then show ?thesis
      using run [of "[0..<T div 100]"] whole False by (simp add: piece_starts_split each_outcome_append pieces_used_def)
  qed
  moreover have "0 < pieces_used T" using assms(3) by (simp add: pieces_used_def div_greater_zero_iff)
  moreover have "k * 100 \<le> T" if "k < pieces_used T" for k
    using that whole [of k] last by (cases "k = T div 100") (auto simp: pieces_used_def split: if_splits)
  ultimately show ?thesis
    using assms(3) e by (intro exI [of _ "map e [0..<pieces_used T]"])
      (simp add: get_embedding_def MAX_EMBEDDING_FRAMES_def EMBEDDING_DIM_def)
qed

lemma get_embedding_average_witness:
  "\<exists>embs. length embs = 2 \<and>
    (\<forall>k < 2. embed_piece (\<lambda>T n xs. replicate 256 0) (replicate 160 0) 160 1 (k * 100) = Inr (embs ! k)) \<and>
    get_embedding (\<lambda>T n xs. replicate 256 0) (replicate 160 0) 160 1 False =
      Inr (map (\<lambda>x. x / f32_of_int 2) (foldl (map2 (+)) (replicate 256 0) embs))"
proof -
  have used: "pieces_used 160 = 2" by (simp add: pieces_used_def)
  have "resnet_ok (\<lambda>T n xs. replicate 256 0)" by (simp add: resnet_ok_def EMBEDDING_DIM_def)
  then show ?thesis
    using get_embedding_average [of "\<lambda>T n xs. replicate 256 0" 160 1 "replicate 160 0"] unfolding used by simp
qed

text \<open>The length of every embedding.\<close>

lemma length_add_pieces:
  "\<forall>e \<in> set embs. length e = n \<Longrightarrow> length avg = n \<Longrightarrow> length (foldl (map2 (+)) avg embs) = n"
  by (induction embs arbitrary: avg) simp_all

lemma get_embedding_defined:
  assumes "resnet_ok net" "T * n_mels \<le> length fbank"
  shows "\<exists>e. get_embedding net fbank T n_mels unit_norm = Inr e \<and> length e = EMBEDDING_DIM"
proof (cases "100 < T")
  case True
  define good where "good st \<longleftrightarrow> length (fst st) = EMBEDDING_DIM" for st :: "f32 list \<times> nat"
  have step: "\<exists>st'. add_piece net fbank T n_mels start st = Inr st' \<and> good st'" if "start \<in> set (piece_starts T)" "good st" for start st
  proof -
    have "k * 100 \<le> T" if "k \<le> T div 100" for k
      using mult_le_mono1 [OF that, of 100] div_times_less_eq_dividend [of T 100] by linarith
    then have "start \<le> T" using that(1) by (auto simp: piece_starts_split split: if_splits)
    then obtain e where "embed_piece net fbank T n_mels start = Inr e" "length e = EMBEDDING_DIM"
      using embed_piece_defined [OF assms] by blast
    then show ?thesis using that(2) by (cases st) (simp add: add_piece_def good_def)
  qed
  have "\<exists>st. each_outcome (add_piece net fbank T n_mels) starts st0 = Inr st \<and> good st"
    if "set starts \<subseteq> set (piece_starts T)" "good st0" for starts st0
    using that
  proof (induction starts arbitrary: st0)
    case (Cons start starts)
    have "start \<in> set (piece_starts T)" using Cons.prems(1) by simp
    then obtain st1 where "add_piece net fbank T n_mels start st0 = Inr st1" "good st1"
      using step Cons.prems(2) by blast
    then show ?case using Cons.IH [of st1] Cons.prems(1) by simp
  qed simp
  from this [of "piece_starts T" "(replicate EMBEDDING_DIM 0, 0)"]
  obtain st where "each_outcome (add_piece net fbank T n_mels) (piece_starts T) (replicate EMBEDDING_DIM 0, 0) = Inr st"
    "length (fst st) = EMBEDDING_DIM"
    by (auto simp: good_def)
  then show ?thesis using True by (cases st) (simp add: get_embedding_def MAX_EMBEDDING_FRAMES_def Let_def)
next
  case False
  then show ?thesis
    using embed_frames_defined [OF assms(1)] assms(2)
    by (simp add: get_embedding_def MAX_EMBEDDING_FRAMES_def mult.commute)
qed

end
