(* ===== verification/Diarize.thy ===== *)
theory Diarize
  imports Wav Timeline Lstm Fbank Embedding Clustering Vbx_Cluster
begin

text \<open>
  The offline program \<open>main\<close> of \<open>examples/main.cpp\<close>: windows of ten seconds every second,
  segmentation and embedding of each window, clustering of the embeddings, reconstruction of the
  timeline.  The ggml graphs are the parameters collected in \<open>networks\<close>; the LSTM layers, the
  features, the clustering and the timeline are the definitions of the other theories.
\<close>

record networks =
  sincnet :: "f32 list \<Rightarrow> nat \<times> nat \<times> f32 list"
  project :: "lstm_weights \<Rightarrow> f32 list \<Rightarrow> f32 list"
  lstm_fwd :: "lstm_weights list"
  lstm_rev :: "lstm_weights list"
  classifier :: "nat \<Rightarrow> f32 list \<Rightarrow> nat \<times> nat \<times> f32 list"
  embed_net :: resnet
  gram :: "f32 list list \<Rightarrow> f32 list"
  nets_libm :: libm
  vbx :: "vbx_model option"
  use_embedding :: bool

definition SAMPLE_RATE :: nat where "SAMPLE_RATE = 16000"
definition window_samples :: nat where "window_samples = 160000"
definition step_samples :: nat where "step_samples = 16000"

text \<open>The two constants are \<open>(int)(WINDOW_DURATION * SAMPLE_RATE)\<close> and \<open>(int)(STEP_DURATION * SAMPLE_RATE)\<close>.\<close>

lemma window_values:
  "int_of_f32 (f32_of_int 10 * f32_of_int (int SAMPLE_RATE)) = Inr (int window_samples)"
  "int_of_f32 (1 * f32_of_int (int SAMPLE_RATE)) = Inr (int step_samples)"
proof -
  have "int_of_f32 (f32_of_int 10 * f32_of_int 16000) = Inr 160000" "int_of_f32 (1 * f32_of_int 16000) = Inr 16000"
    by code_simp+
  then show "int_of_f32 (f32_of_int 10 * f32_of_int (int SAMPLE_RATE)) = Inr (int window_samples)"
    "int_of_f32 (1 * f32_of_int (int SAMPLE_RATE)) = Inr (int step_samples)"
    by (simp_all add: SAMPLE_RATE_def window_samples_def step_samples_def)
qed

subsection \<open>Windows\<close>

text \<open>The positions of the windows; the loop stops at the first with less than half a window left.\<close>

definition window_positions :: "nat \<Rightarrow> nat list" where
  "window_positions total_samples =
     takeWhile (\<lambda>pos. \<not> min window_samples (total_samples - pos) < window_samples div 2)
       (map (\<lambda>i. i * step_samples) [0..<(total_samples + step_samples - 1) div step_samples])"

definition window_at :: "f32 list \<Rightarrow> nat \<Rightarrow> f32 list" where
  "window_at wav pos =
     (let available = take window_samples (drop pos wav) in available @ replicate (window_samples - length available) 0)"

subsection \<open>Segmentation\<close>

definition multilabels :: "nat \<Rightarrow> nat \<Rightarrow> f32 list \<Rightarrow> f32 list outcome" where
  "multilabels frames classes probs =
     bnd (ensure (frames * classes \<le> length probs) Undefined) (\<lambda>_.
     Inr (concat (map (\<lambda>t. let multi = powerset_to_multilabel (map (\<lambda>c. probs ! (t * classes + c)) [0..<classes]) (int classes)
                           in map (\<lambda>s. multi ! s) [0..<3]) [0..<frames])))"

definition segment_window :: "networks \<Rightarrow> nat \<Rightarrow> nat \<Rightarrow> f32 list \<Rightarrow> chunk_prediction outcome" where
  "segment_window nets chunk_idx pos chunk =
     (let (T, F, x) = sincnet nets chunk in
      bnd (transposed T F x) (\<lambda>sinc_out.
      bnd (lstm_layers (batch_layer (nets_libm nets) (project nets)) (lstm_fwd nets) (lstm_rev nets) T sinc_out) (\<lambda>h.
      let (frames, classes, probs) = classifier nets T h in
      bnd (multilabels frames classes probs) (\<lambda>multi.
      let start = f64_of_int (int pos) / f64_of_int (int SAMPLE_RATE) in
      Inr \<lparr>pred_chunk_idx = int chunk_idx, pred_start_time = start, pred_end_time = start + f64_of_int 10,
           multilabel_probs = multi, num_frames = frames\<rparr>))))"

subsection \<open>Embeddings of the active segments\<close>

definition usable :: "f32 list \<Rightarrow> bool" where
  "usable emb = list_all (\<lambda>v. \<not> is_nan32 v \<and> \<not> is_inf32 v) emb"

text \<open>\<open>(size_t)(0.2 * SAMPLE_RATE)\<close>\<close>

definition min_sub_wav :: nat where "min_sub_wav = 3200"

text \<open>\<open>None\<close> when the segment is too short or its embedding is not finite.\<close>

definition embed_segment :: "networks \<Rightarrow> f32 list \<Rightarrow> nat \<Rightarrow> span \<Rightarrow> f32 list option outcome" where
  "embed_segment nets chunk frame_samples seg =
     (if snd seg - fst seg < 6 then Inr None
      else
        let s0 = fst seg * frame_samples; s1 = min (snd seg * frame_samples) (length chunk);
            sub_wav = take (s1 - s0) (drop s0 chunk) in
        bnd (ensure (s0 \<le> s1) Threw) (\<lambda>_.
        if length sub_wav < min_sub_wav then Inr None
        else
          bnd (compute_fbank (nets_libm nets) sub_wav (int SAMPLE_RATE) 80) (\<lambda>fbank.
          let T_emb = length fbank div 80 in
          if T_emb < 5 then Inr None
          else
            bnd (get_embedding (embed_net nets) fbank T_emb 80 (vbx nets = None)) (\<lambda>emb.
            Inr (if usable emb then Some emb else None)))))"

definition embed_speaker :: "networks \<Rightarrow> f32 list \<Rightarrow> chunk_prediction \<Rightarrow> nat \<Rightarrow> nat \<Rightarrow> chunk_embedding list outcome" where
  "embed_speaker nets chunk pred frame_samples s =
     bnd (map_outcome (embed_segment nets chunk frame_samples) (active_segments pred s)) (\<lambda>embs.
     Inr (map (\<lambda>e. \<lparr>emb_chunk_idx = pred_chunk_idx pred, local_speaker = int s, emb_vector = the e\<rparr>)
            (filter (\<lambda>e. e \<noteq> None) embs)))"

definition embed_window :: "networks \<Rightarrow> f32 list \<Rightarrow> chunk_prediction \<Rightarrow> chunk_embedding list outcome" where
  "embed_window nets chunk pred =
     (if \<not> use_embedding nets then Inr []
      else bnd (ensure (num_frames pred \<noteq> 0) Trapped) (\<lambda>_.
           bnd (map_outcome (embed_speaker nets chunk pred (window_samples div num_frames pred)) [0..<3]) (\<lambda>es.
           Inr (concat es))))"

definition process_window :: "networks \<Rightarrow> f32 list \<Rightarrow> nat \<times> nat \<Rightarrow> chunk_prediction list \<times> chunk_embedding list \<Rightarrow>
    (chunk_prediction list \<times> chunk_embedding list) outcome" where
  "process_window nets wav ip st =
     (let chunk = window_at wav (snd ip) in
      bnd (segment_window nets (fst ip) (snd ip) chunk) (\<lambda>pred.
      bnd (embed_window nets chunk pred) (\<lambda>embs.
      Inr (fst st @ [pred], snd st @ embs))))"

subsection \<open>Clustering and the whole program\<close>

definition main_params :: vbx_params where
  "main_params = \<lparr>Fa = f32_of_rat (7 / 100), Fb = f32_of_rat (8 / 10), vbx_threshold = f32_of_rat (6 / 10),
     max_iters = 20, init_smoothing = f32_of_int 7\<rparr>"

definition global_labels :: "networks \<Rightarrow> chunk_embedding list \<Rightarrow> int list outcome" where
  "global_labels nets embeddings =
     (let raw = map emb_vector embeddings in
      if use_embedding nets \<and> embeddings \<noteq> [] then
        (case vbx nets of
           Some model \<Rightarrow>
             bnd (map_outcome (vbx_transform_embedding model) raw) (\<lambda>vbx_emb.
             cluster_vbx (nets_libm nets) (gram nets) model vbx_emb raw main_params)
         | None \<Rightarrow> agglomerative_clustering raw (f32_of_rat (6 / 10)) 1)
      else Inr (replicate (length embeddings) 0))"

definition diarize :: "(final_seg list \<Rightarrow> final_seg list) \<Rightarrow> networks \<Rightarrow> f32 list \<Rightarrow> final_seg list outcome" where
  "diarize srt nets wav =
     bnd (each_outcome (process_window nets wav) (enumerate 0 (window_positions (length wav))) ([], [])) (\<lambda>(predictions, embeddings).
     bnd (global_labels nets embeddings) (\<lambda>labels.
     reconstruct srt (use_embedding nets) (length wav) predictions embeddings labels))"

text \<open>The program on a file: an unreadable one ends it with status 1.\<close>

definition main_offline :: "(final_seg list \<Rightarrow> final_seg list) \<Rightarrow> networks \<Rightarrow> bytes option \<Rightarrow> final_seg list outcome" where
  "main_offline srt nets file =
     bnd (read_wav file) (\<lambda>r. case r of None \<Rightarrow> Inl Failed | Some wav \<Rightarrow> diarize srt nets (wav_data wav))"

subsection \<open>The program is total\<close>

text \<open>
  What the graphs must give: outputs of the declared sizes, at least one frame per window, and
  tensors that fit the loops.
\<close>

definition nets_ok :: "networks \<Rightarrow> bool" where
  "nets_ok nets \<longleftrightarrow>
     (\<forall>chunk. length chunk = window_samples \<longrightarrow> (case sincnet nets chunk of (T, F, x) \<Rightarrow> F = 60 \<and> T * F \<le> length x)) \<and>
     length (lstm_fwd nets) = 4 \<and> length (lstm_rev nets) = 4 \<and>
     (\<forall>l < 4. weights_fit (if l = 0 then 60 else 256) 128 (lstm_fwd nets ! l) \<and>
              weights_fit (if l = 0 then 60 else 256) 128 (lstm_rev nets ! l)) \<and>
     (\<forall>T h. case classifier nets T h of (frames, classes, probs) \<Rightarrow> 0 < frames \<and> frames * classes \<le> length probs) \<and>
     resnet_ok (embed_net nets) \<and>
     (case vbx nets of None \<Rightarrow> True | Some model \<Rightarrow> vbx_model_ok model \<and> D_emb model \<le> EMBEDDING_DIM)"

lemma nets_okD:
  assumes "nets_ok nets"
  shows "length chunk = window_samples \<Longrightarrow> sincnet nets chunk = (T, F, x) \<Longrightarrow> F = 60 \<and> T * F \<le> length x"
    and "length (lstm_fwd nets) = 4" "length (lstm_rev nets) = 4"
    and "\<forall>l < 4. weights_fit (if l = 0 then 60 else 256) 128 (lstm_fwd nets ! l) \<and>
                weights_fit (if l = 0 then 60 else 256) 128 (lstm_rev nets ! l)"
    and "classifier nets T h = (frames, classes, probs) \<Longrightarrow> 0 < frames \<and> frames * classes \<le> length probs"
    and "resnet_ok (embed_net nets)"
    and "vbx nets = Some model \<Longrightarrow> vbx_model_ok model \<and> D_emb model \<le> EMBEDDING_DIM"
proof -
  note parts = assms [unfolded nets_ok_def, THEN conjunct1, rule_format, of chunk]
    assms [unfolded nets_ok_def, THEN conjunct2, THEN conjunct2, THEN conjunct2, THEN conjunct2, THEN conjunct1, rule_format, of T h]
  show "F = 60 \<and> T * F \<le> length x" if "length chunk = window_samples" "sincnet nets chunk = (T, F, x)"
    using parts(1) [OF that(1)] unfolding that(2) prod.case .
  show "classifier nets T h = (frames, classes, probs) \<Longrightarrow> 0 < frames \<and> frames * classes \<le> length probs"
    using parts(2) by simp
  show "vbx nets = Some model \<Longrightarrow> vbx_model_ok model \<and> D_emb model \<le> EMBEDDING_DIM"
    using assms unfolding nets_ok_def by simp
  show "length (lstm_fwd nets) = 4" "length (lstm_rev nets) = 4" "resnet_ok (embed_net nets)"
    using assms by (simp_all only: nets_ok_def)
  show "\<forall>l < 4. weights_fit (if l = 0 then 60 else 256) 128 (lstm_fwd nets ! l) \<and>
      weights_fit (if l = 0 then 60 else 256) 128 (lstm_rev nets ! l)"
    using assms unfolding nets_ok_def by (elim conjE)
qed

lemma f64_round_bounded:
  assumes "0 \<le> r" "r \<le> of_int i" "i < 2 ^ 53"
  shows "\<exists>v. fl_round binary64 False r = FFin False v \<and> 0 \<le> v \<and> v \<le> of_int i"
proof (cases "r = 0")
  case True
  then show ?thesis using assms(2) by (simp add: fl_round_def)
next
  case False
  have i: "of_int i < (2 :: rat) ^ 53" using assms(3) by (metis of_int_less_iff of_int_numeral of_int_power)
  have v: "0 \<le> rounded binary64 r" "rounded binary64 r \<le> of_int i"
    using rounded_le_int [of r i binary64] assms False i by simp_all
  moreover have "(2 :: rat) ^ 53 \<le> 2 ^ 1024" by (intro power_increasing) simp_all
  ultimately show ?thesis using False i by (simp add: fl_round_cases)
qed

text \<open>Seconds, and frames of the grid, of a number of samples that fits an \<open>int\<close>.\<close>

lemma frames_of_samples:
  assumes "n < 2 ^ 31"
  shows "\<exists>v. f64_of_int (int n) / f64_of_rat 16000 / model_frame_duration = F64 (FFin False v) \<and> 0 \<le> v \<and> v \<le> 2 ^ 24"
proof -
  have n: "int n < 2 ^ 31" using assms by (metis of_nat_less_iff of_nat_numeral of_nat_power)
  then have num: "f64_of_int (int n) = F64 (FFin False (of_nat n))" using f64_of_int_exact [of "int n"] by simp
  have den: "f64_of_rat 16000 = F64 (FFin False 16000)" using f64_of_int_exact [of 16000] by (simp add: f64_of_int_def)
  have "of_nat n \<le> (2 :: rat) ^ 31" using assms by (metis less_imp_le of_nat_le_iff of_nat_numeral of_nat_power)
  then obtain s where s: "fl_round binary64 False (of_nat n / 16000) = FFin False s" "0 \<le> s" "s \<le> 2 ^ 18"
    using f64_round_bounded [of "of_nat n / 16000" "2 ^ 18"] by auto
  have "s / frame_period \<le> 2 ^ 18 / (1 / 64)" using s frame_period_bounds by (intro frac_le) simp_all
  then obtain v where "fl_round binary64 False (s / frame_period) = FFin False v" "0 \<le> v" "v \<le> 2 ^ 24"
    using f64_round_bounded [of "s / frame_period" "2 ^ 24"] s(2) by auto
  then show ?thesis using s(1) by (simp add: num den model_frame_duration_value divide_f64_def)
qed

lemma int_of_f64_integer:
  "0 \<le> k \<Longrightarrow> k < 2 ^ 31 \<Longrightarrow> int_of_f64 (F64 (FFin False (of_int k))) = Inr k"
  by (simp add: int_of_f64_def fl_trunc_def bnd_ensure)

lemma start_frame_defined:
  assumes "pos < 2 ^ 31" "pred_start_time pred = f64_of_int (int pos) / f64_of_int (int SAMPLE_RATE)"
  shows "\<exists>start. start_frame pred = Inr start \<and> 0 \<le> start"
proof -
  obtain v where v: "f64_of_int (int pos) / f64_of_rat 16000 / model_frame_duration = F64 (FFin False v)" "0 \<le> v" "v \<le> 2 ^ 24"
    using frames_of_samples [OF assms(1)] by blast
  have "0 \<le> \<lfloor>v + 1 / 2\<rfloor>" "\<lfloor>v + 1 / 2\<rfloor> < 2 ^ 31" using v(2,3) by (simp_all add: floor_less_iff)
  then show ?thesis
    using v(1) assms(2) int_of_f64_integer [of "\<lfloor>v + 1 / 2\<rfloor>"]
    by (simp add: start_frame_def SAMPLE_RATE_def f64_of_int_def round_f64_def)
qed

lemma grid_size_defined: "n < 2 ^ 31 \<Longrightarrow> \<exists>G. grid_size n = Inr G"
proof -
  assume n: "n < 2 ^ 31"
  obtain v where v: "f64_of_int (int n) / f64_of_rat 16000 / model_frame_duration = F64 (FFin False v)" "0 \<le> v" "v \<le> 2 ^ 24"
    using frames_of_samples [OF n] by blast
  have "0 \<le> \<lceil>v\<rceil>" using v(2) by (metis ceiling_mono ceiling_zero)
  moreover have "\<lceil>v\<rceil> < 2 ^ 31" using v(3) by (simp add: ceiling_less_iff)
  ultimately show ?thesis using v(1) int_of_f64_integer [of "\<lceil>v\<rceil>"] by (simp add: grid_size_def ceil_f64_def)
qed

lemma length_powerset: "3 \<le> length (powerset_to_multilabel (map f [0..<classes]) (int classes))"
  by (auto simp: powerset_to_multilabel_def)

lemma segment_window_defined:
  assumes "nets_ok nets" "length chunk = window_samples" "pos < 2 ^ 31"
  shows "\<exists>pred. segment_window nets i pos chunk = Inr pred \<and> prediction_ok pred \<and> 0 < num_frames pred"
proof -
  obtain T F x where sinc: "sincnet nets chunk = (T, F, x)" by (cases "sincnet nets chunk") auto
  note shape = nets_okD(1) [OF assms(1,2) sinc]
  then obtain sinc_out where out: "transposed T F x = Inr sinc_out" using transposed_defined by blast
  then have "length sinc_out = T * 60" using length_transposed shape by blast
  then obtain h where h: "lstm_layers (batch_layer (nets_libm nets) (project nets)) (lstm_fwd nets) (lstm_rev nets) T sinc_out = Inr h"
    using batch_layers_defined [OF nets_okD(2,3) [OF assms(1)] _ nets_okD(4) [OF assms(1)]] by (metis order_refl)
  obtain frames classes probs where cl: "classifier nets T h = (frames, classes, probs)" by (cases "classifier nets T h") auto
  note size = nets_okD(5) [OF assms(1) cl]
  let ?multi = "concat (map (\<lambda>t. map (\<lambda>s. powerset_to_multilabel (map (\<lambda>c. probs ! (t * classes + c)) [0..<classes]) (int classes) ! s) [0..<3]) [0..<frames])"
  have multi: "multilabels frames classes probs = Inr ?multi" "length ?multi = frames * 3"
    using size length_concat_rows [of frames "\<lambda>t. map (\<lambda>s. powerset_to_multilabel (map (\<lambda>c. probs ! (t * classes + c)) [0..<classes]) (int classes) ! s) [0..<3]" 3]
    by (simp_all add: multilabels_def bnd_ensure Let_def)
  let ?start = "f64_of_int (int pos) / f64_of_int (int SAMPLE_RATE)"
  let ?pred = "\<lparr>pred_chunk_idx = int i, pred_start_time = ?start, pred_end_time = ?start + f64_of_int 10,
    multilabel_probs = ?multi, num_frames = frames\<rparr>"
  have "segment_window nets i pos chunk = Inr ?pred"
    by (simp only: segment_window_def sinc out h cl multi case_prod_conv bnd_Inr Let_def)
  moreover have "prediction_ok ?pred"
  proof -
    obtain start where "start_frame ?pred = Inr start" "0 \<le> start"
      using start_frame_defined [OF assms(3), of ?pred] by auto
    then show ?thesis using multi(2) by (simp add: prediction_ok_def)
  qed
  ultimately show ?thesis using size by simp
qed

lemma embed_segment_defined:
  assumes "nets_ok nets" "length chunk = window_samples" "fst seg < snd seg" "snd seg * frame_samples \<le> window_samples"
  shows "\<exists>e. embed_segment nets chunk frame_samples seg = Inr e \<and> (\<forall>v. e = Some v \<longrightarrow> length v = EMBEDDING_DIM)"
proof -
  let ?s0 = "fst seg * frame_samples" and ?s1 = "min (snd seg * frame_samples) (length chunk)"
  let ?sub = "take (?s1 - ?s0) (drop ?s0 chunk)"
  have order: "?s0 \<le> ?s1" using assms(2,3,4) mult_le_mono1 [of "fst seg" "snd seg" frame_samples] by simp
  have "length ?sub < 2 ^ 31" using assms(2) by (simp add: window_samples_def)
  then obtain fbank where fbank: "compute_fbank (nets_libm nets) ?sub 16000 80 = Inr fbank"
    using compute_fbank_defined [of ?sub 80] by blast
  obtain emb where "get_embedding (embed_net nets) fbank (length fbank div 80) 80 (vbx nets = None) = Inr emb" "length emb = EMBEDDING_DIM"
    using get_embedding_defined [of "embed_net nets" "length fbank div 80" 80 fbank] nets_okD(6) [OF assms(1)] by auto
  then show ?thesis
    using order fbank by (simp add: embed_segment_def Let_def SAMPLE_RATE_def)
qed

lemma map_outcome_total:
  "(\<And>x. x \<in> set xs \<Longrightarrow> \<exists>y. f x = Inr y \<and> P y) \<Longrightarrow> \<exists>ys. map_outcome f xs = Inr ys \<and> list_all P ys"
proof (induction xs)
  case (Cons x xs)
  then obtain y ys where "f x = Inr y" "P y" "map_outcome f xs = Inr ys" "list_all P ys" by (meson list.set_intros)
  then show ?case by simp
qed simp

definition embedding_ok :: "chunk_embedding \<Rightarrow> bool" where
  "embedding_ok e \<longleftrightarrow> length (emb_vector e) = EMBEDDING_DIM"

lemma embed_window_defined:
  assumes "nets_ok nets" "length chunk = window_samples" "0 < num_frames pred"
  shows "\<exists>embs. embed_window nets chunk pred = Inr embs \<and> list_all embedding_ok embs"
proof (cases "use_embedding nets")
  case False
  then show ?thesis by (simp add: embed_window_def)
next
  case True
  let ?fs = "window_samples div num_frames pred"
  have "\<exists>es. embed_speaker nets chunk pred ?fs s = Inr es \<and> list_all embedding_ok es" for s
  proof -
    have "\<exists>es. map_outcome (embed_segment nets chunk ?fs) (active_segments pred s) = Inr es \<and>
        list_all (\<lambda>e. \<forall>v. e = Some v \<longrightarrow> length v = EMBEDDING_DIM) es"
    proof (rule map_outcome_total)
      fix seg assume seg: "seg \<in> set (active_segments pred s)"
      then have seg: "fst seg < snd seg" "snd seg \<le> num_frames pred"
        using scan_bounds unfolding active_segments_def by fastforce+
      then have "snd seg * ?fs \<le> num_frames pred * ?fs" by (intro mult_le_mono1)
      also have "\<dots> \<le> window_samples" by (simp add: mult.commute)
      finally show "\<exists>e. embed_segment nets chunk ?fs seg = Inr e \<and> (\<forall>v. e = Some v \<longrightarrow> length v = EMBEDDING_DIM)"
        by (rule embed_segment_defined [OF assms(1,2) seg(1)])
    qed
    then show ?thesis by (auto simp: embed_speaker_def list_all_iff embedding_ok_def)
  qed
  then obtain ess where "map_outcome (embed_speaker nets chunk pred ?fs) [0..<3] = Inr ess" "list_all (list_all embedding_ok) ess"
    using map_outcome_total [of "[0..<3]" "embed_speaker nets chunk pred ?fs" "list_all embedding_ok"] by blast
  then show ?thesis using True assms(3) by (auto simp: embed_window_def list_all_iff)
qed

lemma length_window_at: "length (window_at wav pos) = window_samples"
  by (simp add: window_at_def Let_def)

lemma process_windows_defined:
  assumes "nets_ok nets" "\<forall>ip \<in> set ips. snd ip < 2 ^ 31"
    and "list_all prediction_ok preds" "list_all embedding_ok embs"
  shows "\<exists>preds' embs'. each_outcome (process_window nets wav) ips (preds, embs) = Inr (preds', embs') \<and>
    length preds' = length preds + length ips \<and> list_all prediction_ok preds' \<and> list_all embedding_ok embs'"
  using assms(2,3,4)
proof (induction ips arbitrary: preds embs)
  case (Cons ip ips)
  obtain pred where pred: "segment_window nets (fst ip) (snd ip) (window_at wav (snd ip)) = Inr pred" "prediction_ok pred" "0 < num_frames pred"
    using segment_window_defined [OF assms(1) length_window_at] Cons.prems(1) by (metis list.set_intros(1))
  obtain es where es: "embed_window nets (window_at wav (snd ip)) pred = Inr es" "list_all embedding_ok es"
    using embed_window_defined [OF assms(1) length_window_at pred(3)] by blast
  obtain preds' embs' where rest: "each_outcome (process_window nets wav) ips (preds @ [pred], embs @ es) = Inr (preds', embs')"
    "length preds' = length (preds @ [pred]) + length ips" "list_all prediction_ok preds'" "list_all embedding_ok embs'"
    using Cons.IH [of "preds @ [pred]" "embs @ es"] Cons.prems pred(2) es(2) by auto
  have "process_window nets wav ip (preds, embs) = Inr (preds @ [pred], embs @ es)"
    using pred(1) es(1) by (simp add: process_window_def Let_def)
  then show ?case using rest by simp
qed simp

lemma first_order_nonneg: "first_order 0 labels \<Longrightarrow> \<forall>l \<in> set labels. 0 \<le> l"
  using first_order_onto by fastforce

lemma cluster_vbx_single: "cluster_vbx m gr model [v] [r] params = Inr [0]"
  by (simp add: cluster_vbx_def simple_ahc_def count_clusters_def)

lemma global_labels_defined:
  assumes "nets_ok nets" "list_all embedding_ok embs"
  shows "\<exists>labels. global_labels nets embs = Inr labels \<and> length labels = length embs \<and> (\<forall>l \<in> set labels. 0 \<le> l)"
proof (cases "use_embedding nets \<and> embs \<noteq> []")
  case False
  then show ?thesis by (auto simp: global_labels_def)
next
  case True
  let ?raw = "map emb_vector embs"
  have width: "\<forall>e \<in> set ?raw. length e = EMBEDDING_DIM" using assms(2) by (auto simp: list_all_iff embedding_ok_def)
  show ?thesis
  proof (cases "vbx nets")
    case None
    obtain labels where run: "agglomerative_clustering ?raw (f32_of_rat (6 / 10)) 1 = Inr labels"
      using agglomerative_clustering_defined [OF width] by blast
    then have "length labels = length embs \<and> (\<forall>l \<in> set labels. 0 \<le> l)"
      using agglomerative_clustering_partition [OF run] by fastforce
    then show ?thesis using run True None by (simp add: global_labels_def Let_def)
  next
    case (Some model)
    note model = nets_okD(7) [OF assms(1) Some]
    have "\<exists>vs. map_outcome (vbx_transform_embedding model) ?raw = Inr vs \<and> list_all (\<lambda>v. length v = D_lda model) vs"
      using model width by (intro map_outcome_total vbx_transform_total) auto
    then obtain vs where vs: "map_outcome (vbx_transform_embedding model) ?raw = Inr vs" "list_all (\<lambda>v. length v = D_lda model) vs" by blast
    then have len: "length vs = length ?raw" by (simp add: map_outcome_Inr)
    have "\<exists>labels. cluster_vbx (nets_libm nets) (gram nets) model vs ?raw main_params = Inr labels \<and>
        length labels = length embs \<and> (\<forall>l \<in> set labels. 0 \<le> l)"
    proof (cases "1 < length ?raw")
      case True
      then show ?thesis
        using cluster_vbx_labelling [OF width True len [symmetric], of model "gram nets" main_params "nets_libm nets"] vs(2) len model
        by (fastforce simp: list_all_iff vbx_model_ok_def dest: first_order_nonneg)
    next
      case False
      then have "length embs = 1" using True by (cases embs) auto
      then obtain e v where "embs = [e]" "vs = [v]" using len by (auto simp: length_Suc_conv)
      then show ?thesis by (simp add: cluster_vbx_single)
    qed
    then show ?thesis using True Some vs(1) by (auto simp: global_labels_def Let_def)
  qed
qed


end
