(* ===== verification/Online_Clustering.thy ===== *)
theory Online_Clustering
  imports Clustering Sorting
begin

text \<open>
  \<open>OnlineSpeakerClustering\<close> of \<open>examples/main_streaming.cpp\<close>: the speakers of a chunk are matched
  with the speaker centres kept so far, greedily by distance; the rest get a new centre or the
  nearest one; the centres of long speakers are updated.
\<close>

record online_clustering =
  tau_active :: f32
  rho_update :: f32
  delta_new :: f32
  max_speakers :: nat
  centers :: "f32 list list"
  active_centers :: "bool list"

definition new_clustering :: "f32 \<Rightarrow> f32 \<Rightarrow> f32 \<Rightarrow> nat \<Rightarrow> online_clustering" where
  "new_clustering tau rho delta max_spk =
     \<lparr>tau_active = tau, rho_update = rho, delta_new = delta, max_speakers = max_spk, centers = [],
      active_centers = replicate max_spk False\<rparr>"

definition init_centers :: "nat \<Rightarrow> online_clustering \<Rightarrow> online_clustering" where
  "init_centers width oc =
     oc\<lparr>centers := replicate (max_speakers oc) (replicate width 0),
        active_centers := replicate (max_speakers oc) False\<rparr>"

text \<open>The result -1 is \<open>None\<close>.\<close>

definition get_next_center :: "online_clustering \<Rightarrow> nat option" where
  "get_next_center oc = find (\<lambda>i. \<not> active_centers oc ! i) [0..<max_speakers oc]"

definition not_finite :: "f32 list \<Rightarrow> bool" where
  "not_finite emb = list_ex (\<lambda>v. is_nan32 v \<or> is_inf32 v) emb"

subsection \<open>The speakers of a chunk\<close>

definition std_max32 :: "f32 \<Rightarrow> f32 \<Rightarrow> f32" where
  "std_max32 a b = (if a < b then b else a)"

definition speaker_max :: "f32 list list \<Rightarrow> nat \<Rightarrow> f32" where
  "speaker_max segmentation s = foldl (\<lambda>m row. std_max32 m (row ! s)) 0 segmentation"

definition speaker_mean :: "f32 list list \<Rightarrow> nat \<Rightarrow> f32" where
  "speaker_mean segmentation s =
     foldl (\<lambda>m row. m + row ! s) 0 segmentation / f32_of_int (max 1 (int (length segmentation)))"

definition active_speakers :: "online_clustering \<Rightarrow> f32 list list \<Rightarrow> nat list" where
  "active_speakers oc segmentation =
     filter (\<lambda>s. speaker_max segmentation s \<ge> tau_active oc) [0..<length (hd segmentation)]"

definition long_speakers :: "online_clustering \<Rightarrow> f32 list list \<Rightarrow> nat list" where
  "long_speakers oc segmentation =
     filter (\<lambda>s. speaker_mean segmentation s \<ge> rho_update oc) [0..<length (hd segmentation)]"

subsection \<open>The phases of a call\<close>

type_synonym candidate = "nat \<times> f32 list"

definition open_center :: "nat \<Rightarrow> f32 list \<Rightarrow> online_clustering \<Rightarrow> online_clustering" where
  "open_center c emb oc =
     oc\<lparr>centers := (centers oc)[c := emb], active_centers := (active_centers oc)[c := True]\<rparr>"

fun first_speakers :: "candidate list \<Rightarrow> online_clustering \<Rightarrow> int list \<Rightarrow> online_clustering \<times> int list" where
  "first_speakers [] oc mapping = (oc, mapping)"
| "first_speakers ((s, emb) # cands) oc mapping =
     (if not_finite emb then first_speakers cands oc mapping
      else case get_next_center oc of
             None \<Rightarrow> (oc, mapping)
           | Some c \<Rightarrow> first_speakers cands (open_center c emb oc) (mapping[s := int c]))"

record pair =
  pair_s :: nat
  pair_c :: nat
  pair_dist :: f32

definition closer :: "pair \<Rightarrow> pair \<Rightarrow> bool" where
  "closer a b \<longleftrightarrow> pair_dist a < pair_dist b"

definition candidate_pairs :: "online_clustering \<Rightarrow> candidate \<Rightarrow> pair list outcome" where
  "candidate_pairs oc cand =
     (if not_finite (snd cand) then Inr []
      else map_outcome (\<lambda>c. bnd (cosine_distance (snd cand) (centers oc ! c)) (\<lambda>d.
               Inr \<lparr>pair_s = fst cand, pair_c = c, pair_dist = d\<rparr>))
             (filter (\<lambda>c. active_centers oc ! c) [0..<max_speakers oc]))"

fun match_pairs :: "f32 \<Rightarrow> pair list \<Rightarrow> bool list \<Rightarrow> bool list \<Rightarrow> int list \<Rightarrow> int list" where
  "match_pairs delta [] used_s used_c mapping = mapping"
| "match_pairs delta (p # ps) used_s used_c mapping =
     (if pair_dist p > delta then mapping
      else if used_s ! pair_s p \<or> used_c ! pair_c p then match_pairs delta ps used_s used_c mapping
      else match_pairs delta ps (used_s[pair_s p := True]) (used_c[pair_c p := True])
             (mapping[pair_s p := int (pair_c p)]))"

definition nearest_center :: "online_clustering \<Rightarrow> f32 list \<Rightarrow> (f32 \<times> nat option) outcome" where
  "nearest_center oc emb =
     each_outcome (\<lambda>c best. bnd (cosine_distance emb (centers oc ! c)) (\<lambda>d.
         Inr (if d < fst best then (d, Some c) else best)))
       (filter (\<lambda>c. active_centers oc ! c) [0..<max_speakers oc]) (f32_inf, None)"

definition map_to_nearest :: "nat \<Rightarrow> f32 list \<Rightarrow> online_clustering \<times> int list \<Rightarrow> (online_clustering \<times> int list) outcome" where
  "map_to_nearest s emb om =
     bnd (nearest_center (fst om) emb) (\<lambda>(d, best).
     Inr (fst om, case best of None \<Rightarrow> snd om | Some c \<Rightarrow> (snd om)[s := int c]))"

definition assign_remaining :: "nat list \<Rightarrow> candidate \<Rightarrow> online_clustering \<times> int list \<Rightarrow> (online_clustering \<times> int list) outcome" where
  "assign_remaining long cand om =
     (let (s, emb) = cand; (oc, mapping) = om in
      if mapping ! s \<ge> 0 then Inr om
      else if not_finite emb then Inr om
      else if s \<in> set long then
        (case get_next_center oc of
           Some c \<Rightarrow> Inr (open_center c emb oc, mapping[s := int c])
         | None \<Rightarrow> map_to_nearest s emb om)
      else map_to_nearest s emb om)"

definition update_center :: "nat list \<Rightarrow> int list \<Rightarrow> candidate \<Rightarrow> online_clustering \<Rightarrow> online_clustering outcome" where
  "update_center long mapping cand oc =
     (let (s, emb) = cand; c = nat (mapping ! s) in
      if mapping ! s < 0 \<or> s \<notin> set long then Inr oc
      else bnd (map_outcome (\<lambda>d. bnd (elem emb d) (\<lambda>e. Inr (centers oc ! c ! d + e))) [0..<length (centers oc ! c)])
             (\<lambda>center. Inr (oc\<lparr>centers := (centers oc)[c := center]\<rparr>)))"

text \<open>
  \<open>srt\<close> is \<open>std::sort\<close> with the comparison of distances; its use is undefined unless the
  comparison is a strict weak order on the pairs, that is unless a distance is a NaN.
\<close>

definition identify :: "(pair list \<Rightarrow> pair list) \<Rightarrow> f32 list list \<Rightarrow> f32 list list \<Rightarrow> online_clustering \<Rightarrow>
    (online_clustering \<times> int list) outcome" where
  "identify srt segmentation embeddings oc =
     bnd (ensure (segmentation \<noteq> [] \<and> list_all (\<lambda>row. length (hd segmentation) \<le> length row) segmentation) Undefined) (\<lambda>_.
     let num_local = length (hd segmentation); mapping = replicate num_local (-1);
         long = long_speakers oc segmentation in
     bnd (map_outcome (\<lambda>s. bnd (elem embeddings s) (\<lambda>e. Inr (s, e))) (active_speakers oc segmentation)) (\<lambda>cands.
     if centers oc = [] then
       bnd (elem embeddings 0) (\<lambda>e. Inr (first_speakers cands (init_centers (length e) oc) mapping))
     else
       bnd (map_outcome (candidate_pairs oc) cands) (\<lambda>pss.
       bnd (ensure (weak_order_on (set (concat pss)) closer) Undefined) (\<lambda>_.
       let mapping = match_pairs (delta_new oc) (srt (concat pss)) (replicate num_local False)
                       (replicate (max_speakers oc) False) mapping in
       bnd (each_outcome (assign_remaining long) cands (oc, mapping)) (\<lambda>(oc, mapping).
       bnd (each_outcome (update_center long mapping) cands oc) (\<lambda>oc.
       Inr (oc, mapping)))))))"

subsection \<open>Invariants\<close>

definition oc_open :: "nat \<Rightarrow> online_clustering \<Rightarrow> bool" where
  "oc_open width oc \<longleftrightarrow>
     length (active_centers oc) = max_speakers oc \<and> length (centers oc) = max_speakers oc \<and>
     (\<forall>e \<in> set (centers oc). length e = width)"

definition oc_inv :: "nat \<Rightarrow> online_clustering \<Rightarrow> bool" where
  "oc_inv width oc \<longleftrightarrow>
     centers oc = [] \<and> active_centers oc = replicate (max_speakers oc) False \<or> oc_open width oc"

text \<open>Centres are never given up.\<close>

definition oc_grows :: "online_clustering \<Rightarrow> online_clustering \<Rightarrow> bool" where
  "oc_grows oc oc' \<longleftrightarrow>
     max_speakers oc' = max_speakers oc \<and> tau_active oc' = tau_active oc \<and> rho_update oc' = rho_update oc \<and>
     delta_new oc' = delta_new oc \<and> (\<forall>c < max_speakers oc. active_centers oc ! c \<longrightarrow> active_centers oc' ! c)"

text \<open>Every mapped speaker is an active one with a finite embedding, and goes to an active centre.\<close>

definition linked :: "candidate list \<Rightarrow> online_clustering \<Rightarrow> int list \<Rightarrow> bool" where
  "linked cands oc m \<longleftrightarrow>
     (\<forall>s < length m. m ! s \<noteq> -1 \<longrightarrow>
        0 \<le> m ! s \<and> nat (m ! s) < max_speakers oc \<and> active_centers oc ! nat (m ! s) \<and>
        (\<exists>e. (s, e) \<in> set cands \<and> \<not> not_finite e))"

text \<open>Two long speakers share a centre only when there is no free centre left.\<close>

definition apart :: "nat set \<Rightarrow> online_clustering \<Rightarrow> int list \<Rightarrow> bool" where
  "apart L oc m \<longleftrightarrow>
     (\<forall>c < max_speakers oc. active_centers oc ! c) \<or>
     (\<forall>s < length m. \<forall>s' < length m. s \<in> L \<longrightarrow> s' \<in> L \<longrightarrow> s \<noteq> s' \<longrightarrow> m ! s \<noteq> -1 \<longrightarrow> m ! s \<noteq> m ! s')"

definition phase_ok :: "nat \<Rightarrow> nat set \<Rightarrow> candidate list \<Rightarrow> online_clustering \<Rightarrow> online_clustering \<times> int list \<Rightarrow> bool" where
  "phase_ok width L cands oc0 om \<longleftrightarrow>
     oc_open width (fst om) \<and> oc_grows oc0 (fst om) \<and> linked cands (fst om) (snd om) \<and> apart L (fst om) (snd om)"

lemma oc_grows_refl [simp]: "oc_grows oc oc"
  by (simp add: oc_grows_def)

lemma oc_grows_trans: "oc_grows a b \<Longrightarrow> oc_grows b c \<Longrightarrow> oc_grows a c"
  by (simp add: oc_grows_def)

lemma next_center_Some: "get_next_center oc = Some c \<Longrightarrow> c < max_speakers oc \<and> \<not> active_centers oc ! c"
  by (auto simp: get_next_center_def find_Some_iff)

lemma next_center_None: "get_next_center oc = None \<Longrightarrow> \<forall>c < max_speakers oc. active_centers oc ! c"
  by (auto simp: get_next_center_def find_None_iff)

lemma open_center_simps [simp]:
  "max_speakers (open_center c e oc) = max_speakers oc"
  "active_centers (open_center c e oc) = (active_centers oc)[c := True]"
  by (simp_all add: open_center_def)

lemma open_center_open:
  "oc_open width oc \<Longrightarrow> c < max_speakers oc \<Longrightarrow> length e = width \<Longrightarrow> oc_open width (open_center c e oc)"
  by (auto simp: oc_open_def open_center_def dest!: subsetD [OF set_update_subset_insert])

lemma open_center_grows: "oc_open width oc \<Longrightarrow> c < max_speakers oc \<Longrightarrow> oc_grows oc (open_center c e oc)"
  by (auto simp: oc_grows_def oc_open_def open_center_def nth_update_in)

text \<open>Opening a free centre for a speaker keeps all of it.\<close>

lemma phase_ok_open:
  assumes ok: "phase_ok width L cands oc0 (oc, m)" and nxt: "get_next_center oc = Some c"
    and cand: "(s, e) \<in> set cands" "\<not> not_finite e" "length e = width"
  shows "phase_ok width L cands oc0 (open_center c e oc, m[s := int c])"
proof -
  have c: "c < max_speakers oc" "\<not> active_centers oc ! c" using next_center_Some [OF nxt] by auto
  have oc: "oc_open width oc" "oc_grows oc0 oc" "linked cands oc m" "apart L oc m"
    using ok by (simp_all add: phase_ok_def)
  have len: "length (active_centers oc) = max_speakers oc" using oc(1) by (simp add: oc_open_def)
  have fresh: "m ! s' \<noteq> int c" if "s' < length m" for s'
    using oc(3) that c by (auto simp: linked_def)
  note fresh = fresh fresh [symmetric]
  have "linked cands (open_center c e oc) (m[s := int c])"
    using oc(3) cand c len by (auto simp: linked_def nth_update_in)
  moreover have "apart L (open_center c e oc) (m[s := int c])"
    using oc(4) c by (auto simp: apart_def nth_update_in fresh)
  ultimately show ?thesis
    using open_center_open [OF oc(1) c(1) cand(3)] oc_grows_trans [OF oc(2) open_center_grows [OF oc(1) c(1)]]
    by (simp add: phase_ok_def)
qed

lemma first_speakers_ok:
  "phase_ok width L cands oc0 (oc, m) \<Longrightarrow> set xs \<subseteq> set cands \<Longrightarrow> \<forall>(s, e) \<in> set cands. length e = width \<Longrightarrow>
   phase_ok width L cands oc0 (first_speakers xs oc m) \<and> length (snd (first_speakers xs oc m)) = length m"
proof (induction xs oc m rule: first_speakers.induct)
  case (1 oc m)
  then show ?case by simp
next
  case (2 s emb xs oc m)
  show ?case
  proof (cases "not_finite emb")
    case True
    then show ?thesis using 2(1) [OF True] 2(3,4,5) by simp
  next
    case False
    show ?thesis
    proof (cases "get_next_center oc")
      case None
      then show ?thesis using False 2(3) by simp
    next
      case (Some c)
      have "(s, emb) \<in> set cands" "length emb = width" using 2(4,5) by auto
      then have "phase_ok width L cands oc0 (open_center c emb oc, m[s := int c])"
        using 2(3) Some False by (intro phase_ok_open)
      then show ?thesis using 2(2) [OF False Some] 2(4,5) False Some by simp
    qed
  qed
qed

lemma map_to_nearest_cases:
  assumes "map_to_nearest s emb (oc, m) = Inr om"
  shows "om = (oc, m) \<or> (\<exists>c < max_speakers oc. active_centers oc ! c \<and> om = (oc, m[s := int c]))"
proof -
  define I where "I = (\<lambda>b :: f32 \<times> nat option. case snd b of None \<Rightarrow> True | Some c \<Rightarrow> c < max_speakers oc \<and> active_centers oc ! c)"
  obtain d best where nb: "nearest_center oc emb = Inr (d, best)"
    using assms by (auto simp: map_to_nearest_def bnd_eq_Inr)
  have "I (d, best)"
    using nb unfolding nearest_center_def
    by (rule each_outcome_invariant [where I = I]) (auto simp: I_def bnd_eq_Inr split: if_splits)
  then show ?thesis
    using assms nb by (auto simp: map_to_nearest_def I_def split: option.splits)
qed

lemma assign_remaining_ok:
  assumes ok: "phase_ok width (set long) cands oc0 om" and cand: "(s, e) \<in> set cands" "length e = width"
    and run: "assign_remaining long (s, e) om = Inr om'"
  shows "phase_ok width (set long) cands oc0 om' \<and> length (snd om') = length (snd om)"
proof -
  obtain oc m where om: "om = (oc, m)" by fastforce
  have oc: "oc_open width oc" "oc_grows oc0 oc" "linked cands oc m" "apart (set long) oc m"
    using ok by (simp_all add: phase_ok_def om)
  have near: "phase_ok width (set long) cands oc0 om' \<and> length (snd om') = length m"
    if near: "map_to_nearest s e (oc, m) = Inr om'" and fin: "\<not> not_finite e"
      and allowed: "s \<in> set long \<Longrightarrow> \<forall>c < max_speakers oc. active_centers oc ! c"
  proof -
    consider "om' = (oc, m)" | c where "c < max_speakers oc" "active_centers oc ! c" "om' = (oc, m[s := int c])"
      using map_to_nearest_cases [OF near] by blast
    then show ?thesis
    proof cases
      case 1
      then show ?thesis using ok om by simp
    next
      case (2 c)
      have "linked cands oc (m[s := int c])"
        using oc(3) 2 cand(1) fin by (auto simp: linked_def nth_update_in)
      moreover have "apart (set long) oc (m[s := int c])"
        using oc(4) allowed by (cases "s \<in> set long") (auto simp: apart_def nth_update_in)
      ultimately show ?thesis using 2 oc by (simp add: phase_ok_def)
    qed
  qed
  show ?thesis
  proof (cases "m ! s \<ge> 0 \<or> not_finite e")
    case True
    then have "om' = om" using run om by (auto simp: assign_remaining_def split: if_splits)
    then show ?thesis using ok by simp
  next
    case False
    then show ?thesis
    proof (cases "s \<in> set long")
      case True
      show ?thesis
      proof (cases "get_next_center oc")
        case None
        then show ?thesis
          using near next_center_None [OF None] run False True om by (simp add: assign_remaining_def)
      next
        case (Some c)
        then have "om' = (open_center c e oc, m[s := int c])"
          using run False True om by (simp add: assign_remaining_def)
        then show ?thesis using phase_ok_open [OF ok [unfolded om] Some cand(1) _ cand(2)] False om by simp
      qed
    next
      case False2: False
      then show ?thesis using near run False om by (simp add: assign_remaining_def)
    qed
  qed
qed

lemma assign_all_ok:
  assumes "each_outcome (assign_remaining long) xs om = Inr om'" "phase_ok width (set long) cands oc0 om"
    and "set xs \<subseteq> set cands" "\<forall>(s, e) \<in> set cands. length e = width"
  shows "phase_ok width (set long) cands oc0 om' \<and> length (snd om') = length (snd om)"
proof -
  define I where "I = (\<lambda>o1. phase_ok width (set long) cands oc0 o1 \<and> length (snd o1) = length (snd om))"
  have "I om'"
    using assms(1)
  proof (rule each_outcome_invariant [where I = I])
    show "I om" using assms(2) by (simp add: I_def)
  next
    fix x o1 o2 assume x: "x \<in> set xs" "I o1" "assign_remaining long x o1 = Inr o2"
    obtain s e where "x = (s, e)" by fastforce
    then have "(s, e) \<in> set cands" "length e = width" using x(1) assms(3,4) by auto
    then show "I o2"
      using assign_remaining_ok [of width long cands oc0 o1 s e o2] x \<open>x = (s, e)\<close> by (simp add: I_def)
  qed
  then show ?thesis by (simp add: I_def)
qed

lemma update_center_ok:
  assumes "oc_open width oc" "update_center long m cand oc = Inr oc'"
  shows "oc_open width oc' \<and> max_speakers oc' = max_speakers oc \<and> active_centers oc' = active_centers oc \<and>
    oc_grows oc oc'"
proof -
  obtain s emb where cand: "cand = (s, emb)" by fastforce
  let ?c = "nat (m ! s)"
  have "oc' = oc \<or> (\<exists>center. length center = length (centers oc ! ?c) \<and>
      oc' = oc\<lparr>centers := (centers oc)[?c := center]\<rparr>)"
  proof (cases "m ! s < 0 \<or> s \<notin> set long")
    case True
    then show ?thesis using assms(2) by (simp add: update_center_def cand)
  next
    case False
    then obtain center where "map_outcome (\<lambda>d. bnd (elem emb d) (\<lambda>e. Inr (centers oc ! ?c ! d + e)))
        [0..<length (centers oc ! ?c)] = Inr center" "oc' = oc\<lparr>centers := (centers oc)[?c := center]\<rparr>"
      using assms(2) by (simp add: update_center_def cand bnd_eq_Inr Let_def) blast
    then show ?thesis unfolding map_outcome_Inr by auto
  qed
  then consider "oc' = oc" | center where "length center = length (centers oc ! ?c)"
    "oc' = oc\<lparr>centers := (centers oc)[?c := center]\<rparr>" by blast
  then show ?thesis
  proof cases
    case 1
    then show ?thesis using assms(1) by simp
  next
    case (2 center)
    have "\<forall>e \<in> set ((centers oc)[?c := center]). length e = width"
    proof (cases "?c < length (centers oc)")
      case True
      then have "length center = width" using 2(1) assms(1) by (simp add: oc_open_def)
      then show ?thesis using assms(1) by (auto simp: oc_open_def dest!: subsetD [OF set_update_subset_insert])
    next
      case False
      then show ?thesis using assms(1) by (simp add: oc_open_def list_update_beyond)
    qed
    then show ?thesis using 2(2) assms(1) by (simp add: oc_open_def oc_grows_def)
  qed
qed

lemma update_all_ok:
  assumes "each_outcome (update_center long m) xs oc = Inr oc'" "oc_open width oc"
  shows "oc_open width oc' \<and> max_speakers oc' = max_speakers oc \<and> active_centers oc' = active_centers oc \<and>
    oc_grows oc oc'"
proof -
  define I where "I = (\<lambda>o1. oc_open width o1 \<and> max_speakers o1 = max_speakers oc \<and>
    active_centers o1 = active_centers oc \<and> oc_grows oc o1)"
  have "I oc'"
    using assms(1)
  proof (rule each_outcome_invariant [where I = I])
    show "I oc" using assms(2) by (simp add: I_def)
  next
    fix x o1 o2 assume "I o1" "update_center long m x o1 = Inr o2"
    then show "I o2"
      using update_center_ok [of width o1 long m x o2] oc_grows_trans [of oc o1 o2] by (simp add: I_def)
  qed
  then show ?thesis by (simp add: I_def)
qed

text \<open>The greedy matching is one to one.\<close>

lemma match_pairs_ok:
  fixes delta :: f32 and used_s :: "bool list"
  assumes "linked cands oc m" "\<forall>s < length m. \<forall>s' < length m. s \<noteq> s' \<longrightarrow> m ! s \<noteq> -1 \<longrightarrow> m ! s \<noteq> m ! s'"
    and "\<forall>s < length m. m ! s \<noteq> -1 \<longrightarrow> used_c ! nat (m ! s)" "length used_c = max_speakers oc"
    and "\<forall>p \<in> set ps. pair_c p < max_speakers oc \<and> active_centers oc ! pair_c p \<and>
           (\<exists>e. (pair_s p, e) \<in> set cands \<and> \<not> not_finite e)"
  defines "m' \<equiv> match_pairs delta ps used_s used_c m"
  shows "linked cands oc m' \<and> length m' = length m \<and>
    (\<forall>s < length m'. \<forall>s' < length m'. s \<noteq> s' \<longrightarrow> m' ! s \<noteq> -1 \<longrightarrow> m' ! s \<noteq> m' ! s')"
  using assms(1-5) unfolding m'_def
proof (induction delta ps used_s used_c m rule: match_pairs.induct)
  case (1 delta used_s used_c m)
  then show ?case by simp
next
  case (2 delta p ps used_s used_c m)
  show ?case
  proof (cases "pair_dist p > delta \<or> used_s ! pair_s p \<or> used_c ! pair_c p")
    case True
    then show ?thesis using 2 by auto
  next
    case False
    let ?m = "m[pair_s p := int (pair_c p)]" and ?u = "used_c[pair_c p := True]"
    have p: "pair_c p < max_speakers oc" "active_centers oc ! pair_c p"
      "\<exists>e. (pair_s p, e) \<in> set cands \<and> \<not> not_finite e" using 2(7) by auto
    have fresh: "m ! s \<noteq> int (pair_c p)" if "s < length m" for s
      using 2(5) that False by auto
    note fresh = fresh fresh [symmetric]
    have "linked cands oc ?m"
      using 2(3) p by (auto simp: linked_def nth_update_in)
    moreover have "\<forall>s < length ?m. \<forall>s' < length ?m. s \<noteq> s' \<longrightarrow> ?m ! s \<noteq> -1 \<longrightarrow> ?m ! s \<noteq> ?m ! s'"
      using 2(4) by (auto simp: nth_update_in fresh)
    moreover have "\<forall>s < length ?m. ?m ! s \<noteq> -1 \<longrightarrow> ?u ! nat (?m ! s)"
      using 2(3,5,6) p by (auto simp: nth_update_in linked_def)
    ultimately show ?thesis using 2(2) False 2(6,7) by simp
  qed
qed

subsection \<open>A call of identify\<close>

lemma candidate_pairs_props:
  assumes "candidate_pairs oc (s, e) = Inr ps" "p \<in> set ps"
  shows "pair_s p = s \<and> pair_c p < max_speakers oc \<and> active_centers oc ! pair_c p \<and> \<not> not_finite e"
proof -
  have fin: "\<not> not_finite e" using assms by (auto simp: candidate_pairs_def split: if_splits)
  let ?cs = "filter (\<lambda>c. active_centers oc ! c) [0..<max_speakers oc]"
  obtain i where i: "i < length ps" "p = ps ! i" using assms(2) by (auto simp: in_set_conv_nth)
  have "length ps = length ?cs" "\<exists>d. \<lparr>pair_s = s, pair_c = ?cs ! i, pair_dist = d\<rparr> = ps ! i"
    using assms(1) fin i(1) by (auto simp: candidate_pairs_def map_outcome_Inr bnd_eq_Inr)
  then have "length ps = length ?cs" "pair_s (ps ! i) = s \<and> pair_c (ps ! i) = ?cs ! i"
    by (auto dest: sym)
  moreover from this have "?cs ! i \<in> set ?cs" using i(1) by (metis nth_mem)
  ultimately show ?thesis using fin i(2) by auto
qed

definition candidates :: "online_clustering \<Rightarrow> f32 list list \<Rightarrow> f32 list list \<Rightarrow> candidate list" where
  "candidates oc segmentation embeddings =
     map (\<lambda>s. (s, embeddings ! s)) (active_speakers oc segmentation)"

lemma candidates_outcome:
  "map_outcome (\<lambda>s. bnd (elem embeddings s) (\<lambda>e. Inr (s, e))) (active_speakers oc segmentation) = Inr cands \<Longrightarrow>
   cands = candidates oc segmentation embeddings \<and> (\<forall>s \<in> set (active_speakers oc segmentation). s < length embeddings)"
  unfolding map_outcome_Inr candidates_def
  by (auto simp: bnd_eq_Inr elem_eq_Inr in_set_conv_nth intro!: nth_equalityI)

lemma matched_phase:
  fixes L :: nat
  assumes "oc_open width oc" "sorts closer srt"
    and "map_outcome (candidate_pairs oc) cands = Inr pss"
  defines "m \<equiv> match_pairs (delta_new oc) (srt (concat pss)) (replicate L False) (replicate (max_speakers oc) False) (replicate L (-1))"
  shows "phase_ok width long cands oc (oc, m) \<and> length m = L"
proof -
  have "set (srt (concat pss)) = set (concat pss)" using assms(2) sorting_sorts sorting.set_sort by metis
  moreover have "pair_c p < max_speakers oc \<and> active_centers oc ! pair_c p \<and>
      (\<exists>e. (pair_s p, e) \<in> set cands \<and> \<not> not_finite e)" if p: "p \<in> set (concat pss)" for p
  proof -
    obtain ps i where ps: "p \<in> set ps" "i < length pss" "ps = pss ! i"
      using p by (auto simp: in_set_conv_nth [of _ pss])
    then have "candidate_pairs oc (cands ! i) = Inr ps" "cands ! i \<in> set cands"
      using assms(3) by (auto simp: map_outcome_Inr)
    moreover obtain s e where "cands ! i = (s, e)" by fastforce
    ultimately show ?thesis using candidate_pairs_props [of oc s e ps p] ps(1) by auto
  qed
  ultimately have "linked cands oc m \<and> length m = L \<and>
      (\<forall>s < length m. \<forall>s' < length m. s \<noteq> s' \<longrightarrow> m ! s \<noteq> -1 \<longrightarrow> m ! s \<noteq> m ! s')"
    using match_pairs_ok [of cands oc "replicate L (-1)" "replicate (max_speakers oc) False" "srt (concat pss)"
        "delta_new oc" "replicate L False"]
    by (simp add: linked_def m_def)
  then show ?thesis using assms(1) by (auto simp: phase_ok_def apart_def)
qed

lemma identify_phases:
  assumes inv: "oc_inv width oc" and embs: "\<forall>e \<in> set embeddings. length e = width"
    and srt: "sorts closer srt" and run: "identify srt segmentation embeddings oc = Inr (oc', m)"
  shows "phase_ok width (set (long_speakers oc segmentation)) (candidates oc segmentation embeddings) oc (oc', m) \<and>
    length m = length (hd segmentation)"
proof -
  let ?L = "length (hd segmentation)" and ?long = "long_speakers oc segmentation"
  let ?cands = "candidates oc segmentation embeddings"
  have cands: "\<forall>s \<in> set (active_speakers oc segmentation). s < length embeddings"
    "map_outcome (\<lambda>s. bnd (elem embeddings s) (\<lambda>e. Inr (s, e))) (active_speakers oc segmentation) = Inr ?cands"
    using run candidates_outcome by (fastforce simp: identify_def bnd_eq_Inr Let_def)+
  then have widths: "\<forall>(s, e) \<in> set ?cands. length e = width"
    using embs by (auto simp: candidates_def)
  show ?thesis
  proof (cases "centers oc = []")
    case True
    obtain e where e: "elem embeddings 0 = Inr e"
      "(oc', m) = first_speakers ?cands (init_centers (length e) oc) (replicate ?L (-1))"
      using run cands(2) True by (auto simp: identify_def bnd_eq_Inr Let_def)
    have "length e = width" using e(1) embs by (auto simp: elem_eq_Inr)
    have "\<not> active_centers oc ! c" if "c < max_speakers oc" for c
      using inv that True by (auto simp: oc_inv_def oc_open_def)
    then have "phase_ok width (set ?long) ?cands oc (init_centers (length e) oc, replicate ?L (-1))"
      using \<open>length e = width\<close>
      by (auto simp: phase_ok_def oc_open_def init_centers_def oc_grows_def linked_def apart_def)
    then show ?thesis
      using first_speakers_ok [of width "set ?long" ?cands oc "init_centers (length e) oc" "replicate ?L (-1)" ?cands] widths e(2)
      by (metis length_replicate order_refl snd_conv)
  next
    case False
    obtain pss oc1 where phases: "map_outcome (candidate_pairs oc) ?cands = Inr pss"
      "each_outcome (assign_remaining ?long) ?cands (oc, match_pairs (delta_new oc) (srt (concat pss))
         (replicate ?L False) (replicate (max_speakers oc) False) (replicate ?L (-1))) = Inr (oc1, m)"
      "each_outcome (update_center ?long m) ?cands oc1 = Inr oc'"
      using run cands(2) False by (auto simp: identify_def bnd_eq_Inr Let_def)
    let ?m = "match_pairs (delta_new oc) (srt (concat pss)) (replicate ?L False) (replicate (max_speakers oc) False) (replicate ?L (-1))"
    have opn: "oc_open width oc" using inv False by (auto simp: oc_inv_def)
    have matched: "phase_ok width (set ?long) ?cands oc (oc, ?m)" "length ?m = ?L"
      using matched_phase [OF opn srt phases(1)] by auto
    from matched have rest: "phase_ok width (set ?long) ?cands oc (oc1, m)" "length m = ?L"
      using assign_all_ok [OF phases(2)] widths by auto
    then have "oc_open width oc' \<and> max_speakers oc' = max_speakers oc1 \<and> active_centers oc' = active_centers oc1 \<and> oc_grows oc1 oc'"
      using update_all_ok [OF phases(3), of width] by (simp add: phase_ok_def)
    then show ?thesis
      using rest oc_grows_trans [of oc oc1 oc'] by (auto simp: phase_ok_def linked_def apart_def)
  qed
qed

text \<open>
  C10. A successful call of \<open>identify\<close> keeps the state well-formed and never gives up a centre.
  It maps every local speaker to -1 or to an active centre; a mapped speaker is active in the
  chunk and has a finite embedding; and two long speakers of the chunk get the same centre only
  when no centre is free any more.
\<close>

theorem identify_correct:
  assumes "oc_inv width oc" "\<forall>e \<in> set embeddings. length e = width" "sorts closer srt"
    and "identify srt segmentation embeddings oc = Inr (oc', mapping)"
  shows "oc_inv width oc' \<and> oc_grows oc oc' \<and> length mapping = length (hd segmentation) \<and>
    (\<forall>s < length mapping. mapping ! s = -1 \<or>
       0 \<le> mapping ! s \<and> nat (mapping ! s) < max_speakers oc \<and> active_centers oc' ! nat (mapping ! s) \<and>
       speaker_max segmentation s \<ge> tau_active oc \<and> \<not> not_finite (embeddings ! s)) \<and>
    ((\<forall>c < max_speakers oc. active_centers oc' ! c) \<or>
     (\<forall>s < length mapping. \<forall>s' < length mapping.
        speaker_mean segmentation s \<ge> rho_update oc \<longrightarrow> speaker_mean segmentation s' \<ge> rho_update oc \<longrightarrow>
        s \<noteq> s' \<longrightarrow> mapping ! s \<noteq> -1 \<longrightarrow> mapping ! s \<noteq> mapping ! s'))"
proof -
  have ok: "oc_open width oc'" "oc_grows oc oc'" "linked (candidates oc segmentation embeddings) oc' mapping"
    "apart (set (long_speakers oc segmentation)) oc' mapping" "length mapping = length (hd segmentation)"
    using identify_phases [OF assms] by (simp_all add: phase_ok_def)
  have "max_speakers oc' = max_speakers oc" using ok(2) by (simp add: oc_grows_def)
  moreover have "set (long_speakers oc segmentation) =
      {s. s < length mapping \<and> speaker_mean segmentation s \<ge> rho_update oc}"
    using ok(5) by (auto simp: long_speakers_def)
  ultimately show ?thesis
    using ok by (auto simp: oc_inv_def linked_def apart_def candidates_def active_speakers_def)
qed

subsection \<open>When a call succeeds\<close>

lemma cosine_loop_defined: "length a \<le> length b \<Longrightarrow> \<exists>d. dot_loop z a b = Inr d"
  by (induction z a b rule: dot_loop.induct) auto

lemma cosine_distance_defined: "length a \<le> length b \<Longrightarrow> \<exists>d. cosine_distance a b = Inr d"
  using cosine_loop_defined [of a b 0] by (auto simp: cosine_distance_def)

lemma map_outcome_defined:
  "(\<And>x. x \<in> set xs \<Longrightarrow> \<exists>y. f x = Inr y) \<Longrightarrow> \<exists>ys. map_outcome f xs = Inr ys"
  by (induction xs) (auto, metis bnd_Inr)

lemma each_outcome_defined:
  assumes "I s" "\<And>x s. x \<in> set xs \<Longrightarrow> I s \<Longrightarrow> \<exists>t. f x s = Inr t \<and> I t"
  shows "\<exists>t. each_outcome f xs s = Inr t"
  using assms
proof (induction xs arbitrary: s)
  case (Cons x xs)
  obtain t where "f x s = Inr t" "I t" using Cons.prems(2) [of x s] Cons.prems(1) by auto
  then show ?case using Cons.IH [of t] Cons.prems(2) by auto
qed simp

lemma open_center_width: "oc_open width oc \<Longrightarrow> c < max_speakers oc \<Longrightarrow> length (centers oc ! c) = width"
  by (simp add: oc_open_def)

lemma map_to_nearest_defined:
  assumes "oc_open width oc" "length emb = width"
  shows "\<exists>m'. map_to_nearest s emb (oc, m) = Inr (oc, m')"
proof -
  have "\<exists>b. nearest_center oc emb = Inr b"
    unfolding nearest_center_def
  proof (rule each_outcome_defined [where I = "\<lambda>_. True"])
    fix c best assume "c \<in> set (filter (\<lambda>c. active_centers oc ! c) [0..<max_speakers oc])"
    then have "length emb \<le> length (centers oc ! c)" using open_center_width [OF assms(1)] assms(2) by auto
    then obtain d where "cosine_distance emb (centers oc ! c) = Inr d" using cosine_distance_defined by blast
    then show "\<exists>t. bnd (cosine_distance emb (centers oc ! c))
        (\<lambda>d. Inr (if d < fst best then (d, Some c) else best)) = Inr t \<and> True" by simp
  qed simp
  then show ?thesis by (auto simp: map_to_nearest_def split: prod.splits)
qed

lemma assign_remaining_defined:
  assumes "oc_open width (fst om)" "length (snd cand) = width"
  shows "\<exists>om'. assign_remaining long cand om = Inr om' \<and> oc_open width (fst om')"
proof -
  obtain s e oc m where eqs: "cand = (s, e)" "om = (oc, m)" by (metis surj_pair)
  have oc: "oc_open width oc" "length e = width" using assms eqs by simp_all
  obtain m' where near: "map_to_nearest s e (oc, m) = Inr (oc, m')" using map_to_nearest_defined [OF oc] by blast
  show ?thesis
    using near oc next_center_Some [of oc] open_center_open [OF oc(1) _ oc(2)]
    by (auto simp: assign_remaining_def eqs split: option.splits)
qed

lemma update_center_defined:
  assumes "oc_open width oc" "length (snd cand) = width" "m ! fst cand < int (max_speakers oc)"
  shows "\<exists>oc'. update_center long m cand oc = Inr oc' \<and> oc_open width oc' \<and> max_speakers oc' = max_speakers oc"
proof -
  obtain s e where cand: "cand = (s, e)" by fastforce
  let ?c = "nat (m ! s)"
  have "\<exists>oc'. update_center long m cand oc = Inr oc'"
  proof (cases "m ! s < 0")
    case False
    then have "length (centers oc ! ?c) = width" using open_center_width [OF assms(1)] assms(3) cand by simp
    then have "\<exists>center. map_outcome (\<lambda>d. bnd (elem e d) (\<lambda>e. Inr (centers oc ! ?c ! d + e)))
        [0..<length (centers oc ! ?c)] = Inr center"
      using assms(2) cand by (intro map_outcome_defined) simp
    then show ?thesis by (auto simp: update_center_def cand Let_def)
  qed (simp add: update_center_def cand)
  then show ?thesis using update_center_ok [OF assms(1)] by blast
qed

text \<open>Sorting the pairs is defined when no distance is a NaN.\<close>

definition distances_numeric :: "online_clustering \<Rightarrow> f32 list list \<Rightarrow> bool" where
  "distances_numeric oc embeddings \<longleftrightarrow>
     (\<forall>e \<in> set embeddings. \<forall>center \<in> set (centers oc). \<forall>d. cosine_distance e center = Inr d \<longrightarrow> is_num32 d)"

lemma candidate_pairs_defined:
  assumes "oc_open width oc" "length (snd cand) = width"
  shows "\<exists>ps. candidate_pairs oc cand = Inr ps"
proof -
  have "\<exists>ps. map_outcome (\<lambda>c. bnd (cosine_distance (snd cand) (centers oc ! c)) (\<lambda>d.
      Inr \<lparr>pair_s = fst cand, pair_c = c, pair_dist = d\<rparr>)) (filter (\<lambda>c. active_centers oc ! c) [0..<max_speakers oc]) = Inr ps"
  proof (rule map_outcome_defined)
    fix c assume "c \<in> set (filter (\<lambda>c. active_centers oc ! c) [0..<max_speakers oc])"
    then have "length (snd cand) \<le> length (centers oc ! c)" using open_center_width [OF assms(1)] assms(2) by auto
    then obtain d where "cosine_distance (snd cand) (centers oc ! c) = Inr d" using cosine_distance_defined by blast
    then show "\<exists>y. bnd (cosine_distance (snd cand) (centers oc ! c)) (\<lambda>d.
        Inr \<lparr>pair_s = fst cand, pair_c = c, pair_dist = d\<rparr>) = Inr y" by simp
  qed
  then show ?thesis by (simp add: candidate_pairs_def)
qed

lemma candidate_pairs_numeric:
  assumes "candidate_pairs oc (s, e) = Inr ps" "p \<in> set ps" "e \<in> set embeddings"
    and "distances_numeric oc embeddings" "length (centers oc) = max_speakers oc"
  shows "is_num32 (pair_dist p)"
proof -
  let ?cs = "filter (\<lambda>c. active_centers oc ! c) [0..<max_speakers oc]"
  have "\<not> not_finite e" using assms(1,2) by (auto simp: candidate_pairs_def split: if_splits)
  moreover obtain i where i: "i < length ps" "p = ps ! i" using assms(2) by (auto simp: in_set_conv_nth)
  ultimately obtain d where d: "i < length ?cs" "cosine_distance e (centers oc ! (?cs ! i)) = Inr d"
    "\<lparr>pair_s = s, pair_c = ?cs ! i, pair_dist = d\<rparr> = p"
    using assms(1) by (auto simp: candidate_pairs_def map_outcome_Inr bnd_eq_Inr)
  have "?cs ! i \<in> set ?cs" using d(1) by (rule nth_mem)
  then have "centers oc ! (?cs ! i) \<in> set (centers oc)" using assms(5) by simp
  then show ?thesis using assms(3,4) d(2,3) by (auto simp: distances_numeric_def)
qed

lemma candidates_defined:
  assumes "length (hd segmentation) \<le> length embeddings"
  shows "map_outcome (\<lambda>s. bnd (elem embeddings s) (\<lambda>e. Inr (s, e))) (active_speakers oc segmentation) =
    Inr (candidates oc segmentation embeddings)"
  unfolding candidates_def by (rule map_outcome_all) (use assms in \<open>auto simp: active_speakers_def\<close>)

text \<open>
  C11. \<open>identify\<close> returns a mapping whenever the segmentation is rectangular, every local speaker
  has an embedding of the common dimension, and no distance to a centre is a NaN: no read is out
  of bounds and the comparison given to \<open>std::sort\<close> is a strict weak order.
\<close>

theorem identify_total:
  assumes "oc_inv width oc" "\<forall>e \<in> set embeddings. length e = width" "sorts closer srt"
    and "segmentation \<noteq> []" "\<forall>row \<in> set segmentation. length (hd segmentation) \<le> length row"
    and "embeddings \<noteq> []" "length (hd segmentation) \<le> length embeddings" "distances_numeric oc embeddings"
  shows "\<exists>oc' mapping. identify srt segmentation embeddings oc = Inr (oc', mapping)"
proof -
  let ?cands = "candidates oc segmentation embeddings" and ?L = "length (hd segmentation)"
  let ?long = "long_speakers oc segmentation"
  have cand: "snd x \<in> set embeddings" "length (snd x) = width" if "x \<in> set ?cands" for x
    using that assms(2,7) by (auto simp: candidates_def active_speakers_def)
  have rect: "list_all (\<lambda>row. ?L \<le> length row) segmentation" using assms(5) by (simp add: list_all_iff)
  note start = identify_def candidates_defined [OF assms(7)] assms(4) rect Let_def
  show ?thesis
  proof (cases "centers oc = []")
    case True
    then show ?thesis using assms(6) by (auto simp: start intro: prod.exhaust)
  next
    case False
    then have opn: "oc_open width oc" using assms(1) by (auto simp: oc_inv_def)
    obtain pss where pss: "map_outcome (candidate_pairs oc) ?cands = Inr pss"
      using map_outcome_defined [of ?cands "candidate_pairs oc"] candidate_pairs_defined [OF opn] cand(2) by blast
    have "is_num32 (pair_dist p)" if p: "p \<in> set (concat pss)" for p
    proof -
      obtain i where i: "i < length pss" "p \<in> set (pss ! i)" using p by (auto simp: in_set_conv_nth [of _ pss])
      then have "candidate_pairs oc (?cands ! i) = Inr (pss ! i)" "?cands ! i \<in> set ?cands"
        using pss by (auto simp: map_outcome_Inr)
      moreover obtain s e where "?cands ! i = (s, e)" by fastforce
      ultimately show ?thesis
        using candidate_pairs_numeric [of oc s e "pss ! i" p embeddings] i(2) cand(1) [of "(s, e)"] assms(8) opn
        by (simp add: oc_open_def)
    qed
    then have order: "weak_order_on (set (concat pss)) closer"
      unfolding closer_def [abs_def] by (rule weak_order_on_key32)
    let ?m = "match_pairs (delta_new oc) (srt (concat pss)) (replicate ?L False) (replicate (max_speakers oc) False) (replicate ?L (-1))"
    have matched: "phase_ok width (set ?long) ?cands oc (oc, ?m)" "length ?m = ?L"
      using matched_phase [OF opn assms(3) pss] by auto
    have "\<exists>om. each_outcome (assign_remaining ?long) ?cands (oc, ?m) = Inr om"
      by (rule each_outcome_defined [where I = "\<lambda>om. oc_open width (fst om)"])
        (use opn assign_remaining_defined cand(2) in auto)
    then obtain oc1 m where om: "each_outcome (assign_remaining ?long) ?cands (oc, ?m) = Inr (oc1, m)" by auto
    have "\<forall>(s, e) \<in> set ?cands. length e = width" using cand(2) by auto
    then have rest: "phase_ok width (set ?long) ?cands oc (oc1, m)" "length m = ?L"
      using assign_all_ok [OF om matched(1)] matched(2) by auto
    have below: "m ! fst x < int (max_speakers oc1)" if "x \<in> set ?cands" for x
      using rest that by (fastforce simp: phase_ok_def linked_def candidates_def active_speakers_def)
    have "\<exists>oc2. each_outcome (update_center ?long m) ?cands oc1 = Inr oc2"
    proof (rule each_outcome_defined [where I = "\<lambda>o1. oc_open width o1 \<and> max_speakers o1 = max_speakers oc1"])
      show "oc_open width oc1 \<and> max_speakers oc1 = max_speakers oc1" using rest(1) by (simp add: phase_ok_def)
    next
      fix x o1 assume x: "x \<in> set ?cands" and o1: "oc_open width o1 \<and> max_speakers o1 = max_speakers oc1"
      then have "m ! fst x < int (max_speakers o1)" using below [OF x] by simp
      then show "\<exists>t. update_center ?long m x o1 = Inr t \<and> oc_open width t \<and> max_speakers t = max_speakers oc1"
        using update_center_defined [of width o1 x m ?long] o1 cand(2) [OF x] by auto
    qed
    then show ?thesis using False pss order om by (auto simp: start)
  qed
qed

end
