(* ===== verification/Audio_Examples.thy ===== *)
theory Audio_Examples
  imports Diarize Online_Clustering
begin

text \<open>
  Concrete inputs on which the theorems about the timeline, the online clustering, the LSTM layers,
  the WAV files and the offline program apply.
\<close>

definition flat_libm :: libm where
  "flat_libm = \<lparr>expf = \<lambda>x. 1, logf = \<lambda>x. x - 1, tanhf = \<lambda>x. 0, cosf = \<lambda>x. 1,
     sinf = \<lambda>x. 0, powf = \<lambda>x y. x, log10f = \<lambda>x. x - 1, log64 = \<lambda>x. x - 1, exp64 = \<lambda>x. 1, cos64 = \<lambda>x. 1, sin64 = \<lambda>x. 0\<rparr>"

lemma flat_libm_ranges: "libm_ranges flat_libm"
proof -
  have "nonneg_or_nan 1" "unit_or_nan 0" by code_simp+
  then show ?thesis by (simp add: libm_ranges_def flat_libm_def)
qed

definition zero_weights :: "nat \<Rightarrow> lstm_weights" where
  "zero_weights d = \<lparr>w_ih = replicate (512 * d) 0, w_hh = replicate (512 * 128) 0, b_ih = replicate 512 0,
     b_hh = replicate 512 0\<rparr>"

definition zero_stack :: "lstm_weights list" where
  "zero_stack = [zero_weights 60, zero_weights 256, zero_weights 256, zero_weights 256]"

lemma zero_stack_fits: "\<forall>l < 4. weights_fit (if l = 0 then 60 else 256) 128 (zero_stack ! l)"
proof -
  have "weights_fit d 128 (zero_weights d)" for d
    by (simp add: weights_fit_def zero_weights_def)
  then show ?thesis by (simp add: zero_stack_def less_Suc_eq numeral_eq_Suc)
qed

lemma lstm_layers_bounded_witness:
  "\<exists>y. lstm_layers (stream_layer flat_libm) zero_stack zero_stack 2 (replicate 120 0) = Inr y \<and>
     length y = 512 \<and> (\<forall>v \<in> set y. unit_or_nan v)"
proof -
  obtain y where y: "lstm_layers (stream_layer flat_libm) zero_stack zero_stack 2 (replicate 120 0) = Inr y"
    using stream_layers_defined [of zero_stack zero_stack 2 "replicate 120 0" flat_libm] zero_stack_fits
    by (auto simp: zero_stack_def)
  then show ?thesis
    using lstm_layers_bounded [OF flat_libm_ranges, of zero_stack zero_stack 2 "replicate 120 0" y "\<lambda>_ x. x"]
    by auto
qed

lemma wav_roundtrip_witness:
  "\<exists>bs. wav_session ''a.wav'' 16000 16 1 [[0, 0], [0]] = Inr bs \<and>
     read_wav (Some bs) = Inr (Some \<lparr>wav_data = map (\<lambda>x. f32_of_int (sample_value x) / f32_of_int 32768) [0, 0, 0],
       sample_rate = 16000, channels = 1, bits_per_sample = 16\<rparr>)"
proof -
  have "in_range 0" by code_simp
  then show ?thesis using wav_roundtrip [of "[[0, 0], [0]]" 1 "''a.wav''" 16000] by simp
qed

text \<open>A chunk with two speakers, one of whom is known.\<close>

definition known_speaker :: online_clustering where
  "known_speaker = \<lparr>tau_active = 1, rho_update = 1, delta_new = 0, max_speakers = 2, centers = [[1, 0], [0, 0]],
     active_centers = [True, False]\<rparr>"

lemma known_speaker_inv: "oc_inv 2 known_speaker"
  by (simp add: oc_inv_def oc_open_def known_speaker_def)

lemma identify_correct_witness:
  "let (oc, mapping) = (known_speaker\<lparr>centers := [[1 + 1, 0], [0, 1 + 1]], active_centers := [True, True]\<rparr>, [1, 0]) in
     oc_inv 2 oc \<and> oc_grows known_speaker oc \<and> length mapping = 2"
proof -
  let ?oc = "known_speaker\<lparr>centers := [[1 + 1, 0], [0, 1 + 1]], active_centers := [True, True]\<rparr>"
  have run: "identify (insertion_sort closer) [[1, 1]] [[0, 1], [1, 0]] known_speaker = Inr (?oc, [1, 0])"
    by code_simp
  show ?thesis
    using identify_correct [OF known_speaker_inv _ isort.sorts run] by simp
qed

lemma identify_total_witness:
  "\<exists>oc' mapping. identify (insertion_sort closer) [[1, 1]] [[0, 1], [1, 0]] known_speaker = Inr (oc', mapping)"
proof (rule identify_total [OF known_speaker_inv _ isort.sorts])
  have "list_all (\<lambda>e. list_all (\<lambda>center. case cosine_distance e center of Inl _ \<Rightarrow> True | Inr d \<Rightarrow> is_num32 d)
      (centers known_speaker)) [[0, 1], [1, 0]]"
    by code_simp
  then show "distances_numeric known_speaker [[0, 1], [1, 0]]"
    by (auto simp: distances_numeric_def list_all_iff split: sum.splits)
qed simp_all

text \<open>A recording of one grid frame.\<close>

definition one_frame :: chunk_prediction where
  "one_frame = \<lparr>pred_chunk_idx = 0, pred_start_time = 0, pred_end_time = f64_of_int 5, multilabel_probs = [1, 0, 0], num_frames = 1\<rparr>"

lemma one_frame_grid: "grid_size 270 = Inr 1"
proof -
  have "f64_of_int (int 270) / f64_of_rat 16000 = model_frame_duration"
    by (simp add: model_frame_duration_def f64_of_int_def)
  moreover have "model_frame_duration / model_frame_duration = F64 (fl_round binary64 False 1)"
    using frame_period_pos by (simp add: model_frame_duration_value divide_f64_def)
  moreover have "fl_round binary64 False 1 = FFin False 1" by code_simp
  ultimately show ?thesis by (simp add: grid_size_def ceil_f64_def int_of_f64_def fl_trunc_def bnd_ensure)
qed

lemma one_frame_ok: "prediction_ok one_frame"
proof -
  have "\<lfloor>1 / 2 :: rat\<rfloor> = 0" by (rule floor_unique) simp_all
  then have "start_frame one_frame = Inr 0"
    using frame_period_pos
    by (simp add: start_frame_def one_frame_def model_frame_duration_value divide_f64_def zero_f64_def fl_round_def
        round_f64_def int_of_f64_def fl_trunc_def bnd_ensure)
  then show ?thesis by (simp add: prediction_ok_def, simp add: one_frame_def)
qed

lemma reconstruct_correct_witness:
  "\<exists>segs. reconstruct (insertion_sort starts_before) False 270 [one_frame] [] [] = Inr segs \<and>
     successively (\<lambda>a b. \<not> merges a b) segs"
proof -
  show ?thesis
    using one_frame_grid one_frame_ok reconstruct_correct [of "insertion_sort starts_before" "[one_frame]" "[]" "[]" 270 1 False] isort.sorts
    by auto
qed

text \<open>Networks of the right shapes that find one speaker everywhere.\<close>

definition one_speaker :: networks where
  "one_speaker = \<lparr>sincnet = \<lambda>c. (1, 60, replicate 60 0), project = \<lambda>w x. [],
     lstm_fwd = zero_stack, lstm_rev = zero_stack,
     classifier = \<lambda>T h. (1, 3, [1, 0, 0]), embed_net = \<lambda>T n x. replicate 256 0, gram = \<lambda>vs. [],
     nets_libm = flat_libm, vbx = None, use_embedding = True\<rparr>"

lemma one_speaker_ok: "nets_ok one_speaker"
proof -
  have "length zero_stack = 4" by (simp add: zero_stack_def)
  moreover have "resnet_ok (\<lambda>T n x. replicate 256 0)" by (simp add: resnet_ok_def EMBEDDING_DIM_def)
  ultimately show ?thesis using zero_stack_fits by (simp add: nets_ok_def one_speaker_def)
qed


lemma compute_fbank_total_witness:
  "\<exists>fbank. compute_fbank flat_libm (replicate 720 0) 16000 80 = Inr fbank \<and> length fbank = 240"
  using compute_fbank_total [of "replicate 720 0" 80 flat_libm] by simp

end
