(* ===== verification/Streaming.thy ===== *)
theory Streaming
  imports Diarize Online_Clustering
begin

text \<open>
  The streaming program \<open>main\<close> of \<open>examples/main_streaming.cpp\<close>: chunks of a few seconds, online
  clustering, overlap-add of the last chunks, and the state machine that prints a line whenever a
  speaker falls silent.  The ggml graphs are parameters (\<open>networks\<close> of \<open>Diarize\<close>).
\<close>

subsection \<open>The classes of a frame\<close>

definition powerset_speakers :: "nat list list" where
  "powerset_speakers = [[], [0], [1], [2], [0, 1], [0, 2], [1, 2]]"

definition best_class :: "f32 list \<Rightarrow> nat" where
  "best_class p = fst (foldl (\<lambda>(i, m) k. if p ! k > m then (k, p ! k) else (i, m)) (0, p ! 0) [1..<7])"

definition powerset_to_rows :: "f32 list \<Rightarrow> nat \<Rightarrow> f32 list list outcome" where
  "powerset_to_rows probs frames =
     bnd (ensure (frames * 7 \<le> length probs) Undefined) (\<lambda>_.
     Inr (map (\<lambda>t. let c = best_class (take 7 (drop (t * 7) probs))
                   in map (\<lambda>s. if s \<in> set (powerset_speakers ! c) then 1 else 0) [0..<3]) [0..<frames]))"

definition run_segmentation :: "networks \<Rightarrow> f32 list \<Rightarrow> f32 list list outcome" where
  "run_segmentation nets wav =
     (let (T, F, x) = sincnet nets wav in
      bnd (transposed T F x) (\<lambda>sinc_out.
      bnd (lstm_layers (stream_layer (nets_libm nets)) (lstm_fwd nets) (lstm_rev nets) T sinc_out) (\<lambda>h.
      let (frames, classes, probs) = classifier nets T h in powerset_to_rows probs frames)))"

subsection \<open>From local to global speakers\<close>

definition permute_speaker :: "f32 list list \<Rightarrow> int list \<Rightarrow> nat \<Rightarrow> bool \<Rightarrow> nat \<Rightarrow> f32 list list \<Rightarrow> f32 list list outcome" where
  "permute_speaker segmentation mapping max_spk fallback_local s out =
     (let g = (if mapping ! s < 0 \<and> fallback_local \<and> s < max_spk then int s else mapping ! s) in
      if g < 0 then Inr out
      else each_outcome (\<lambda>t out. bnd (elem (segmentation ! t) s) (\<lambda>v. bnd (elem (out ! t) (nat g)) (\<lambda>old.
               Inr (out[t := (out ! t)[nat g := std_max32 old v]]))))
             [0..<length segmentation] out)"

definition permute_segmentation :: "f32 list list \<Rightarrow> int list \<Rightarrow> nat \<Rightarrow> bool \<Rightarrow> f32 list list outcome" where
  "permute_segmentation segmentation mapping max_spk fallback_local =
     each_outcome (permute_speaker segmentation mapping max_spk fallback_local) [0..<length mapping]
       (replicate (length segmentation) (replicate max_spk 0))"

subsection \<open>Overlap-add of the last chunks\<close>

record buffer_seg =
  buf_start :: f64
  resolution :: f64
  buf_frames :: nat
  buf_speakers :: nat
  buf_data :: "f32 list"

definition hamming :: "libm \<Rightarrow> nat \<Rightarrow> f32 list" where
  "hamming m n =
     (if n = 1 then [1]
      else map (\<lambda>i. f32_of_rat (54 / 100) -
                    f32_of_rat (46 / 100) * cosf m (f32_of_int 2 * pi32 * f32_of_int (int i) / f32_of_int (int n - 1)))
             [0..<n])"

type_synonym aggregate = "f32 list \<times> f32 list"

definition add_row :: "buffer_seg \<Rightarrow> f32 list \<Rightarrow> int \<Rightarrow> nat \<Rightarrow> nat \<Rightarrow> aggregate \<Rightarrow> aggregate outcome" where
  "add_row buf hw idx0 num_speakers t agg =
     (let src = idx0 + int t in
      if src < 0 \<or> src \<ge> int (buf_frames buf) then Inr agg
      else
        let (s, sw) = agg; w = hw ! nat src in
        bnd (each_outcome (\<lambda>k s. bnd (elem (buf_data buf) (nat src * buf_speakers buf + k)) (\<lambda>v.
               Inr (s[t * num_speakers + k := s ! (t * num_speakers + k) + w * v]))) [0..<num_speakers] s) (\<lambda>s.
        Inr (s, sw[t := sw ! t + w])))"

definition add_buffer :: "libm \<Rightarrow> f64 \<Rightarrow> nat \<Rightarrow> nat \<Rightarrow> buffer_seg \<Rightarrow> aggregate \<Rightarrow> aggregate outcome" where
  "add_buffer m focus_start target_frames num_speakers buf agg =
     bnd (int_of_f64 (floor_f64 ((focus_start - buf_start buf) / resolution buf))) (\<lambda>idx0.
     each_outcome (add_row buf (hamming m (buf_frames buf)) idx0 num_speakers) [0..<target_frames] agg)"

definition aggregate_buffers :: "libm \<Rightarrow> buffer_seg list \<Rightarrow> f64 \<Rightarrow> nat \<Rightarrow> nat \<Rightarrow> f32 list list outcome" where
  "aggregate_buffers m buffers focus_start target_frames num_speakers =
     bnd (each_outcome (add_buffer m focus_start target_frames num_speakers) buffers
            (replicate (target_frames * num_speakers) 0, replicate target_frames 0)) (\<lambda>(s, sw).
     Inr (map (\<lambda>t. map (\<lambda>k. let v = s ! (t * num_speakers + k) in if sw ! t \<le> 0 then v else v / sw ! t) [0..<num_speakers])
            [0..<target_frames]))"

subsection \<open>The printed lines\<close>

type_synonym line = "f64 \<times> f64 \<times> nat"

text \<open>\<open>active_global\<close> and \<open>active_start\<close> of a speaker are one optional start time.\<close>

definition emit_speaker :: "f32 \<Rightarrow> f64 \<Rightarrow> f32 list \<Rightarrow> nat \<Rightarrow> f64 option list \<times> line list \<Rightarrow> f64 option list \<times> line list" where
  "emit_speaker tau now row s st =
     (let (act, lines) = st; is_active = row ! s \<ge> tau in
      case act ! s of
        None \<Rightarrow> if is_active then (act[s := Some now], lines) else st
      | Some start \<Rightarrow> if is_active then st else (act[s := None], lines @ [(start, now, s)]))"

definition emit_frame :: "f32 \<Rightarrow> nat \<Rightarrow> f64 \<times> f32 list \<Rightarrow> f64 option list \<times> line list \<Rightarrow> f64 option list \<times> line list" where
  "emit_frame tau max_spk frame st = fold (emit_speaker tau (fst frame) (snd frame)) [0..<max_spk] st"

definition close_lines :: "f64 \<Rightarrow> f64 option list \<Rightarrow> line list" where
  "close_lines end_time act =
     concat (map (\<lambda>s. case act ! s of None \<Rightarrow> [] | Some start \<Rightarrow> [(start, end_time, s)]) [0..<length act])"

subsection \<open>The embedding of a local speaker\<close>

record stream_params =
  duration :: f32
  step_time :: f32
  latency :: f32
  p_tau_active :: f32
  tau_embed :: f32
  p_rho_update :: f32
  p_delta_new :: f32
  p_max_speakers :: nat
  embed_every :: int

text \<open>Here the whole of the features goes through the network, and the result is always normalised.\<close>

definition stream_embedding :: "resnet \<Rightarrow> f32 list \<Rightarrow> nat \<Rightarrow> nat \<Rightarrow> f32 list outcome" where
  "stream_embedding net fbank T n_mels =
     bnd (transposed n_mels T fbank) (\<lambda>in_data.
     bnd (ensure (EMBEDDING_DIM \<le> length (net T n_mels in_data)) Undefined) (\<lambda>_.
     let embedding = take EMBEDDING_DIM (net T n_mels in_data)
     in Inr (map (\<lambda>x. x / vector_norm embedding) embedding)))"

definition overlap_counts :: "f32 \<Rightarrow> f32 list list \<Rightarrow> nat list" where
  "overlap_counts tau seg = map (\<lambda>row. length (filter (\<lambda>s. row ! s \<ge> tau) [0..<3])) seg"

text \<open>The frames whose samples are kept: of the active ones, only the clean ones when there are enough.\<close>

definition masked_frames :: "f32 \<Rightarrow> int \<Rightarrow> f32 list list \<Rightarrow> nat \<Rightarrow> nat list" where
  "masked_frames tau min_num_frames seg s =
     (let active = filter (\<lambda>t. seg ! t ! s \<ge> tau) [0..<length seg];
          clean = filter (\<lambda>t. overlap_counts tau seg ! t = 1) active
      in if int (length clean) \<ge> min_num_frames then clean else active)"

definition frame_slice :: "f32 list \<Rightarrow> int \<Rightarrow> nat \<Rightarrow> f32 list outcome" where
  "frame_slice chunk frame_samples t =
     (let s0 = int t * frame_samples in
      bnd (ensure (s0 \<in> {- (2 ^ 31)..<2 ^ 31} \<and> s0 + frame_samples \<in> {- (2 ^ 31)..<2 ^ 31}) Undefined) (\<lambda>_.
      let s1 = min (s0 + frame_samples) (int (length chunk)) in
      if s1 \<le> s0 then Inr []
      else bnd (ensure (0 \<le> s0) Undefined) (\<lambda>_. Inr (take (nat (s1 - s0)) (drop (nat s0) chunk)))))"

definition min_frames :: "int \<Rightarrow> int \<Rightarrow> int \<Rightarrow> int outcome" where
  "min_frames sr frames chunk_samples =
     bnd (int_of_f64 (round_f64 (f64_of_rat (3 / 10) * f64_of_int sr))) (\<lambda>min_embed_samples.
     int_of_f64 (ceil_f64 (f64_of_int frames * f64_of_int min_embed_samples / f64_of_int (max 1 chunk_samples))))"

text \<open>The division of C++ truncates towards zero.\<close>

definition half :: "int \<Rightarrow> int" where
  "half i = (if i < 0 then - (- i div 2) else i div 2)"

text \<open>\<open>None\<close> leaves the embedding of the speaker at NaN.\<close>

definition embed_local :: "networks \<Rightarrow> f32 \<Rightarrow> int \<Rightarrow> int \<Rightarrow> int \<Rightarrow> f32 list \<Rightarrow> f32 list list \<Rightarrow> nat \<Rightarrow> f32 list option outcome" where
  "embed_local nets tau sr frame_samples min_num_frames chunk seg s =
     (if speaker_max seg s < tau then Inr None
      else
        bnd (map_outcome (frame_slice chunk frame_samples) (masked_frames tau min_num_frames seg s)) (\<lambda>slices.
        let masked = concat slices in
        if int (length masked) < half sr then Inr None
        else
          bnd (compute_fbank (nets_libm nets) masked sr 80) (\<lambda>fbank.
          let T_emb = length fbank div 80 in
          if T_emb < 10 then Inr None
          else bnd (stream_embedding (embed_net nets) fbank T_emb 80) (\<lambda>e. Inr (Some e)))))"

definition nan_embedding :: "f32 list" where
  "nan_embedding = replicate EMBEDDING_DIM (F32 FNaN)"

subsection \<open>The main loop\<close>

record stream_state =
  pos :: "64 word"
  chunk_index :: int
  clustering :: online_clustering
  last_embeddings :: "f32 list list"
  buffers :: "buffer_seg list"
  act :: "f64 option list"
  lines :: "line list"

record stream_sizes =
  rate :: int
  chunk_samples :: int
  stride :: int
  frame_samples :: int
  num_overlapping :: int

text \<open>The \<open>size_t\<close> \<open>pos\<close> grows by the \<open>int\<close> \<open>step_samples\<close>.\<close>

definition advance :: "stream_sizes \<Rightarrow> stream_state \<Rightarrow> stream_state" where
  "advance sz st = st\<lparr>pos := pos st + of_int (stride sz), chunk_index := chunk_index st + 1\<rparr>"

definition stream_chunk :: "stream_sizes \<Rightarrow> f32 list \<Rightarrow> nat \<Rightarrow> f32 list outcome" where
  "stream_chunk sz wav p =
     bnd (ensure (0 \<le> chunk_samples sz) Threw) (\<lambda>_.
     let part = take (nat (chunk_samples sz)) (drop p wav)
     in Inr (part @ replicate (nat (chunk_samples sz) - length part) 0))"

definition stream_embeddings :: "networks \<Rightarrow> stream_params \<Rightarrow> stream_sizes \<Rightarrow> f32 list \<Rightarrow> f32 list list \<Rightarrow> stream_state \<Rightarrow>
    (f32 list list \<times> f32 list list) outcome" where
  "stream_embeddings nets pr sz chunk seg st =
     (if embed_every pr \<le> 1 \<or> chunk_index st mod embed_every pr = 0 then
        bnd (min_frames (rate sz) (int (length seg)) (chunk_samples sz)) (\<lambda>min_num_frames.
        bnd (map_outcome (embed_local nets (tau_embed pr) (rate sz) (frame_samples sz) min_num_frames chunk seg) [0..<3]) (\<lambda>es.
        Inr (map (\<lambda>e. case e of None \<Rightarrow> nan_embedding | Some v \<Rightarrow> v) es,
             map2 (\<lambda>e last. case e of None \<Rightarrow> last | Some v \<Rightarrow> v) es (last_embeddings st))))
      else Inr (last_embeddings st, last_embeddings st))"

definition focus_region :: "stream_params \<Rightarrow> nat \<Rightarrow> f64 \<Rightarrow> f64 \<times> f64" where
  "focus_region pr n_buffers chunk_start =
     (let focus_start = chunk_start + f64_of_f32 (duration pr) - f64_of_f32 (latency pr);
          focus_end = focus_start + f64_of_f32 (step_time pr);
          near_zero = (if chunk_start < 0 then - chunk_start else chunk_start) < f64_of_rat (1 / 10 ^ 6)
      in (if n_buffers = 1 \<and> near_zero then 0 else focus_start, focus_end))"

text \<open>The lines of a chunk, from the aggregated buffers; then the oldest buffer is dropped.\<close>

definition stream_output :: "networks \<Rightarrow> stream_params \<Rightarrow> stream_sizes \<Rightarrow> buffer_seg list \<Rightarrow> f64 \<Rightarrow> nat \<Rightarrow> f64 \<Rightarrow> stream_state \<Rightarrow>
    (stream_state + stream_state) outcome" where
  "stream_output nets pr sz bufs focus_start target_frames res st =
     bnd (aggregate_buffers (nets_libm nets) bufs focus_start target_frames (p_max_speakers pr)) (\<lambda>agg.
     let frames = map (\<lambda>t. (focus_start + (f64_of_int (int t) + f64_of_rat (1 / 2)) * res, agg ! t)) [0..<target_frames];
         out = fold (emit_frame (p_tau_active pr) (p_max_speakers pr)) frames (act st, lines st);
         st = advance sz (st\<lparr>act := fst out, lines := snd out,
                buffers := (if int (length bufs) > num_overlapping sz then tl bufs else bufs)\<rparr>)
     in Inr (if stride sz \<le> 0 then Inl st else Inr st))"

definition stream_focus :: "networks \<Rightarrow> stream_params \<Rightarrow> stream_sizes \<Rightarrow> buffer_seg list \<Rightarrow> f64 \<Rightarrow> f64 \<Rightarrow> stream_state \<Rightarrow>
    (stream_state + stream_state) outcome" where
  "stream_focus nets pr sz bufs chunk_start res st =
     (let (focus_start, focus_end) = focus_region pr (length bufs) chunk_start in
      bnd (int_of_f64 (round_f64 ((focus_end - focus_start) / res))) (\<lambda>target_frames.
      if target_frames \<le> 0 then Inr (Inr (advance sz st))
      else stream_output nets pr sz bufs focus_start (nat target_frames) res st))"

text \<open>One iteration; \<open>Inl\<close> ends the loop, \<open>Inr\<close> goes on with it.\<close>

definition stream_iteration :: "(pair list \<Rightarrow> pair list) \<Rightarrow> networks \<Rightarrow> stream_params \<Rightarrow> stream_sizes \<Rightarrow> f32 list \<Rightarrow> stream_state \<Rightarrow>
    (stream_state + stream_state) outcome" where
  "stream_iteration srt nets pr sz wav st =
     bnd (stream_chunk sz wav (unat (pos st))) (\<lambda>chunk.
     bnd (run_segmentation nets chunk) (\<lambda>seg.
     bnd (stream_embeddings nets pr sz chunk seg st) (\<lambda>(embeddings, last).
     bnd (identify srt seg embeddings (clustering st)) (\<lambda>(oc, mapping).
     bnd (permute_segmentation seg mapping (p_max_speakers pr) True) (\<lambda>global_seg.
     let chunk_start = f64_of_int (uint (pos st)) / f64_of_int (rate sz);
         res = f64_of_f32 (duration pr / f32_of_int (int (length seg)));
         bufs = buffers st @ [\<lparr>buf_start = chunk_start, resolution = res, buf_frames = length seg,
                              buf_speakers = p_max_speakers pr, buf_data = concat global_seg\<rparr>]
     in stream_focus nets pr sz bufs chunk_start res (st\<lparr>clustering := oc, last_embeddings := last, buffers := bufs\<rparr>))))))"

fun stream_loop :: "nat \<Rightarrow> (pair list \<Rightarrow> pair list) \<Rightarrow> networks \<Rightarrow> stream_params \<Rightarrow> stream_sizes \<Rightarrow> f32 list \<Rightarrow> stream_state \<Rightarrow>
    stream_state outcome" where
  "stream_loop 0 srt nets pr sz wav st = Inl Diverged"
| "stream_loop (Suc fuel) srt nets pr sz wav st =
     (if unat (pos st) < length wav then
        bnd (stream_iteration srt nets pr sz wav st) (\<lambda>r.
          case r of Inl st \<Rightarrow> Inr st | Inr st \<Rightarrow> stream_loop fuel srt nets pr sz wav st)
      else Inr st)"

definition stream_sizes_of :: "stream_params \<Rightarrow> int \<Rightarrow> stream_sizes outcome" where
  "stream_sizes_of pr sr =
     bnd (int_of_f32 (round_f32 (duration pr * f32_of_int sr))) (\<lambda>cs.
     bnd (int_of_f32 (round_f32 (step_time pr * f32_of_int sr))) (\<lambda>ss.
     bnd (int_of_f64 (round_f64 (f64_of_rat 270 / f64_of_rat 16000 * f64_of_int sr))) (\<lambda>fs.
     bnd (int_of_f32 (round_f32 (latency pr / step_time pr))) (\<lambda>ov.
     Inr \<lparr>rate = sr, chunk_samples = cs, stride = ss, frame_samples = fs, num_overlapping = max 1 ov\<rparr>))))"

definition stream_start :: "stream_params \<Rightarrow> stream_state" where
  "stream_start pr =
     \<lparr>pos = 0, chunk_index = 0,
      clustering = new_clustering (p_tau_active pr) (p_rho_update pr) (p_delta_new pr) (p_max_speakers pr),
      last_embeddings = replicate 3 nan_embedding, buffers = [], act = replicate (p_max_speakers pr) None, lines = []\<rparr>"

definition stream_main :: "nat \<Rightarrow> (pair list \<Rightarrow> pair list) \<Rightarrow> networks \<Rightarrow> stream_params \<Rightarrow> wav_file \<Rightarrow> line list outcome" where
  "stream_main fuel srt nets pr wav =
     (let pr = (if latency pr < 0 then pr\<lparr>latency := step_time pr\<rparr> else pr) in
      bnd (stream_sizes_of pr (sample_rate wav)) (\<lambda>sz.
      bnd (stream_loop fuel srt nets pr sz (wav_data wav) (stream_start pr)) (\<lambda>st.
      Inr (lines st @ close_lines (f64_of_int (int (length (wav_data wav))) / f64_of_int (sample_rate wav)) (act st)))))"

subsection \<open>The printed lines are the runs of activity\<close>

text \<open>The lines of one speaker, and one step of one speaker.\<close>

definition lines_of :: "nat \<Rightarrow> line list \<Rightarrow> (f64 \<times> f64) list" where
  "lines_of s ls = map (\<lambda>l. (fst l, fst (snd l))) (filter (\<lambda>l. snd (snd l) = s) ls)"

definition speaker_step :: "f64 \<Rightarrow> bool \<Rightarrow> f64 option \<times> (f64 \<times> f64) list \<Rightarrow> f64 option \<times> (f64 \<times> f64) list" where
  "speaker_step now on st = scan_step_by (\<lambda>_. now) (0, on) st"

lemma lines_of_append [simp]: "lines_of s (xs @ ys) = lines_of s xs @ lines_of s ys"
  by (simp add: lines_of_def)

lemma emit_speaker_effect:
  assumes "emit_speaker tau now row k (a, ls) = (a', ls')" "k < length a"
  shows "length a' = length a \<and> (\<forall>s < length a. (a' ! s, lines_of s ls') =
    (if s = k then speaker_step now (row ! k \<ge> tau) (a ! k, lines_of k ls) else (a ! s, lines_of s ls)))"
  using assms
  by (auto simp: emit_speaker_def speaker_step_def scan_step_by_def lines_of_def Let_def nth_list_update
      split: option.splits if_splits)

lemma emit_speakers_effect:
  assumes "distinct ks" "set ks \<subseteq> {0..<length a}" "fold (emit_speaker tau now row) ks (a, ls) = (a', ls')"
  shows "length a' = length a \<and> (\<forall>s < length a. (a' ! s, lines_of s ls') =
    (if s \<in> set ks then speaker_step now (row ! s \<ge> tau) (a ! s, lines_of s ls) else (a ! s, lines_of s ls)))"
  using assms
proof (induction ks arbitrary: a ls)
  case (Cons k ks)
  obtain a1 ls1 where one: "emit_speaker tau now row k (a, ls) = (a1, ls1)" by fastforce
  have e1: "length a1 = length a" "\<forall>s < length a. (a1 ! s, lines_of s ls1) =
      (if s = k then speaker_step now (row ! k \<ge> tau) (a ! k, lines_of k ls) else (a ! s, lines_of s ls))"
    using emit_speaker_effect [OF one] Cons.prems(2) by auto
  have "length a' = length a1 \<and> (\<forall>s < length a1. (a' ! s, lines_of s ls') =
      (if s \<in> set ks then speaker_step now (row ! s \<ge> tau) (a1 ! s, lines_of s ls1) else (a1 ! s, lines_of s ls1)))"
    using Cons.prems one e1(1) by (intro Cons.IH) auto
  then show ?case using e1 Cons.prems(1) by auto
qed simp

lemma emit_frame_effect:
  assumes "emit_frame tau n frame (a, ls) = (a', ls')" "length a = n"
  shows "length a' = n \<and> (\<forall>s < n. (a' ! s, lines_of s ls') =
    speaker_step (fst frame) (snd frame ! s \<ge> tau) (a ! s, lines_of s ls))"
  using emit_speakers_effect [of "[0..<n]" a tau "fst frame" "snd frame" ls a' ls'] assms by (simp add: emit_frame_def)

lemma emit_frames_effect:
  assumes "fold (emit_frame tau n) frames (a, ls) = (a', ls')" "length a = n"
  shows "length a' = n \<and> (\<forall>s < n. (a' ! s, lines_of s ls') =
    fold (\<lambda>f. speaker_step (fst f) (snd f ! s \<ge> tau)) frames (a ! s, lines_of s ls))"
  using assms
proof (induction frames arbitrary: a ls)
  case (Cons f frames)
  obtain a1 ls1 where one: "emit_frame tau n f (a, ls) = (a1, ls1)" by fastforce
  then show ?case using emit_frame_effect [OF one Cons.prems(2)] Cons.IH [of a1 ls1] Cons.prems(1) by auto
qed simp

lemma lines_of_close:
  "s < length a \<Longrightarrow> lines_of s (close_lines end_time a) = (case a ! s of None \<Rightarrow> [] | Some start \<Rightarrow> [(start, end_time)])"
proof -
  have "lines_of s (concat (map (\<lambda>k. case a ! k of None \<Rightarrow> [] | Some start \<Rightarrow> [(start, end_time, k)]) ks)) =
      (if s \<in> set ks then (case a ! s of None \<Rightarrow> [] | Some start \<Rightarrow> [(start, end_time)]) else [])"
    if "distinct ks" for ks
    using that by (induction ks) (auto simp: lines_of_def split: option.splits)
  then show "s < length a \<Longrightarrow> lines_of s (close_lines end_time a) = (case a ! s of None \<Rightarrow> [] | Some start \<Rightarrow> [(start, end_time)])"
    by (simp add: close_lines_def)
qed

text \<open>
  C17. Over any sequence of aggregated frames, the lines printed for a speaker, with the one printed
  at the end, are the maximal runs of frames in which the speaker is active: each from the time of
  its first frame to the time of the first inactive frame after it, or to the end.
\<close>

theorem emitted_lines_correct:
  assumes "fold (emit_frame tau n) frames (replicate n None, []) = (a, ls)" "s < n"
  shows "\<exists>rs. runs_of (map (\<lambda>f. snd f ! s \<ge> tau) frames) rs \<and>
    lines_of s (ls @ close_lines end_time a) =
      map (\<lambda>(i, j). (fst (frames ! i), if j < length frames then fst (frames ! j) else end_time)) rs"
proof -
  let ?on = "\<lambda>f :: f64 \<times> f32 list. snd f ! s \<ge> tau" and ?N = "length frames"
  define time where "time i = (if i < ?N then fst (frames ! i) else end_time)" for i
  have eff: "length a = n" "(a ! s, lines_of s ls) = fold (\<lambda>f. speaker_step (fst f) (?on f)) frames (None, [])"
    using emit_frames_effect [OF assms(1)] assms(2) by (simp_all add: lines_of_def)
  have "fold (\<lambda>f. speaker_step (fst f) (?on f)) (map (\<lambda>i. frames ! i) [0..<?N]) (None, []) =
      fold (scan_step_by time) (map (\<lambda>i. (i, ?on (frames ! i))) [0..<?N]) (None, [])"
    unfolding fold_map by (rule fold_cong) (auto simp: speaker_step_def scan_step_by_def time_def fun_eq_iff)
  also have "map (\<lambda>i. (i, ?on (frames ! i))) [0..<?N] = enumerate 0 (map ?on frames)"
    by (rule nth_equalityI) (simp_all add: nth_enumerate_eq)
  finally have run: "(a ! s, lines_of s ls) = map_prod (map_option time) (map (map_prod time time))
      (fold scan_step (enumerate 0 (map ?on frames)) (None, []))"
    using eff(2) scan_by_fold [of time "enumerate 0 (map ?on frames)" None "[]"] by (simp add: map_nth)
  have "lines_of s (ls @ close_lines end_time a) = map (map_prod time time) (scan (map ?on frames))"
    using run lines_of_close [of s a end_time] eff(1) assms(2)
    by (cases "fold scan_step (enumerate 0 (map ?on frames)) (None, [])")
      (auto simp: scan_def Let_def time_def split: option.splits)
  also have "\<dots> = map (\<lambda>(i, j). (fst (frames ! i), if j < ?N then fst (frames ! j) else end_time)) (scan (map ?on frames))"
  proof (rule map_cong)
    fix r assume "r \<in> set (scan (map ?on frames))"
    then have "fst r < snd r" "snd r \<le> ?N" using scan_bounds by fastforce+
    then show "map_prod time time r = (case r of (i, j) \<Rightarrow> (fst (frames ! i), if j < ?N then fst (frames ! j) else end_time))"
      by (cases r) (simp add: time_def)
  qed simp
  finally show ?thesis using scan_runs by blast
qed

subsection \<open>Global activity of a frame\<close>

text \<open>The global speaker of a local one: the mapped one, or the one of the same number.\<close>

definition target :: "int list \<Rightarrow> nat \<Rightarrow> bool \<Rightarrow> nat \<Rightarrow> int" where
  "target mapping max_spk fallback s =
     (if mapping ! s < 0 \<and> fallback \<and> s < max_spk then int s else mapping ! s)"

definition activity :: "f32 list list \<Rightarrow> int list \<Rightarrow> nat \<Rightarrow> bool \<Rightarrow> nat list \<Rightarrow> nat \<Rightarrow> nat \<Rightarrow> f32" where
  "activity seg mapping max_spk fallback ks t g =
     foldl std_max32 0 (map (\<lambda>s. seg ! t ! s) (filter (\<lambda>s. target mapping max_spk fallback s = int g) ks))"

definition permuted :: "f32 list list \<Rightarrow> int list \<Rightarrow> nat \<Rightarrow> bool \<Rightarrow> nat list \<Rightarrow> f32 list list \<Rightarrow> bool" where
  "permuted seg mapping max_spk fallback ks out \<longleftrightarrow>
     length out = length seg \<and>
     (\<forall>t < length seg. length (out ! t) = max_spk \<and>
        (\<forall>g < max_spk. out ! t ! g = activity seg mapping max_spk fallback ks t g))"

lemma permute_speaker_permuted:
  assumes "permuted seg mapping n fallback ks out" "target mapping n fallback s < int n"
    and "\<forall>row \<in> set seg. s < length row"
  shows "\<exists>out'. permute_speaker seg mapping n fallback s out = Inr out' \<and> permuted seg mapping n fallback (ks @ [s]) out'"
proof (cases "target mapping n fallback s < 0")
  case True
  then have "permute_speaker seg mapping n fallback s out = Inr out"
    by (simp add: permute_speaker_def target_def [symmetric] Let_def)
  moreover have "activity seg mapping n fallback (ks @ [s]) t g = activity seg mapping n fallback ks t g" for t g
    using True by (simp add: activity_def)
  ultimately show ?thesis using assms(1) by (simp add: permuted_def)
next
  case False
  define g where "g = nat (target mapping n fallback s)"
  have g: "target mapping n fallback s = int g" "g < n" using False assms(2) by (simp_all add: g_def)
  have ext: "activity seg mapping n fallback (ks @ [s]) t h =
      (if h = g then std_max32 (activity seg mapping n fallback ks t g) (seg ! t ! s) else activity seg mapping n fallback ks t h)" for t h
    using g(1) by (auto simp: activity_def)
  define I where "I i out' \<longleftrightarrow> length out' = length seg \<and> (\<forall>t < length seg. length (out' ! t) = n \<and>
      (\<forall>h < n. out' ! t ! h = activity seg mapping n fallback (if t < i then ks @ [s] else ks) t h))" for i out'
  have "\<exists>out'. each_outcome (\<lambda>t out. bnd (elem (seg ! t) s) (\<lambda>v. bnd (elem (out ! t) g) (\<lambda>old.
      Inr (out[t := (out ! t)[g := std_max32 old v]])))) [0..<length seg] out = Inr out' \<and> I (length seg) out'"
  proof (rule each_outcome_upt)
    show "I 0 out" using assms(1) by (simp add: I_def permuted_def)
  next
    fix i o' assume i: "i < length seg" and I: "I i o'"
    have len: "s < length (seg ! i)" "length (o' ! i) = n" "length o' = length seg"
      and val: "\<And>h. h < n \<Longrightarrow> o' ! i ! h = activity seg mapping n fallback ks i h"
      using assms(3) I i by (auto simp: I_def)
    let ?o = "o'[i := (o' ! i)[g := std_max32 (o' ! i ! g) (seg ! i ! s)]]"
    have "I (Suc i) ?o"
      unfolding I_def
    proof (intro conjI allI impI)
      fix t h assume t: "t < length seg" and h: "h < n"
      show "?o ! t ! h = activity seg mapping n fallback (if t < Suc i then ks @ [s] else ks) t h"
        using I t h i len val g(2) by (cases "t = i") (auto simp: I_def ext nth_list_update less_Suc_eq)
    next
      fix t assume t: "t < length seg"
      show "length (?o ! t) = n" using I t i len by (cases "t = i") (auto simp: I_def nth_list_update)
    qed (simp add: len)
    then show "\<exists>o''. bnd (elem (seg ! i) s) (\<lambda>v. bnd (elem (o' ! i) g) (\<lambda>old.
        Inr (o'[i := (o' ! i)[g := std_max32 old v]]))) = Inr o'' \<and> I (Suc i) o''"
      using len g(2) by simp
  qed
  then show ?thesis
    using g(1) by (auto simp: permute_speaker_def target_def [symmetric] permuted_def I_def Let_def)
qed

text \<open>
  C19. When every mapped speaker has a global number below the maximum, the permuted segmentation is
  defined and its value for a frame and a global speaker is the maximum, with zero, of the values
  of the local speakers that go there; with the fallback, these include every unmapped local
  speaker of the same number.
\<close>

theorem permute_segmentation_correct:
  assumes "\<forall>s < length mapping. target mapping max_spk fallback s < int max_spk"
    and "\<forall>row \<in> set seg. length mapping \<le> length row"
  shows "\<exists>out. permute_segmentation seg mapping max_spk fallback = Inr out \<and>
    length out = length seg \<and> (\<forall>t < length seg. length (out ! t) = max_spk \<and>
      (\<forall>g < max_spk. out ! t ! g = foldl std_max32 0 (map (\<lambda>s. seg ! t ! s)
         (filter (\<lambda>s. target mapping max_spk fallback s = int g) [0..<length mapping]))))"
proof -
  have "\<exists>out. permute_segmentation seg mapping max_spk fallback = Inr out \<and>
      permuted seg mapping max_spk fallback [0..<length mapping] out"
    unfolding permute_segmentation_def
  proof (rule each_outcome_upt [where I = "\<lambda>i. permuted seg mapping max_spk fallback [0..<i]"])
    show "permuted seg mapping max_spk fallback [0..<0] (replicate (length seg) (replicate max_spk 0))"
      by (simp add: permuted_def activity_def)
  next
    fix i out assume i: "i < length mapping" "permuted seg mapping max_spk fallback [0..<i] out"
    have "\<forall>row \<in> set seg. i < length row" using assms(2) i(1) by fastforce
    with i show "\<exists>out'. permute_speaker seg mapping max_spk fallback i out = Inr out' \<and>
        permuted seg mapping max_spk fallback [0..<Suc i] out'"
      using permute_speaker_permuted [of seg mapping max_spk fallback "[0..<i]" out i] assms by auto
  qed
  then show ?thesis by (simp add: permuted_def activity_def)
qed

subsection \<open>Aggregation is a weighted mean\<close>

text \<open>The weight and value that a buffer gives to a frame and a speaker, when it has the frame.\<close>

definition buffer_index :: "f64 \<Rightarrow> buffer_seg \<Rightarrow> int outcome" where
  "buffer_index focus_start buf = int_of_f64 (floor_f64 ((focus_start - buf_start buf) / resolution buf))"

definition share :: "libm \<Rightarrow> f64 \<Rightarrow> nat \<Rightarrow> nat \<Rightarrow> buffer_seg \<Rightarrow> (f32 \<times> f32) list" where
  "share m focus_start t k buf =
     (case buffer_index focus_start buf of
        Inl _ \<Rightarrow> []
      | Inr i \<Rightarrow> if i + int t < 0 \<or> i + int t \<ge> int (buf_frames buf) then []
          else let src = nat (i + int t) in [(hamming m (buf_frames buf) ! src, buf_data buf ! (src * buf_speakers buf + k))])"

definition weighted_sum :: "(f32 \<times> f32) list \<Rightarrow> f32" where
  "weighted_sum ps = foldl (\<lambda>s p. s + fst p * snd p) 0 ps"

definition weight_sum :: "(f32 \<times> f32) list \<Rightarrow> f32" where
  "weight_sum ps = foldl (\<lambda>s p. s + fst p) 0 ps"

definition buffer_ok :: "f64 \<Rightarrow> nat \<Rightarrow> buffer_seg \<Rightarrow> bool" where
  "buffer_ok focus_start n buf \<longleftrightarrow>
     buf_speakers buf = n \<and> length (buf_data buf) = buf_frames buf * n \<and> (\<exists>i. buffer_index focus_start buf = Inr i)"

definition shares :: "libm \<Rightarrow> f64 \<Rightarrow> buffer_seg list \<Rightarrow> nat \<Rightarrow> nat \<Rightarrow> (f32 \<times> f32) list" where
  "shares m focus_start bufs t k = concat (map (share m focus_start t k) bufs)"

definition aggregated :: "libm \<Rightarrow> f64 \<Rightarrow> nat \<Rightarrow> nat \<Rightarrow> (nat \<Rightarrow> buffer_seg list) \<Rightarrow> aggregate \<Rightarrow> bool" where
  "aggregated m focus_start T n bufs agg \<longleftrightarrow>
     length (fst agg) = T * n \<and> length (snd agg) = T \<and>
     (\<forall>t < T. (\<forall>k < n. fst agg ! (t * n + k) = weighted_sum (shares m focus_start (bufs t) t k)) \<and>
        (0 < n \<longrightarrow> snd agg ! t = weight_sum (shares m focus_start (bufs t) t 0)))"

lemma add_row_aggregated:
  assumes "aggregated m fs T n (\<lambda>u. if u < t then bufs @ [buf] else bufs) agg" "t < T"
    and "buffer_ok fs n buf" "buffer_index fs buf = Inr i"
  shows "\<exists>agg'. add_row buf (hamming m (buf_frames buf)) i n t agg = Inr agg' \<and>
    aggregated m fs T n (\<lambda>u. if u < Suc t then bufs @ [buf] else bufs) agg'"
proof -
  obtain s sw where agg: "agg = (s, sw)" by fastforce
  show ?thesis
  proof (cases "i + int t < 0 \<or> i + int t \<ge> int (buf_frames buf)")
    case True
    then have "shares m fs (bufs @ [buf]) t k = shares m fs bufs t k" for k
      using assms(4) by (simp add: shares_def share_def)
    then have "aggregated m fs T n (\<lambda>u. if u < Suc t then bufs @ [buf] else bufs) agg"
      using assms(1) by (auto simp: aggregated_def less_Suc_eq)
    then show ?thesis using True by (simp add: add_row_def Let_def)
  next
    case False
    define src where "src = nat (i + int t)"
    let ?w = "hamming m (buf_frames buf) ! src" and ?v = "\<lambda>k. buf_data buf ! (src * n + k)"
    have src: "src < buf_frames buf" using False by (auto simp: src_def)
    have n: "buf_speakers buf = n" "length (buf_data buf) = buf_frames buf * n" using assms(3) by (simp_all add: buffer_ok_def)
    have share: "share m fs t k buf = [(?w, ?v k)]" for k
      using False assms(4) n(1) by (simp add: share_def src_def Let_def)
    define I where "I j s' \<longleftrightarrow> length s' = T * n \<and> (\<forall>u < T. \<forall>k < n. s' ! (u * n + k) =
        (if u = t \<and> k < j then s ! (u * n + k) + ?w * ?v k else s ! (u * n + k)))" for j s'
    have "\<exists>s'. each_outcome (\<lambda>k s. bnd (elem (buf_data buf) (src * buf_speakers buf + k)) (\<lambda>v.
        Inr (s[t * n + k := s ! (t * n + k) + ?w * v]))) [0..<n] s = Inr s' \<and> I n s'"
    proof (rule each_outcome_upt)
      show "I 0 s" using assms(1) by (simp add: I_def aggregated_def agg)
    next
      fix k s' assume k: "k < n" and inv: "I k s'"
      have "src * n + k < length (buf_data buf)" unfolding n(2) using src k by (rule cell_bound)
      moreover have "t * n + k < length s'" using inv cell_bound [OF assms(2) k] by (simp add: I_def)
      moreover have "I (Suc k) (s'[t * n + k := s' ! (t * n + k) + ?w * ?v k])"
        using inv assms(2) k by (auto simp: I_def nth_update_in cell_bound cell_inj less_Suc_eq)
      ultimately show "\<exists>s''. bnd (elem (buf_data buf) (src * buf_speakers buf + k)) (\<lambda>v.
          Inr (s'[t * n + k := s' ! (t * n + k) + ?w * v])) = Inr s'' \<and> I (Suc k) s''"
        by (simp add: n(1))
    qed
    then obtain s' where s': "each_outcome (\<lambda>k s. bnd (elem (buf_data buf) (src * buf_speakers buf + k)) (\<lambda>v.
        Inr (s[t * n + k := s ! (t * n + k) + ?w * v]))) [0..<n] s = Inr s'" "I n s'" by blast
    have ext: "weighted_sum (shares m fs (bufs @ [buf]) t k) = weighted_sum (shares m fs bufs t k) + ?w * ?v k"
      "weight_sum (shares m fs (bufs @ [buf]) t k) = weight_sum (shares m fs bufs t k) + ?w" for k
      by (simp_all add: shares_def share weighted_sum_def weight_sum_def)
    have "aggregated m fs T n (\<lambda>u. if u < Suc t then bufs @ [buf] else bufs) (s', sw[t := sw ! t + ?w])"
      using assms(1,2) s'(2) by (auto simp: aggregated_def agg I_def ext nth_update_in less_Suc_eq)
    then show ?thesis using s'(1) False by (simp add: add_row_def agg src_def Let_def)
  qed
qed

lemma add_buffer_aggregated:
  assumes "aggregated m fs T n (\<lambda>_. bufs) agg" "buffer_ok fs n buf"
  shows "\<exists>agg'. add_buffer m fs T n buf agg = Inr agg' \<and> aggregated m fs T n (\<lambda>_. bufs @ [buf]) agg'"
proof -
  obtain i where i: "buffer_index fs buf = Inr i" using assms(2) by (auto simp: buffer_ok_def)
  have "\<exists>agg'. each_outcome (add_row buf (hamming m (buf_frames buf)) i n) [0..<T] agg = Inr agg' \<and>
      aggregated m fs T n (\<lambda>u. if u < T then bufs @ [buf] else bufs) agg'"
    using assms(1) add_row_aggregated [OF _ _ assms(2) i]
    by (intro each_outcome_upt [where I = "\<lambda>t. aggregated m fs T n (\<lambda>u. if u < t then bufs @ [buf] else bufs)"]) simp_all
  moreover have "aggregated m fs T n (\<lambda>u. if u < T then bufs @ [buf] else bufs) agg' \<Longrightarrow> aggregated m fs T n (\<lambda>_. bufs @ [buf]) agg'" for agg'
    by (simp add: aggregated_def)
  ultimately show ?thesis using i by (auto simp: add_buffer_def buffer_index_def)
qed

text \<open>
  C18. The aggregated value of a frame and a speaker is the Hamming-weighted mean of the values that
  the buffered chunks give to the frame, in the order of the buffers; without a positive weight it
  is their plain weighted sum.
\<close>

theorem aggregate_buffers_correct:
  assumes "\<forall>buf \<in> set bufs. buffer_ok focus_start n buf" "0 < n"
  shows "\<exists>agg. aggregate_buffers m bufs focus_start T n = Inr agg \<and> length agg = T \<and>
    (\<forall>t < T. length (agg ! t) = n \<and> (\<forall>k < n. agg ! t ! k =
       (let ps = shares m focus_start bufs t k; w = weight_sum ps
        in if w \<le> 0 then weighted_sum ps else weighted_sum ps / w)))"
proof -
  have "\<exists>agg'. each_outcome (add_buffer m focus_start T n) bs agg = Inr agg' \<and> aggregated m focus_start T n (\<lambda>_. prior @ bs) agg'"
    if "aggregated m focus_start T n (\<lambda>_. prior) agg" "\<forall>buf \<in> set bs. buffer_ok focus_start n buf" for prior bs agg
    using that
  proof (induction bs arbitrary: prior agg)
    case (Cons b bs)
    obtain agg1 where agg1: "add_buffer m focus_start T n b agg = Inr agg1" "aggregated m focus_start T n (\<lambda>_. prior @ [b]) agg1"
      using add_buffer_aggregated [OF Cons.prems(1), of b] Cons.prems(2) by (meson list.set_intros(1))
    then show ?case using Cons.IH [OF agg1(2)] Cons.prems(2) by simp
  qed simp
  moreover have "aggregated m focus_start T n (\<lambda>_. []) (replicate (T * n) 0, replicate T 0)"
    using cell_bound by (simp add: aggregated_def shares_def weighted_sum_def weight_sum_def)
  ultimately obtain agg where agg: "each_outcome (add_buffer m focus_start T n) bufs (replicate (T * n) 0, replicate T 0) = Inr agg"
    "aggregated m focus_start T n (\<lambda>_. bufs) agg" using assms(1) by fastforce
  have w: "weight_sum (shares m focus_start bufs t k) = weight_sum (shares m focus_start bufs t 0)" for t k
  proof -
    have "map fst (shares m focus_start bufs t k) = map fst (shares m focus_start bufs t 0)"
      by (induction bufs) (auto simp: shares_def share_def Let_def split: sum.splits)
    moreover have "weight_sum ps = foldl (+) 0 (map fst ps)" for ps by (simp add: weight_sum_def foldl_map)
    ultimately show ?thesis by simp
  qed
  have cell: "fst agg ! (t * n + k) = weighted_sum (shares m focus_start bufs t k)"
    "snd agg ! t = weight_sum (shares m focus_start bufs t k)" if "t < T" "k < n" for t k
    using agg(2) that assms(2) w [of t k] by (auto simp: aggregated_def)
  then show ?thesis
    using agg(1) by (cases agg) (simp add: aggregate_buffers_def Let_def)
qed

subsection \<open>The main loop ends\<close>

definition advanced :: "stream_sizes \<Rightarrow> stream_state \<Rightarrow> stream_state + stream_state \<Rightarrow> bool" where
  "advanced sz st r \<longleftrightarrow>
     (case r of Inl _ \<Rightarrow> stride sz \<le> 0 | Inr st' \<Rightarrow> pos st' = pos st + of_int (stride sz))"

lemma stream_output_advances: "stream_output nets pr sz bufs fs n res st = Inr r \<Longrightarrow> advanced sz st r"
  by (auto simp: stream_output_def Let_def bnd_eq_Inr advanced_def advance_def)

lemma stream_focus_advances: "stream_focus nets pr sz bufs cs res st = Inr r \<Longrightarrow> advanced sz st r"
proof -
  obtain fs fe where "focus_region pr (length bufs) cs = (fs, fe)" by fastforce
  then show "stream_focus nets pr sz bufs cs res st = Inr r \<Longrightarrow> advanced sz st r"
    using stream_output_advances [of nets pr sz bufs fs _ res st r]
    by (auto simp: stream_focus_def bnd_eq_Inr advanced_def advance_def split: if_splits)
qed

lemma stream_iteration_advances: "stream_iteration srt nets pr sz wav st = Inr r \<Longrightarrow> advanced sz st r"
  unfolding stream_iteration_def Let_def
  by (auto simp: bnd_eq_Inr dest!: stream_focus_advances) (auto simp: advanced_def split: sum.splits)

lemma stream_loop_ends:
  assumes "0 < stride sz" "int (length wav) + stride sz \<le> 2 ^ 64"
    and "length wav \<le> unat (pos st) + n * nat (stride sz)"
  shows "(\<exists>st'. stream_loop (Suc n) srt nets pr sz wav st = Inr st') \<or>
    (\<exists>st' e. stream_iteration srt nets pr sz wav st' = Inl e \<and> stream_loop (Suc n) srt nets pr sz wav st = Inl e)"
  using assms(3)
proof (induction n arbitrary: st)
  case 0
  then show ?case by simp
next
  case (Suc n)
  show ?case
  proof (cases "unat (pos st) < length wav")
    case False
    then show ?thesis by simp
  next
    case True
    show ?thesis
    proof (cases "stream_iteration srt nets pr sz wav st")
      case (Inl e)
      then show ?thesis using True by auto
    next
      case (Inr r)
      then obtain st' where r: "r = Inr st'" "pos st' = pos st + of_int (stride sz)"
        using stream_iteration_advances [OF Inr] assms(1) by (auto simp: advanced_def split: sum.splits)
      have step: "unat (of_int (stride sz) :: 64 word) = nat (stride sz)"
      proof (rule unat_of_int_small)
        have "0 \<le> int (length wav)" by simp
        then show "stride sz < 2 ^ LENGTH(64)" using True assms(2) by simp
      qed (use assms(1) in simp)
      then have "unat (pos st') = unat (pos st) + nat (stride sz)"
        unfolding r(2) using True assms(1,2) by (subst unat_add_small) simp_all
      then have "length wav \<le> unat (pos st') + n * nat (stride sz)" using Suc.prems by simp
      then show ?thesis using Suc.IH [of st'] Inr r(1) True by simp
    qed
  qed
qed

text \<open>
  C20. With a positive step the main loop ends: with one unit of fuel more than the length of the
  recording divided by the step, rounded up, it finishes, or one of its iterations faults.
\<close>

theorem stream_loop_terminates:
  assumes "0 < stride sz" "int (length wav) + stride sz \<le> 2 ^ 64"
    and "(length wav + nat (stride sz) - 1) div nat (stride sz) < fuel"
  shows "(\<exists>st. stream_loop fuel srt nets pr sz wav (stream_start pr) = Inr st) \<or>
    (\<exists>st e. stream_iteration srt nets pr sz wav st = Inl e \<and>
       stream_loop fuel srt nets pr sz wav (stream_start pr) = Inl e)"
proof -
  let ?d = "nat (stride sz)"
  obtain n where n: "fuel = Suc n" "(length wav + ?d - 1) div ?d \<le> n" using assms(3) by (cases fuel) auto
  have d: "0 < ?d" using assms(1) by simp
  have "length wav + ?d - 1 < (length wav + ?d - 1) div ?d * ?d + ?d"
    using dividend_less_div_times [OF d] by (metis add.commute)
  also have "\<dots> \<le> n * ?d + ?d" using n(2) by simp
  finally have "length wav \<le> unat (pos (stream_start pr)) + n * ?d" by linarith
  then show ?thesis unfolding n(1) by (rule stream_loop_ends [OF assms(1,2)])
qed

end
