(* ===== verification/Stream_Examples.thy ===== *)
theory Stream_Examples
  imports Streaming Audio_Examples
begin

text \<open>Concrete inputs on which the theorems about the streaming program apply.\<close>

definition sample_sizes :: stream_sizes where
  "sample_sizes = \<lparr>rate = 16000, chunk_samples = 80000, stride = 40000, frame_samples = 270, num_overlapping = 1\<rparr>"

definition sample_params :: stream_params where
  "sample_params = \<lparr>duration = f32_of_int 5, step_time = f32_of_rat (5 / 2), latency = f32_of_rat (5 / 2),
     p_tau_active = 1, tau_embed = 1, p_rho_update = 1, p_delta_new = 1, p_max_speakers = 2, embed_every = 1\<rparr>"

definition sample_buffer :: buffer_seg where
  "sample_buffer = \<lparr>buf_start = 0, resolution = 1, buf_frames = 1, buf_speakers = 2, buf_data = [1, 0]\<rparr>"

definition sample_frames :: "(f64 \<times> f32 list) list" where
  "sample_frames = [(1, [1]), (f64_of_int 2, [1]), (f64_of_int 3, [0])]"

lemma sample_frames_run:
  "fold (emit_frame 1 1) sample_frames (replicate 1 None, []) = ([None], [(1, f64_of_int 3, 0)])"
proof -
  have "(1 :: f32) \<ge> 1" "\<not> (0 :: f32) \<ge> 1" by code_simp+
  then show ?thesis by (simp add: sample_frames_def emit_frame_def emit_speaker_def)
qed

lemma emitted_lines_correct_witness:
  "\<exists>rs. runs_of (map (\<lambda>f. snd f ! 0 \<ge> 1) sample_frames) rs \<and>
     lines_of 0 ([(1, f64_of_int 3, 0)] @ close_lines (f64_of_int 4) [None]) =
       map (\<lambda>(i, j). (fst (sample_frames ! i),
         if j < length sample_frames then fst (sample_frames ! j) else f64_of_int 4)) rs"
  by (rule emitted_lines_correct [OF sample_frames_run]) simp

lemma permute_segmentation_correct_witness:
  "\<exists>out. permute_segmentation [[1, 0]] [1, -1] 2 True = Inr out \<and> length out = 1"
proof -
  have "\<forall>s < length [1, -1 :: int]. target [1, -1] 2 True s < int 2"
    by (simp add: target_def less_Suc_eq)
  then show ?thesis using permute_segmentation_correct [of "[1, -1]" 2 True "[[1, 0]]"] by auto
qed

lemma aggregate_buffers_correct_witness:
  "\<exists>agg. aggregate_buffers flat_libm [sample_buffer] 0 1 2 = Inr agg \<and> length agg = 1"
proof -
  have "buffer_index 0 sample_buffer = Inr 0" by code_simp
  then have "buffer_ok 0 2 sample_buffer" by (simp add: buffer_ok_def sample_buffer_def)
  then show ?thesis using aggregate_buffers_correct [of "[sample_buffer]" 0 2 flat_libm 1] by auto
qed

lemma stream_loop_terminates_witness:
  "(\<exists>st. stream_loop 4 (insertion_sort (\<lambda>p q. pair_dist p < pair_dist q)) one_speaker sample_params sample_sizes (replicate 100000 0) (stream_start sample_params) = Inr st) \<or>
   (\<exists>st e. stream_iteration (insertion_sort (\<lambda>p q. pair_dist p < pair_dist q)) one_speaker sample_params sample_sizes (replicate 100000 0) st = Inl e \<and>
      stream_loop 4 (insertion_sort (\<lambda>p q. pair_dist p < pair_dist q)) one_speaker sample_params sample_sizes (replicate 100000 0) (stream_start sample_params) = Inl e)"
  by (rule stream_loop_terminates) (simp_all add: sample_sizes_def)

end
