(* ===== verification/Tallocr.thy ===== *)
theory Tallocr
  imports Gguf_Types
begin

text \<open>
  The dynamic tensor allocator of \<open>src/ggml-alloc.c\<close>: memory is laid out in up to 16 chunks before
  any of it is allocated; each chunk keeps its free blocks sorted by address.  An allocation takes
  the best fitting block, a release merges with its neighbours.  The linear allocator \<open>tallocr\<close> of
  the same file is at the end.
\<close>

subsection \<open>State\<close>

record free_block =
  fb_offset :: size_t
  fb_size :: size_t

record tallocr_chunk =
  free_blocks :: "free_block list"
  max_used :: size_t

record ggml_dyn_tallocr =
  ta_alignment :: size_t
  max_chunk_size :: size_t
  ta_chunks :: "tallocr_chunk list"

type_synonym buffer_address = "nat \<times> size_t"

definition MAX_FREE_BLOCKS :: nat where "MAX_FREE_BLOCKS = 256"
definition GGML_VBUFFER_MAX_CHUNKS :: nat where "GGML_VBUFFER_MAX_CHUNKS = 16"
definition HALF_SIZE_MAX :: size_t where "HALF_SIZE_MAX = SIZE_MAX div 2"

definition aligned_offset :: "size_t \<Rightarrow> size_t \<Rightarrow> size_t \<Rightarrow> size_t outcome" where
  "aligned_offset buffer offset alignment =
     bnd (ensure (is_pow2 alignment) Aborted) (\<lambda>_.
     let align = (alignment - (buffer + offset) mod alignment) mod alignment
     in Inr (offset + align))"

definition ggml_buffer_address_less :: "int \<times> size_t \<Rightarrow> int \<times> size_t \<Rightarrow> bool" where
  "ggml_buffer_address_less a b \<longleftrightarrow> (if fst a \<noteq> fst b then fst a < fst b else snd a < snd b)"

subsection \<open>The free blocks of a chunk\<close>

definition ggml_dyn_tallocr_insert_block :: "tallocr_chunk \<Rightarrow> size_t \<Rightarrow> size_t \<Rightarrow> tallocr_chunk outcome" where
  "ggml_dyn_tallocr_insert_block chunk offset sz =
     bnd (ensure (length (free_blocks chunk) < MAX_FREE_BLOCKS) Aborted) (\<lambda>_.
     let blocks = free_blocks chunk;
         insert_pos = length (takeWhile (\<lambda>b. fb_offset b < offset) blocks)
     in Inr (chunk\<lparr>free_blocks := take insert_pos blocks @ \<lparr>fb_offset = offset, fb_size = sz\<rparr> # drop insert_pos blocks\<rparr>))"

text \<open>
  The loop of \<open>ggml_dyn_tallocr_remove_block\<close> reads one element past the blocks in use, which is past
  the end of the array when all 256 are.
\<close>

definition ggml_dyn_tallocr_remove_block :: "tallocr_chunk \<Rightarrow> nat \<Rightarrow> tallocr_chunk outcome" where
  "ggml_dyn_tallocr_remove_block chunk idx =
     bnd (ensure (length (free_blocks chunk) < MAX_FREE_BLOCKS) Undefined) (\<lambda>_.
     Inr (chunk\<lparr>free_blocks := remove_nth idx (free_blocks chunk)\<rparr>))"

definition ggml_dyn_tallocr_new_chunk :: "ggml_dyn_tallocr \<Rightarrow> size_t \<Rightarrow> (nat \<times> ggml_dyn_tallocr) option" where
  "ggml_dyn_tallocr_new_chunk alloc min_size =
     (let n = length (ta_chunks alloc) in
      if n \<ge> GGML_VBUFFER_MAX_CHUNKS then None
      else
        let sz = (if n = GGML_VBUFFER_MAX_CHUNKS - 1 then HALF_SIZE_MAX
                  else max min_size (max_chunk_size alloc));
            chunk = \<lparr>free_blocks = [\<lparr>fb_offset = 0, fb_size = sz\<rparr>], max_used = 0\<rparr>
        in Some (n, alloc\<lparr>ta_chunks := ta_chunks alloc @ [chunk]\<rparr>))"

subsection \<open>Allocation\<close>

text \<open>
  The smallest block that block_fits, the last block of each chunk left out.  \<open>best_fit_size\<close> starts again
  at \<open>SIZE_MAX\<close> for each chunk.
\<close>

definition fit_step ::
  "size_t \<Rightarrow> nat \<Rightarrow> free_block list \<Rightarrow> nat \<Rightarrow> (nat \<times> nat) option \<times> size_t \<Rightarrow> (nat \<times> nat) option \<times> size_t" where
  "fit_step sz c blocks i st =
     (let (best, best_fit_size) = st; block = blocks ! i in
      if fb_size block \<ge> sz \<and> fb_size block \<le> best_fit_size then (Some (c, i), fb_size block) else st)"

definition best_fit :: "size_t \<Rightarrow> tallocr_chunk list \<Rightarrow> (nat \<times> nat) option" where
  "best_fit sz chunks =
     fold (\<lambda>(c, chunk) best.
         fst (fold (fit_step sz c (free_blocks chunk)) [0..<length (free_blocks chunk) - 1] (best, SIZE_MAX)))
       (enumerate 0 chunks) None"

text \<open>The last block of a chunk, preferring the chunk that has to grow least.\<close>

definition last_step ::
  "size_t \<Rightarrow> nat \<times> tallocr_chunk \<Rightarrow> (nat \<times> nat) option \<times> int \<Rightarrow> (nat \<times> nat) option \<times> int" where
  "last_step sz cc st =
     (let (c, chunk) = cc; (best, best_reuse) = st in
      if free_blocks chunk = [] then st
      else
        let block = last (free_blocks chunk);
            reuse_factor = sint (max_used chunk - fb_offset block - sz);
            better_reuse = (best_reuse < 0 \<and> reuse_factor > best_reuse);
            better_fit = (reuse_factor \<ge> 0 \<and> reuse_factor < best_reuse)
        in if fb_size block \<ge> sz \<and> (better_reuse \<or> better_fit)
           then (Some (c, length (free_blocks chunk) - 1), reuse_factor) else st)"

definition last_fit :: "size_t \<Rightarrow> tallocr_chunk list \<Rightarrow> (nat \<times> nat) option" where
  "last_fit sz chunks = fst (fold (last_step sz) (enumerate 0 chunks) (None, - (2 ^ 63)))"

definition choose_block :: "ggml_dyn_tallocr \<Rightarrow> size_t \<Rightarrow> ((nat \<times> nat) \<times> ggml_dyn_tallocr) outcome" where
  "choose_block alloc sz =
     (case best_fit sz (ta_chunks alloc) of
        Some p \<Rightarrow> Inr (p, alloc)
      | None \<Rightarrow>
          case last_fit sz (ta_chunks alloc) of
            Some p \<Rightarrow> Inr (p, alloc)
          | None \<Rightarrow>
              case ggml_dyn_tallocr_new_chunk alloc sz of
                None \<Rightarrow> Inl Aborted
              | Some (c, alloc) \<Rightarrow> Inr ((c, 0), alloc))"

text \<open>The front of the chosen block is cut off.\<close>

definition cut_block :: "tallocr_chunk \<Rightarrow> nat \<Rightarrow> size_t \<Rightarrow> (size_t \<times> tallocr_chunk) outcome" where
  "cut_block chunk i sz =
     (let block = free_blocks chunk ! i;
          offset = fb_offset block;
          block = \<lparr>fb_offset = fb_offset block + sz, fb_size = fb_size block - sz\<rparr>;
          chunk = chunk\<lparr>free_blocks := (free_blocks chunk)[i := block]\<rparr>
      in bnd (if fb_size block = 0 then ggml_dyn_tallocr_remove_block chunk i else Inr chunk) (\<lambda>chunk.
         Inr (offset, chunk\<lparr>max_used := max (max_used chunk) (offset + sz)\<rparr>)))"

definition ggml_dyn_tallocr_alloc :: "ggml_dyn_tallocr \<Rightarrow> size_t \<Rightarrow> (buffer_address \<times> ggml_dyn_tallocr) outcome" where
  "ggml_dyn_tallocr_alloc alloc sz =
     bnd (aligned_offset 0 sz (ta_alignment alloc)) (\<lambda>sz.
     bnd (choose_block alloc sz) (\<lambda>((c, i), alloc).
     bnd (cut_block (ta_chunks alloc ! c) i sz) (\<lambda>(offset, chunk).
     Inr ((c, offset), alloc\<lparr>ta_chunks := (ta_chunks alloc)[c := chunk]\<rparr>))))"

subsection \<open>Release\<close>

definition block_end :: "free_block \<Rightarrow> size_t" where
  "block_end b = fb_offset b + fb_size b"

definition grow_block :: "tallocr_chunk \<Rightarrow> nat \<Rightarrow> size_t \<Rightarrow> tallocr_chunk outcome" where
  "grow_block chunk i sz =
     (let blocks = free_blocks chunk;
          block = (blocks ! i)\<lparr>fb_size := fb_size (blocks ! i) + sz\<rparr>
      in if i + 1 < length blocks \<and> block_end block = fb_offset (blocks ! (i + 1))
         then ggml_dyn_tallocr_remove_block
                (chunk\<lparr>free_blocks := blocks[i := block\<lparr>fb_size := fb_size block + fb_size (blocks ! (i + 1))\<rparr>]\<rparr>) (i + 1)
         else Inr (chunk\<lparr>free_blocks := blocks[i := block]\<rparr>))"

definition extend_down :: "tallocr_chunk \<Rightarrow> nat \<Rightarrow> size_t \<Rightarrow> size_t \<Rightarrow> tallocr_chunk outcome" where
  "extend_down chunk i offset sz =
     (let blocks = free_blocks chunk;
          block = \<lparr>fb_offset = offset, fb_size = fb_size (blocks ! i) + sz\<rparr>
      in if 0 < i \<and> block_end (blocks ! (i - 1)) = fb_offset block
         then ggml_dyn_tallocr_remove_block
                (chunk\<lparr>free_blocks := blocks[i := block,
                   i - 1 := (blocks ! (i - 1))\<lparr>fb_size := fb_size (blocks ! (i - 1)) + fb_size block\<rparr>]\<rparr>) i
         else Inr (chunk\<lparr>free_blocks := blocks[i := block]\<rparr>))"

definition release :: "tallocr_chunk \<Rightarrow> size_t \<Rightarrow> size_t \<Rightarrow> tallocr_chunk outcome" where
  "release chunk offset sz =
     (let blocks = free_blocks chunk in
      case find (\<lambda>i. block_end (blocks ! i) = offset \<or> offset + sz = fb_offset (blocks ! i)) [0..<length blocks] of
        Some i \<Rightarrow> if block_end (blocks ! i) = offset then grow_block chunk i sz else extend_down chunk i offset sz
      | None \<Rightarrow> ggml_dyn_tallocr_insert_block chunk offset sz)"

definition ggml_dyn_tallocr_free_bytes :: "ggml_dyn_tallocr \<Rightarrow> buffer_address \<Rightarrow> size_t \<Rightarrow> ggml_dyn_tallocr outcome" where
  "ggml_dyn_tallocr_free_bytes alloc addr sz =
     bnd (aligned_offset 0 sz (ta_alignment alloc)) (\<lambda>sz.
     bnd (elem (ta_chunks alloc) (fst addr)) (\<lambda>chunk.
     bnd (release chunk (snd addr) sz) (\<lambda>chunk.
     Inr (alloc\<lparr>ta_chunks := (ta_chunks alloc)[fst addr := chunk]\<rparr>))))"

definition ggml_dyn_tallocr_reset :: "ggml_dyn_tallocr \<Rightarrow> ggml_dyn_tallocr" where
  "ggml_dyn_tallocr_reset alloc = alloc\<lparr>ta_chunks := []\<rparr>"

definition ggml_dyn_tallocr_new :: "size_t \<Rightarrow> size_t \<Rightarrow> ggml_dyn_tallocr" where
  "ggml_dyn_tallocr_new alignment max_buffer_size =
     ggml_dyn_tallocr_reset
       \<lparr>ta_alignment = alignment, max_chunk_size = min max_buffer_size HALF_SIZE_MAX, ta_chunks = []\<rparr>"

definition ggml_dyn_tallocr_max_size :: "ggml_dyn_tallocr \<Rightarrow> nat \<Rightarrow> size_t" where
  "ggml_dyn_tallocr_max_size alloc chunk =
     (if chunk < length (ta_chunks alloc) then max_used (ta_chunks alloc ! chunk) else 0)"

subsection \<open>Regions that tile a chunk\<close>

type_synonym region = "nat \<times> nat"

definition reg_end :: "region \<Rightarrow> nat" where
  "reg_end r = fst r + snd r"

definition regions_apart :: "region \<Rightarrow> region \<Rightarrow> bool" where
  "regions_apart r r' \<longleftrightarrow> reg_end r \<le> fst r' \<or> reg_end r' \<le> fst r"

text \<open>Non-empty regions that do not overlap and cover all addresses below \<open>C\<close>, and no other.\<close>

definition tiling :: "nat \<Rightarrow> region set \<Rightarrow> bool" where
  "tiling C R \<longleftrightarrow> (\<forall>r \<in> R. 0 < snd r \<and> reg_end r \<le> C) \<and>
     (\<forall>r \<in> R. \<forall>r' \<in> R. r \<noteq> r' \<longrightarrow> regions_apart r r') \<and>
     (\<forall>x < C. \<exists>r \<in> R. fst r \<le> x \<and> x < reg_end r)"

lemma tilingD:
  "tiling C R \<Longrightarrow> r \<in> R \<Longrightarrow> 0 < snd r"
  "tiling C R \<Longrightarrow> r \<in> R \<Longrightarrow> reg_end r \<le> C"
  "tiling C R \<Longrightarrow> r \<in> R \<Longrightarrow> r' \<in> R \<Longrightarrow> r \<noteq> r' \<Longrightarrow> regions_apart r r'"
  by (auto simp: tiling_def)

lemma tiling_split:
  assumes "tiling C R" "(a, n + m) \<in> R" "0 < n" "0 < m"
  shows "tiling C (insert (a, n) (insert (a + n, m) (R - {(a, n + m)})))"
  unfolding tiling_def
proof (intro conjI)
  let ?R = "R - {(a, n + m)}"
  have far: "regions_apart (a, n + m) r" if "r \<in> ?R" for r using tilingD(3) [OF assms(1,2)] that by blast
  have "reg_end (a, n + m) \<le> C" using assms(1,2) by (rule tilingD)
  then show "\<forall>r \<in> insert (a, n) (insert (a + n, m) ?R). 0 < snd r \<and> reg_end r \<le> C"
    using assms tilingD(1,2) [OF assms(1)] by (auto simp: reg_end_def)
  have "regions_apart (a, n) r" "regions_apart (a + n, m) r" "regions_apart r (a, n)" "regions_apart r (a + n, m)" if "r \<in> ?R" for r
    using far [OF that] by (auto simp: regions_apart_def reg_end_def)
  moreover have "regions_apart r r'" if "r \<in> ?R" "r' \<in> ?R" "r \<noteq> r'" for r r'
    using tilingD(3) [OF assms(1)] that by auto
  moreover have "regions_apart (a, n) (a + n, m)" "regions_apart (a + n, m) (a, n)" by (simp_all add: regions_apart_def reg_end_def)
  ultimately show "\<forall>r \<in> insert (a, n) (insert (a + n, m) ?R). \<forall>r' \<in> insert (a, n) (insert (a + n, m) ?R).
      r \<noteq> r' \<longrightarrow> regions_apart r r'" by blast
  have "fst r \<le> x \<and> x < reg_end r \<Longrightarrow> r = (a, n + m) \<Longrightarrow> x < a + n \<or> a + n \<le> x \<and> x < a + n + m" for r x
    by (auto simp: reg_end_def)
  then show "\<forall>x < C. \<exists>r \<in> insert (a, n) (insert (a + n, m) ?R). fst r \<le> x \<and> x < reg_end r"
    using assms(1,2) unfolding tiling_def reg_end_def by (metis Diff_iff add.assoc fst_conv insertCI insertE empty_iff snd_conv)
qed

lemma tiling_merge:
  assumes "tiling C R" "(a, n) \<in> R" "(a + n, m) \<in> R"
  shows "tiling C (insert (a, n + m) (R - {(a, n), (a + n, m)}))"
  unfolding tiling_def
proof (intro conjI)
  let ?R = "R - {(a, n), (a + n, m)}"
  have pos: "0 < n" "0 < m" using tilingD(1) [OF assms(1)] assms(2,3) by force+
  have far: "regions_apart (a, n) r" "regions_apart (a + n, m) r" if "r \<in> ?R" for r
    using tilingD(3) [OF assms(1,2)] tilingD(3) [OF assms(1,3)] that by blast+
  have "reg_end (a + n, m) \<le> C" using assms(1,3) by (rule tilingD)
  then show "\<forall>r \<in> insert (a, n + m) ?R. 0 < snd r \<and> reg_end r \<le> C"
    using pos tilingD(1,2) [OF assms(1)] by (auto simp: reg_end_def)
  have "regions_apart (a, n + m) r" "regions_apart r (a, n + m)" if "r \<in> ?R" for r
    using far [OF that] tilingD(1) [OF assms(1), of r] pos that by (auto simp: regions_apart_def reg_end_def)
  moreover have "regions_apart r r'" if "r \<in> ?R" "r' \<in> ?R" "r \<noteq> r'" for r r'
    using tilingD(3) [OF assms(1)] that by auto
  ultimately show "\<forall>r \<in> insert (a, n + m) ?R. \<forall>r' \<in> insert (a, n + m) ?R. r \<noteq> r' \<longrightarrow> regions_apart r r'" by blast
  show "\<forall>x < C. \<exists>r \<in> insert (a, n + m) ?R. fst r \<le> x \<and> x < reg_end r"
  proof (intro allI impI)
    fix x assume "x < C"
    then obtain r where r: "r \<in> R" "fst r \<le> x" "x < reg_end r" using assms(1) unfolding tiling_def by blast
    show "\<exists>r \<in> insert (a, n + m) ?R. fst r \<le> x \<and> x < reg_end r"
    proof (cases "r \<in> ?R")
      case True
      then show ?thesis using r by blast
    next
      case False
      then have "a \<le> x \<and> x < a + (n + m)" using r by (auto simp: reg_end_def)
      then show ?thesis by (auto simp: reg_end_def)
    qed
  qed
qed

subsection \<open>The invariant of a chunk\<close>

definition region_of :: "free_block \<Rightarrow> region" where
  "region_of b = (unat (fb_offset b), unat (fb_size b))"

definition before_gap :: "region \<Rightarrow> region \<Rightarrow> bool" where
  "before_gap r r' \<longleftrightarrow> reg_end r < fst r'"

text \<open>
  \<open>live\<close> are the regions that have been handed out.  Together with the free blocks they tile the
  chunk; free blocks are sorted and no two of them touch.
\<close>

definition chunk_ok :: "nat \<Rightarrow> nat \<Rightarrow> tallocr_chunk \<Rightarrow> region set \<Rightarrow> bool" where
  "chunk_ok al C chunk live \<longleftrightarrow>
     0 < C \<and> C < 2 ^ 64 \<and> tiling C (region_of ` set (free_blocks chunk) \<union> live) \<and>
     region_of ` set (free_blocks chunk) \<inter> live = {} \<and>
     sorted_wrt before_gap (map region_of (free_blocks chunk)) \<and>
     (\<forall>r \<in> live. reg_end r \<le> unat (max_used chunk) \<and> al dvd fst r \<and> al dvd snd r) \<and>
     (\<forall>b \<in> set (free_blocks chunk). al dvd unat (fb_offset b))"

lemma chunk_okD:
  assumes "chunk_ok al C chunk live"
  shows "C < 2 ^ 64" "tiling C (region_of ` set (free_blocks chunk) \<union> live)"
    "region_of ` set (free_blocks chunk) \<inter> live = {}"
    "sorted_wrt before_gap (map region_of (free_blocks chunk))"
    "r \<in> live \<Longrightarrow> reg_end r \<le> unat (max_used chunk)" "r \<in> live \<Longrightarrow> al dvd fst r" "r \<in> live \<Longrightarrow> al dvd snd r"
    "b \<in> set (free_blocks chunk) \<Longrightarrow> al dvd unat (fb_offset b)" "0 < C"
  using assms by (auto simp: chunk_ok_def)

lemma chunk_block_end:
  assumes "chunk_ok al C chunk live" "b \<in> set (free_blocks chunk)"
  shows "unat (block_end b) = reg_end (region_of b)" "reg_end (region_of b) \<le> C" "0 < unat (fb_size b)"
proof -
  have "region_of b \<in> region_of ` set (free_blocks chunk) \<union> live" using assms(2) by simp
  then have "reg_end (region_of b) \<le> C" "0 < snd (region_of b)"
    using tilingD(1,2) [OF chunk_okD(2) [OF assms(1)]] by blast+
  moreover have "C < 2 ^ 64" using assms(1) by (rule chunk_okD)
  ultimately show "unat (block_end b) = reg_end (region_of b)" "reg_end (region_of b) \<le> C" "0 < unat (fb_size b)"
    by (auto simp: block_end_def reg_end_def region_of_def unat_add_small)
qed

lemma live_in_chunk:
  fixes x y :: size_t
  assumes "chunk_ok al C chunk live" "(unat x, unat y) \<in> live"
  shows "unat (x + y) = unat x + unat y" "unat x + unat y \<le> C" "0 < unat y"
proof -
  have "reg_end (unat x, unat y) \<le> C" "0 < snd (unat x, unat y)"
    using tilingD(1,2) [OF chunk_okD(2) [OF assms(1)]] assms(2) by blast+
  then show "unat (x + y) = unat x + unat y" "unat x + unat y \<le> C" "0 < unat y"
    using chunk_okD(1) [OF assms(1)] by (auto simp: reg_end_def intro!: unat_add_small)
qed

lemma live_apart_block:
  assumes "chunk_ok al C chunk live" "r \<in> live" "b \<in> set (free_blocks chunk)"
  shows "regions_apart (region_of b) r"
proof -
  have "region_of b \<noteq> r" using chunk_okD(3) [OF assms(1)] assms(2,3) by blast
  then show ?thesis using tilingD(3) [OF chunk_okD(2) [OF assms(1)]] assms(2,3) by blast
qed

lemma gapped_middle:
  "sorted_wrt before_gap (xs @ r # ys) \<longleftrightarrow> sorted_wrt before_gap (xs @ ys) \<and>
     (\<forall>x \<in> set xs. before_gap x r) \<and> (\<forall>y \<in> set ys. before_gap r y)"
  by (auto simp: sorted_wrt_append)

subsection \<open>Operations keep the invariant\<close>

lemma list_update_middle: "(xs @ b # ys)[length xs := c] = xs @ c # ys"
  by simp

lemma remove_nth_middle: "remove_nth (length xs) (xs @ b # ys) = xs @ ys"
  by (simp add: remove_nth_def)

lemma block_fresh:
  assumes ok: "chunk_ok al C chunk live" and blocks: "free_blocks chunk = xs @ b # ys"
  shows "region_of b \<notin> region_of ` set (xs @ ys) \<union> live"
proof -
  have gaps: "\<forall>x \<in> set xs. before_gap (region_of x) (region_of b)" "\<forall>y \<in> set ys. before_gap (region_of b) (region_of y)"
    using chunk_okD(4) [OF ok] by (auto simp: blocks gapped_middle)
  have "region_of b \<notin> live" using chunk_okD(3) [OF ok] blocks by auto
  moreover have "region_of x \<noteq> region_of b" if "x \<in> set xs \<union> set ys" for x
  proof
    assume "region_of x = region_of b"
    then have "reg_end (region_of b) < fst (region_of b)" using gaps that by (auto simp: before_gap_def)
    then show False by (simp add: reg_end_def)
  qed
  ultimately show ?thesis by fastforce
qed

lemma cut_block_ok:
  assumes ok: "chunk_ok al C chunk live" and blocks: "free_blocks chunk = xs @ b # ys"
    and sz: "0 < unat sz" "sz \<le> fb_size b" "al dvd unat sz"
    and cut: "cut_block chunk (length xs) sz = Inr (offset, chunk')"
  shows "offset = fb_offset b" "(unat offset, unat sz) \<notin> live"
    "chunk_ok al C chunk' (insert (unat offset, unat sz) live)"
proof -
  let ?o = "unat (fb_offset b)" and ?s = "unat (fb_size b)" and ?n = "unat sz"
  let ?R = "region_of ` set (xs @ ys) \<union> live"
  have b: "b \<in> set (free_blocks chunk)" using blocks by simp
  note ends = chunk_block_end [OF ok b]
  have fits: "?n \<le> ?s" using sz(2) by (simp add: word_le_nat_alt)
  have o_end: "?o + ?n < 2 ^ 64" using ends(2) fits chunk_okD(1) [OF ok] by (simp add: reg_end_def region_of_def)
  have off: "unat (fb_offset b + sz) = ?o + ?n" using o_end by (simp add: unat_add_small)
  have left: "unat (fb_size b - sz) = ?s - ?n" using sz(2) by (simp add: unat_sub)
  have gaps: "sorted_wrt before_gap (map region_of (xs @ ys))"
    "\<forall>x \<in> set xs. before_gap (region_of x) (region_of b)" "\<forall>y \<in> set ys. before_gap (region_of b) (region_of y)"
    using chunk_okD(4) [OF ok] by (auto simp: blocks gapped_middle)
  have fresh: "region_of b \<notin> ?R" using block_fresh [OF ok blocks] .
  have tile: "tiling C (insert (region_of b) ?R)" using chunk_okD(2) [OF ok] by (simp add: blocks insert_commute)
  show offset: "offset = fb_offset b" using cut by (auto simp: cut_block_def Let_def bnd_eq_Inr blocks)
  have starts: "fst r \<noteq> ?o" if "r \<in> live" for r
    using live_apart_block [OF ok that b] ends(3) tilingD(1) [OF chunk_okD(2) [OF ok], of r] that
    by (auto simp: regions_apart_def reg_end_def region_of_def)
  then show new: "(unat offset, unat sz) \<notin> live" unfolding offset by force
  have max': "max_used chunk' = max (max_used chunk) (fb_offset b + sz)"
    using cut by (auto simp: cut_block_def Let_def ggml_dyn_tallocr_remove_block_def bnd_eq_Inr blocks split: if_splits)
  have used: "unat (max_used chunk') = max (unat (max_used chunk)) (?o + ?n)"
    using max' off by (auto simp: max_def word_le_nat_alt)
  have lives: "\<forall>r \<in> insert (unat offset, unat sz) live. reg_end r \<le> unat (max_used chunk') \<and> al dvd fst r \<and> al dvd snd r"
    using chunk_okD(5-8) [OF ok] b sz(3) by (auto simp: used offset reg_end_def le_max_iff_disj)
  show "chunk_ok al C chunk' (insert (unat offset, unat sz) live)"
  proof (cases "fb_size b = sz")
    case True
    then have "free_blocks chunk' = xs @ ys"
      using cut by (auto simp: cut_block_def Let_def ggml_dyn_tallocr_remove_block_def blocks bnd_eq_Inr
          remove_nth_middle split: if_splits)
    moreover have "region_of b = (unat offset, unat sz)" by (simp add: region_of_def offset True)
    ultimately show ?thesis
      using ok tile fresh gaps(1) lives unfolding chunk_ok_def by (auto simp: blocks)
  next
    case False
    let ?b = "\<lparr>fb_offset = fb_offset b + sz, fb_size = fb_size b - sz\<rparr>"
    have pos: "0 < ?s - ?n" using False fits by (metis le_neq_implies_less unsigned_word_eqI zero_less_diff)
    have "free_blocks chunk' = xs @ ?b # ys"
      using cut False by (auto simp: cut_block_def Let_def blocks bnd_eq_Inr split: if_splits)
    moreover have rb: "region_of ?b = (?o + ?n, ?s - ?n)" by (simp add: region_of_def off left)
    moreover have "tiling C (insert (?o, ?n) (insert (?o + ?n, ?s - ?n) ?R))"
    proof -
      have "region_of b = (?o, ?n + (?s - ?n))" using fits by (simp add: region_of_def)
      then show ?thesis using tiling_split [OF tile, of ?o ?n "?s - ?n"] fresh sz(1) pos by simp
    qed
    moreover have "sorted_wrt before_gap (map region_of (xs @ ?b # ys))"
      using gaps fits rb by (auto simp: gapped_middle before_gap_def reg_end_def region_of_def)
    moreover have "region_of ` set (xs @ ?b # ys) \<inter> insert (unat offset, unat sz) live = {}"
    proof -
      have "(?o + ?n, ?s - ?n) \<notin> live"
      proof
        assume "(?o + ?n, ?s - ?n) \<in> live"
        from live_apart_block [OF ok this b] show False using pos fits sz(1) by (auto simp: regions_apart_def reg_end_def region_of_def)
      qed
      moreover have "(?o, ?n) \<notin> region_of ` set (xs @ ys)"
      proof
        assume "(?o, ?n) \<in> region_of ` set (xs @ ys)"
        then obtain x where "x \<in> set xs \<union> set ys" "fst (region_of x) = ?o" by (metis Un_iff fst_conv imageE set_append)
        then show False using gaps(2,3) by (force simp: before_gap_def reg_end_def region_of_def)
      qed
      moreover have "region_of ` set (xs @ ys) \<inter> live = {}" using chunk_okD(3) [OF ok] by (auto simp: blocks)
      ultimately show ?thesis using rb sz(1) unfolding offset by auto
    qed
    moreover have "al dvd ?o + ?n" using chunk_okD(8) [OF ok b] sz(3) by (rule dvd_add)
    ultimately show ?thesis
      using chunk_okD(1,8,9) [OF ok] lives offset off unfolding chunk_ok_def
      by (simp add: blocks insert_commute)
  qed
qed

lemma chunk_ok_released:
  assumes "chunk_ok al C chunk live" "free_blocks chunk' = bl" "max_used chunk' = max_used chunk"
    and "tiling C (region_of ` set bl \<union> (live - {r}))" "region_of ` set bl \<inter> (live - {r}) = {}"
    and "sorted_wrt before_gap (map region_of bl)" "\<forall>b \<in> set bl. al dvd unat (fb_offset b)"
  shows "chunk_ok al C chunk' (live - {r})"
  using assms unfolding chunk_ok_def by auto

text \<open>A region next to a free block becomes part of it.\<close>

lemma chunk_ok_join:
  assumes ok: "chunk_ok al C chunk live" and blocks: "free_blocks chunk = xs @ b # ys" and r: "r \<in> live"
    and touch: "reg_end (region_of b) = fst r \<and> j = (fst (region_of b), snd (region_of b) + snd r) \<or>
      reg_end r = fst (region_of b) \<and> j = (fst r, snd r + snd (region_of b))"
  shows "tiling C (insert j (region_of ` set (xs @ ys) \<union> (live - {r})))"
    "j \<notin> live - {r}" "reg_end j \<le> C"
proof -
  let ?S = "region_of ` set (xs @ ys) \<union> (live - {r})"
  have "insert (region_of b) (insert r ?S) = region_of ` set (free_blocks chunk) \<union> live"
    using r blocks by auto
  then have R: "tiling C (insert (region_of b) (insert r ?S))" using chunk_okD(2) [OF ok] by (simp only:)
  have fresh: "region_of b \<notin> ?S" "region_of b \<noteq> r" using block_fresh [OF ok blocks] r by auto
  moreover have "r \<notin> ?S" using chunk_okD(3) [OF ok] r by (auto simp: blocks)
  ultimately have S: "insert (region_of b) (insert r ?S) - {region_of b, r} = ?S" by auto
  show tile: "tiling C (insert j ?S)"
    using touch
  proof
    assume a: "reg_end (region_of b) = fst r \<and> j = (fst (region_of b), snd (region_of b) + snd r)"
    then have "r = (fst (region_of b) + snd (region_of b), snd r)" by (simp add: reg_end_def prod_eq_iff)
    then show ?thesis
      using tiling_merge [OF R, of "fst (region_of b)" "snd (region_of b)" "snd r"] S a by simp
  next
    assume a: "reg_end r = fst (region_of b) \<and> j = (fst r, snd r + snd (region_of b))"
    then have "region_of b = (fst r + snd r, snd (region_of b))" by (simp add: reg_end_def prod_eq_iff)
    then show ?thesis
      using tiling_merge [OF R, of "fst r" "snd r" "snd (region_of b)"] S a
      by (simp add: insert_commute)
  qed
  then show "reg_end j \<le> C" by (rule tilingD) simp
  show "j \<notin> live - {r}"
  proof
    assume j: "j \<in> live - {r}"
    have "regions_apart r j" using tilingD(3) [OF chunk_okD(2) [OF ok], of r j] r j by blast
    moreover have "regions_apart (region_of b) j" using live_apart_block [OF ok, of j b] j blocks by simp
    moreover have "0 < snd r" "0 < snd (region_of b)" using tilingD(1) [OF R] by auto
    ultimately show False using touch by (auto simp: regions_apart_def reg_end_def)
  qed
qed

text \<open>Replacing free blocks: what is left to show when the live regions lose \<open>r\<close>.\<close>

lemma chunk_ok_replaced:
  assumes ok: "chunk_ok al C chunk live"
    and new: "free_blocks chunk' = us @ c # vs" "max_used chunk' = max_used chunk"
    and old: "set us \<union> set vs \<subseteq> set (free_blocks chunk)" "sorted_wrt before_gap (map region_of (us @ vs))"
    and tile: "tiling C (insert (region_of c) (region_of ` set (us @ vs) \<union> (live - {r})))"
    and c: "region_of c \<notin> live - {r}" "al dvd unat (fb_offset c)"
    and gap: "\<forall>u \<in> set us. before_gap (region_of u) (region_of c)" "\<forall>v \<in> set vs. before_gap (region_of c) (region_of v)"
  shows "chunk_ok al C chunk' (live - {r})"
proof (rule chunk_ok_released [OF ok new])
  show "tiling C (region_of ` set (us @ c # vs) \<union> (live - {r}))" using tile by (simp add: insert_commute)
  show "region_of ` set (us @ c # vs) \<inter> (live - {r}) = {}"
    using chunk_okD(3) [OF ok] old(1) c(1) by auto
  show "sorted_wrt before_gap (map region_of (us @ c # vs))" using old(2) gap by (simp add: gapped_middle)
  show "\<forall>b \<in> set (us @ c # vs). al dvd unat (fb_offset b)" using chunk_okD(8) [OF ok] old(1) c(2) by auto
qed

lemma before_gap_trans: "before_gap r s \<Longrightarrow> before_gap s t \<Longrightarrow> before_gap r t"
  by (simp add: before_gap_def reg_end_def)

lemma live_after_block:
  assumes ok: "chunk_ok al C chunk live" and "r \<in> live" "b \<in> set (free_blocks chunk)"
    and "fst r < reg_end (region_of b)" "reg_end r \<noteq> fst (region_of b)"
  shows "before_gap r (region_of b)"
  using live_apart_block [OF assms(1-3)] assms(4,5) by (simp add: regions_apart_def before_gap_def)

lemma grow_block_ok:
  fixes offset sz :: size_t
  assumes ok: "chunk_ok al C chunk live" and r: "(unat offset, unat sz) \<in> live"
    and bl: "free_blocks chunk = xs @ b # ys" and touch: "reg_end (region_of b) = unat offset"
    and grow: "grow_block chunk (length xs) sz = Inr chunk'"
  shows "chunk_ok al C chunk' (live - {(unat offset, unat sz)})"
proof -
  let ?r = "(unat offset, unat sz)" and ?S = "region_of ` set (xs @ ys) \<union> (live - {(unat offset, unat sz)})"
  let ?j = "(unat (fb_offset b), unat (fb_size b) + unat sz)"
  have b: "b \<in> set (free_blocks chunk)" by (simp add: bl)
  note reg = live_in_chunk [OF ok r]
  have join: "tiling C (insert ?j ?S)" "?j \<notin> live - {?r}" "reg_end ?j \<le> C"
    using chunk_ok_join [OF ok bl r, of ?j] touch by (simp_all add: reg_end_def region_of_def)
  have j_end: "reg_end ?j = reg_end ?r" using touch by (simp add: reg_end_def region_of_def)
  define c where "c = b\<lparr>fb_size := fb_size b + sz\<rparr>"
  have c: "region_of c = ?j" "fb_offset c = fb_offset b" "fb_size c = fb_size b + sz"
    using join(3) chunk_okD(1) [OF ok] by (simp_all add: c_def region_of_def reg_end_def unat_add_small)
  have c_end: "unat (block_end c) = reg_end ?j"
    using c join(3) chunk_okD(1) [OF ok] by (simp add: block_end_def reg_end_def region_of_def unat_add_small)
  have al: "al dvd unat (fb_offset c)" using chunk_okD(8) [OF ok b] c(2) by simp
  have gaps: "sorted_wrt before_gap (map region_of (xs @ ys))"
    "\<forall>x \<in> set xs. before_gap (region_of x) (region_of b)" "\<forall>y \<in> set ys. before_gap (region_of b) (region_of y)"
    using chunk_okD(4) [OF ok] by (auto simp: bl gapped_middle)
  have low: "\<forall>x \<in> set xs. before_gap (region_of x) ?j"
    using gaps(2) by (simp add: before_gap_def region_of_def)
  have past: "unat offset < reg_end (region_of y)" if "y \<in> set ys" for y
    using gaps(3) that touch by (auto simp: before_gap_def reg_end_def)
  show ?thesis
  proof (cases "\<exists>y zs. ys = y # zs \<and> block_end c = fb_offset y")
    case True
    then obtain y zs where ys: "ys = y # zs" and at: "block_end c = fb_offset y" by blast
    have y_in: "y \<in> set (free_blocks chunk)" by (simp add: bl ys)
    have y: "region_of y = (fst ?j + snd ?j, unat (fb_size y))"
      using c_end at by (simp add: region_of_def reg_end_def)
    define d where "d = c\<lparr>fb_size := fb_size c + fb_size y\<rparr>"
    have chunk': "free_blocks chunk' = xs @ d # zs" "max_used chunk' = max_used chunk"
      using grow at by (auto simp: grow_block_def ggml_dyn_tallocr_remove_block_def bl ys c_def d_def Let_def
          bnd_eq_Inr nth_append remove_nth_def)
    let ?S' = "region_of ` set (xs @ zs) \<union> (live - {?r})"
    have y_fresh: "region_of y \<notin> ?S'"
      using block_fresh [of al C chunk live "xs @ [b]" y zs] ok by (auto simp: bl ys)
    have j_fresh: "?j \<notin> ?S"
    proof -
      have "fst (region_of x) \<noteq> unat (fb_offset b)" if "x \<in> set xs \<union> set ys" for x
        using gaps(2,3) that by (force simp: before_gap_def reg_end_def region_of_def)
      then have "?j \<notin> region_of ` set (xs @ ys)" by (metis fst_conv imageE set_append)
      then show ?thesis using join(2) by blast
    qed
    have "tiling C (insert (fst ?j, snd ?j + unat (fb_size y)) (insert ?j ?S - {?j, region_of y}))"
      using tiling_merge [OF join(1), of "fst ?j" "snd ?j" "unat (fb_size y)"] y ys by simp
    moreover have "insert ?j ?S - {?j, region_of y} = ?S'" using y_fresh j_fresh by (auto simp: ys)
    ultimately have tile: "tiling C (insert (fst ?j, snd ?j + unat (fb_size y)) ?S')" by simp
    then have "reg_end (fst ?j, snd ?j + unat (fb_size y)) \<le> C" by (rule tilingD) simp
    then have d: "region_of d = (fst ?j, snd ?j + unat (fb_size y))"
      using c chunk_okD(1) [OF ok] by (simp add: d_def region_of_def reg_end_def unat_add_small)
    have d_end: "reg_end (region_of d) = reg_end (region_of y)" using d y by (simp add: reg_end_def)
    show ?thesis
    proof (rule chunk_ok_replaced [OF ok chunk'])
      show "tiling C (insert (region_of d) ?S')" using tile d by simp
      show "region_of d \<notin> live - {?r}"
      proof
        assume l: "region_of d \<in> live - {?r}"
        have "regions_apart (region_of y) (region_of d)" using l live_apart_block [OF ok _ y_in] by blast
        then show False using d y chunk_block_end(3) [OF ok y_in] by (auto simp: regions_apart_def reg_end_def)
      qed
      show "\<forall>v \<in> set zs. before_gap (region_of d) (region_of v)"
        using gaps(1) d_end by (auto simp: ys sorted_wrt_append before_gap_def)
    qed (use low d c al gaps(1) in \<open>auto simp: bl ys d_def before_gap_def sorted_wrt_append\<close>)
  next
    case False
    have chunk': "free_blocks chunk' = xs @ c # ys" "max_used chunk' = max_used chunk"
      using grow False by (cases ys; auto simp: grow_block_def bl c_def Let_def nth_append)+
    have high: "before_gap ?j (region_of y)" if y: "y \<in> set ys" for y
    proof -
      obtain z zs where ys: "ys = z # zs" using y by (cases ys) auto
      have "reg_end ?r \<noteq> fst (region_of z)"
        using False ys c_end j_end by (auto simp: region_of_def word_unat_eq_iff)
      then have z: "before_gap ?r (region_of z)"
        using live_after_block [OF ok r, of z] past [of z] by (simp add: bl ys)
      moreover have "y = z \<or> before_gap (region_of z) (region_of y)" using gaps(1) y by (auto simp: ys sorted_wrt_append)
      ultimately show ?thesis using before_gap_trans j_end by (auto simp: before_gap_def reg_end_def)
    qed
    show ?thesis
      by (rule chunk_ok_replaced [OF ok chunk']) (use join low high c al gaps(1) in \<open>auto simp: bl\<close>)
  qed
qed

lemma extend_down_ok:
  fixes offset sz :: size_t
  assumes ok: "chunk_ok al C chunk live" and r: "(unat offset, unat sz) \<in> live"
    and bl: "free_blocks chunk = xs @ b # ys" and touch: "unat offset + unat sz = unat (fb_offset b)"
    and no: "\<forall>x \<in> set xs. block_end x \<noteq> offset"
    and extend: "extend_down chunk (length xs) offset sz = Inr chunk'"
  shows "chunk_ok al C chunk' (live - {(unat offset, unat sz)})"
proof -
  let ?r = "(unat offset, unat sz)" and ?S = "region_of ` set (xs @ ys) \<union> (live - {(unat offset, unat sz)})"
  let ?j = "(unat offset, unat sz + unat (fb_size b))"
  have b: "b \<in> set (free_blocks chunk)" by (simp add: bl)
  have join: "tiling C (insert ?j ?S)" "?j \<notin> live - {?r}" "reg_end ?j \<le> C"
    using chunk_ok_join [OF ok bl r, of ?j] touch by (simp_all add: reg_end_def region_of_def)
  define c where "c = \<lparr>fb_offset = offset, fb_size = fb_size b + sz\<rparr>"
  have c: "region_of c = ?j" "fb_offset c = offset"
    using join(3) chunk_okD(1) [OF ok] by (simp_all add: c_def region_of_def reg_end_def unat_add_small)
  have "\<not> (xs \<noteq> [] \<and> block_end (last xs) = offset)" using no by auto
  then have chunk': "free_blocks chunk' = xs @ c # ys" "max_used chunk' = max_used chunk"
    using extend by (auto simp: extend_down_def bl c_def Let_def nth_append last_conv_nth split: if_splits)
  have gaps: "sorted_wrt before_gap (map region_of (xs @ ys))"
    "\<forall>x \<in> set xs. before_gap (region_of x) (region_of b)" "\<forall>y \<in> set ys. before_gap (region_of b) (region_of y)"
    using chunk_okD(4) [OF ok] by (auto simp: bl gapped_middle)
  have low: "before_gap (region_of x) ?j" if x: "x \<in> set xs" for x
  proof -
    have x_in: "x \<in> set (free_blocks chunk)" using x by (simp add: bl)
    have "reg_end (region_of x) \<noteq> unat offset"
      using no x chunk_block_end(1) [OF ok x_in] by (metis word_unat_eq_iff)
    moreover have "regions_apart (region_of x) ?r" using live_apart_block [OF ok r x_in] .
    moreover have "reg_end (region_of x) < unat (fb_offset b)"
      using gaps(2) x by (simp add: before_gap_def region_of_def)
    ultimately show ?thesis
      using touch chunk_block_end(3) [OF ok x_in] by (auto simp: regions_apart_def before_gap_def reg_end_def region_of_def)
  qed
  have high: "\<forall>y \<in> set ys. before_gap ?j (region_of y)"
    using gaps(3) touch by (auto simp: before_gap_def reg_end_def region_of_def)
  show ?thesis
    by (rule chunk_ok_replaced [OF ok chunk'])
      (use join low high c chunk_okD(6) [OF ok r] gaps(1) in \<open>auto simp: bl\<close>)
qed

lemma release_ok:
  assumes ok: "chunk_ok al C chunk live" and r: "(unat offset, unat sz) \<in> live"
    and release: "release chunk offset sz = Inr chunk'"
  shows "chunk_ok al C chunk' (live - {(unat offset, unat sz)})"
proof -
  let ?r = "(unat offset, unat sz)"
  let ?bl = "free_blocks chunk"
  note reg = live_in_chunk [OF ok r]
  have al: "al dvd unat offset" using chunk_okD(6) [OF ok r] by simp
  have far: "regions_apart (region_of b) ?r" if "b \<in> set ?bl" for b using live_apart_block [OF ok r that] .
  have ends: "block_end b = offset \<longleftrightarrow> reg_end (region_of b) = fst ?r" if "b \<in> set ?bl" for b
    using chunk_block_end(1) [OF ok that] by (metis fst_conv word_unat_eq_iff)
  have starts: "offset + sz = fb_offset b \<longleftrightarrow> reg_end ?r = fst (region_of b)" for b
    using reg(1) by (simp add: reg_end_def region_of_def word_unat_eq_iff)
  let ?touch = "\<lambda>i. block_end (?bl ! i) = offset \<or> offset + sz = fb_offset (?bl ! i)"
  show ?thesis
  proof (cases "find ?touch [0..<length ?bl]")
    case None
    then have regions_apart': "reg_end (region_of b) < fst ?r \<or> reg_end ?r < fst (region_of b)" if "b \<in> set ?bl" for b
      using far [OF that] ends [OF that] starts [of b] that
      by (force simp: find_None_iff in_set_conv_nth regions_apart_def)
    let ?before = "\<lambda>b. fb_offset b < offset"
    define xs where "xs = takeWhile ?before ?bl"
    define ys where "ys = dropWhile ?before ?bl"
    have bl: "?bl = xs @ ys" by (simp add: xs_def ys_def)
    have drop: "drop (length xs) ?bl = ys" "take (length xs) ?bl = xs" by (simp_all add: bl)
    let ?b = "\<lparr>fb_offset = offset, fb_size = sz\<rparr>"
    have chunk': "free_blocks chunk' = xs @ ?b # ys" "max_used chunk' = max_used chunk"
      using release None drop
      by (auto simp: release_def ggml_dyn_tallocr_insert_block_def bnd_eq_Inr Let_def simp flip: xs_def)
    have rb: "region_of ?b = ?r" by (simp add: region_of_def)
    have low: "before_gap (region_of x) ?r" if "x \<in> set xs" for x
    proof -
      have "fb_offset x < offset" using that unfolding xs_def by (rule set_takeWhileD [THEN conjunct2])
      then have "fst (region_of x) < fst ?r" by (simp add: region_of_def word_less_nat_alt)
      then show ?thesis using regions_apart' [of x] that by (auto simp: bl before_gap_def reg_end_def)
    qed
    have high: "before_gap ?r (region_of y)" if y: "y \<in> set ys" for y
    proof -
      obtain z zs where ys: "ys = z # zs" using y by (cases ys) auto
      have "\<not> fb_offset z < offset" using ys unfolding ys_def by (metis dropWhile_eq_Cons_conv)
      then have z: "fst ?r \<le> fst (region_of z)" by (simp add: region_of_def word_less_nat_alt)
      have "fst (region_of z) \<le> fst (region_of y)"
        using chunk_okD(4) [OF ok] y by (auto simp: bl ys sorted_wrt_append before_gap_def reg_end_def)
      with z have "fst ?r \<le> fst (region_of y)" by simp
      then show ?thesis
        using regions_apart' [of y] y chunk_block_end(3) [OF ok, of y] by (auto simp: bl before_gap_def reg_end_def region_of_def)
    qed
    show ?thesis
    proof (rule chunk_ok_released [OF ok chunk'])
      have "region_of ` set (xs @ ?b # ys) \<union> (live - {?r}) = region_of ` set ?bl \<union> live" using r rb bl by auto
      then show "tiling C (region_of ` set (xs @ ?b # ys) \<union> (live - {?r}))" using chunk_okD(2) [OF ok] by simp
      show "region_of ` set (xs @ ?b # ys) \<inter> (live - {?r}) = {}" using chunk_okD(3) [OF ok] rb bl by auto
      show "sorted_wrt before_gap (map region_of (xs @ ?b # ys))"
        using chunk_okD(4) [OF ok] low high rb by (simp add: bl gapped_middle)
      show "\<forall>b \<in> set (xs @ ?b # ys). al dvd unat (fb_offset b)" using chunk_okD(8) [OF ok] al by (auto simp: bl)
    qed
  next
    case (Some i)
    then have i: "i < length ?bl" "?touch i" "\<forall>j < i. \<not> ?touch j" by (auto simp: find_Some_iff)
    define xs where "xs = take i ?bl"
    define b where "b = ?bl ! i"
    define ys where "ys = drop (Suc i) ?bl"
    have bl: "?bl = xs @ b # ys" and len: "length xs = i"
      using i(1) by (simp_all add: xs_def b_def ys_def id_take_nth_drop [symmetric])
    have before: "block_end x \<noteq> offset" if "x \<in> set xs" for x
      using that i(3) len bl by (metis in_set_conv_nth nth_append)
    have b_in: "b \<in> set ?bl" by (simp add: bl)
    have bi: "?bl ! i = b" by (simp add: b_def)
    show ?thesis
    proof (cases "block_end b = offset")
      case True
      then have "grow_block chunk (length xs) sz = Inr chunk'"
        using release Some by (simp add: release_def Let_def bi len)
      then show ?thesis using grow_block_ok [OF ok r bl] ends [OF b_in] True by simp
    next
      case False
      then have "extend_down chunk (length xs) offset sz = Inr chunk'"
        using release Some by (simp add: release_def Let_def bi len)
      moreover have "unat offset + unat sz = unat (fb_offset b)"
        using i(2) False bi reg(1) by metis
      ultimately show ?thesis using extend_down_ok [OF ok r bl] before by blast
    qed
  qed
qed

subsection \<open>The allocator\<close>

text \<open>\<open>live\<close> holds the chunk, offset and aligned size of every region that is handed out.\<close>

type_synonym live_regions = "(nat \<times> region) set"

definition in_chunk :: "live_regions \<Rightarrow> nat \<Rightarrow> region set" where
  "in_chunk live c = {r. (c, r) \<in> live}"

definition alloc_ok :: "ggml_dyn_tallocr \<Rightarrow> live_regions \<Rightarrow> bool" where
  "alloc_ok a live \<longleftrightarrow> is_pow2 (ta_alignment a) \<and> length (ta_chunks a) \<le> GGML_VBUFFER_MAX_CHUNKS \<and>
     (\<forall>(c, r) \<in> live. c < length (ta_chunks a)) \<and>
     (\<forall>c < length (ta_chunks a). \<exists>C. chunk_ok (unat (ta_alignment a)) C (ta_chunks a ! c) (in_chunk live c))"

lemma aligned_offset_Inr:
  assumes "is_pow2 al" "unat sz + unat al \<le> 2 ^ 64"
  obtains s where "aligned_offset 0 sz al = Inr s" "unat s = (unat sz + unat al - 1) div unat al * unat al"
proof -
  let ?n = "unat sz" and ?a = "unat al"
  have a: "0 < ?a" using assms(1) by (simp add: is_pow2_def unat_gt_0)
  have lt: "(?a - ?n mod ?a) mod ?a < ?a" using a by simp
  have "sz mod al \<le> al" using a by (simp add: word_le_nat_alt unat_mod less_imp_le)
  then have "unat ((al - sz mod al) mod al) = (?a - ?n mod ?a) mod ?a" by (simp add: unat_mod unat_sub)
  moreover have "?n + (?a - ?n mod ?a) mod ?a < 2 ^ 64" using lt assms(2) by linarith
  ultimately have "unat (sz + (al - sz mod al) mod al) = ?n + (?a - ?n mod ?a) mod ?a"
    by (simp add: unat_add_small)
  then show thesis using assms(1) round_up [OF a] by (intro that) (simp_all add: aligned_offset_def Let_def)
qed

lemma aligned_size:
  assumes "is_pow2 al" "unat sz + unat al \<le> 2 ^ 64" "aligned_offset 0 sz al = Inr s"
  shows "unat al dvd unat s" "unat sz \<le> unat s" "unat s < unat sz + unat al"
proof -
  have s: "unat s = (unat sz + unat al - 1) div unat al * unat al"
    using aligned_offset_Inr [OF assms(1,2)] assms(3) by (metis sum.inject(2))
  have a: "0 < unat al" using assms(1) by (simp add: is_pow2_def unat_gt_0)
  show "unat al dvd unat s" by (simp add: s)
  have "(unat sz + unat al - 1) div unat al * unat al + (unat sz + unat al - 1) mod unat al = unat sz + unat al - 1"
    by (rule div_mult_mod_eq)
  moreover have "(unat sz + unat al - 1) mod unat al < unat al" using a by simp
  ultimately show "unat sz \<le> unat s" "unat s < unat sz + unat al" using a unfolding s by linarith+
qed

subsection \<open>The choice of a block\<close>

definition block_fits :: "size_t \<Rightarrow> tallocr_chunk list \<Rightarrow> (nat \<times> nat) option \<Rightarrow> bool" where
  "block_fits sz chunks p \<longleftrightarrow> (case p of None \<Rightarrow> True | Some (c, i) \<Rightarrow>
     c < length chunks \<and> i < length (free_blocks (chunks ! c)) \<and> sz \<le> fb_size (free_blocks (chunks ! c) ! i))"

lemma block_fits_simps [simp]:
  "block_fits sz chunks None"
  "block_fits sz chunks (Some (c, i)) \<longleftrightarrow>
     c < length chunks \<and> i < length (free_blocks (chunks ! c)) \<and> sz \<le> fb_size (free_blocks (chunks ! c) ! i)"
  by (simp_all add: block_fits_def)

lemma fit_step_fits:
  assumes "block_fits sz chunks (fst st)" "c < length chunks" "i < length (free_blocks (chunks ! c))"
  shows "block_fits sz chunks (fst (fit_step sz c (free_blocks (chunks ! c)) i st))"
  using assms by (cases st) (simp add: fit_step_def Let_def)

lemma last_step_fits:
  assumes "block_fits sz chunks (fst st)" "c < length chunks"
  shows "block_fits sz chunks (fst (last_step sz (c, chunks ! c) st))"
  using assms by (cases st) (simp add: last_step_def Let_def last_conv_nth)

lemma best_fit_fits: "block_fits sz chunks (best_fit sz chunks)"
  unfolding best_fit_def
proof (rule fold_invariant [where Q = "\<lambda>(c, chunk). c < length chunks \<and> chunks ! c = chunk"])
  show "case x of (c, chunk) \<Rightarrow> c < length chunks \<and> chunks ! c = chunk" if "x \<in> set (enumerate 0 chunks)" for x
    using that by (auto simp: in_set_enumerate_eq)
  fix x :: "nat \<times> tallocr_chunk" and best
  assume "case x of (c, chunk) \<Rightarrow> c < length chunks \<and> chunks ! c = chunk" and best: "block_fits sz chunks best"
  then obtain c where x: "x = (c, chunks ! c)" "c < length chunks" by auto
  have "block_fits sz chunks (fst (fold (fit_step sz c (free_blocks (chunks ! c)))
      [0..<length (free_blocks (chunks ! c)) - 1] (best, SIZE_MAX)))"
    by (rule fold_invariant [where Q = "\<lambda>i. i < length (free_blocks (chunks ! c))" and P = "\<lambda>st. block_fits sz chunks (fst st)"])
      (use x(2) best fit_step_fits in \<open>simp_all\<close>)
  then show "block_fits sz chunks ((\<lambda>(c, chunk) best. fst (fold (fit_step sz c (free_blocks chunk))
      [0..<length (free_blocks chunk) - 1] (best, SIZE_MAX))) x best)" by (simp add: x)
qed simp

lemma last_fit_fits: "block_fits sz chunks (last_fit sz chunks)"
  unfolding last_fit_def
proof (rule fold_invariant [where Q = "\<lambda>(c, chunk). c < length chunks \<and> chunks ! c = chunk" and P = "\<lambda>st. block_fits sz chunks (fst st)"])
  show "case x of (c, chunk) \<Rightarrow> c < length chunks \<and> chunks ! c = chunk" if "x \<in> set (enumerate 0 chunks)" for x
    using that by (auto simp: in_set_enumerate_eq)
qed (auto simp: last_step_fits)

lemma new_chunk_ok:
  assumes "alloc_ok a live" "ggml_dyn_tallocr_new_chunk a sz = Some (c, a')" "0 < unat sz" "sz \<le> HALF_SIZE_MAX"
  shows "alloc_ok a' live" "block_fits sz (ta_chunks a') (Some (c, 0))" "ta_alignment a' = ta_alignment a"
proof -
  let ?n = "length (ta_chunks a)"
  let ?sz = "if ?n = GGML_VBUFFER_MAX_CHUNKS - 1 then HALF_SIZE_MAX else max sz (max_chunk_size a)"
  let ?chunk = "\<lparr>free_blocks = [\<lparr>fb_offset = 0, fb_size = ?sz\<rparr>], max_used = 0\<rparr>"
  have new: "?n < GGML_VBUFFER_MAX_CHUNKS" "c = ?n" "a' = a\<lparr>ta_chunks := ta_chunks a @ [?chunk]\<rparr>"
    using assms(2) by (auto simp: ggml_dyn_tallocr_new_chunk_def Let_def split: if_splits)
  have big: "sz \<le> ?sz" using assms(4) by auto
  then have pos: "0 < unat ?sz" using assms(3) by (meson le_less_trans less_le_trans not_less word_le_nat_alt)
  have "chunk_ok (unat (ta_alignment a)) (unat ?sz) ?chunk {}"
    using pos unsigned_less [of ?sz] by (auto simp: chunk_ok_def tiling_def region_of_def reg_end_def)
  moreover have "in_chunk live ?n = {}" using assms(1) by (auto simp: alloc_ok_def in_chunk_def)
  ultimately show "alloc_ok a' live"
    using assms(1) new(1) unfolding alloc_ok_def new(3) by (auto simp: nth_append less_Suc_eq)
  show "block_fits sz (ta_chunks a') (Some (c, 0))" using big by (simp add: block_fits_def new)
  show "ta_alignment a' = ta_alignment a" by (simp add: new)
qed

lemma choose_block_ok:
  assumes "alloc_ok a live" "choose_block a sz = Inr ((c, i), a')" "0 < unat sz" "sz \<le> HALF_SIZE_MAX"
  shows "alloc_ok a' live \<and> block_fits sz (ta_chunks a') (Some (c, i)) \<and> ta_alignment a' = ta_alignment a"
proof (cases "best_fit sz (ta_chunks a)")
  case (Some p)
  then show ?thesis using assms(1,2) best_fit_fits [of sz "ta_chunks a"] by (simp add: choose_block_def)
next
  case None
  note best = this
  show ?thesis
  proof (cases "last_fit sz (ta_chunks a)")
    case (Some p)
    then show ?thesis using assms(1,2) best last_fit_fits [of sz "ta_chunks a"] by (simp add: choose_block_def)
  next
    case None
    then have "ggml_dyn_tallocr_new_chunk a sz = Some (c, a') \<and> i = 0"
      using assms(2) best by (simp add: choose_block_def split: option.splits prod.splits)
    then show ?thesis using new_chunk_ok [OF assms(1) _ assms(3,4)] by blast
  qed
qed

text \<open>One chunk is replaced, with its live regions.\<close>

lemma alloc_ok_update:
  assumes "alloc_ok a live" "c < length (ta_chunks a)"
    and "\<And>C. chunk_ok (unat (ta_alignment a)) C (ta_chunks a ! c) (in_chunk live c) \<Longrightarrow>
      chunk_ok (unat (ta_alignment a)) C chunk (in_chunk live' c)"
    and "\<And>d. d \<noteq> c \<Longrightarrow> in_chunk live' d = in_chunk live d"
  shows "alloc_ok (a\<lparr>ta_chunks := (ta_chunks a)[c := chunk]\<rparr>) live'"
  unfolding alloc_ok_def
proof (intro conjI allI impI)
  have new: "\<exists>C. chunk_ok (unat (ta_alignment a)) C chunk (in_chunk live' c)"
    using assms(1-3) unfolding alloc_ok_def by blast
  show "\<forall>(d, r) \<in> live'. d < length (ta_chunks (a\<lparr>ta_chunks := (ta_chunks a)[c := chunk]\<rparr>))"
  proof clarify
    fix d o' s assume "(d, o', s) \<in> live'"
    then have "d = c \<or> (d, o', s) \<in> live" using assms(4) [of d] by (auto simp: in_chunk_def)
    then show "d < length (ta_chunks (a\<lparr>ta_chunks := (ta_chunks a)[c := chunk]\<rparr>))"
      using assms(1,2) by (auto simp: alloc_ok_def)
  qed
  fix d assume "d < length (ta_chunks (a\<lparr>ta_chunks := (ta_chunks a)[c := chunk]\<rparr>))"
  then show "\<exists>C. chunk_ok (unat (ta_alignment (a\<lparr>ta_chunks := (ta_chunks a)[c := chunk]\<rparr>))) C
      (ta_chunks (a\<lparr>ta_chunks := (ta_chunks a)[c := chunk]\<rparr>) ! d) (in_chunk live' d)"
    using assms(1,2) new assms(4) [of d] by (cases "d = c") (auto simp: alloc_ok_def)
qed (use assms(1) in \<open>auto simp: alloc_ok_def\<close>)

lemma split_at: "i < length xs \<Longrightarrow> \<exists>us vs. xs = us @ xs ! i # vs \<and> length us = i"
  by (metis id_take_nth_drop length_take less_imp_le min.absorb2)

lemma alloc_step_ok:
  assumes ok: "alloc_ok a live" and alloc: "ggml_dyn_tallocr_alloc a sz = Inr ((c, offset), a')"
    and s: "aligned_offset 0 sz (ta_alignment a) = Inr s" "0 < unat s" "s \<le> HALF_SIZE_MAX"
    and al: "unat (ta_alignment a) dvd unat s"
  shows "alloc_ok a' (insert (c, unat offset, unat s) live) \<and> (c, unat offset, unat s) \<notin> live \<and>
    ta_alignment a' = ta_alignment a"
proof -
  obtain i a1 chunk where ch: "choose_block a s = Inr ((c, i), a1)"
    and cut: "cut_block (ta_chunks a1 ! c) i s = Inr (offset, chunk)"
    and a': "a' = a1\<lparr>ta_chunks := (ta_chunks a1)[c := chunk]\<rparr>"
    using alloc s(1) by (auto simp: ggml_dyn_tallocr_alloc_def bnd_eq_Inr)
  have a1: "alloc_ok a1 live" "block_fits s (ta_chunks a1) (Some (c, i))" "ta_alignment a1 = ta_alignment a"
    using choose_block_ok [OF ok ch s(2,3)] by blast+
  obtain us vs where bl: "free_blocks (ta_chunks a1 ! c) = us @ free_blocks (ta_chunks a1 ! c) ! i # vs" "length us = i"
    using split_at a1(2) by (metis block_fits_simps(2))
  let ?live = "insert (c, unat offset, unat s) live"
  have sz: "s \<le> fb_size (free_blocks (ta_chunks a1 ! c) ! i)" and c: "c < length (ta_chunks a1)" using a1(2) by auto
  have step: "(unat offset, unat s) \<notin> in_chunk live c \<and>
      chunk_ok (unat (ta_alignment a1)) C chunk (in_chunk ?live c)"
    if "chunk_ok (unat (ta_alignment a1)) C (ta_chunks a1 ! c) (in_chunk live c)" for C
  proof -
    have "in_chunk ?live c = insert (unat offset, unat s) (in_chunk live c)" by (auto simp: in_chunk_def)
    then show ?thesis
      using cut_block_ok(2,3) [OF that bl(1) s(2) sz] al a1(3) cut bl(2) by simp
  qed
  have "alloc_ok a' ?live" unfolding a'
    by (rule alloc_ok_update [OF a1(1) c]) (use step in \<open>auto simp: in_chunk_def\<close>)
  moreover have "(c, unat offset, unat s) \<notin> live" using a1(1) c step by (auto simp: alloc_ok_def in_chunk_def)
  ultimately show ?thesis using a1(3) by (simp add: a')
qed

lemma free_step_ok:
  assumes ok: "alloc_ok a live" and free: "ggml_dyn_tallocr_free_bytes a (c, offset) sz = Inr a'"
    and s: "aligned_offset 0 sz (ta_alignment a) = Inr s" and "(c, unat offset, unat s) \<in> live"
  shows "alloc_ok a' (live - {(c, unat offset, unat s)}) \<and> ta_alignment a' = ta_alignment a"
proof -
  obtain chunk where c: "c < length (ta_chunks a)" and rel: "release (ta_chunks a ! c) offset s = Inr chunk"
    and a': "a' = a\<lparr>ta_chunks := (ta_chunks a)[c := chunk]\<rparr>"
    using free s by (auto simp: ggml_dyn_tallocr_free_bytes_def bnd_eq_Inr elem_eq_Inr)
  let ?live = "live - {(c, unat offset, unat s)}"
  have "in_chunk ?live c = in_chunk live c - {(unat offset, unat s)}" by (auto simp: in_chunk_def)
  moreover have "(unat offset, unat s) \<in> in_chunk live c" using assms(4) by (simp add: in_chunk_def)
  ultimately have "alloc_ok a' ?live" unfolding a'
    using release_ok [OF _ _ rel] by (intro alloc_ok_update [OF ok c]) (auto simp: in_chunk_def)
  then show ?thesis by (simp add: a')
qed

text \<open>The owner of a region may treat it as two.\<close>

lemma split_step_ok:
  assumes ok: "alloc_ok a live" and r: "(c, x, n + m) \<in> live" "0 < n" "0 < m" "unat (ta_alignment a) dvd n"
  shows "alloc_ok a (insert (c, x, n) (insert (c, x + n, m) (live - {(c, x, n + m)})))"
proof -
  let ?live = "insert (c, x, n) (insert (c, x + n, m) (live - {(c, x, n + m)}))"
  have c: "c < length (ta_chunks a)" using ok r(1) by (auto simp: alloc_ok_def)
  have L: "in_chunk ?live c = insert (x, n) (insert (x + n, m) (in_chunk live c - {(x, n + m)}))"
    by (auto simp: in_chunk_def)
  have "chunk_ok (unat (ta_alignment a)) C (ta_chunks a ! c) (in_chunk ?live c)"
    if cok: "chunk_ok (unat (ta_alignment a)) C (ta_chunks a ! c) (in_chunk live c)" for C
  proof -
    let ?B = "region_of ` set (free_blocks (ta_chunks a ! c))" and ?L = "in_chunk live c"
    have mem: "(x, n + m) \<in> ?L" using r(1) by (simp add: in_chunk_def)
    have disj: "?B \<inter> ?L = {}" using cok by (rule chunk_okD)
    have far: "regions_apart b (x, n + m)" if "b \<in> ?B" for b
      using live_apart_block [OF cok mem] that by blast
    have "?B \<union> in_chunk ?live c = insert (x, n) (insert (x + n, m) (?B \<union> ?L - {(x, n + m)}))"
      using disj mem unfolding L by auto
    then have "tiling C (?B \<union> in_chunk ?live c)"
      using tiling_split [OF chunk_okD(2) [OF cok], of x n m] mem r(2,3) by simp
    moreover have "(x, n) \<notin> ?B" "(x + n, m) \<notin> ?B"
      using far [of "(x, n)"] far [of "(x + n, m)"] r(2,3) by (auto simp: regions_apart_def reg_end_def)
    then have "?B \<inter> in_chunk ?live c = {}" using disj unfolding L by auto
    moreover have "x + (n + m) \<le> unat (max_used (ta_chunks a ! c))" "unat (ta_alignment a) dvd x"
        "unat (ta_alignment a) dvd m"
      using chunk_okD(5-7) [OF cok mem] r(4) by (auto simp: reg_end_def dvd_add_right_iff)
    ultimately show ?thesis
      using cok r(4) unfolding chunk_ok_def L by (auto simp: reg_end_def)
  qed
  then have "alloc_ok (a\<lparr>ta_chunks := (ta_chunks a)[c := ta_chunks a ! c]\<rparr>) ?live"
    by (intro alloc_ok_update [OF ok c]) (auto simp: in_chunk_def)
  then show ?thesis by simp
qed

text \<open>The size that a chunk's buffer will need only grows.\<close>

lemma remove_block_used: "ggml_dyn_tallocr_remove_block chunk i = Inr chunk' \<Longrightarrow> max_used chunk' = max_used chunk"
  by (auto simp: ggml_dyn_tallocr_remove_block_def bnd_eq_Inr)

lemma insert_block_used: "ggml_dyn_tallocr_insert_block chunk x sz = Inr chunk' \<Longrightarrow> max_used chunk' = max_used chunk"
  by (auto simp: ggml_dyn_tallocr_insert_block_def Let_def bnd_eq_Inr)

lemma release_used: "release chunk x sz = Inr chunk' \<Longrightarrow> max_used chunk' = max_used chunk"
  by (auto simp: release_def grow_block_def extend_down_def Let_def split: option.splits if_splits
      dest!: remove_block_used insert_block_used)

lemma free_max_size:
  "ggml_dyn_tallocr_free_bytes a addr sz = Inr a' \<Longrightarrow> ggml_dyn_tallocr_max_size a' d = ggml_dyn_tallocr_max_size a d"
  by (auto simp: ggml_dyn_tallocr_free_bytes_def ggml_dyn_tallocr_max_size_def bnd_eq_Inr elem_eq_Inr nth_list_update
      dest!: release_used)

lemma choose_block_max_size:
  "choose_block a sz = Inr (p, a') \<Longrightarrow> ggml_dyn_tallocr_max_size a d \<le> ggml_dyn_tallocr_max_size a' d"
  by (auto simp: choose_block_def ggml_dyn_tallocr_new_chunk_def ggml_dyn_tallocr_max_size_def Let_def nth_append
      split: option.splits if_splits)

lemma cut_block_used: "cut_block chunk i sz = Inr (x, chunk') \<Longrightarrow> max_used chunk \<le> max_used chunk'"
  by (auto simp: cut_block_def Let_def bnd_eq_Inr dest!: remove_block_used split: if_splits)

lemma alloc_max_size:
  assumes "ggml_dyn_tallocr_alloc a sz = Inr (addr, a')"
  shows "ggml_dyn_tallocr_max_size a d \<le> ggml_dyn_tallocr_max_size a' d"
proof -
  obtain s c i a1 x chunk where ch: "choose_block a s = Inr ((c, i), a1)" and cut: "cut_block (ta_chunks a1 ! c) i s = Inr (x, chunk)"
    and a': "a' = a1\<lparr>ta_chunks := (ta_chunks a1)[c := chunk]\<rparr>"
    using assms by (auto simp: ggml_dyn_tallocr_alloc_def bnd_eq_Inr)
  have "ggml_dyn_tallocr_max_size a1 d \<le> ggml_dyn_tallocr_max_size a' d"
    using cut_block_used [OF cut] by (cases "c = d") (auto simp: a' ggml_dyn_tallocr_max_size_def)
  then show ?thesis using choose_block_max_size [OF ch, of d] by (rule order_trans [rotated])
qed

lemma live_below_max:
  assumes "alloc_ok a live" "(c, r) \<in> live"
  shows "reg_end r \<le> unat (ggml_dyn_tallocr_max_size a c)"
  using assms chunk_okD(5) [of "unat (ta_alignment a)" _ "ta_chunks a ! c" "in_chunk live c" r]
  by (force simp: alloc_ok_def ggml_dyn_tallocr_max_size_def in_chunk_def)

lemma live_apart:
  assumes "alloc_ok a live" "(c, r) \<in> live" "(c, r') \<in> live" "r \<noteq> r'"
  shows "regions_apart r r'"
proof -
  obtain C where "chunk_ok (unat (ta_alignment a)) C (ta_chunks a ! c) (in_chunk live c)"
    using assms(1,2) by (auto simp: alloc_ok_def)
  then show ?thesis using tilingD(3) [OF chunk_okD(2)] assms(2-4) by (auto simp: in_chunk_def)
qed

lemma live_size:
  assumes "alloc_ok a live" "(c, r) \<in> live"
  shows "0 < snd r" "unat (ta_alignment a) dvd fst r" "reg_end r < 2 ^ 64"
proof -
  obtain C where C: "chunk_ok (unat (ta_alignment a)) C (ta_chunks a ! c) (in_chunk live c)"
    using assms(1,2) by (auto simp: alloc_ok_def)
  have r: "r \<in> in_chunk live c" using assms(2) by (simp add: in_chunk_def)
  show "0 < snd r" "unat (ta_alignment a) dvd fst r"
    using tilingD(1) [OF chunk_okD(2) [OF C]] chunk_okD(6) [OF C r] r by auto
  show "reg_end r < 2 ^ 64" using tilingD(2) [OF chunk_okD(2) [OF C]] chunk_okD(1) [OF C] r by (meson UnI2 le_less_trans)
qed

subsection \<open>Sequences of allocations and releases\<close>

text \<open>
  The clients of the allocator: they allocate, release what they hold, and release the tail of
  what they hold (a split followed by a release).
\<close>

inductive talloc_step :: "ggml_dyn_tallocr \<times> live_regions \<Rightarrow> ggml_dyn_tallocr \<times> live_regions \<Rightarrow> bool" where
  alloc: "ggml_dyn_tallocr_alloc a sz = Inr ((c, offset), a') \<Longrightarrow> aligned_offset 0 sz (ta_alignment a) = Inr s \<Longrightarrow>
    0 < unat sz \<Longrightarrow> unat sz + unat (ta_alignment a) \<le> 2 ^ 63 \<Longrightarrow>
    talloc_step (a, live) (a', insert (c, unat offset, unat s) live)"
| free: "ggml_dyn_tallocr_free_bytes a (c, offset) sz = Inr a' \<Longrightarrow> aligned_offset 0 sz (ta_alignment a) = Inr s \<Longrightarrow>
    (c, unat offset, unat s) \<in> live \<Longrightarrow> talloc_step (a, live) (a', live - {(c, unat offset, unat s)})"
| split: "(c, x, n + m) \<in> live \<Longrightarrow> 0 < n \<Longrightarrow> 0 < m \<Longrightarrow> unat (ta_alignment a) dvd n \<Longrightarrow>
    talloc_step (a, live) (a, insert (c, x, n) (insert (c, x + n, m) (live - {(c, x, n + m)})))"

inductive talloc_reach :: "size_t \<Rightarrow> size_t \<Rightarrow> ggml_dyn_tallocr \<Rightarrow> live_regions \<Rightarrow> bool" for al mx where
  new: "talloc_reach al mx (ggml_dyn_tallocr_new al mx) {}"
| step: "talloc_reach al mx a live \<Longrightarrow> talloc_step (a, live) (a', live') \<Longrightarrow> talloc_reach al mx a' live'"

lemma talloc_step_ok:
  assumes "talloc_step (a, live) (a', live')" "alloc_ok a live"
  shows "alloc_ok a' live' \<and> ta_alignment a' = ta_alignment a"
  using assms(1)
proof cases
  case (alloc sz c offset s)
  have p: "is_pow2 (ta_alignment a)" using assms(2) by (simp add: alloc_ok_def)
  have "unat sz + unat (ta_alignment a) \<le> 2 ^ 64" using alloc(5) by simp
  note s = aligned_size [OF p this alloc(3)]
  have "unat s \<le> 2 ^ 63 - 1" using s(3) alloc(5) by simp
  then have "s \<le> HALF_SIZE_MAX" by (simp add: HALF_SIZE_MAX_def word_le_nat_alt unat_div)
  then show ?thesis using alloc_step_ok [OF assms(2) alloc(2,3)] s alloc(1,4) by simp
next
  case (free c offset sz s)
  then show ?thesis using free_step_ok [OF assms(2)] by simp
next
  case (split c x n m)
  then show ?thesis using split_step_ok [OF assms(2)] by simp
qed

lemma talloc_reach_ok:
  assumes "talloc_reach al mx a live" "is_pow2 al"
  shows "alloc_ok a live \<and> ta_alignment a = al"
  using assms
proof (induction rule: talloc_reach.induct)
  case new
  then show ?case
    by (simp add: alloc_ok_def ggml_dyn_tallocr_new_def ggml_dyn_tallocr_reset_def)
next
  case (step a live a' live')
  then show ?case using talloc_step_ok by blast
qed

text \<open>Free blocks that cover a whole chunk, with gaps between them, are one block.\<close>

lemma gapped_tiling_single:
  assumes "tiling C (set rs)" "sorted_wrt before_gap rs" "0 < C"
  shows "rs = [(0, C)]"
proof -
  have cover: "\<exists>r \<in> set rs. fst r \<le> x \<and> x < reg_end r" if "x < C" for x
    using assms(1) that by (auto simp: tiling_def)
  obtain r rs' where rs: "rs = r # rs'" using cover [OF assms(3)] by (cases rs) auto
  have later: "reg_end r < fst r'" if "r' \<in> set rs'" for r'
    using assms(2) that by (auto simp: rs before_gap_def)
  have r: "0 < snd r" "reg_end r \<le> C" using tilingD(1,2) [OF assms(1), of r] by (auto simp: rs)
  have only: "reg_end r = C"
  proof (rule ccontr)
    assume "reg_end r \<noteq> C"
    then obtain r' where r': "r' \<in> set rs" "fst r' \<le> reg_end r" "reg_end r < reg_end r'"
      using cover [of "reg_end r"] r(2) by auto
    then show False using later [of r'] by (auto simp: rs)
  qed
  obtain r0 where "r0 \<in> set rs" "fst r0 = 0" using cover [OF assms(3)] by auto
  then have "fst r = 0" using later [of r0] by (auto simp: rs)
  moreover have "rs' = []"
  proof (rule ccontr)
    assume "rs' \<noteq> []"
    then obtain r' where r': "r' \<in> set rs'" by (cases rs') auto
    then have "reg_end r' \<le> C" "0 < snd r'" using tilingD(1,2) [OF assms(1), of r'] by (auto simp: rs)
    then show False using later [OF r'] only by (simp add: reg_end_def)
  qed
  ultimately show ?thesis using only by (simp add: rs reg_end_def prod_eq_iff)
qed

lemma talloc_reach_layout:
  assumes "talloc_reach al mx a live" "is_pow2 al"
  shows "(c, r) \<in> live \<Longrightarrow> (c, r') \<in> live \<Longrightarrow> r \<noteq> r' \<Longrightarrow> regions_apart r r'"
    and "(c, r) \<in> live \<Longrightarrow> c < length (ta_chunks a) \<and> 0 < snd r \<and> unat al dvd fst r \<and> unat al dvd snd r \<and>
      reg_end r \<le> unat (ggml_dyn_tallocr_max_size a c)"
    and "(c, r) \<in> live \<Longrightarrow> b \<in> set (free_blocks (ta_chunks a ! c)) \<Longrightarrow> regions_apart (region_of b) r"
    and "c < length (ta_chunks a) \<Longrightarrow> in_chunk live c = {} \<Longrightarrow>
      \<exists>C > 0. map region_of (free_blocks (ta_chunks a ! c)) = [(0, C)]"
proof -
  have ok: "alloc_ok a live" and al: "ta_alignment a = al" using talloc_reach_ok [OF assms] by auto
  have chunk: "c < length (ta_chunks a) \<and> (\<exists>C. chunk_ok (unat al) C (ta_chunks a ! c) (in_chunk live c))"
    if "(c, r) \<in> live" for c r using ok al that by (auto simp: alloc_ok_def)
  show "regions_apart r r'" if live: "(c, r) \<in> live" "(c, r') \<in> live" "r \<noteq> r'"
  proof -
    obtain C where C: "chunk_ok (unat al) C (ta_chunks a ! c) (in_chunk live c)" using chunk [OF live(1)] by blast
    have "r \<in> in_chunk live c" "r' \<in> in_chunk live c" using live by (simp_all add: in_chunk_def)
    then show ?thesis using tilingD(3) [OF chunk_okD(2) [OF C]] live(3) by blast
  qed
  show "c < length (ta_chunks a) \<and> 0 < snd r \<and> unat al dvd fst r \<and> unat al dvd snd r \<and>
      reg_end r \<le> unat (ggml_dyn_tallocr_max_size a c)" if live: "(c, r) \<in> live"
  proof -
    obtain C where C: "chunk_ok (unat al) C (ta_chunks a ! c) (in_chunk live c)" and c: "c < length (ta_chunks a)"
      using chunk [OF live] by blast
    have "r \<in> in_chunk live c" using live by (simp add: in_chunk_def)
    then show ?thesis
      using chunk_okD(5-7) [OF C] tilingD(1) [OF chunk_okD(2) [OF C], of r] c
      by (auto simp: ggml_dyn_tallocr_max_size_def)
  qed
  show "regions_apart (region_of b) r" if live: "(c, r) \<in> live" "b \<in> set (free_blocks (ta_chunks a ! c))"
    using chunk [OF live(1)] live_apart_block [of "unat al" _ "ta_chunks a ! c" "in_chunk live c" r b] live
    by (auto simp: in_chunk_def)
  show "\<exists>C > 0. map region_of (free_blocks (ta_chunks a ! c)) = [(0, C)]"
    if c: "c < length (ta_chunks a)" "in_chunk live c = {}"
  proof -
    obtain C where C: "chunk_ok (unat al) C (ta_chunks a ! c) {}" using ok al c by (auto simp: alloc_ok_def)
    have "tiling C (set (map region_of (free_blocks (ta_chunks a ! c))))" using chunk_okD(2) [OF C] by simp
    then show ?thesis using gapped_tiling_single chunk_okD(4,9) [OF C] by blast
  qed
qed

text \<open>
  C34. Whatever sequence of allocations and releases the clients of the allocator perform, the
  regions that are handed out at any moment are aligned, lie within the size that the chunk's
  buffer will get, and overlap neither each other nor a free block; and nothing is lost: a chunk
  of which nothing is in use consists of a single free block again.
\<close>

theorem talloc_no_overlap:
  assumes "talloc_reach al mx a live" "is_pow2 al"
  shows "(\<forall>(c, r) \<in> live. c < length (ta_chunks a) \<and> 0 < snd r \<and> unat al dvd fst r \<and> unat al dvd snd r \<and>
      reg_end r \<le> unat (ggml_dyn_tallocr_max_size a c) \<and>
      (\<forall>r'. (c, r') \<in> live \<longrightarrow> r' \<noteq> r \<longrightarrow> regions_apart r r') \<and>
      (\<forall>b \<in> set (free_blocks (ta_chunks a ! c)). regions_apart (region_of b) r)) \<and>
    (\<forall>c < length (ta_chunks a). in_chunk live c = {} \<longrightarrow>
      (\<exists>C > 0. map region_of (free_blocks (ta_chunks a ! c)) = [(0, C)]))"
proof (intro conjI ballI allI impI)
  note layout = talloc_reach_layout [OF assms]
  show "case p of (c, r) \<Rightarrow> c < length (ta_chunks a) \<and> 0 < snd r \<and> unat al dvd fst r \<and> unat al dvd snd r \<and>
      reg_end r \<le> unat (ggml_dyn_tallocr_max_size a c) \<and>
      (\<forall>r'. (c, r') \<in> live \<longrightarrow> r' \<noteq> r \<longrightarrow> regions_apart r r') \<and>
      (\<forall>b \<in> set (free_blocks (ta_chunks a ! c)). regions_apart (region_of b) r)" if "p \<in> live" for p
    using layout(2) layout(1,3) [of "fst p" "snd p"] that by (cases p) auto
  show "\<exists>C > 0. map region_of (free_blocks (ta_chunks a ! c)) = [(0, C)]"
    if "c < length (ta_chunks a)" "in_chunk live c = {}" for c using layout(4) that .
qed

subsection \<open>The linear allocator\<close>

text \<open>
  The base, alignment and size of a backend buffer are read from the back end; they and the size
  that the back end asks for a tensor are arguments.
\<close>

record ggml_tallocr =
  tl_base :: size_t
  tl_alignment :: size_t
  tl_offset :: size_t

definition ggml_tallocr_new :: "size_t \<Rightarrow> size_t \<Rightarrow> ggml_tallocr outcome" where
  "ggml_tallocr_new base align =
     bnd (ensure (is_pow2 align) Aborted) (\<lambda>_.
     bnd (aligned_offset base 0 align) (\<lambda>offset.
     Inr \<lparr>tl_base = base, tl_alignment = align, tl_offset = offset\<rparr>))"

definition ggml_tallocr_alloc :: "size_t \<Rightarrow> ggml_tallocr \<Rightarrow> size_t \<Rightarrow> (size_t \<times> ggml_tallocr) outcome" where
  "ggml_tallocr_alloc buffer_size talloc sz =
     (let sz = ggml_pad sz (tl_alignment talloc) in
      bnd (ensure (\<not> tl_offset talloc + sz > buffer_size) Aborted) (\<lambda>_.
      let addr = tl_base talloc + tl_offset talloc in
      bnd (ensure (addr mod tl_alignment talloc = 0) Aborted) (\<lambda>_.
      Inr (addr, talloc\<lparr>tl_offset := tl_offset talloc + sz\<rparr>))))"

end
