(* ===== verification/Hash_Set.thy ===== *)
theory Hash_Set
  imports Prelude
begin

unbundle bit_operations_syntax

text \<open>
  The bit sets and the hash set of tensor pointers of \<open>src/ggml-impl.h\<close> and \<open>src/ggml.c\<close>: open addressing
  with linear probing, no removal.  The graph builder and the graph allocator index their tables
  by the slot of a tensor in such a set.
\<close>

type_synonym ptr = "64 word"

subsection \<open>Bit sets\<close>

definition ggml_bitset_size :: "nat \<Rightarrow> nat" where
  "ggml_bitset_size n = drop_bit 5 (n + 31)"

definition ggml_bitset_get :: "32 word list \<Rightarrow> nat \<Rightarrow> bool outcome" where
  "ggml_bitset_get bitset i =
     bnd (elem bitset (drop_bit 5 i)) (\<lambda>w. Inr (w AND push_bit (i AND 31) 1 \<noteq> 0))"

definition ggml_bitset_set :: "32 word list \<Rightarrow> nat \<Rightarrow> 32 word list outcome" where
  "ggml_bitset_set bitset i =
     bnd (elem bitset (drop_bit 5 i)) (\<lambda>w. Inr (bitset[drop_bit 5 i := w OR push_bit (i AND 31) 1]))"

definition ggml_bitset_clear :: "32 word list \<Rightarrow> nat \<Rightarrow> 32 word list outcome" where
  "ggml_bitset_clear bitset i =
     bnd (elem bitset (drop_bit 5 i)) (\<lambda>w. Inr (bitset[drop_bit 5 i := w AND NOT (push_bit (i AND 31) 1)]))"

text \<open>What a bit set stores, as a predicate on indices.\<close>

definition bit_at :: "32 word list \<Rightarrow> nat \<Rightarrow> bool" where
  "bit_at bs i = bit (bs ! (i div 32)) (i mod 32)"

lemma and_31: "i AND 31 = i mod 32" for i :: nat
  using take_bit_eq_mask [of 5 i] by (simp add: take_bit_eq_mod mask_eq_exp_minus_1)

lemma drop_5: "drop_bit 5 i = i div 32" for i :: nat
  by (simp add: drop_bit_eq_div)

lemma one_bit_test: "w AND 2 ^ n \<noteq> 0 \<longleftrightarrow> bit w n" if "n < 32" for w :: "32 word"
proof
  assume "w AND 2 ^ n \<noteq> 0"
  then obtain k where "bit (w AND 2 ^ n) k" by (auto simp: bit_eq_iff)
  then show "bit w n" by (auto simp: bit_simps)
next
  assume "bit w n"
  then have "bit (w AND 2 ^ n) n" using that by (simp add: bit_simps)
  then show "w AND 2 ^ n \<noteq> 0" by auto
qed

lemma bitset_room: "i < n \<Longrightarrow> i div 32 < ggml_bitset_size n"
  by (simp add: ggml_bitset_size_def drop_5)

lemma bitset_get: "i div 32 < length bs \<Longrightarrow> ggml_bitset_get bs i = Inr (bit_at bs i)"
  by (simp add: ggml_bitset_get_def drop_5 and_31 bit_at_def one_bit_test)

lemma bitset_set:
  assumes "i div 32 < length bs"
  obtains bs' where "ggml_bitset_set bs i = Inr bs'" "length bs' = length bs"
    "\<And>j. bit_at bs' j \<longleftrightarrow> j = i \<or> bit_at bs j"
proof
  let ?bs' = "bs[i div 32 := bs ! (i div 32) OR push_bit (i mod 32) 1]"
  show "ggml_bitset_set bs i = Inr ?bs'" using assms by (simp add: ggml_bitset_set_def drop_5 and_31)
  show "length ?bs' = length bs" by simp
  fix j
  have "j div 32 = i div 32 \<and> j mod 32 = i mod 32 \<longleftrightarrow> j = i" by (metis div_mult_mod_eq)
  then show "bit_at ?bs' j \<longleftrightarrow> j = i \<or> bit_at bs j"
    using assms by (cases "j div 32 = i div 32") (auto simp: bit_at_def bit_simps)
qed

subsection \<open>The table\<close>

record ggml_hash_set =
  hs_size :: nat
  hs_used :: "32 word list"
  hs_keys :: "ptr list"

definition ggml_hash :: "ptr \<Rightarrow> nat" where
  "ggml_hash p = unat (drop_bit 4 p)"

text \<open>\<open>GGML_HASHSET_FULL\<close> is \<open>None\<close>.\<close>

fun find_loop :: "nat \<Rightarrow> ggml_hash_set \<Rightarrow> ptr \<Rightarrow> nat \<Rightarrow> nat \<Rightarrow> nat option outcome" where
  "find_loop 0 hs key h i = Inl Diverged"
| "find_loop (Suc fuel) hs key h i =
     bnd (ggml_bitset_get (hs_used hs) i) (\<lambda>used.
     if \<not> used then Inr (Some i)
     else bnd (elem (hs_keys hs) i) (\<lambda>k.
       if k = key then Inr (Some i)
       else let i = (i + 1) mod hs_size hs
            in if i = h then Inr None else find_loop fuel hs key h i))"

definition ggml_hash_find :: "ggml_hash_set \<Rightarrow> ptr \<Rightarrow> nat option outcome" where
  "ggml_hash_find hs key =
     bnd (ensure (hs_size hs \<noteq> 0) Trapped) (\<lambda>_.
     let h = ggml_hash key mod hs_size hs in find_loop (hs_size hs) hs key h h)"

definition ggml_hash_contains :: "ggml_hash_set \<Rightarrow> ptr \<Rightarrow> bool outcome" where
  "ggml_hash_contains hs key =
     bnd (ggml_hash_find hs key) (\<lambda>r.
     case r of None \<Rightarrow> Inr False | Some i \<Rightarrow> ggml_bitset_get (hs_used hs) i)"

datatype probe = Added nat | Present nat

text \<open>The loop that \<open>ggml_hash_insert\<close> and \<open>ggml_hash_find_or_insert\<close> have in common.\<close>

fun insert_loop :: "nat \<Rightarrow> ggml_hash_set \<Rightarrow> ptr \<Rightarrow> nat \<Rightarrow> nat \<Rightarrow> (probe \<times> ggml_hash_set) outcome" where
  "insert_loop 0 hs key h i = Inl Diverged"
| "insert_loop (Suc fuel) hs key h i =
     bnd (ggml_bitset_get (hs_used hs) i) (\<lambda>used.
     if \<not> used then
       bnd (ggml_bitset_set (hs_used hs) i) (\<lambda>bs.
       bnd (ensure (i < length (hs_keys hs)) Undefined) (\<lambda>_.
       Inr (Added i, hs\<lparr>hs_used := bs, hs_keys := (hs_keys hs)[i := key]\<rparr>)))
     else bnd (elem (hs_keys hs) i) (\<lambda>k.
       if k = key then Inr (Present i, hs)
       else let i = (i + 1) mod hs_size hs
            in if i = h then Inl Aborted else insert_loop fuel hs key h i))"

definition probe_insert :: "ggml_hash_set \<Rightarrow> ptr \<Rightarrow> (probe \<times> ggml_hash_set) outcome" where
  "probe_insert hs key =
     bnd (ensure (hs_size hs \<noteq> 0) Trapped) (\<lambda>_.
     let h = ggml_hash key mod hs_size hs in insert_loop (hs_size hs) hs key h h)"

text \<open>\<open>GGML_HASHSET_ALREADY_EXISTS\<close> is \<open>None\<close>.\<close>

definition ggml_hash_insert :: "ggml_hash_set \<Rightarrow> ptr \<Rightarrow> (nat option \<times> ggml_hash_set) outcome" where
  "ggml_hash_insert hs key =
     bnd (probe_insert hs key) (\<lambda>(r, hs).
     Inr (case r of Added i \<Rightarrow> Some i | Present i \<Rightarrow> None, hs))"

definition ggml_hash_find_or_insert :: "ggml_hash_set \<Rightarrow> ptr \<Rightarrow> (nat \<times> ggml_hash_set) outcome" where
  "ggml_hash_find_or_insert hs key =
     bnd (probe_insert hs key) (\<lambda>(r, hs).
     Inr (case r of Added i \<Rightarrow> i | Present i \<Rightarrow> i, hs))"

definition ggml_hash_set_reset :: "ggml_hash_set \<Rightarrow> ggml_hash_set" where
  "ggml_hash_set_reset hs =
     hs\<lparr>hs_used := replicate (ggml_bitset_size (hs_size hs)) 0 @
          drop (ggml_bitset_size (hs_size hs)) (hs_used hs)\<rparr>"

subsection \<open>The size of a table\<close>

definition primes :: "nat list" where
  "primes = [2, 3, 5, 11, 17, 37, 67, 131, 257, 521, 1031,
     2053, 4099, 8209, 16411, 32771, 65537, 131101,
     262147, 524309, 1048583, 2097169, 4194319, 8388617,
     16777259, 33554467, 67108879, 134217757, 268435459,
     536870923, 1073741827, 2147483659]"

function bisect :: "nat \<Rightarrow> nat \<Rightarrow> nat \<Rightarrow> nat" where
  "bisect min_sz l r =
     (if l < r then
        let m = (l + r) div 2
        in if primes ! m < min_sz then bisect min_sz (m + 1) r else bisect min_sz l m
      else l)"
  by pat_completeness auto
termination by (relation "measure (\<lambda>(min_sz, l, r). r - l)") (auto simp: Let_def)

declare bisect.simps [simp del]

definition ggml_hash_size :: "nat \<Rightarrow> nat" where
  "ggml_hash_size min_sz =
     (let l = bisect min_sz 0 (length primes)
      in if l < length primes then primes ! l else min_sz OR 1)"

text \<open>\<open>GGML_MALLOC\<close> leaves the keys uninitialised: \<open>garbage\<close> is what they hold.\<close>

definition ggml_hash_set_new :: "ptr list \<Rightarrow> nat \<Rightarrow> ggml_hash_set" where
  "ggml_hash_set_new garbage n =
     (let sz = ggml_hash_size n
      in \<lparr>hs_size = sz, hs_used = replicate (ggml_bitset_size sz) 0,
           hs_keys = take sz (garbage @ replicate sz 0)\<rparr>)"

subsection \<open>What a table holds\<close>

definition slot :: "ggml_hash_set \<Rightarrow> nat \<Rightarrow> ptr option" where
  "slot hs i = (if bit_at (hs_used hs) i then Some (hs_keys hs ! i) else None)"

definition keys_of :: "ggml_hash_set \<Rightarrow> ptr set" where
  "keys_of hs = {k. \<exists>i < hs_size hs. slot hs i = Some k}"

text \<open>The \<open>d\<close>th slot that is probed for a key.\<close>

definition probe_at :: "ggml_hash_set \<Rightarrow> ptr \<Rightarrow> nat \<Rightarrow> nat" where
  "probe_at hs key d = (ggml_hash key + d) mod hs_size hs"

definition hs_shape :: "ggml_hash_set \<Rightarrow> bool" where
  "hs_shape hs \<longleftrightarrow> 0 < hs_size hs \<and> length (hs_keys hs) = hs_size hs \<and>
     ggml_bitset_size (hs_size hs) \<le> length (hs_used hs)"

text \<open>
  The invariant: a key stands in one slot only, and all slots probed before it are in use.
\<close>

definition hs_inv :: "ggml_hash_set \<Rightarrow> bool" where
  "hs_inv hs \<longleftrightarrow> hs_shape hs \<and>
     (\<forall>i < hs_size hs. \<forall>j < hs_size hs. \<forall>k. slot hs i = Some k \<longrightarrow> slot hs j = Some k \<longrightarrow> i = j) \<and>
     (\<forall>k. \<forall>d < hs_size hs. slot hs (probe_at hs k d) = Some k \<longrightarrow>
        (\<forall>e < d. slot hs (probe_at hs k e) \<noteq> None))"

lemma probe_at_less [simp]: "hs_shape hs \<Longrightarrow> probe_at hs k d < hs_size hs"
  by (simp add: probe_at_def hs_shape_def)

lemma probe_at_onto:
  assumes "i < hs_size hs"
  obtains d where "d < hs_size hs" "probe_at hs k d = i"
proof
  let ?n = "hs_size hs" and ?h = "ggml_hash k mod hs_size hs"
  let ?d = "(i + ?n - ?h) mod ?n"
  have h: "?h < ?n" using assms by simp
  show "?d < ?n" using assms by simp
  have "probe_at hs k ?d = (?h + (i + ?n - ?h)) mod ?n" by (simp add: probe_at_def mod_simps)
  also have "?h + (i + ?n - ?h) = i + ?n" using h by simp
  finally show "probe_at hs k ?d = i" using assms by simp
qed

lemma probe_at_inj:
  assumes "d < hs_size hs" "e < hs_size hs" "probe_at hs k d = probe_at hs k e"
  shows "d = e"
proof -
  have "x \<le> y \<Longrightarrow> y < hs_size hs \<Longrightarrow> probe_at hs k x = probe_at hs k y \<Longrightarrow> x = y" for x y
    using mod_eq_dvd_iff_nat [of "ggml_hash k + x" "ggml_hash k + y" "hs_size hs"]
      nat_dvd_not_less [of "y - x" "hs_size hs"]
    by (cases "x = y") (auto simp: probe_at_def)
  then show ?thesis using assms by (metis nat_le_linear)
qed

lemma hs_get: "hs_shape hs \<Longrightarrow> i < hs_size hs \<Longrightarrow> ggml_bitset_get (hs_used hs) i = Inr (slot hs i \<noteq> None)"
  using bitset_get [of i "hs_used hs"] bitset_room [of i "hs_size hs"]
  by (auto simp: slot_def hs_shape_def)

lemma hs_key: "hs_shape hs \<Longrightarrow> i < hs_size hs \<Longrightarrow> slot hs i = Some k \<Longrightarrow> elem (hs_keys hs) i = Inr k"
  by (auto simp: slot_def hs_shape_def split: if_splits)

lemma probe_at_next: "Suc (probe_at hs k d) mod hs_size hs = probe_at hs k (Suc d)"
  by (simp add: probe_at_def mod_simps)

lemma probe_at_0: "ggml_hash k mod hs_size hs = probe_at hs k 0"
  by (simp add: probe_at_def)

lemma probe_at_home:
  "hs_shape hs \<Longrightarrow> d < hs_size hs \<Longrightarrow> probe_at hs k (Suc d) = probe_at hs k 0 \<longleftrightarrow> Suc d = hs_size hs"
proof
  assume "hs_shape hs" "d < hs_size hs" "probe_at hs k (Suc d) = probe_at hs k 0"
  then show "Suc d = hs_size hs"
    using probe_at_inj [of "Suc d" hs 0 k] by (cases "Suc d < hs_size hs") (auto simp: hs_shape_def)
next
  assume "Suc d = hs_size hs"
  then show "probe_at hs k (Suc d) = probe_at hs k 0" by (simp add: probe_at_def)
qed

text \<open>
  Where a probe ends: after \<open>d\<close> slots that hold other keys, on a slot that is free or holds the
  key; or nowhere, when all slots hold other keys.
\<close>

definition probe_stops :: "ggml_hash_set \<Rightarrow> ptr \<Rightarrow> nat \<Rightarrow> bool" where
  "probe_stops hs key d \<longleftrightarrow> d < hs_size hs \<and> slot hs (probe_at hs key d) \<in> {None, Some key} \<and>
     (\<forall>e < d. slot hs (probe_at hs key e) \<notin> {None, Some key})"

definition probe_fails :: "ggml_hash_set \<Rightarrow> ptr \<Rightarrow> bool" where
  "probe_fails hs key \<longleftrightarrow> (\<forall>e < hs_size hs. slot hs (probe_at hs key e) \<notin> {None, Some key})"

lemma probe_cases:
  obtains (stops) d where "probe_stops hs key d" | (fails) "probe_fails hs key"
proof (cases "probe_fails hs key")
  case False
  define P where "P e \<longleftrightarrow> e < hs_size hs \<and> slot hs (probe_at hs key e) \<in> {None, Some key}" for e
  from False have "\<exists>e. P e" by (auto simp: probe_fails_def P_def)
  then have least: "P (LEAST e. P e)" by (rule LeastI_ex)
  have "\<not> P e" if "e < (LEAST e. P e)" for e using that by (rule not_less_Least)
  then have "slot hs (probe_at hs key e) \<notin> {None, Some key}" if "e < (LEAST e. P e)" for e
    using that least unfolding P_def by (meson less_trans)
  then have "probe_stops hs key (LEAST e. P e)"
    using least unfolding probe_stops_def P_def by blast
  then show thesis by (rule stops)
qed (rule fails)

lemma find_loop_result:
  assumes "hs_shape hs" "d < hs_size hs" "\<forall>e < d. slot hs (probe_at hs key e) \<notin> {None, Some key}"
  shows "\<exists>r. find_loop (hs_size hs - d) hs key (probe_at hs key 0) (probe_at hs key d) = Inr r \<and>
    (case r of None \<Rightarrow> probe_fails hs key | Some i \<Rightarrow> \<exists>e. probe_stops hs key e \<and> i = probe_at hs key e)"
  using assms(2,3)
proof (induction "hs_size hs - d" arbitrary: d)
  case 0
  then show ?case by simp
next
  case (Suc n)
  let ?i = "probe_at hs key d"
  note simps = Suc.hyps(2) [symmetric] hs_get [OF assms(1)] probe_at_less [OF assms(1)]
  consider "slot hs ?i \<in> {None, Some key}" | k where "slot hs ?i = Some k" "k \<noteq> key"
    by (cases "slot hs ?i") auto
  then show ?case
  proof cases
    case 1
    then have "probe_stops hs key d" using Suc.prems by (simp add: probe_stops_def)
    moreover have "find_loop (hs_size hs - d) hs key (probe_at hs key 0) ?i = Inr (Some ?i)"
      using 1 hs_key [OF assms(1)] by (auto simp: simps)
    ultimately show ?thesis by auto
  next
    case 2
    have before: "\<forall>e < Suc d. slot hs (probe_at hs key e) \<notin> {None, Some key}"
      using 2 Suc.prems(2) by (auto simp: less_Suc_eq)
    have step: "find_loop (hs_size hs - d) hs key (probe_at hs key 0) ?i =
      (if Suc d = hs_size hs then Inr None else find_loop n hs key (probe_at hs key 0) (probe_at hs key (Suc d)))"
      using 2 hs_key [OF assms(1)] probe_at_home [OF assms(1) Suc.prems(1)]
      by (simp add: simps probe_at_next Let_def)
    show ?thesis
    proof (cases "Suc d = hs_size hs")
      case True
      then show ?thesis using step before by (simp add: probe_fails_def)
    next
      case False
      moreover have "n = hs_size hs - Suc d" using Suc.hyps(2) by simp
      ultimately show ?thesis using step Suc.hyps(1) [of "Suc d"] before Suc.prems(1) by simp
    qed
  qed
qed

lemma hash_find_result:
  assumes "hs_shape hs"
  shows "\<exists>r. ggml_hash_find hs key = Inr r \<and>
    (case r of None \<Rightarrow> probe_fails hs key | Some i \<Rightarrow> \<exists>e. probe_stops hs key e \<and> i = probe_at hs key e)"
  using find_loop_result [OF assms, of 0 key] assms
  by (simp add: ggml_hash_find_def hs_shape_def Let_def probe_at_0)

text \<open>The loop of an insertion ends where that of a search ends.\<close>

definition store_key :: "ggml_hash_set \<Rightarrow> ptr \<Rightarrow> nat \<Rightarrow> (probe \<times> ggml_hash_set) outcome" where
  "store_key hs key i =
     (if slot hs i \<noteq> None then Inr (Present i, hs)
      else bnd (ggml_bitset_set (hs_used hs) i) (\<lambda>bs.
        Inr (Added i, hs\<lparr>hs_used := bs, hs_keys := (hs_keys hs)[i := key]\<rparr>)))"

lemma insert_loop_find:
  assumes "hs_shape hs" "i < hs_size hs"
  shows "insert_loop fuel hs key h i =
    bnd (find_loop fuel hs key h i) (\<lambda>r. case r of None \<Rightarrow> Inl Aborted | Some j \<Rightarrow> store_key hs key j)"
  using assms(2)
proof (induction fuel arbitrary: i)
  case 0
  then show ?case by simp
next
  case (Suc n)
  have next_in: "Suc i mod hs_size hs < hs_size hs" using assms(1) by (simp add: hs_shape_def)
  show ?case
  proof (cases "slot hs i")
    case None
    have "i < length (hs_keys hs)" using assms(1) Suc.prems by (simp add: hs_shape_def)
    then show ?thesis using hs_get [OF assms(1) Suc.prems] None by (simp add: store_key_def)
  next
    case (Some k)
    then show ?thesis
      using hs_get [OF assms(1) Suc.prems] hs_key [OF assms(1) Suc.prems Some] Suc.IH [OF next_in]
      by (simp add: Let_def store_key_def)
  qed
qed

lemma probe_insert_find:
  assumes "hs_shape hs"
  shows "probe_insert hs key =
    bnd (ggml_hash_find hs key) (\<lambda>r. case r of None \<Rightarrow> Inl Aborted | Some j \<Rightarrow> store_key hs key j)"
  using insert_loop_find [OF assms, of "probe_at hs key 0"] assms
  by (simp add: probe_insert_def ggml_hash_find_def Let_def probe_at_0 hs_shape_def)

subsection \<open>A search under the invariant\<close>

lemma hs_inv_shape: "hs_inv hs \<Longrightarrow> hs_shape hs"
  by (simp add: hs_inv_def)

lemma key_at_probe:
  assumes "hs_inv hs" "key \<in> keys_of hs"
  obtains d where "probe_stops hs key d" "slot hs (probe_at hs key d) = Some key"
proof -
  from assms(2) obtain i where i: "i < hs_size hs" "slot hs i = Some key" by (auto simp: keys_of_def)
  obtain d where d: "d < hs_size hs" "probe_at hs key d = i" using probe_at_onto [OF i(1)] .
  have used: "\<forall>e < d. slot hs (probe_at hs key e) \<noteq> None" using assms(1) d i(2) by (simp add: hs_inv_def)
  have "slot hs (probe_at hs key e) \<noteq> Some key" if "e < d" for e
  proof
    assume "slot hs (probe_at hs key e) = Some key"
    then have "probe_at hs key e = probe_at hs key d"
      using assms(1) d i hs_inv_shape [OF assms(1)] unfolding hs_inv_def by (metis probe_at_less)
    then show False using probe_at_inj [of e hs d key] that d(1) by simp
  qed
  with used d i show thesis by (intro that [of d]) (auto simp: probe_stops_def)
qed

lemma key_absent:
  assumes "hs_inv hs" "key \<notin> keys_of hs"
  shows "slot hs (probe_at hs key d) \<noteq> Some key"
  using assms hs_inv_shape [OF assms(1)] probe_at_less by (auto simp: keys_of_def)

lemma probe_stops_unique: "probe_stops hs key d \<Longrightarrow> probe_stops hs key e \<Longrightarrow> d = e"
  by (metis linorder_neqE_nat probe_stops_def)

lemma hash_find_key:
  assumes "hs_inv hs" "key \<in> keys_of hs"
  obtains i where "ggml_hash_find hs key = Inr (Some i)" "i < hs_size hs" "slot hs i = Some key"
proof -
  obtain d where d: "probe_stops hs key d" "slot hs (probe_at hs key d) = Some key"
    using key_at_probe [OF assms] .
  obtain r where r: "ggml_hash_find hs key = Inr r"
    "case r of None \<Rightarrow> probe_fails hs key | Some i \<Rightarrow> \<exists>e. probe_stops hs key e \<and> i = probe_at hs key e"
    using hash_find_result [OF hs_inv_shape [OF assms(1)]] by blast
  have "r \<noteq> None" using r(2) d by (cases r) (auto simp: probe_fails_def probe_stops_def)
  then have "r = Some (probe_at hs key d)" using r(2) probe_stops_unique [OF d(1)] by auto
  with r d hs_inv_shape [OF assms(1)] show thesis by (intro that [of "probe_at hs key d"]) auto
qed

lemma hash_find_absent:
  assumes "hs_inv hs" "key \<notin> keys_of hs"
  shows "(\<exists>d. ggml_hash_find hs key = Inr (Some (probe_at hs key d)) \<and> d < hs_size hs \<and>
      slot hs (probe_at hs key d) = None \<and> (\<forall>e < d. slot hs (probe_at hs key e) \<noteq> None)) \<or>
    ggml_hash_find hs key = Inr None \<and> (\<forall>i < hs_size hs. slot hs i \<noteq> None)"
proof -
  obtain r where r: "ggml_hash_find hs key = Inr r"
    "case r of None \<Rightarrow> probe_fails hs key | Some i \<Rightarrow> \<exists>e. probe_stops hs key e \<and> i = probe_at hs key e"
    using hash_find_result [OF hs_inv_shape [OF assms(1)]] by blast
  show ?thesis
  proof (cases r)
    case None
    have "slot hs i \<noteq> None" if i: "i < hs_size hs" for i
    proof -
      obtain e where "e < hs_size hs" "probe_at hs key e = i" using probe_at_onto [OF i, of key] .
      then show ?thesis using r(2) None by (auto simp: probe_fails_def)
    qed
    then show ?thesis using r(1) None by simp
  next
    case (Some i)
    then show ?thesis using r key_absent [OF assms] by (auto simp: probe_stops_def)
  qed
qed

lemma all_used_full:
  assumes "hs_inv hs" "\<forall>i < hs_size hs. slot hs i \<noteq> None"
  shows "card (keys_of hs) = hs_size hs"
proof -
  let ?key = "\<lambda>i. the (slot hs i)"
  have "keys_of hs = ?key ` {..<hs_size hs}" using assms(2) by (force simp: keys_of_def)
  moreover have "inj_on ?key {..<hs_size hs}"
    using assms unfolding inj_on_def hs_inv_def by (metis lessThan_iff option.collapse)
  ultimately show ?thesis by (simp add: card_image)
qed

lemma keys_finite: "finite (keys_of hs)" and keys_card: "hs_inv hs \<Longrightarrow> card (keys_of hs) \<le> hs_size hs"
proof -
  have sub: "keys_of hs \<subseteq> (\<lambda>i. the (slot hs i)) ` {..<hs_size hs}" by (force simp: keys_of_def)
  then show "finite (keys_of hs)" using finite_surj by blast
  have "card (keys_of hs) \<le> card ((\<lambda>i. the (slot hs i)) ` {..<hs_size hs})"
    using sub by (intro card_mono) auto
  also have "\<dots> \<le> hs_size hs" using card_image_le [of "{..<hs_size hs}"] by auto
  finally show "hs_inv hs \<Longrightarrow> card (keys_of hs) \<le> hs_size hs" .
qed

subsection \<open>Insertion\<close>

text \<open>A state whose slot \<open>i\<close> has taken a key, all others being as before.\<close>

definition takes_key :: "ggml_hash_set \<Rightarrow> nat \<Rightarrow> ptr \<Rightarrow> ggml_hash_set \<Rightarrow> bool" where
  "takes_key hs i key hs' \<longleftrightarrow> hs_size hs' = hs_size hs \<and> i < hs_size hs \<and> slot hs i = None \<and>
     slot hs' = (slot hs)(i := Some key)"

lemma store_key_free:
  assumes "hs_shape hs" "i < hs_size hs" "slot hs i = None"
  obtains hs' where "store_key hs key i = Inr (Added i, hs')" "takes_key hs i key hs'" "hs_shape hs'"
proof -
  have "i div 32 < length (hs_used hs)"
    using assms(1,2) bitset_room [of i "hs_size hs"] by (simp add: hs_shape_def)
  then obtain bs where bs: "ggml_bitset_set (hs_used hs) i = Inr bs" "length bs = length (hs_used hs)"
    "\<And>j. bit_at bs j \<longleftrightarrow> j = i \<or> bit_at (hs_used hs) j" using bitset_set by blast
  let ?hs' = "hs\<lparr>hs_used := bs, hs_keys := (hs_keys hs)[i := key]\<rparr>"
  have "i < length (hs_keys hs)" using assms(1,2) by (simp add: hs_shape_def)
  then have "slot ?hs' = (slot hs)(i := Some key)" using bs(3) by (auto simp: slot_def fun_eq_iff)
  then have "takes_key hs i key ?hs'" using assms(2,3) by (simp add: takes_key_def)
  moreover have "hs_shape ?hs'" using assms(1) bs(2) by (simp add: hs_shape_def)
  moreover have "store_key hs key i = Inr (Added i, ?hs')" using assms(3) bs(1) by (simp add: store_key_def)
  ultimately show thesis by (rule that [rotated 1])
qed

lemma takes_key_keys: "takes_key hs i key hs' \<Longrightarrow> keys_of hs' = insert key (keys_of hs)"
  unfolding takes_key_def keys_of_def by (auto split: if_splits) (metis option.discI)

lemma takes_key_inv:
  assumes "hs_inv hs" "takes_key hs (probe_at hs key d) key hs'" "hs_shape hs'" "d < hs_size hs"
    and "key \<notin> keys_of hs" "\<forall>e < d. slot hs (probe_at hs key e) \<noteq> None"
  shows "hs_inv hs'"
  unfolding hs_inv_def
proof (intro conjI allI impI assms(3))
  have sz: "hs_size hs' = hs_size hs" and slot': "slot hs' = (slot hs)(probe_at hs key d := Some key)"
    using assms(2) by (simp_all add: takes_key_def)
  have at': "probe_at hs' k e = probe_at hs k e" for k e by (simp add: probe_at_def sz)
  show "i = j" if "i < hs_size hs'" "j < hs_size hs'" "slot hs' i = Some k" "slot hs' j = Some k" for i j k
    using that assms(1,5) unfolding sz slot' hs_inv_def keys_of_def
    by (metis (mono_tags, lifting) fun_upd_apply mem_Collect_eq option.inject)
  show "slot hs' (probe_at hs' k e) \<noteq> None"
    if "x < hs_size hs'" "slot hs' (probe_at hs' k x) = Some k" "e < x" for k x e
  proof (cases "probe_at hs k x = probe_at hs key d")
    case True
    then have "k = key" using that(2) by (simp add: at' slot')
    then have "x = d" using True probe_at_inj [of x hs d key] that(1) assms(4) sz by simp
    then show ?thesis using that(3) assms(6) \<open>k = key\<close> by (simp add: at' slot')
  next
    case False
    then have "slot hs (probe_at hs k x) = Some k" using that(2) by (simp add: at' slot')
    then have "slot hs (probe_at hs k e) \<noteq> None"
      using assms(1) that(1,3) sz unfolding hs_inv_def by auto
    then show ?thesis by (simp add: at' slot')
  qed
qed

text \<open>A search for an absent key finds the slot where it can be stored.\<close>

lemma hash_find_room:
  assumes "hs_inv hs" "key \<notin> keys_of hs" "card (keys_of hs) < hs_size hs"
  obtains i bs where "ggml_hash_find hs key = Inr (Some i)" "i < hs_size hs" "slot hs i = None"
    "ggml_bitset_set (hs_used hs) i = Inr bs"
    "takes_key hs i key (hs\<lparr>hs_used := bs, hs_keys := (hs_keys hs)[i := key]\<rparr>)"
    "hs_inv (hs\<lparr>hs_used := bs, hs_keys := (hs_keys hs)[i := key]\<rparr>)"
proof -
  have shape: "hs_shape hs" using assms(1) by (rule hs_inv_shape)
  have "\<not> (\<forall>i < hs_size hs. slot hs i \<noteq> None)" using all_used_full assms(1,3) by fastforce
  then obtain d where d: "ggml_hash_find hs key = Inr (Some (probe_at hs key d))" "d < hs_size hs"
    "slot hs (probe_at hs key d) = None" "\<forall>e < d. slot hs (probe_at hs key e) \<noteq> None"
    using hash_find_absent [OF assms(1,2)] by blast
  obtain hs' where hs': "store_key hs key (probe_at hs key d) = Inr (Added (probe_at hs key d), hs')"
    "takes_key hs (probe_at hs key d) key hs'" "hs_shape hs'"
    using store_key_free [OF shape _ d(3)] shape by auto
  then obtain bs where bs: "ggml_bitset_set (hs_used hs) (probe_at hs key d) = Inr bs"
    "hs' = hs\<lparr>hs_used := bs, hs_keys := (hs_keys hs)[probe_at hs key d := key]\<rparr>"
    using d(3) by (auto simp: store_key_def bnd_eq_Inr)
  show thesis
    using d bs hs' shape takes_key_inv [OF assms(1) hs'(2,3) d(2) assms(2) d(4)] by (intro that) auto
qed

lemma probe_insert_present:
  assumes "hs_inv hs" "key \<in> keys_of hs"
  obtains i where "probe_insert hs key = Inr (Present i, hs)" "i < hs_size hs" "slot hs i = Some key"
proof -
  obtain i where "ggml_hash_find hs key = Inr (Some i)" "i < hs_size hs" "slot hs i = Some key"
    using hash_find_key [OF assms] .
  then show thesis
    by (intro that [of i]) (simp_all add: probe_insert_find hs_inv_shape [OF assms(1)] store_key_def)
qed

lemma probe_insert_absent:
  assumes "hs_inv hs" "key \<notin> keys_of hs" "card (keys_of hs) < hs_size hs"
  obtains i hs' where "probe_insert hs key = Inr (Added i, hs')" "takes_key hs i key hs'" "hs_inv hs'"
proof -
  obtain i bs where "ggml_hash_find hs key = Inr (Some i)" "slot hs i = None"
    "ggml_bitset_set (hs_used hs) i = Inr bs"
    "takes_key hs i key (hs\<lparr>hs_used := bs, hs_keys := (hs_keys hs)[i := key]\<rparr>)"
    "hs_inv (hs\<lparr>hs_used := bs, hs_keys := (hs_keys hs)[i := key]\<rparr>)"
    using hash_find_room [OF assms] .
  then show thesis
    by (intro that) (simp_all add: probe_insert_find [OF hs_inv_shape [OF assms(1)]] store_key_def)
qed

lemma probe_insert_full:
  assumes "hs_inv hs" "key \<notin> keys_of hs" "card (keys_of hs) = hs_size hs"
  shows "probe_insert hs key = Inl Aborted"
proof -
  have "slot hs i \<noteq> None" if "i < hs_size hs" for i
  proof
    assume free: "slot hs i = None"
    have "keys_of hs \<subseteq> (\<lambda>j. the (slot hs j)) ` ({..<hs_size hs} - {i})"
      using free by (force simp: keys_of_def)
    then have "card (keys_of hs) \<le> card ((\<lambda>j. the (slot hs j)) ` ({..<hs_size hs} - {i}))"
      by (intro card_mono) auto
    also have "\<dots> \<le> card ({..<hs_size hs} - {i})" by (intro card_image_le) auto
    also have "\<dots> < hs_size hs" using that by (simp add: card_Diff_singleton)
    finally show False using assms(3) by simp
  qed
  then have "ggml_hash_find hs key = Inr None" using hash_find_absent [OF assms(1,2)] by (metis probe_at_less hs_inv_shape [OF assms(1)])
  then show ?thesis by (simp add: probe_insert_find hs_inv_shape [OF assms(1)])
qed

subsection \<open>The table as a set\<close>

lemma reset_empty:
  assumes "0 < hs_size hs" "length (hs_keys hs) = hs_size hs" "ggml_bitset_size (hs_size hs) \<le> length (hs_used hs)"
  shows "hs_inv (ggml_hash_set_reset hs)" "keys_of (ggml_hash_set_reset hs) = {}"
    "hs_size (ggml_hash_set_reset hs) = hs_size hs"
proof -
  let ?hs' = "ggml_hash_set_reset hs"
  show size: "hs_size ?hs' = hs_size hs" by (simp add: ggml_hash_set_reset_def)
  have free: "slot ?hs' i = None" if "i < hs_size hs" for i
    using bitset_room [OF that]
    by (simp add: slot_def bit_at_def ggml_hash_set_reset_def nth_append)
  have shape: "hs_shape ?hs'" using assms by (simp add: hs_shape_def ggml_hash_set_reset_def)
  have "slot ?hs' (probe_at ?hs' k d) = None" for k d using free probe_at_less [OF shape] size by simp
  then show "hs_inv ?hs'" using free shape size by (simp add: hs_inv_def)
  show "keys_of ?hs' = {}" using free size by (auto simp: keys_of_def)
qed

lemma new_empty:
  "hs_inv (ggml_hash_set_new garbage n)" "keys_of (ggml_hash_set_new garbage n) = {}"
  "hs_size (ggml_hash_set_new garbage n) = ggml_hash_size n" if "0 < ggml_hash_size n"
proof -
  let ?hs = "ggml_hash_set_new garbage n"
  have "ggml_hash_set_reset ?hs = ?hs" by (simp add: ggml_hash_set_reset_def ggml_hash_set_new_def Let_def)
  moreover have "0 < hs_size ?hs" "length (hs_keys ?hs) = hs_size ?hs"
    "ggml_bitset_size (hs_size ?hs) \<le> length (hs_used ?hs)"
    using that by (simp_all add: ggml_hash_set_new_def Let_def)
  ultimately show "hs_inv ?hs" "keys_of ?hs = {}" "hs_size ?hs = ggml_hash_size n"
    using reset_empty [of ?hs] by (simp_all add: ggml_hash_set_new_def Let_def)
qed

lemma bisect_props:
  assumes "sorted ps" "l \<le> r" "r \<le> length ps" "ps = primes"
    and "\<forall>i < l. ps ! i < n" "\<forall>i. r \<le> i \<and> i < length ps \<longrightarrow> n \<le> ps ! i"
  shows "bisect n l r \<le> r \<and> (\<forall>i < bisect n l r. ps ! i < n) \<and>
    (\<forall>i. bisect n l r \<le> i \<and> i < length ps \<longrightarrow> n \<le> ps ! i)"
  using assms
proof (induction n l r rule: bisect.induct)
  case (1 n l r)
  show ?case
  proof (cases "l < r")
    case False
    then have "bisect n l r = l" by (simp add: bisect.simps [of n l r])
    moreover have "l = r" using False "1.prems"(2) by simp
    ultimately show ?thesis using "1.prems" by simp
  next
    case True
    let ?m = "(l + r) div 2"
    have m: "l \<le> ?m" "?m < r" using True by auto
    have mono: "ps ! i \<le> ps ! j" if "i \<le> j" "j < length ps" for i j
      using "1.prems"(1) that by (rule sorted_nth_mono)
    show ?thesis
    proof (cases "primes ! ?m < n")
      case less: True
      have before: "\<forall>i < ?m + 1. ps ! i < n"
      proof (intro allI impI)
        fix i assume "i < ?m + 1"
        then show "ps ! i < n" using less mono [of i ?m] m "1.prems"(3,4) by simp
      qed
      have "bisect n l r = bisect n (?m + 1) r" using True less by (simp add: bisect.simps [of n l r] Let_def)
      moreover have "?m + 1 \<le> r" using m by simp
      ultimately show ?thesis
        using "1.IH"(1) [OF True refl less "1.prems"(1) _ "1.prems"(3,4) before "1.prems"(6)] by simp
    next
      case ge: False
      have after: "\<forall>i. ?m \<le> i \<and> i < length ps \<longrightarrow> n \<le> ps ! i"
        using ge mono [of ?m] "1.prems"(4) by fastforce
      have "bisect n l r = bisect n l ?m" using True ge by (simp add: bisect.simps [of n l r] Let_def)
      moreover have "?m \<le> length ps" using m "1.prems"(3) by simp
      ultimately show ?thesis
        using "1.IH"(2) [OF True refl ge "1.prems"(1) m(1) _ "1.prems"(4,5) after] m(2) by simp
    qed
  qed
qed

text \<open>The size of a table is positive, at least what is asked for, and the smallest entry of the list of primes that is.\<close>

lemma hash_size_enough:
  "n \<le> ggml_hash_size n" "0 < ggml_hash_size n"
  "p \<in> set primes \<Longrightarrow> n \<le> p \<Longrightarrow> ggml_hash_size n \<le> p"
proof -
  let ?l = "bisect n 0 (length primes)"
  have s: "sorted primes" by (simp add: primes_def)
  have b: "?l \<le> length primes" "\<forall>i < ?l. primes ! i < n" "\<forall>i. ?l \<le> i \<and> i < length primes \<longrightarrow> n \<le> primes ! i"
    using bisect_props [OF s, of 0 "length primes" n] by auto
  have pos: "\<forall>p \<in> set primes. 0 < p" by (simp add: primes_def)
  have "n OR 1 = n + of_bool (even n)" by (rule or_one_eq)
  then have odd: "n \<le> n OR 1" "0 < n OR 1" by (cases "even n"; auto intro: gr0I)+
  show "n \<le> ggml_hash_size n" "0 < ggml_hash_size n"
    using b pos odd by (auto simp: ggml_hash_size_def Let_def)
  assume p: "p \<in> set primes" "n \<le> p"
  then obtain i where i: "i < length primes" "primes ! i = p" by (auto simp: in_set_conv_nth)
  then have "?l \<le> i" using b(2) p(2) by (metis not_less)
  then show "ggml_hash_size n \<le> p"
    using i sorted_nth_mono [OF s, of ?l i] by (auto simp: ggml_hash_size_def Let_def)
qed

lemma hash_set_operations:
  assumes "hs_inv hs"
  shows "ggml_hash_contains hs key = Inr (key \<in> keys_of hs)"
    and "key \<in> keys_of hs \<Longrightarrow> ggml_hash_insert hs key = Inr (None, hs) \<and>
      (\<exists>i. ggml_hash_find_or_insert hs key = Inr (i, hs) \<and> ggml_hash_find hs key = Inr (Some i) \<and> slot hs i = Some key)"
    and "key \<notin> keys_of hs \<Longrightarrow> card (keys_of hs) < hs_size hs \<Longrightarrow>
      (\<exists>i hs'. ggml_hash_insert hs key = Inr (Some i, hs') \<and> ggml_hash_find_or_insert hs key = Inr (i, hs') \<and>
        hs_inv hs' \<and> keys_of hs' = insert key (keys_of hs) \<and> slot hs i = None \<and> slot hs' = (slot hs)(i := Some key))"
    and "key \<notin> keys_of hs \<Longrightarrow> card (keys_of hs) = hs_size hs \<Longrightarrow>
      ggml_hash_insert hs key = Inl Aborted \<and> ggml_hash_find_or_insert hs key = Inl Aborted"
proof -
  have shape: "hs_shape hs" using assms by (rule hs_inv_shape)
  show "ggml_hash_contains hs key = Inr (key \<in> keys_of hs)"
  proof (cases "key \<in> keys_of hs")
    case True
    obtain i where "ggml_hash_find hs key = Inr (Some i)" "i < hs_size hs" "slot hs i = Some key"
      using hash_find_key [OF assms True] .
    then show ?thesis using True hs_get [OF shape] by (simp add: ggml_hash_contains_def)
  next
    case False
    then show ?thesis
      using hash_find_absent [OF assms False] hs_get [OF shape] shape
      by (auto simp: ggml_hash_contains_def)
  qed
  show "ggml_hash_insert hs key = Inr (None, hs) \<and>
      (\<exists>i. ggml_hash_find_or_insert hs key = Inr (i, hs) \<and> ggml_hash_find hs key = Inr (Some i) \<and> slot hs i = Some key)"
    if key: "key \<in> keys_of hs"
  proof -
    obtain i where "ggml_hash_find hs key = Inr (Some i)" "i < hs_size hs" "slot hs i = Some key"
      using hash_find_key [OF assms key] .
    then show ?thesis
      by (simp add: ggml_hash_insert_def ggml_hash_find_or_insert_def probe_insert_find [OF shape] store_key_def)
  qed
  show "\<exists>i hs'. ggml_hash_insert hs key = Inr (Some i, hs') \<and> ggml_hash_find_or_insert hs key = Inr (i, hs') \<and>
      hs_inv hs' \<and> keys_of hs' = insert key (keys_of hs) \<and> slot hs i = None \<and> slot hs' = (slot hs)(i := Some key)"
    if room: "key \<notin> keys_of hs" "card (keys_of hs) < hs_size hs"
  proof -
    obtain i hs' where ins: "probe_insert hs key = Inr (Added i, hs')" "takes_key hs i key hs'" "hs_inv hs'"
      using probe_insert_absent [OF assms room] .
    have "keys_of hs' = insert key (keys_of hs)" using ins(2) by (rule takes_key_keys)
    moreover have "slot hs i = None" "slot hs' = (slot hs)(i := Some key)"
      using ins(2) by (simp_all add: takes_key_def)
    ultimately show ?thesis using ins by (simp add: ggml_hash_insert_def ggml_hash_find_or_insert_def)
  qed
  show "ggml_hash_insert hs key = Inl Aborted \<and> ggml_hash_find_or_insert hs key = Inl Aborted"
    if "key \<notin> keys_of hs" "card (keys_of hs) = hs_size hs"
    using probe_insert_full [OF assms that] by (simp add: ggml_hash_insert_def ggml_hash_find_or_insert_def)
qed

text \<open>
  C33. The hash set implements a set: a search answers membership, an insertion adds its key in a
  free slot without moving any other key, tells when the key is there already, and aborts only
  when the table is full.  The slot of a key that is returned once is returned ever after.
\<close>

theorem hash_set_refines_set:
  assumes "hs_inv hs"
  shows "ggml_hash_contains hs key = Inr (key \<in> keys_of hs) \<and>
    (if key \<in> keys_of hs then
       ggml_hash_insert hs key = Inr (None, hs) \<and>
       (\<exists>i. ggml_hash_find_or_insert hs key = Inr (i, hs) \<and> ggml_hash_find hs key = Inr (Some i) \<and> slot hs i = Some key)
     else if card (keys_of hs) < hs_size hs then
       \<exists>i hs'. ggml_hash_insert hs key = Inr (Some i, hs') \<and> ggml_hash_find_or_insert hs key = Inr (i, hs') \<and>
         hs_inv hs' \<and> keys_of hs' = insert key (keys_of hs) \<and> slot hs i = None \<and> slot hs' = (slot hs)(i := Some key)
     else ggml_hash_insert hs key = Inl Aborted \<and> ggml_hash_find_or_insert hs key = Inl Aborted)"
proof -
  note ops = hash_set_operations [OF assms, of key]
  have "\<not> card (keys_of hs) < hs_size hs \<Longrightarrow> card (keys_of hs) = hs_size hs" using keys_card [OF assms] by simp
  then show ?thesis using ops by (cases "key \<in> keys_of hs") simp_all
qed

lemma hash_set_refines_set_witness:
  "ggml_hash_contains (ggml_hash_set_new [] 3) 16 = Inr (16 \<in> keys_of (ggml_hash_set_new [] 3))"
  by (rule hash_set_refines_set [THEN conjunct1]) (simp add: new_empty hash_size_enough)

end
