(* ===== verification/Graph.thy ===== *)
theory Graph
  imports Hash_Set Gguf_Types "HOL-Library.Multiset"
begin

text \<open>
  Computation graphs: the part of \<open>src/ggml.c\<close> that collects the tensors a result depends on, in an
  order in which they can be computed, counting the uses of each.  Tensors live at addresses of a
  heap; the builder changes no field of a tensor except its name, so that names are kept apart.
\<close>

text \<open>An operation is its number in \<open>enum ggml_op\<close>; these are the ones the modelled code names.\<close>

type_synonym ggml_op = nat

definition GGML_OP_NONE :: ggml_op where "GGML_OP_NONE = 0"
definition GGML_OP_DUP :: ggml_op where "GGML_OP_DUP = 1"
definition GGML_OP_ADD :: ggml_op where "GGML_OP_ADD = 2"
definition GGML_OP_ADD_ID :: ggml_op where "GGML_OP_ADD_ID = 3"
definition GGML_OP_ADD1 :: ggml_op where "GGML_OP_ADD1 = 4"
definition GGML_OP_SUB :: ggml_op where "GGML_OP_SUB = 6"
definition GGML_OP_MUL :: ggml_op where "GGML_OP_MUL = 7"
definition GGML_OP_DIV :: ggml_op where "GGML_OP_DIV = 8"
definition GGML_OP_SQR :: ggml_op where "GGML_OP_SQR = 9"
definition GGML_OP_SQRT :: ggml_op where "GGML_OP_SQRT = 10"
definition GGML_OP_LOG :: ggml_op where "GGML_OP_LOG = 11"
definition GGML_OP_SIN :: ggml_op where "GGML_OP_SIN = 12"
definition GGML_OP_COS :: ggml_op where "GGML_OP_COS = 13"
definition GGML_OP_SUM :: ggml_op where "GGML_OP_SUM = 14"
definition GGML_OP_SUM_ROWS :: ggml_op where "GGML_OP_SUM_ROWS = 15"
definition GGML_OP_CUMSUM :: ggml_op where "GGML_OP_CUMSUM = 16"
definition GGML_OP_MEAN :: ggml_op where "GGML_OP_MEAN = 17"
definition GGML_OP_ARGMAX :: ggml_op where "GGML_OP_ARGMAX = 18"
definition GGML_OP_REPEAT :: ggml_op where "GGML_OP_REPEAT = 20"
definition GGML_OP_CONCAT :: ggml_op where "GGML_OP_CONCAT = 22"
definition GGML_OP_SILU_BACK :: ggml_op where "GGML_OP_SILU_BACK = 23"
definition GGML_OP_NORM :: ggml_op where "GGML_OP_NORM = 24"
definition GGML_OP_RMS_NORM :: ggml_op where "GGML_OP_RMS_NORM = 25"
definition GGML_OP_RMS_NORM_BACK :: ggml_op where "GGML_OP_RMS_NORM_BACK = 26"
definition GGML_OP_L2_NORM :: ggml_op where "GGML_OP_L2_NORM = 28"
definition GGML_OP_MUL_MAT :: ggml_op where "GGML_OP_MUL_MAT = 29"
definition GGML_OP_OUT_PROD :: ggml_op where "GGML_OP_OUT_PROD = 31"
definition GGML_OP_SCALE :: ggml_op where "GGML_OP_SCALE = 32"
definition GGML_OP_CPY :: ggml_op where "GGML_OP_CPY = 34"
definition GGML_OP_CONT :: ggml_op where "GGML_OP_CONT = 35"
definition GGML_OP_RESHAPE :: ggml_op where "GGML_OP_RESHAPE = 36"
definition GGML_OP_VIEW :: ggml_op where "GGML_OP_VIEW = 37"
definition GGML_OP_PERMUTE :: ggml_op where "GGML_OP_PERMUTE = 38"
definition GGML_OP_TRANSPOSE :: ggml_op where "GGML_OP_TRANSPOSE = 39"
definition GGML_OP_GET_ROWS :: ggml_op where "GGML_OP_GET_ROWS = 40"
definition GGML_OP_DIAG_MASK_INF :: ggml_op where "GGML_OP_DIAG_MASK_INF = 44"
definition GGML_OP_DIAG_MASK_ZERO :: ggml_op where "GGML_OP_DIAG_MASK_ZERO = 45"
definition GGML_OP_SOFT_MAX :: ggml_op where "GGML_OP_SOFT_MAX = 46"
definition GGML_OP_SOFT_MAX_BACK :: ggml_op where "GGML_OP_SOFT_MAX_BACK = 47"
definition GGML_OP_ROPE :: ggml_op where "GGML_OP_ROPE = 48"
definition GGML_OP_ROPE_BACK :: ggml_op where "GGML_OP_ROPE_BACK = 49"
definition GGML_OP_IM2COL :: ggml_op where "GGML_OP_IM2COL = 52"
definition GGML_OP_POOL_1D :: ggml_op where "GGML_OP_POOL_1D = 59"
definition GGML_OP_POOL_2D :: ggml_op where "GGML_OP_POOL_2D = 60"
definition GGML_OP_LEAKY_RELU :: ggml_op where "GGML_OP_LEAKY_RELU = 70"
definition GGML_OP_FILL :: ggml_op where "GGML_OP_FILL = 72"
definition GGML_OP_UNARY :: ggml_op where "GGML_OP_UNARY = 85"

definition GGML_MAX_SRC :: nat where "GGML_MAX_SRC = 10"
definition GGML_DEFAULT_GRAPH_SIZE :: nat where "GGML_DEFAULT_GRAPH_SIZE = 2048"

definition GGML_TENSOR_FLAG_INPUT :: "32 word" where "GGML_TENSOR_FLAG_INPUT = 1"
definition GGML_TENSOR_FLAG_OUTPUT :: "32 word" where "GGML_TENSOR_FLAG_OUTPUT = 2"
definition GGML_TENSOR_FLAG_PARAM :: "32 word" where "GGML_TENSOR_FLAG_PARAM = 4"
definition GGML_TENSOR_FLAG_LOSS :: "32 word" where "GGML_TENSOR_FLAG_LOSS = 8"

text \<open>
  The fields of \<open>struct ggml_tensor\<close> that link a tensor into a graph.  \<open>t_addr\<close> is the pointer \<open>data\<close>; the
  bytes behind it are \<open>t_data\<close>.
\<close>

record graph_tensor = ggml_tensor +
  t_op :: ggml_op
  t_flags :: "32 word"
  t_src :: "ptr option list"
  t_view_src :: "ptr option"
  t_view_offs :: size_t
  t_buffer :: "ptr option"
  t_addr :: "ptr option"

type_synonym heap = "ptr \<Rightarrow> graph_tensor option"
type_synonym names = "ptr \<Rightarrow> bytes"

definition deref :: "heap \<Rightarrow> ptr \<Rightarrow> graph_tensor outcome" where
  "deref h p = (case h p of None \<Rightarrow> Inl Undefined | Some t \<Rightarrow> Inr t)"

record ggml_cgraph =
  g_size :: nat
  g_nodes :: "ptr list"
  g_leafs :: "ptr list"
  g_use_counts :: "int list"
  g_visited :: ggml_hash_set
  g_left_to_right :: bool

subsection \<open>Names\<close>

function digits :: "nat \<Rightarrow> bytes" where
  "digits n = (if n < 10 then [] else digits (n div 10)) @ [word_of_nat (48 + n mod 10)]"
  by pat_completeness auto
termination by (relation "measure id") auto

declare digits.simps [simp del]

text \<open>\<open>ggml_format_name(node, "leaf_%d", n)\<close>; the result always fits into the 64 bytes of a name.\<close>

definition leaf_name :: "nat \<Rightarrow> bytes" where
  "leaf_name n = [108, 101, 97, 102, 95] @ digits n"

definition node_name :: "nat \<Rightarrow> bytes" where
  "node_name n = [110, 111, 100, 101, 95] @ digits n"

definition name_default :: "ptr \<Rightarrow> bytes \<Rightarrow> names \<Rightarrow> names" where
  "name_default p s nm = (if c_str (nm p) = [] then nm(p := s) else nm)"

subsection \<open>Building a graph\<close>

definition is_leaf :: "graph_tensor \<Rightarrow> bool" where
  "is_leaf t \<longleftrightarrow> t_op t = GGML_OP_NONE \<and> t_flags t AND GGML_TENSOR_FLAG_PARAM = 0"

definition add_leaf :: "ptr \<Rightarrow> ggml_cgraph \<times> names \<Rightarrow> (ggml_cgraph \<times> names) outcome" where
  "add_leaf p st =
     (let (g, nm) = st; n = length (g_leafs g) in
      bnd (ensure (n < g_size g) Aborted) (\<lambda>_.
      Inr (g\<lparr>g_leafs := g_leafs g @ [p]\<rparr>, name_default p (leaf_name n) nm)))"

definition add_node :: "ptr \<Rightarrow> ggml_cgraph \<times> names \<Rightarrow> (ggml_cgraph \<times> names) outcome" where
  "add_node p st =
     (let (g, nm) = st; n = length (g_nodes g) in
      bnd (ensure (n < g_size g) Aborted) (\<lambda>_.
      Inr (g\<lparr>g_nodes := g_nodes g @ [p]\<rparr>, name_default p (node_name n) nm)))"

text \<open>First visit: the slot takes the key and the use count starts from 0.\<close>

definition mark_visited :: "ggml_cgraph \<Rightarrow> ptr \<Rightarrow> nat \<Rightarrow> ggml_cgraph outcome" where
  "mark_visited g p pos =
     (let hs = g_visited g in
      bnd (ensure (pos < length (hs_keys hs) \<and> pos < length (g_use_counts g)) Undefined) (\<lambda>_.
      bnd (ggml_bitset_set (hs_used hs) pos) (\<lambda>bs.
      Inr (g\<lparr>g_visited := hs\<lparr>hs_used := bs, hs_keys := (hs_keys hs)[pos := p]\<rparr>,
             g_use_counts := (g_use_counts g)[pos := 0]\<rparr>))))"

definition count_use :: "ggml_cgraph \<Rightarrow> nat \<Rightarrow> ggml_cgraph outcome" where
  "count_use g pos =
     bnd (elem (g_use_counts g) pos) (\<lambda>c. Inr (g\<lparr>g_use_counts := (g_use_counts g)[pos := c + 1]\<rparr>))"

definition src_order :: "ggml_cgraph \<Rightarrow> nat list" where
  "src_order g = (if g_left_to_right g then [0..<GGML_MAX_SRC]
                  else map (\<lambda>i. GGML_MAX_SRC - 1 - i) [0..<GGML_MAX_SRC])"

fun ggml_visit_parents ::
  "nat \<Rightarrow> heap \<Rightarrow> ptr \<Rightarrow> ggml_cgraph \<times> names \<Rightarrow> (nat \<times> ggml_cgraph \<times> names) outcome" where
  "ggml_visit_parents 0 h p st = Inl Diverged"
| "ggml_visit_parents (Suc fuel) h p st =
     (let (g, nm) = st in
      bnd (ggml_hash_find (g_visited g) p) (\<lambda>r.
      case r of
        None \<Rightarrow> Inl Aborted
      | Some pos \<Rightarrow>
          bnd (ggml_bitset_get (hs_used (g_visited g)) pos) (\<lambda>used.
          if used then Inr (pos, st)
          else
            bnd (mark_visited g p pos) (\<lambda>g.
            bnd (deref h p) (\<lambda>t.
            bnd (each_outcome (\<lambda>k st.
                   bnd (elem (t_src t) k) (\<lambda>src.
                   case src of
                     None \<Rightarrow> Inr st
                   | Some s \<Rightarrow>
                       bnd (ggml_visit_parents fuel h s st) (\<lambda>(pos, g, nm).
                       bnd (count_use g pos) (\<lambda>g. Inr (g, nm))))) (src_order g) (g, nm)) (\<lambda>st.
            bnd (if is_leaf t then add_leaf p st else add_node p st) (\<lambda>st.
            Inr (pos, st))))))))"

definition ggml_graph_clear :: "ggml_cgraph \<Rightarrow> ggml_cgraph" where
  "ggml_graph_clear g =
     g\<lparr>g_leafs := [], g_nodes := [], g_visited := ggml_hash_set_reset (g_visited g)\<rparr>"

definition ggml_build_forward_impl ::
  "nat \<Rightarrow> heap \<Rightarrow> ptr \<Rightarrow> bool \<Rightarrow> ggml_cgraph \<times> names \<Rightarrow> (ggml_cgraph \<times> names) outcome" where
  "ggml_build_forward_impl fuel h tensor expand st =
     (let (g, nm) = st; g = (if expand then g else ggml_graph_clear g); n0 = length (g_nodes g) in
      bnd (ggml_visit_parents fuel h tensor (g, nm)) (\<lambda>(pos, g, nm).
      bnd (ensure (length (g_nodes g) - n0 > 0 \<longrightarrow> last (g_nodes g) = tensor) Aborted) (\<lambda>_.
      Inr (g, nm))))"

definition ggml_build_forward_expand ::
  "nat \<Rightarrow> heap \<Rightarrow> ptr \<Rightarrow> ggml_cgraph \<times> names \<Rightarrow> (ggml_cgraph \<times> names) outcome" where
  "ggml_build_forward_expand fuel h tensor st = ggml_build_forward_impl fuel h tensor True st"

text \<open>
  A new graph; \<open>garbage\<close> and \<open>counts\<close> are what the memory of the keys and of the use counts holds.
\<close>

definition ggml_new_graph_custom :: "ptr list \<Rightarrow> int list \<Rightarrow> nat \<Rightarrow> ggml_cgraph" where
  "ggml_new_graph_custom garbage counts sz =
     (let hash_size = ggml_hash_size (sz * 2) in
      \<lparr>g_size = sz, g_nodes = [], g_leafs = [],
       g_use_counts = take hash_size (counts @ replicate hash_size 0),
       g_visited = ggml_hash_set_new garbage (sz * 2), g_left_to_right = True\<rparr>)"

subsection \<open>Access\<close>

definition ggml_graph_node :: "ggml_cgraph \<Rightarrow> int \<Rightarrow> ptr outcome" where
  "ggml_graph_node g i =
     (if i < 0 then
        bnd (ensure (int (length (g_nodes g)) + i \<ge> 0) Aborted) (\<lambda>_.
        Inr (g_nodes g ! nat (int (length (g_nodes g)) + i)))
      else
        bnd (ensure (i < int (length (g_nodes g))) Aborted) (\<lambda>_. Inr (g_nodes g ! nat i)))"

definition ggml_graph_n_nodes :: "ggml_cgraph \<Rightarrow> nat" where
  "ggml_graph_n_nodes g = length (g_nodes g)"

definition ggml_graph_add_node :: "ggml_cgraph \<Rightarrow> ptr \<Rightarrow> ggml_cgraph outcome" where
  "ggml_graph_add_node g p =
     bnd (ensure (g_size g > length (g_nodes g)) Aborted) (\<lambda>_.
     Inr (g\<lparr>g_nodes := g_nodes g @ [p]\<rparr>))"

definition ggml_graph_get_tensor :: "names \<Rightarrow> ggml_cgraph \<Rightarrow> bytes \<Rightarrow> ptr option" where
  "ggml_graph_get_tensor nm g name =
     find (\<lambda>p. c_str (nm p) = c_str name) (g_leafs g @ g_nodes g)"

definition ggml_graph_view :: "ggml_cgraph \<Rightarrow> nat \<Rightarrow> nat \<Rightarrow> ggml_cgraph" where
  "ggml_graph_view g i0 i1 =
     g\<lparr>g_size := 0, g_nodes := take (i1 - i0) (drop i0 (g_nodes g)), g_leafs := []\<rparr>"

definition ggml_node_get_use_count :: "ggml_cgraph \<Rightarrow> nat \<Rightarrow> int outcome" where
  "ggml_node_get_use_count g node_idx =
     bnd (elem (g_nodes g) node_idx) (\<lambda>p.
     bnd (ggml_hash_find (g_visited g) p) (\<lambda>r.
     case r of
       None \<Rightarrow> Inl Undefined
     | Some pos \<Rightarrow>
         bnd (ggml_bitset_get (hs_used (g_visited g)) pos) (\<lambda>used.
         if \<not> used then Inr 0 else elem (g_use_counts g) pos)))"

definition ggml_node_has_n_uses :: "heap \<Rightarrow> ggml_cgraph \<Rightarrow> nat \<Rightarrow> int \<Rightarrow> bool outcome" where
  "ggml_node_has_n_uses h g node_idx n_uses =
     bnd (elem (g_nodes g) node_idx) (\<lambda>p.
     bnd (deref h p) (\<lambda>t.
     bnd (ggml_node_get_use_count g node_idx) (\<lambda>c.
     Inr (c = n_uses \<and> t_view_src t = None \<and> t_flags t AND GGML_TENSOR_FLAG_OUTPUT = 0))))"

text \<open>The copy of a graph without gradients: the keys in use are inserted in the order of their slots.\<close>

definition copy_slot :: "ggml_cgraph \<Rightarrow> nat \<Rightarrow> ggml_cgraph \<Rightarrow> ggml_cgraph outcome" where
  "copy_slot src i dst =
     bnd (ggml_bitset_get (hs_used (g_visited src)) i) (\<lambda>used.
     if \<not> used then Inr dst
     else
       bnd (elem (hs_keys (g_visited src)) i) (\<lambda>key.
       bnd (ggml_hash_insert (g_visited dst) key) (\<lambda>(r, hs).
       case r of
         None \<Rightarrow> Inl Undefined
       | Some pos \<Rightarrow>
           bnd (elem (g_use_counts src) i) (\<lambda>c.
           bnd (ensure (pos < length (g_use_counts dst)) Undefined) (\<lambda>_.
           Inr (dst\<lparr>g_visited := hs, g_use_counts := (g_use_counts dst)[pos := c]\<rparr>))))))"

definition ggml_graph_cpy :: "ggml_cgraph \<Rightarrow> ggml_cgraph \<Rightarrow> ggml_cgraph outcome" where
  "ggml_graph_cpy src dst =
     bnd (ensure (g_size dst \<ge> length (g_leafs src)) Aborted) (\<lambda>_.
     bnd (ensure (g_size dst \<ge> length (g_nodes src)) Aborted) (\<lambda>_.
     bnd (ensure (hs_size (g_visited dst) \<ge> hs_size (g_visited src)) Aborted) (\<lambda>_.
     each_outcome (copy_slot src) [0..<hs_size (g_visited src)]
       (dst\<lparr>g_leafs := g_leafs src, g_nodes := g_nodes src, g_left_to_right := g_left_to_right src\<rparr>))))"

subsection \<open>Dependencies\<close>

definition edges :: "heap \<Rightarrow> (ptr \<times> ptr) set" where
  "edges h = {(p, s). \<exists>t. h p = Some t \<and> Some s \<in> set (t_src t)}"

definition below :: "heap \<Rightarrow> ptr \<Rightarrow> ptr set" where
  "below h p = (edges h)\<^sup>* `` {p}"

text \<open>A heap in which every tensor has ten sources or null pointers, all of them tensors, and no cycle.\<close>

definition heap_ok :: "heap \<Rightarrow> bool" where
  "heap_ok h \<longleftrightarrow> finite (dom h) \<and> acyclic (edges h) \<and>
     (\<forall>p t. h p = Some t \<longrightarrow> length (t_src t) = GGML_MAX_SRC \<and> (\<forall>s. Some s \<in> set (t_src t) \<longrightarrow> s \<in> dom h))"

text \<open>How often a tensor is a source of another.\<close>

definition times_used :: "heap \<Rightarrow> ptr \<Rightarrow> ptr \<Rightarrow> int" where
  "times_used h n s = (case h n of None \<Rightarrow> 0 | Some t \<Rightarrow> int (count_list (t_src t) (Some s)))"

lemma below_refl: "p \<in> below h p"
  by (simp add: below_def)

lemma below_trans: "q \<in> below h p \<Longrightarrow> r \<in> below h q \<Longrightarrow> r \<in> below h p"
  by (auto simp: below_def)

lemma below_src: "h p = Some t \<Longrightarrow> Some s \<in> set (t_src t) \<Longrightarrow> below h s \<subseteq> below h p"
  by (auto simp: below_def edges_def intro: converse_rtrancl_into_rtrancl)

lemma below_unfold:
  assumes "h p = Some t"
  shows "below h p = insert p (\<Union>s \<in> {s. Some s \<in> set (t_src t)}. below h s)"
proof
  show "below h p \<subseteq> insert p (\<Union>s \<in> {s. Some s \<in> set (t_src t)}. below h s)"
  proof
    fix q assume "q \<in> below h p"
    then have "(p, q) \<in> (edges h)\<^sup>*" by (simp add: below_def)
    then show "q \<in> insert p (\<Union>s \<in> {s. Some s \<in> set (t_src t)}. below h s)"
      by (cases rule: converse_rtranclE) (use assms in \<open>auto simp: below_def edges_def\<close>)
  qed
  show "insert p (\<Union>s \<in> {s. Some s \<in> set (t_src t)}. below h s) \<subseteq> below h p"
    using below_src [of h p t] assms below_refl by blast
qed

lemma below_dom:
  assumes "heap_ok h" "p \<in> dom h"
  shows "below h p \<subseteq> dom h"
proof
  fix q assume "q \<in> below h p"
  then have "(p, q) \<in> (edges h)\<^sup>*" by (simp add: below_def)
  then show "q \<in> dom h" using assms by (induction) (auto simp: heap_ok_def edges_def)
qed

lemma below_acyclic:
  assumes "heap_ok h" "h p = Some t" "Some s \<in> set (t_src t)"
  shows "p \<notin> below h s"
proof
  assume "p \<in> below h s"
  then have "(s, p) \<in> (edges h)\<^sup>*" by (simp add: below_def)
  moreover have "(p, s) \<in> edges h" using assms(2,3) by (auto simp: edges_def)
  ultimately have "(p, p) \<in> (edges h)\<^sup>+" by (rule rtrancl_into_trancl2 [rotated])
  then show False using assms(1) by (simp add: heap_ok_def acyclic_def)
qed

lemma below_finite: "heap_ok h \<Longrightarrow> p \<in> dom h \<Longrightarrow> finite (below h p)"
  using below_dom finite_subset by (metis heap_ok_def)

subsection \<open>The state of the builder\<close>

definition visited :: "ggml_cgraph \<Rightarrow> ptr set" where
  "visited g = keys_of (g_visited g)"

definition emitted :: "ggml_cgraph \<Rightarrow> ptr set" where
  "emitted g = set (g_leafs g) \<union> set (g_nodes g)"

text \<open>Every node comes after the nodes it depends on.\<close>

definition in_order :: "heap \<Rightarrow> ggml_cgraph \<Rightarrow> bool" where
  "in_order h g \<longleftrightarrow> (\<forall>i < length (g_nodes g). \<forall>s. (g_nodes g ! i, s) \<in> edges h \<longrightarrow>
     s \<in> set (g_leafs g) \<union> set (take i (g_nodes g)))"

text \<open>
  The use count of a visited tensor: the uses by tensors that are in the graph, and \<open>e\<close> uses by
  tensors whose sources are still being visited.
\<close>

definition counts_ok :: "heap \<Rightarrow> (ptr \<Rightarrow> int) \<Rightarrow> ggml_cgraph \<Rightarrow> bool" where
  "counts_ok h e g \<longleftrightarrow> (\<forall>i < hs_size (g_visited g). \<forall>s. slot (g_visited g) i = Some s \<longrightarrow>
     g_use_counts g ! i = (\<Sum>n \<in> emitted g. times_used h n s) + e s)"

definition g_inv :: "heap \<Rightarrow> (ptr \<Rightarrow> int) \<Rightarrow> ggml_cgraph \<Rightarrow> bool" where
  "g_inv h e g \<longleftrightarrow>
     hs_inv (g_visited g) \<and> length (g_use_counts g) = hs_size (g_visited g) \<and> g_size g < hs_size (g_visited g) \<and>
     distinct (g_leafs g @ g_nodes g) \<and> emitted g \<subseteq> visited g \<and> visited g \<subseteq> dom h \<and>
     edges h `` emitted g \<subseteq> emitted g \<and> in_order h g \<and> counts_ok h e g \<and> (\<forall>s. s \<notin> visited g \<longrightarrow> e s = 0)"

lemma emitted_finite [simp]: "finite (emitted g)"
  by (simp add: emitted_def)

lemma emitted_below:
  assumes "g_inv h e g" "p \<in> emitted g"
  shows "below h p \<subseteq> emitted g"
proof
  fix q assume "q \<in> below h p"
  then have "(p, q) \<in> (edges h)\<^sup>*" by (simp add: below_def)
  then show "q \<in> emitted g" using assms by induction (auto simp: g_inv_def)
qed

lemma times_used_none: "g_inv h e g \<Longrightarrow> n \<in> emitted g \<Longrightarrow> s \<notin> emitted g \<Longrightarrow> times_used h n s = 0"
proof (cases "h n")
  case (Some t)
  assume g: "g_inv h e g" "n \<in> emitted g" "s \<notin> emitted g"
  then have "(n, s) \<notin> edges h" unfolding g_inv_def by blast
  then show ?thesis using Some by (auto simp: times_used_def edges_def count_list_0_iff)
qed (simp add: times_used_def)

text \<open>What a visit of tensor \<open>p\<close> does to a graph.\<close>

definition extends :: "heap \<Rightarrow> ptr set \<Rightarrow> ggml_cgraph \<Rightarrow> ggml_cgraph \<Rightarrow> bool" where
  "extends h Q g g' \<longleftrightarrow> visited g' = visited g \<union> Q \<and> emitted g' = emitted g \<union> (Q - visited g) \<and>
     g_size g' = g_size g \<and> hs_size (g_visited g') = hs_size (g_visited g) \<and>
     g_left_to_right g' = g_left_to_right g \<and>
     (\<forall>i k. slot (g_visited g) i = Some k \<longrightarrow> slot (g_visited g') i = Some k) \<and>
     (\<exists>ls ns. g_leafs g' = g_leafs g @ ls \<and> g_nodes g' = g_nodes g @ ns)"

lemma extends_refl: "Q \<subseteq> visited g \<Longrightarrow> extends h Q g g"
  by (auto simp: extends_def)

lemma extends_trans:
  "extends h P f g \<Longrightarrow> extends h Q g k \<Longrightarrow> extends h (P \<union> Q) f k"
  unfolding extends_def by (auto simp: Un_assoc)

lemma visited_slot:
  assumes "g_inv h e g" "p \<in> visited g"
  obtains pos where "ggml_hash_find (g_visited g) p = Inr (Some pos)" "pos < hs_size (g_visited g)"
    "slot (g_visited g) pos = Some p" "ggml_bitset_get (hs_used (g_visited g)) pos = Inr True"
proof -
  have hs: "hs_inv (g_visited g)" using assms(1) by (simp add: g_inv_def)
  obtain pos where "ggml_hash_find (g_visited g) p = Inr (Some pos)" "pos < hs_size (g_visited g)"
    "slot (g_visited g) pos = Some p"
    using hash_find_key [OF hs] assms(2) unfolding visited_def by blast
  then show thesis using hs_get [OF hs_inv_shape [OF hs]] by (intro that) auto
qed

text \<open>The state after the mark: the tensor is visited, its use count is 0.\<close>

lemma mark_visited_ok:
  assumes g: "g_inv h e g" and p: "p \<notin> visited g" "p \<in> dom h" and room: "card (visited g) < hs_size (g_visited g)"
  obtains pos g' where "ggml_hash_find (g_visited g) p = Inr (Some pos)"
    "ggml_bitset_get (hs_used (g_visited g)) pos = Inr False" "mark_visited g p pos = Inr g'"
    "g_inv h e g'" "visited g' = insert p (visited g)" "emitted g' = emitted g"
    "slot (g_visited g') pos = Some p"
    "\<forall>i k. slot (g_visited g) i = Some k \<longrightarrow> slot (g_visited g') i = Some k"
    "g_size g' = g_size g" "hs_size (g_visited g') = hs_size (g_visited g)"
    "g_leafs g' = g_leafs g" "g_nodes g' = g_nodes g" "g_left_to_right g' = g_left_to_right g" "pos < hs_size (g_visited g)"
proof -
  let ?hs = "g_visited g"
  have hs: "hs_inv ?hs" and len: "length (g_use_counts g) = hs_size ?hs" using g by (simp_all add: g_inv_def)
  have keys: "p \<notin> keys_of ?hs" "card (keys_of ?hs) < hs_size ?hs" using p room by (simp_all add: visited_def)
  obtain pos bs where f: "ggml_hash_find ?hs p = Inr (Some pos)" "pos < hs_size ?hs" "slot ?hs pos = None"
    "ggml_bitset_set (hs_used ?hs) pos = Inr bs"
    and takes: "takes_key ?hs pos p (?hs\<lparr>hs_used := bs, hs_keys := (hs_keys ?hs)[pos := p]\<rparr>)"
    and hs': "hs_inv (?hs\<lparr>hs_used := bs, hs_keys := (hs_keys ?hs)[pos := p]\<rparr>)"
    using hash_find_room [OF hs keys] .
  let ?hs' = "?hs\<lparr>hs_used := bs, hs_keys := (hs_keys ?hs)[pos := p]\<rparr>"
  let ?g' = "g\<lparr>g_visited := ?hs', g_use_counts := (g_use_counts g)[pos := 0]\<rparr>"
  have vis: "visited ?g' = insert p (visited g)" using takes_key_keys [OF takes] by (simp add: visited_def)
  have em: "emitted ?g' = emitted g" by (simp add: emitted_def)
  have slot': "slot ?hs' = (slot ?hs)(pos := Some p)" using takes by (simp add: takes_key_def)
  have p_out: "p \<notin> emitted g" "e p = 0" using g p(1) by (auto simp: g_inv_def)
  have "counts_ok h e ?g'"
    unfolding counts_ok_def em
  proof (intro allI impI)
    fix i s assume i: "i < hs_size (g_visited ?g')" "slot (g_visited ?g') i = Some s"
    show "g_use_counts ?g' ! i = (\<Sum>n \<in> emitted g. times_used h n s) + e s"
    proof (cases "i = pos")
      case True
      then have "s = p" using i(2) slot' by simp
      moreover have "(\<Sum>n \<in> emitted g. times_used h n p) = 0"
        using times_used_none [OF g _ p_out(1)] by simp
      ultimately show ?thesis using True f(2) len p_out(2) by simp
    next
      case False
      then show ?thesis using i slot' g by (simp add: g_inv_def counts_ok_def)
    qed
  qed
  then have inv': "g_inv h e ?g'"
    using g hs' vis em p(2) unfolding g_inv_def in_order_def by auto
  have "mark_visited g p pos = Inr ?g'"
    using f(2,4) len hs_inv_shape [OF hs] by (simp add: mark_visited_def Let_def hs_shape_def)
  moreover have "ggml_bitset_get (hs_used ?hs) pos = Inr False"
    using hs_get [OF hs_inv_shape [OF hs] f(2)] f(3) by simp
  ultimately show thesis
    using f(1,2) inv' vis em slot' f(3)
    by (intro that [of pos ?g']) (auto simp: extends_def emitted_def visited_def)
qed

lemma count_use_ok:
  assumes g: "g_inv h e g" and s: "slot (g_visited g) pos = Some s" "pos < hs_size (g_visited g)"
  obtains g' where "count_use g pos = Inr g'" "g_inv h (e(s := e s + 1)) g'" "extends h {} g g'" "g_visited g' = g_visited g"
proof -
  let ?g' = "g\<lparr>g_use_counts := (g_use_counts g)[pos := g_use_counts g ! pos + 1]\<rparr>"
  have len: "length (g_use_counts g) = hs_size (g_visited g)" and hs: "hs_inv (g_visited g)"
    using g by (simp_all add: g_inv_def)
  have vis: "visited ?g' = visited g" "emitted ?g' = emitted g" by (simp_all add: visited_def emitted_def)
  have only: "i = pos" if "slot (g_visited g) i = Some s" "i < hs_size (g_visited g)" for i
    using hs that s unfolding hs_inv_def by blast
  have old: "counts_ok h e g" using g by (simp add: g_inv_def)
  have "counts_ok h (e(s := e s + 1)) ?g'"
    unfolding counts_ok_def vis
  proof (intro allI impI)
    fix i k assume i: "i < hs_size (g_visited ?g')" "slot (g_visited ?g') i = Some k"
    then have sum: "g_use_counts g ! i = (\<Sum>n \<in> emitted g. times_used h n k) + e k"
      using old by (simp add: counts_ok_def)
    show "g_use_counts ?g' ! i = (\<Sum>n \<in> emitted g. times_used h n k) + (e(s := e s + 1)) k"
    proof (cases "i = pos")
      case True
      then show ?thesis using i sum s len by simp
    next
      case False
      then have "k \<noteq> s" using only i by auto
      then show ?thesis using sum False by simp
    qed
  qed
  moreover have "s \<in> visited g" using s by (auto simp: visited_def keys_of_def)
  moreover have "in_order h ?g'" using g by (simp add: g_inv_def in_order_def)
  ultimately have "g_inv h (e(s := e s + 1)) ?g'" using g unfolding g_inv_def vis by simp
  then show thesis using len s(2) by (intro that [of ?g']) (auto simp: count_use_def extends_def visited_def emitted_def)
qed

text \<open>Putting the tensor into the graph, when all its sources are there.\<close>

lemma add_tensor_ok:
  assumes g: "g_inv h (\<lambda>s. e s + times_used h p s) g" and t: "h p = Some t"
    and p: "p \<in> visited g" "p \<notin> emitted g" and srcs: "{s. Some s \<in> set (t_src t)} \<subseteq> emitted g"
    and room: "card (emitted g) < g_size g"
  obtains g' nm' where "(if is_leaf t then add_leaf p (g, nm) else add_node p (g, nm)) = Inr (g', nm')"
    "g_inv h e g'" "emitted g' = insert p (emitted g)" "visited g' = visited g" "g_visited g' = g_visited g"
    "g_size g' = g_size g" "g_left_to_right g' = g_left_to_right g"
    "\<exists>ls ns. g_leafs g' = g_leafs g @ ls \<and> g_nodes g' = g_nodes g @ ns"
    "\<not> is_leaf t \<longrightarrow> last (g_nodes g') = p" "is_leaf t \<longrightarrow> g_nodes g' = g_nodes g"
proof -
  have "card (emitted g) = length (g_leafs g) + length (g_nodes g)"
    using g distinct_card [of "g_leafs g @ g_nodes g"] by (simp add: emitted_def g_inv_def)
  then have fit: "length (g_leafs g) < g_size g" "length (g_nodes g) < g_size g" using room by auto
  define g' where "g' = (if is_leaf t then g\<lparr>g_leafs := g_leafs g @ [p]\<rparr> else g\<lparr>g_nodes := g_nodes g @ [p]\<rparr>)"
  have em: "emitted g' = insert p (emitted g)" by (auto simp: g'_def emitted_def)
  have vis: "visited g' = visited g" "g_visited g' = g_visited g" by (auto simp: g'_def visited_def)
  have pe: "edges h `` {p} = {s. Some s \<in> set (t_src t)}" using t by (auto simp: edges_def)
  have order: "in_order h g'"
  proof (cases "is_leaf t")
    case True
    then show ?thesis using g by (auto simp: g'_def g_inv_def in_order_def)
  next
    case False
    then show ?thesis
      using g pe srcs by (auto simp: g'_def g_inv_def in_order_def emitted_def nth_append less_Suc_eq)
  qed
  have counts: "counts_ok h e g'"
    using g p(2) unfolding counts_ok_def em vis g_inv_def by (auto simp: g'_def)
  have zero: "e s = 0" if "s \<notin> visited g" for s
  proof -
    have "s \<notin> emitted g" using that g by (auto simp: g_inv_def)
    then have "times_used h p s = 0" using srcs t by (auto simp: times_used_def count_list_0_iff)
    then show ?thesis using g that by (auto simp: g_inv_def)
  qed
  have "distinct (g_leafs g' @ g_nodes g')" using g p(2) by (auto simp: g'_def g_inv_def emitted_def)
  moreover have "edges h `` emitted g' \<subseteq> emitted g'"
  proof -
    have "edges h `` emitted g' = edges h `` {p} \<union> edges h `` emitted g" unfolding em by blast
    then show ?thesis using pe srcs g unfolding em g_inv_def by blast
  qed
  moreover have "emitted g' \<subseteq> visited g" using g p(1) unfolding em g_inv_def by simp
  moreover have "g_use_counts g' = g_use_counts g" "g_size g' = g_size g" by (simp_all add: g'_def)
  ultimately have inv': "g_inv h e g'"
    using g order counts zero unfolding g_inv_def vis by simp
  have "\<exists>nm'. (if is_leaf t then add_leaf p (g, nm) else add_node p (g, nm)) = Inr (g', nm')"
    using fit by (auto simp: add_leaf_def add_node_def g'_def Let_def)
  then obtain nm' where "(if is_leaf t then add_leaf p (g, nm) else add_node p (g, nm)) = Inr (g', nm')" by blast
  then show thesis using inv' em vis by (rule that) (auto simp: g'_def)
qed

subsection \<open>A visit\<close>

definition visit_pre :: "heap \<Rightarrow> ptr \<Rightarrow> (ptr \<Rightarrow> int) \<Rightarrow> ggml_cgraph \<Rightarrow> bool" where
  "visit_pre h p e g \<longleftrightarrow> g_inv h e g \<and> p \<in> dom h \<and> below h p \<inter> (visited g - emitted g) = {} \<and>
     card (visited g \<union> below h p) \<le> g_size g"

definition visit_post :: "heap \<Rightarrow> ptr \<Rightarrow> (ptr \<Rightarrow> int) \<Rightarrow> ggml_cgraph \<Rightarrow> nat \<Rightarrow> ggml_cgraph \<Rightarrow> bool" where
  "visit_post h p e g pos g' \<longleftrightarrow> g_inv h e g' \<and> extends h (below h p) g g' \<and>
     pos < hs_size (g_visited g') \<and> slot (g_visited g') pos = Some p \<and>
     (p \<in> visited g \<longrightarrow> g' = g) \<and> (p \<notin> visited g \<and> \<not> is_leaf (the (h p)) \<longrightarrow> last (g_nodes g') = p)"

definition loop_pre :: "heap \<Rightarrow> nat \<Rightarrow> ptr set \<Rightarrow> ggml_cgraph \<Rightarrow> bool" where
  "loop_pre h fuel S g \<longleftrightarrow> finite S \<and> S \<subseteq> dom h \<and>
     (\<Union>s \<in> S. below h s) \<inter> (visited g - emitted g) = {} \<and>
     card (visited g \<union> (\<Union>s \<in> S. below h s)) \<le> g_size g \<and> (\<forall>s \<in> S. card (below h s - visited g) < fuel)"

lemma open_extends: "extends h Q g g' \<Longrightarrow> visited g' - emitted g' = visited g - emitted g"
  by (auto simp: extends_def)

lemma visited_finite [simp]: "finite (visited g)"
  by (simp add: visited_def keys_finite)

lemma loop_pre_step:
  assumes ok: "heap_ok h" and pre: "loop_pre h fuel S g" and s: "s \<in> S" and T: "T \<subseteq> S" and ext: "extends h (below h s) g g'"
  shows "loop_pre h fuel T g'"
proof -
  have fin: "finite (below h q)" if "q \<in> S" for q using pre that below_finite [OF ok] by (auto simp: loop_pre_def)
  have vis: "visited g' = visited g \<union> below h s" "g_size g' = g_size g" using ext by (auto simp: extends_def)
  have "visited g' \<union> (\<Union>q \<in> T. below h q) \<subseteq> visited g \<union> (\<Union>q \<in> S. below h q)" using vis s T by blast
  then have "card (visited g' \<union> (\<Union>q \<in> T. below h q)) \<le> card (visited g \<union> (\<Union>q \<in> S. below h q))"
    using pre fin by (intro card_mono) (auto simp: loop_pre_def)
  moreover have "card (below h q - visited g') < fuel" if q: "q \<in> T" for q
  proof -
    have "card (below h q - visited g') \<le> card (below h q - visited g)"
      using q T fin vis(1) by (intro card_mono) auto
    also have "\<dots> < fuel" using pre q T by (auto simp: loop_pre_def)
    finally show ?thesis .
  qed
  moreover have "finite T" using T pre finite_subset by (auto simp: loop_pre_def)
  moreover have "T \<subseteq> dom h" using T pre by (auto simp: loop_pre_def)
  moreover have "(\<Union>q \<in> T. below h q) \<inter> (visited g' - emitted g') = {}"
  proof -
    have "(\<Union>q \<in> S. below h q) \<inter> (visited g - emitted g) = {}" using pre by (simp add: loop_pre_def)
    then show ?thesis using T unfolding open_extends [OF ext] by blast
  qed
  moreover have "card (visited g \<union> (\<Union>q \<in> S. below h q)) \<le> g_size g'" using pre vis(2) by (simp add: loop_pre_def)
  ultimately show ?thesis unfolding loop_pre_def by (meson le_trans)
qed

lemma sources_loop_ok:
  assumes ok: "heap_ok h"
    and v: "\<And>q e g nm. visit_pre h q e g \<Longrightarrow> card (below h q - visited g) < fuel \<Longrightarrow>
      \<exists>pos g' nm'. v q (g, nm) = Inr (pos, g', nm') \<and> visit_post h q e g pos g'"
    and ks: "\<forall>k \<in> set ks. k < length srcs"
    and pre: "g_inv h e g" "loop_pre h fuel {s. Some s \<in> (!) srcs ` set ks} g"
  shows "\<exists>g' nm'. each_outcome (\<lambda>k st.
             bnd (elem srcs k) (\<lambda>src.
             case src of
               None \<Rightarrow> Inr st
             | Some s \<Rightarrow> bnd (v s st) (\<lambda>(pos, g, nm). bnd (count_use g pos) (\<lambda>g. Inr (g, nm))))) ks (g, nm)
           = Inr (g', nm') \<and>
         g_inv h (\<lambda>s. e s + int (count_list (map ((!) srcs) ks) (Some s))) g' \<and>
         extends h (\<Union>s \<in> {s. Some s \<in> (!) srcs ` set ks}. below h s) g g'"
  using ks pre
proof (induction ks arbitrary: e g nm)
  case Nil
  then show ?case using extends_refl by auto
next
  case (Cons k ks)
  let ?B = "\<lambda>k st. bnd (elem srcs k) (\<lambda>src. case src of None \<Rightarrow> Inr st
     | Some s \<Rightarrow> bnd (v s st) (\<lambda>(pos, g, nm). bnd (count_use g pos) (\<lambda>g. Inr (g, nm))))"
  let ?S = "{s. Some s \<in> (!) srcs ` set ks}"
  have k: "k < length srcs" and ks: "\<forall>k \<in> set ks. k < length srcs" using Cons.prems(1) by auto
  show ?case
  proof (cases "srcs ! k")
    case None
    then have "{s. Some s \<in> (!) srcs ` set (k # ks)} = ?S" by auto
    then show ?thesis using Cons.IH [OF ks, of e g nm] Cons.prems(2,3) None k by simp
  next
    case (Some s)
    let ?S' = "{s. Some s \<in> (!) srcs ` set (k # ks)}"
    have S': "?S' = insert s ?S" using Some by auto
    have mem: "s \<in> ?S'" "?S \<subseteq> ?S'" unfolding S' by blast+
    have pre: "loop_pre h fuel ?S' g" using Cons.prems(3) .
    have "card (visited g \<union> below h s) \<le> card (visited g \<union> (\<Union>q \<in> ?S'. below h q))"
      using pre mem(1) below_finite [OF ok] by (intro card_mono) (auto simp: loop_pre_def)
    then have "visit_pre h s e g"
      using pre mem(1) Cons.prems(2) by (auto simp: visit_pre_def loop_pre_def)
    then obtain pos g1 nm1 where v1: "v s (g, nm) = Inr (pos, g1, nm1)" and post: "visit_post h s e g pos g1"
      using v pre mem(1) by (meson loop_pre_def)
    obtain g2 where g2: "count_use g1 pos = Inr g2" "g_inv h (e(s := e s + 1)) g2" "extends h {} g1 g2"
      using count_use_ok [of h e g1 pos s] post by (metis visit_post_def)
    have ext: "extends h (below h s) g g2"
      using extends_trans [OF _ g2(3), of "below h s" g] post by (simp add: visit_post_def)
    have pre2: "loop_pre h fuel ?S g2" by (rule loop_pre_step [OF ok pre mem ext])
    obtain g' nm' where rest: "each_outcome ?B ks (g2, nm1) = Inr (g', nm')"
      "g_inv h (\<lambda>q. (e(s := e s + 1)) q + int (count_list (map ((!) srcs) ks) (Some q))) g'"
      "extends h (\<Union>q \<in> ?S. below h q) g2 g'"
      using Cons.IH [OF ks g2(2) pre2, of nm1] by blast
    have "each_outcome ?B (k # ks) (g, nm) = Inr (g', nm')"
      using rest(1) v1 g2(1) Some k by simp
    moreover have "(\<lambda>q. (e(s := e s + 1)) q + int (count_list (map ((!) srcs) ks) (Some q))) =
        (\<lambda>q. e q + int (count_list (map ((!) srcs) (k # ks)) (Some q)))"
      using Some by (auto simp: fun_eq_iff)
    moreover have "extends h (\<Union>q \<in> ?S'. below h q) g g'"
      using extends_trans [OF ext rest(3)] unfolding S' by simp
    ultimately show ?thesis using rest(2) by (intro exI [of _ g'] exI [of _ nm']) simp
  qed
qed

lemma src_order_props:
  "set (src_order g) = {..<GGML_MAX_SRC}" "mset (src_order g) = mset [0..<GGML_MAX_SRC]"
proof -
  have "map (\<lambda>i. GGML_MAX_SRC - 1 - i) [0..<GGML_MAX_SRC] = rev [0..<GGML_MAX_SRC]"
    by (rule nth_equalityI) (auto simp: rev_nth)
  then show "set (src_order g) = {..<GGML_MAX_SRC}" "mset (src_order g) = mset [0..<GGML_MAX_SRC]"
    by (auto simp: src_order_def)
qed

lemma count_src_order:
  assumes "length xs = GGML_MAX_SRC"
  shows "count_list (map ((!) xs) (src_order g)) x = count_list xs x"
proof -
  have "mset (map ((!) xs) (src_order g)) = mset (map ((!) xs) [0..<length xs])"
    using src_order_props(2) [of g] assms by (metis mset_map)
  then have "mset (map ((!) xs) (src_order g)) = mset xs" by (simp add: map_nth)
  then show ?thesis by (metis count_mset)
qed

lemma visit_ok:
  assumes ok: "heap_ok h"
  shows "visit_pre h p e g \<Longrightarrow> card (below h p - visited g) < fuel \<Longrightarrow>
    \<exists>pos g' nm'. ggml_visit_parents fuel h p (g, nm) = Inr (pos, g', nm') \<and> visit_post h p e g pos g'"
proof (induction fuel arbitrary: p e g nm)
  case 0
  then show ?case by simp
next
  case (Suc fuel)
  let ?B = "below h p" and ?V = "visited g"
  have g: "g_inv h e g" and dom: "p \<in> dom h" and dis: "?B \<inter> (?V - emitted g) = {}"
    and room: "card (?V \<union> ?B) \<le> g_size g" using Suc.prems(1) by (auto simp: visit_pre_def)
  obtain t where t: "h p = Some t" using dom by blast
  have len: "length (t_src t) = GGML_MAX_SRC" using ok t by (auto simp: heap_ok_def)
  show ?case
  proof (cases "p \<in> ?V")
    case True
    have "p \<in> emitted g" using dis below_refl [of p h] True by blast
    then have "?B \<subseteq> ?V" using emitted_below [OF g] g by (auto simp: g_inv_def)
    then have "extends h ?B g g" by (rule extends_refl)
    moreover obtain pos where "ggml_hash_find (g_visited g) p = Inr (Some pos)" "pos < hs_size (g_visited g)"
      "slot (g_visited g) pos = Some p" "ggml_bitset_get (hs_used (g_visited g)) pos = Inr True"
      using visited_slot [OF g True] .
    ultimately show ?thesis using g True by (auto simp: visit_post_def)
  next
    case False
    have fin: "finite ?B" using below_finite [OF ok dom] .
    have below_size: "card ?V < hs_size (g_visited g)"
    proof -
      have "card ?V \<le> card (?V \<union> ?B)" using fin by (intro card_mono) auto
      also have "\<dots> \<le> g_size g" by (rule room)
      also have "\<dots> < hs_size (g_visited g)" using g by (simp add: g_inv_def)
      finally show ?thesis .
    qed
    obtain pos g1 where f: "ggml_hash_find (g_visited g) p = Inr (Some pos)"
      "ggml_bitset_get (hs_used (g_visited g)) pos = Inr False" "mark_visited g p pos = Inr g1"
      and g1: "g_inv h e g1" "visited g1 = insert p ?V" "emitted g1 = emitted g" "slot (g_visited g1) pos = Some p"
        "\<forall>i k. slot (g_visited g) i = Some k \<longrightarrow> slot (g_visited g1) i = Some k"
        "g_size g1 = g_size g" "hs_size (g_visited g1) = hs_size (g_visited g)"
        "g_leafs g1 = g_leafs g" "g_nodes g1 = g_nodes g" "g_left_to_right g1 = g_left_to_right g"
        "pos < hs_size (g_visited g)"
      using mark_visited_ok [OF g False dom below_size] .
    let ?ks = "src_order g1"
    let ?S = "{s. Some s \<in> (!) (t_src t) ` set ?ks}"
    have S: "?S = {s. Some s \<in> set (t_src t)}"
      using len nth_image [of "length (t_src t)" "t_src t"] by (simp add: src_order_props(1) atLeast0LessThan)
    let ?BS = "\<Union>s \<in> ?S. below h s"
    have B: "?B = insert p ?BS" using below_unfold [of h p t] t by (simp add: S)
    have p_out: "p \<notin> ?BS" using below_acyclic [OF ok t] by (auto simp: S)
    have pre: "loop_pre h fuel ?S g1"
      unfolding loop_pre_def
    proof (intro conjI ballI)
      show "finite ?S" unfolding S using finite_vimageI [of "set (t_src t)" Some] by (simp add: vimage_def)
      show "?S \<subseteq> dom h" unfolding S using ok t unfolding heap_ok_def by blast
      show "?BS \<inter> (visited g1 - emitted g1) = {}" using dis p_out B unfolding g1(2,3) by blast
      have "visited g1 \<union> ?BS = ?V \<union> ?B" unfolding g1(2) B by blast
      then show "card (visited g1 \<union> ?BS) \<le> g_size g1" using room g1(6) by simp
      fix s assume s: "s \<in> ?S"
      have "below h s - visited g1 \<subset> ?B - ?V" using s p_out False unfolding g1(2) B by blast
      then have "card (below h s - visited g1) < card (?B - ?V)" using fin by (intro psubset_card_mono) auto
      then show "card (below h s - visited g1) < fuel" using Suc.prems(2) by simp
    qed
    have ks: "\<forall>k \<in> set ?ks. k < length (t_src t)" by (simp add: src_order_props(1) len)
    obtain g2 nm2 where g2: "each_outcome (\<lambda>k st.
             bnd (elem (t_src t) k) (\<lambda>src.
             case src of
               None \<Rightarrow> Inr st
             | Some s \<Rightarrow> bnd (ggml_visit_parents fuel h s st) (\<lambda>(pos, g, nm). bnd (count_use g pos) (\<lambda>g. Inr (g, nm)))))
             ?ks (g1, nm) = Inr (g2, nm2)"
      "g_inv h (\<lambda>s. e s + int (count_list (map ((!) (t_src t)) ?ks) (Some s))) g2"
      "extends h ?BS g1 g2"
      using sources_loop_ok [OF ok Suc.IH ks g1(1) pre, of nm] by blast
    have used: "(\<lambda>s. e s + int (count_list (map ((!) (t_src t)) ?ks) (Some s))) = (\<lambda>s. e s + times_used h p s)"
      using t by (simp add: count_src_order [OF len] times_used_def)
    have em2: "emitted g2 = emitted g \<union> (?BS - insert p ?V)" and vis2: "visited g2 = insert p ?V \<union> ?BS"
      using g2(3) g1(2,3) by (auto simp: extends_def)
    have p2: "p \<in> visited g2" "p \<notin> emitted g2" using vis2 em2 g False by (auto simp: g_inv_def)
    have srcs2: "{s. Some s \<in> set (t_src t)} \<subseteq> emitted g2"
    proof
      fix s assume "s \<in> {s. Some s \<in> set (t_src t)}"
      then have s: "s \<in> ?BS" using below_refl [of s h] unfolding S by blast
      then have "s \<notin> ?V - emitted g" using dis B by blast
      then show "s \<in> emitted g2" using s p_out em2 by blast
    qed
    have room2: "card (emitted g2) < g_size g2"
    proof -
      have "emitted g2 \<subset> ?V \<union> ?B" using em2 p2(2) g B by (auto simp: g_inv_def)
      then have "card (emitted g2) < card (?V \<union> ?B)" using fin by (intro psubset_card_mono) auto
      then show ?thesis using room g2(3) g1(6) by (simp add: extends_def)
    qed
    obtain g' nm' where add: "(if is_leaf t then add_leaf p (g2, nm2) else add_node p (g2, nm2)) = Inr (g', nm')"
      and g': "g_inv h e g'" "emitted g' = insert p (emitted g2)" "visited g' = visited g2" "g_visited g' = g_visited g2"
        "g_size g' = g_size g2" "g_left_to_right g' = g_left_to_right g2"
        "\<exists>ls ns. g_leafs g' = g_leafs g2 @ ls \<and> g_nodes g' = g_nodes g2 @ ns"
        "\<not> is_leaf t \<longrightarrow> last (g_nodes g') = p" "is_leaf t \<longrightarrow> g_nodes g' = g_nodes g2"
      using add_tensor_ok [OF g2(2) [unfolded used] t p2 srcs2 room2, of nm2] .
    have "ggml_visit_parents (Suc fuel) h p (g, nm) = Inr (pos, g', nm')"
      using f t g2(1) add by (simp add: deref_def)
    moreover have "extends h ?B g g'"
      unfolding extends_def
    proof (intro conjI)
      show "visited g' = ?V \<union> ?B" unfolding g'(3) vis2 B by blast
      show "emitted g' = emitted g \<union> (?B - ?V)" unfolding g'(2) em2 B using False by blast
      show "\<forall>i k. slot (g_visited g) i = Some k \<longrightarrow> slot (g_visited g') i = Some k"
        using g1(5) g2(3) g'(4) by (simp add: extends_def)
      show "\<exists>ls ns. g_leafs g' = g_leafs g @ ls \<and> g_nodes g' = g_nodes g @ ns"
        using g1(8,9) g2(3) g'(7) by (auto simp: extends_def)
    qed (use g1 g2(3) g' in \<open>auto simp: extends_def\<close>)
    moreover have "slot (g_visited g') pos = Some p" "pos < hs_size (g_visited g')"
      using g1(4,7,11) g2(3) g'(4) by (auto simp: extends_def)
    ultimately show ?thesis using g' t False by (intro exI [of _ pos] exI [of _ g'] exI [of _ nm']) (simp add: visit_post_def)
  qed
qed

subsection \<open>A finished graph\<close>

text \<open>Between two calls of \<open>ggml_build_forward_expand\<close> everything that has been visited is in the graph.\<close>

definition graph_ok :: "heap \<Rightarrow> ggml_cgraph \<Rightarrow> bool" where
  "graph_ok h g \<longleftrightarrow> g_inv h (\<lambda>_. 0) g \<and> visited g = emitted g"

lemma new_graph_ok: "graph_ok h (ggml_new_graph_custom garbage counts sz)"
proof -
  let ?g = "ggml_new_graph_custom garbage counts sz"
  have size: "sz * 2 \<le> ggml_hash_size (sz * 2)" "0 < ggml_hash_size (sz * 2)" by (rule hash_size_enough)+
  have v: "g_visited ?g = ggml_hash_set_new garbage (sz * 2)" by (simp add: ggml_new_graph_custom_def Let_def)
  have hs: "hs_inv (g_visited ?g)" "keys_of (g_visited ?g) = {}" "hs_size (g_visited ?g) = ggml_hash_size (sz * 2)"
    unfolding v by (rule new_empty [OF size(2)])+
  have "slot (g_visited ?g) i \<noteq> Some k" if "i < hs_size (g_visited ?g)" for i k
    using hs(2) that by (auto simp: keys_of_def)
  then have "counts_ok h (\<lambda>_. 0) ?g" by (simp add: counts_ok_def)
  moreover have "visited ?g = {}" "emitted ?g = {}" "g_size ?g = sz" "g_nodes ?g = []" "g_leafs ?g = []"
    "length (g_use_counts ?g) = ggml_hash_size (sz * 2)"
    using hs(2) by (simp_all add: visited_def emitted_def ggml_new_graph_custom_def Let_def)
  moreover have "sz < ggml_hash_size (sz * 2)" using size by linarith
  ultimately show ?thesis using hs by (simp add: graph_ok_def g_inv_def in_order_def)
qed

text \<open>
  C35. Building the graph of a result adds exactly the tensors the result depends on that were not
  there yet, each once, behind the nodes they depend on, and leaves what was there in place.  In
  the graph the nodes are in an order in which they can be computed, and the use count of every
  tensor is the number of times it is a source.
\<close>

theorem build_forward_correct:
  assumes "heap_ok h" "graph_ok h g" and t: "h p = Some t" and leaf: "is_leaf t \<longrightarrow> set (t_src t) \<subseteq> {None}"
    and room: "card (visited g \<union> below h p) \<le> g_size g" and fuel: "card (below h p) < fuel"
  shows "\<exists>g' nm'. ggml_build_forward_expand fuel h p (g, nm) = Inr (g', nm') \<and> graph_ok h g' \<and>
    (\<exists>ls ns. g_leafs g' = g_leafs g @ ls \<and> g_nodes g' = g_nodes g @ ns \<and> distinct (ls @ ns) \<and>
       set ls \<union> set ns = below h p - emitted g) \<and>
    (\<forall>i < length (g_nodes g'). \<forall>s. (g_nodes g' ! i, s) \<in> edges h \<longrightarrow>
       s \<in> set (g_leafs g') \<union> set (take i (g_nodes g'))) \<and>
    (\<forall>i < hs_size (g_visited g'). \<forall>s. slot (g_visited g') i = Some s \<longrightarrow>
       g_use_counts g' ! i = (\<Sum>n \<in> emitted g'. times_used h n s))"
proof -
  have g: "g_inv h (\<lambda>_. 0) g" "visited g = emitted g" using assms(2) by (simp_all add: graph_ok_def)
  have dom: "p \<in> dom h" using t by blast
  have "visit_pre h p (\<lambda>_. 0) g" using g dom room by (simp add: visit_pre_def)
  moreover have "card (below h p - visited g) < fuel"
    using fuel below_finite [OF assms(1) dom] by (meson card_Diff1_le card_mono Diff_subset le_less_trans)
  ultimately obtain pos g' nm' where v: "ggml_visit_parents fuel h p (g, nm) = Inr (pos, g', nm')"
    and post: "visit_post h p (\<lambda>_. 0) g pos g'"
    using visit_ok [OF assms(1)] by blast
  have inv': "g_inv h (\<lambda>_. 0) g'" and ext: "extends h (below h p) g g'" using post by (simp_all add: visit_post_def)
  obtain ls ns where new: "g_leafs g' = g_leafs g @ ls" "g_nodes g' = g_nodes g @ ns"
    using ext by (auto simp: extends_def)
  have dist: "distinct (g_leafs g' @ g_nodes g')" using inv' by (simp add: g_inv_def)
  have em: "emitted g' = emitted g \<union> (below h p - visited g)" using ext by (simp add: extends_def)
  have "set ls \<union> set ns = emitted g' - emitted g"
    using dist unfolding emitted_def new by auto
  then have added: "set ls \<union> set ns = below h p - emitted g" using em g(2) by auto
  have last: "last (g_nodes g') = p" if "ns \<noteq> []"
  proof (cases "is_leaf t")
    case True
    then have "{s. Some s \<in> set (t_src t)} = {}" using leaf by auto
    then have "below h p = {p}" using below_unfold [of h p t] t by simp
    then have "set ns \<subseteq> {p}" using added by auto
    then show ?thesis using that new(2) by (metis last_appendR last_in_set singletonD subsetD)
  next
    case False
    have "p \<notin> visited g" using that post new(2) by (auto simp: visit_post_def)
    then show ?thesis using post False t by (simp add: visit_post_def)
  qed
  have "ggml_build_forward_expand fuel h p (g, nm) = Inr (g', nm')"
    using v last new(2)
    by (cases "ns = []") (simp_all add: ggml_build_forward_expand_def ggml_build_forward_impl_def)
  moreover have "graph_ok h g'" using inv' ext g(2) unfolding graph_ok_def extends_def by blast
  moreover have "distinct (ls @ ns)" using dist by (auto simp: new)
  moreover have "in_order h g'" "counts_ok h (\<lambda>_. 0) g'" using inv' by (simp_all add: g_inv_def)
  ultimately show ?thesis using new added unfolding in_order_def counts_ok_def by auto
qed

end
