(* ===== verification/Gallocr.thy ===== *)
theory Gallocr
  imports Tallocr Graph
begin

text \<open>
  The graph allocator of \<open>src/ggml-alloc.c\<close>: given the order in which the nodes of a graph will be
  computed it assigns a place in memory to every tensor, releases the place after the last use
  and lets an operation that works in place take over the memory of a source.  Places are
  decided first, by the dynamic allocators of \<open>Tallocr\<close>; buffers are allocated afterwards with the
  sizes that turned out to be needed.
\<close>

subsection \<open>Buffer types\<close>

text \<open>The interface of a buffer type, a table of functions that a back end provides; two are optional.\<close>

record buft_iface =
  if_alignment :: size_t
  if_max_size :: "size_t option"
  if_alloc_size :: "(graph_tensor \<Rightarrow> size_t) option"

type_synonym bufts = "ptr \<Rightarrow> buft_iface"

definition ggml_backend_buft_get_alignment :: "bufts \<Rightarrow> ptr \<Rightarrow> size_t" where
  "ggml_backend_buft_get_alignment B buft = if_alignment (B buft)"

definition ggml_backend_buft_get_max_size :: "bufts \<Rightarrow> ptr \<Rightarrow> size_t" where
  "ggml_backend_buft_get_max_size B buft = (case if_max_size (B buft) of Some s \<Rightarrow> s | None \<Rightarrow> SIZE_MAX)"

definition tensor_nbytes :: "graph_tensor \<Rightarrow> size_t" where
  "tensor_nbytes t = ggml_nbytes (ggml_tensor.truncate t)"

definition ggml_backend_buft_get_alloc_size :: "bufts \<Rightarrow> ptr \<Rightarrow> graph_tensor \<Rightarrow> size_t outcome" where
  "ggml_backend_buft_get_alloc_size B buft t =
     (case if_alloc_size (B buft) of
        Some f \<Rightarrow> bnd (ensure (f t \<ge> tensor_nbytes t) Aborted) (\<lambda>_. Inr (f t))
      | None \<Rightarrow> Inr (tensor_nbytes t))"

subsection \<open>State\<close>

record hash_node =
  hn_children :: int
  hn_views :: int
  hn_buffer :: nat
  hn_addr :: buffer_address
  hn_allocated :: bool

definition zero_node :: hash_node where
  "zero_node = \<lparr>hn_children = 0, hn_views = 0, hn_buffer = 0, hn_addr = (0, 0), hn_allocated = False\<rparr>"

record tensor_alloc =
  tl_buffer :: int
  tl_addr :: "int \<times> size_t"
  tl_size_max :: size_t

record node_alloc =
  na_dst :: tensor_alloc
  na_src :: "tensor_alloc list"

text \<open>A back end buffer: its address, its type, the base of its memory and its size.\<close>

record backend_buffer =
  bb_ptr :: ptr
  bb_buft :: ptr
  bb_base :: ptr
  bb_size :: size_t

text \<open>
  \<open>ga_talloc_of\<close> is the array \<open>buf_tallocs\<close>: several buffers of one type point to the same allocator,
  here to the same element of \<open>ga_tallocs\<close>.  A virtual buffer is the list of its chunks.
\<close>

type_synonym vbuffer = "backend_buffer list"

record ggml_gallocr =
  ga_bufts :: "ptr list"
  ga_buffers :: "vbuffer option list"
  ga_talloc_of :: "nat list"
  ga_tallocs :: "ggml_dyn_tallocr list"
  ga_hash_set :: ggml_hash_set
  ga_hash_values :: "hash_node list"
  ga_node_allocs :: "node_alloc list"
  ga_leaf_allocs :: "tensor_alloc list"

definition add_buffer_type :: "bufts \<Rightarrow> ptr \<Rightarrow> ggml_gallocr \<Rightarrow> ggml_gallocr" where
  "add_buffer_type B buft ga =
     (let ga' = ga\<lparr>ga_bufts := ga_bufts ga @ [buft], ga_buffers := ga_buffers ga @ [None]\<rparr> in
      case find (\<lambda>j. ga_bufts ga ! j = buft) [0..<length (ga_bufts ga)] of
        Some j \<Rightarrow> ga'\<lparr>ga_talloc_of := ga_talloc_of ga @ [ga_talloc_of ga ! j]\<rparr>
      | None \<Rightarrow> ga'\<lparr>ga_talloc_of := ga_talloc_of ga @ [length (ga_tallocs ga)],
                   ga_tallocs := ga_tallocs ga @ [ggml_dyn_tallocr_new (ggml_backend_buft_get_alignment B buft)
                     (ggml_backend_buft_get_max_size B buft)]\<rparr>)"

definition ggml_gallocr_new_n :: "bufts \<Rightarrow> ptr list \<Rightarrow> ggml_gallocr" where
  "ggml_gallocr_new_n B bufts =
     fold (add_buffer_type B) bufts
       \<lparr>ga_bufts = [], ga_buffers = [], ga_talloc_of = [], ga_tallocs = [],
        ga_hash_set = \<lparr>hs_size = 0, hs_used = [], hs_keys = []\<rparr>, ga_hash_values = [],
        ga_node_allocs = [], ga_leaf_allocs = []\<rparr>"

definition ggml_gallocr_new :: "bufts \<Rightarrow> ptr \<Rightarrow> ggml_gallocr" where
  "ggml_gallocr_new B buft = ggml_gallocr_new_n B [buft]"

subsection \<open>The table of tensors\<close>

text \<open>The C function returns a pointer into \<open>hash_values\<close>: here the index.\<close>

definition ggml_gallocr_hash_get :: "ggml_gallocr \<Rightarrow> ptr \<Rightarrow> (nat \<times> ggml_gallocr) outcome" where
  "ggml_gallocr_hash_get ga p =
     bnd (ggml_hash_find_or_insert (ga_hash_set ga) p) (\<lambda>(i, hs).
     bnd (ensure (i < length (ga_hash_values ga)) Undefined) (\<lambda>_. Inr (i, ga\<lparr>ga_hash_set := hs\<rparr>)))"

definition hnode :: "ggml_gallocr \<Rightarrow> nat \<Rightarrow> hash_node" where
  "hnode ga i = ga_hash_values ga ! i"

definition set_hnode :: "nat \<Rightarrow> (hash_node \<Rightarrow> hash_node) \<Rightarrow> ggml_gallocr \<Rightarrow> ggml_gallocr" where
  "set_hnode i f ga = ga\<lparr>ga_hash_values := (ga_hash_values ga)[i := f (hnode ga i)]\<rparr>"

definition talloc_at :: "ggml_gallocr \<Rightarrow> nat \<Rightarrow> ggml_dyn_tallocr outcome" where
  "talloc_at ga b = bnd (elem (ga_talloc_of ga) b) (elem (ga_tallocs ga))"

definition put_talloc :: "nat \<Rightarrow> ggml_dyn_tallocr \<Rightarrow> ggml_gallocr \<Rightarrow> ggml_gallocr" where
  "put_talloc b a ga = ga\<lparr>ga_tallocs := (ga_tallocs ga)[ga_talloc_of ga ! b := a]\<rparr>"

definition alloc_size_in :: "bufts \<Rightarrow> ggml_gallocr \<Rightarrow> nat \<Rightarrow> graph_tensor \<Rightarrow> size_t outcome" where
  "alloc_size_in B ga b t = bnd (elem (ga_bufts ga) b) (\<lambda>buft. ggml_backend_buft_get_alloc_size B buft t)"

definition ggml_is_view :: "graph_tensor \<Rightarrow> bool" where
  "ggml_is_view t \<longleftrightarrow> t_view_src t \<noteq> None"

definition has_flag :: "graph_tensor \<Rightarrow> 32 word \<Rightarrow> bool" where
  "has_flag t f \<longleftrightarrow> t_flags t AND f \<noteq> 0"

definition ggml_op_can_inplace :: "ggml_op \<Rightarrow> bool" where
  "ggml_op_can_inplace x \<longleftrightarrow>
     x \<in> set [GGML_OP_FILL, GGML_OP_SCALE, GGML_OP_DIAG_MASK_ZERO, GGML_OP_DIAG_MASK_INF, GGML_OP_ADD,
       GGML_OP_ADD_ID, GGML_OP_ADD1, GGML_OP_SUB, GGML_OP_MUL, GGML_OP_DIV, GGML_OP_SQR, GGML_OP_SQRT,
       GGML_OP_LOG, GGML_OP_UNARY, GGML_OP_ROPE, GGML_OP_ROPE_BACK, GGML_OP_SILU_BACK, GGML_OP_RMS_NORM,
       GGML_OP_RMS_NORM_BACK, GGML_OP_SOFT_MAX, GGML_OP_SOFT_MAX_BACK]"

definition ggml_are_same_layout :: "graph_tensor \<Rightarrow> graph_tensor \<Rightarrow> bool" where
  "ggml_are_same_layout a b \<longleftrightarrow> t_type a = t_type b \<and>
     (\<forall>i \<in> set [0..<GGML_MAX_DIMS]. t_ne a ! i = t_ne b ! i \<and> t_nb a ! i = t_nb b ! i)"

definition ggml_gallocr_is_own :: "ggml_gallocr \<Rightarrow> ptr \<Rightarrow> (bool \<times> ggml_gallocr) outcome" where
  "ggml_gallocr_is_own ga p = bnd (ggml_gallocr_hash_get ga p) (\<lambda>(i, ga). Inr (hn_allocated (hnode ga i), ga))"

definition ggml_gallocr_is_allocated :: "heap \<Rightarrow> ggml_gallocr \<Rightarrow> ptr \<Rightarrow> (bool \<times> ggml_gallocr) outcome" where
  "ggml_gallocr_is_allocated h ga p =
     bnd (deref h p) (\<lambda>t.
     if t_addr t \<noteq> None \<or> t_buffer t \<noteq> None then Inr (True, ga) else ggml_gallocr_is_own ga p)"

subsection \<open>Placing one tensor\<close>

definition ggml_gallocr_free_extra_space ::
  "bufts \<Rightarrow> heap \<Rightarrow> ptr \<Rightarrow> ptr \<Rightarrow> ggml_gallocr \<Rightarrow> ggml_gallocr outcome" where
  "ggml_gallocr_free_extra_space B h node parent ga =
     bnd (ggml_gallocr_hash_get ga node) (\<lambda>(i, ga).
     bnd (ggml_gallocr_hash_get ga parent) (\<lambda>(j, ga).
     bnd (bnd (deref h parent) (alloc_size_in B ga (hn_buffer (hnode ga j)))) (\<lambda>parent_size.
     bnd (bnd (deref h node) (alloc_size_in B ga (hn_buffer (hnode ga i)))) (\<lambda>node_size.
     bnd (ensure (parent_size \<ge> node_size) Aborted) (\<lambda>_.
     bnd (talloc_at ga (hn_buffer (hnode ga j))) (\<lambda>p_alloc.
     bnd (aligned_offset 0 parent_size (ta_alignment p_alloc)) (\<lambda>parent_size.
     bnd (aligned_offset 0 node_size (ta_alignment p_alloc)) (\<lambda>node_size.
     if parent_size > node_size then
       let (c, offset) = hn_addr (hnode ga j) in
       bnd (ggml_dyn_tallocr_free_bytes p_alloc (c, offset + node_size) (parent_size - node_size)) (\<lambda>p_alloc.
       Inr (put_talloc (hn_buffer (hnode ga j)) p_alloc ga))
     else Inr ga))))))))"

text \<open>The node takes over the memory of its parent.\<close>

definition take_over :: "nat \<Rightarrow> nat \<Rightarrow> ggml_gallocr \<Rightarrow> ggml_gallocr" where
  "take_over i j ga =
     set_hnode j (\<lambda>n. n\<lparr>hn_allocated := False\<rparr>)
       (set_hnode i (\<lambda>n. n\<lparr>hn_buffer := hn_buffer (hnode ga j), hn_addr := hn_addr (hnode ga j)\<rparr>) ga)"

definition is_output :: "heap \<Rightarrow> graph_tensor \<Rightarrow> bool outcome" where
  "is_output h t =
     (if has_flag t GGML_TENSOR_FLAG_OUTPUT then Inr True
      else case t_view_src t of
        None \<Rightarrow> Inr False
      | Some v \<Rightarrow> bnd (deref h v) (\<lambda>tv. Inr (has_flag tv GGML_TENSOR_FLAG_OUTPUT)))"

text \<open>One source in the loop that looks for a parent whose memory the node can reuse.\<close>

definition reuse_parent ::
  "bufts \<Rightarrow> heap \<Rightarrow> ptr \<Rightarrow> graph_tensor \<Rightarrow> nat \<Rightarrow> ptr \<Rightarrow> ggml_gallocr \<Rightarrow> (bool \<times> ggml_gallocr) outcome" where
  "reuse_parent B h node t i parent ga =
     bnd (ggml_gallocr_is_own ga parent) (\<lambda>(own, ga).
     if \<not> own then Inr (False, ga)
     else bnd (deref h parent) (\<lambda>pt.
       bnd (is_output h pt) (\<lambda>out.
       if out \<or> \<not> ggml_are_same_layout t pt then Inr (False, ga)
       else bnd (ggml_gallocr_hash_get ga parent) (\<lambda>(j, ga).
         if hn_children (hnode ga j) = 1 \<and> hn_views (hnode ga j) = 0 then
           case t_view_src pt of
             Some v \<Rightarrow>
               bnd (ggml_gallocr_hash_get ga v) (\<lambda>(k, ga).
               bnd (deref h v) (\<lambda>vt.
               if hn_views (hnode ga k) = 1 \<and> hn_children (hnode ga k) = 0 \<and> t_addr vt = t_addr pt then
                 bnd (ensure (hn_addr (hnode ga k) = hn_addr (hnode ga j)) Aborted) (\<lambda>_.
                 bnd (ggml_gallocr_free_extra_space B h node v
                        (set_hnode k (\<lambda>n. n\<lparr>hn_allocated := False\<rparr>) (take_over i j ga))) (\<lambda>ga.
                 Inr (True, ga)))
               else Inr (False, ga)))
           | None \<Rightarrow>
               bnd (ggml_gallocr_free_extra_space B h node parent (take_over i j ga)) (\<lambda>ga. Inr (True, ga))
         else Inr (False, ga)))))"

fun reuse_loop ::
  "bufts \<Rightarrow> heap \<Rightarrow> ptr \<Rightarrow> graph_tensor \<Rightarrow> nat \<Rightarrow> ptr option list \<Rightarrow> ggml_gallocr \<Rightarrow> (bool \<times> ggml_gallocr) outcome" where
  "reuse_loop B h node t i [] ga = Inr (False, ga)"
| "reuse_loop B h node t i (None # srcs) ga = reuse_loop B h node t i srcs ga"
| "reuse_loop B h node t i (Some parent # srcs) ga =
     bnd (reuse_parent B h node t i parent ga) (\<lambda>(reused, ga).
     if reused then Inr (True, ga) else reuse_loop B h node t i srcs ga)"

definition place_fresh :: "bufts \<Rightarrow> graph_tensor \<Rightarrow> nat \<Rightarrow> nat \<Rightarrow> ggml_gallocr \<Rightarrow> ggml_gallocr outcome" where
  "place_fresh B t i b ga =
     bnd (talloc_at ga b) (\<lambda>a.
     bnd (alloc_size_in B ga b t) (\<lambda>sz.
     bnd (ggml_dyn_tallocr_alloc a sz) (\<lambda>(addr, a).
     Inr (put_talloc b a (set_hnode i (\<lambda>n. n\<lparr>hn_buffer := b, hn_addr := addr\<rparr>) ga)))))"

definition ggml_gallocr_allocate_node :: "bufts \<Rightarrow> heap \<Rightarrow> ptr \<Rightarrow> int \<Rightarrow> ggml_gallocr \<Rightarrow> ggml_gallocr outcome" where
  "ggml_gallocr_allocate_node B h node buffer_id ga =
     bnd (ensure (0 \<le> buffer_id) Aborted) (\<lambda>_.
     bnd (ggml_gallocr_hash_get ga node) (\<lambda>(i, ga).
     bnd (ggml_gallocr_is_allocated h ga node) (\<lambda>(allocated, ga).
     bnd (deref h node) (\<lambda>t.
     if allocated \<or> ggml_is_view t then Inr ga
     else
       let ga = set_hnode i (\<lambda>n. n\<lparr>hn_allocated := True\<rparr>) ga in
       bnd (ensure (snd (hn_addr (hnode ga i)) = 0) Aborted) (\<lambda>_.
       bnd (if ggml_op_can_inplace (t_op t) then reuse_loop B h node t i (t_src t) ga else Inr (False, ga)) (\<lambda>(reused, ga).
       if reused then Inr ga else place_fresh B t i (nat buffer_id) ga))))))"

definition ggml_gallocr_free_node :: "bufts \<Rightarrow> heap \<Rightarrow> ptr \<Rightarrow> ggml_gallocr \<Rightarrow> ggml_gallocr outcome" where
  "ggml_gallocr_free_node B h node ga =
     bnd (deref h node) (\<lambda>t.
     if has_flag t GGML_TENSOR_FLAG_OUTPUT then Inr ga
     else
       bnd (ggml_gallocr_hash_get ga node) (\<lambda>(i, ga).
       let b = hn_buffer (hnode ga i) in
       bnd (talloc_at ga b) (\<lambda>a.
       bnd (alloc_size_in B ga b t) (\<lambda>sz.
       bnd (ggml_dyn_tallocr_free_bytes a (hn_addr (hnode ga i)) sz) (\<lambda>a.
       Inr (set_hnode i (\<lambda>n. n\<lparr>hn_allocated := False\<rparr>) (put_talloc b a ga)))))))"

subsection \<open>Placing the tensors of a graph\<close>

definition get_node_buffer_id :: "int list option \<Rightarrow> nat \<Rightarrow> int outcome" where
  "get_node_buffer_id ids i = (case ids of None \<Rightarrow> Inr 0 | Some xs \<Rightarrow> elem xs i)"

definition each_src :: "(ptr \<Rightarrow> 's \<Rightarrow> 's outcome) \<Rightarrow> graph_tensor \<Rightarrow> 's \<Rightarrow> 's outcome" where
  "each_src f t = each_outcome (\<lambda>s. case s of None \<Rightarrow> Inr | Some p \<Rightarrow> f p) (t_src t)"

definition place_leaf :: "bufts \<Rightarrow> heap \<Rightarrow> ggml_cgraph \<Rightarrow> int list option \<Rightarrow> nat \<Rightarrow> ggml_gallocr \<Rightarrow> ggml_gallocr outcome" where
  "place_leaf B h g ids i ga =
     bnd (get_node_buffer_id ids i) (\<lambda>b. ggml_gallocr_allocate_node B h (g_leafs g ! i) b ga)"

definition count_src :: "bufts \<Rightarrow> heap \<Rightarrow> int outcome \<Rightarrow> ptr \<Rightarrow> ggml_gallocr \<Rightarrow> ggml_gallocr outcome" where
  "count_src B h buffer_id p ga =
     bnd (ggml_gallocr_hash_get ga p) (\<lambda>(i, ga).
     let ga = set_hnode i (\<lambda>n. n\<lparr>hn_children := hn_children n + 1\<rparr>) ga in
     bnd (deref h p) (\<lambda>t.
     if has_flag t GGML_TENSOR_FLAG_INPUT
     then bnd buffer_id (\<lambda>b. ggml_gallocr_allocate_node B h p b ga)
     else Inr ga))"

definition count_node :: "bufts \<Rightarrow> heap \<Rightarrow> ggml_cgraph \<Rightarrow> int list option \<Rightarrow> nat \<Rightarrow> ggml_gallocr \<Rightarrow> ggml_gallocr outcome" where
  "count_node B h g ids i ga =
     (let node = g_nodes g ! i in
      bnd (deref h node) (\<lambda>t.
      bnd (case t_view_src t of
             Some v \<Rightarrow>
               if t_op t \<noteq> GGML_OP_NONE then
                 bnd (ggml_gallocr_hash_get ga v) (\<lambda>(k, ga). Inr (set_hnode k (\<lambda>n. n\<lparr>hn_views := hn_views n + 1\<rparr>) ga))
               else Inr ga
           | None \<Rightarrow> Inr ga) (\<lambda>ga.
      bnd (if has_flag t GGML_TENSOR_FLAG_INPUT
           then bnd (get_node_buffer_id ids i) (\<lambda>b. ggml_gallocr_allocate_node B h node b ga)
           else Inr ga) (\<lambda>ga.
      each_src (count_src B h (get_node_buffer_id ids i)) t ga))))"

definition update_parent :: "bufts \<Rightarrow> heap \<Rightarrow> ptr \<Rightarrow> ggml_gallocr \<Rightarrow> ggml_gallocr outcome" where
  "update_parent B h parent ga =
     bnd (ggml_gallocr_hash_get ga parent) (\<lambda>(j, ga).
     let ga = set_hnode j (\<lambda>n. n\<lparr>hn_children := hn_children n - 1\<rparr>) ga in
     if hn_children (hnode ga j) = 0 \<and> hn_views (hnode ga j) = 0 then
       bnd (deref h parent) (\<lambda>pt.
       case t_view_src pt of
         Some v \<Rightarrow>
           bnd (ggml_gallocr_hash_get ga v) (\<lambda>(k, ga).
           let ga = set_hnode k (\<lambda>n. n\<lparr>hn_views := hn_views n - 1\<rparr>) ga in
           if hn_views (hnode ga k) = 0 \<and> hn_children (hnode ga k) = 0 \<and> hn_allocated (hnode ga k)
           then ggml_gallocr_free_node B h v ga else Inr ga)
       | None \<Rightarrow> if hn_allocated (hnode ga j) then ggml_gallocr_free_node B h parent ga else Inr ga)
     else Inr ga)"

definition place_node :: "bufts \<Rightarrow> heap \<Rightarrow> ggml_cgraph \<Rightarrow> int list option \<Rightarrow> nat \<Rightarrow> ggml_gallocr \<Rightarrow> ggml_gallocr outcome" where
  "place_node B h g ids i ga =
     (let node = g_nodes g ! i in
      bnd (get_node_buffer_id ids i) (\<lambda>buffer_id.
      bnd (deref h node) (\<lambda>t.
      bnd (each_src (\<lambda>parent. ggml_gallocr_allocate_node B h parent buffer_id) t ga) (\<lambda>ga.
      bnd (ggml_gallocr_allocate_node B h node buffer_id ga) (\<lambda>ga.
      each_src (update_parent B h) t ga)))))"

definition ggml_gallocr_alloc_graph_impl ::
  "bufts \<Rightarrow> heap \<Rightarrow> ggml_cgraph \<Rightarrow> int list option \<Rightarrow> int list option \<Rightarrow> ggml_gallocr \<Rightarrow> ggml_gallocr outcome" where
  "ggml_gallocr_alloc_graph_impl B h g node_ids leaf_ids ga =
     (let ga = ga\<lparr>ga_hash_set := ggml_hash_set_reset (ga_hash_set ga),
                 ga_hash_values := replicate (hs_size (ga_hash_set ga)) zero_node\<rparr> in
      bnd (each_outcome (place_leaf B h g leaf_ids) [0..<length (g_leafs g)] ga) (\<lambda>ga.
      bnd (each_outcome (count_node B h g node_ids) [0..<length (g_nodes g)] ga) (\<lambda>ga.
      each_outcome (place_node B h g node_ids) [0..<length (g_nodes g)] ga)))"

subsection \<open>Reserving memory\<close>

definition no_place :: tensor_alloc where
  "no_place = \<lparr>tl_buffer = - 1, tl_addr = (- 1, SIZE_MAX), tl_size_max = 0\<rparr>"

definition place_at :: "bufts \<Rightarrow> graph_tensor \<Rightarrow> nat \<Rightarrow> ggml_gallocr \<Rightarrow> tensor_alloc outcome" where
  "place_at B t i ga =
     (let n = hnode ga i in
      bnd (alloc_size_in B ga (hn_buffer n) t) (\<lambda>sz.
      Inr \<lparr>tl_buffer = int (hn_buffer n), tl_addr = (int (fst (hn_addr n)), snd (hn_addr n)), tl_size_max = sz\<rparr>))"

definition tensor_place :: "bufts \<Rightarrow> heap \<Rightarrow> ptr \<Rightarrow> ggml_gallocr \<Rightarrow> (tensor_alloc \<times> ggml_gallocr) outcome" where
  "tensor_place B h p ga =
     bnd (deref h p) (\<lambda>t.
     if t_view_src t \<noteq> None \<or> t_addr t \<noteq> None then Inr (no_place, ga)
     else bnd (ggml_gallocr_hash_get ga p) (\<lambda>(i, ga). bnd (place_at B t i ga) (\<lambda>ta. Inr (ta, ga))))"

definition leaf_place :: "bufts \<Rightarrow> heap \<Rightarrow> ptr \<Rightarrow> ggml_gallocr \<Rightarrow> (tensor_alloc \<times> ggml_gallocr) outcome" where
  "leaf_place B h p ga =
     bnd (ggml_gallocr_hash_get ga p) (\<lambda>(i, ga).
     bnd (deref h p) (\<lambda>t.
     if t_view_src t \<noteq> None \<or> t_addr t \<noteq> None then Inr (no_place, ga)
     else bnd (place_at B t i ga) (\<lambda>ta. Inr (ta, ga))))"

fun collect_places :: "('a \<Rightarrow> 's \<Rightarrow> ('b \<times> 's) outcome) \<Rightarrow> 'a list \<Rightarrow> 's \<Rightarrow> ('b list \<times> 's) outcome" where
  "collect_places f [] s = Inr ([], s)"
| "collect_places f (x # xs) s = bnd (f x s) (\<lambda>(y, s). bnd (collect_places f xs s) (\<lambda>(ys, s). Inr (y # ys, s)))"

definition node_places :: "bufts \<Rightarrow> heap \<Rightarrow> ptr \<Rightarrow> ggml_gallocr \<Rightarrow> (node_alloc \<times> ggml_gallocr) outcome" where
  "node_places B h p ga =
     bnd (tensor_place B h p ga) (\<lambda>(dst, ga).
     bnd (deref h p) (\<lambda>t.
     bnd (collect_places (\<lambda>src ga. case src of None \<Rightarrow> Inr (no_place, ga) | Some s \<Rightarrow> tensor_place B h s ga) (t_src t) ga) (\<lambda>(srcs, ga).
     Inr (\<lparr>na_dst = dst, na_src = srcs\<rparr>, ga))))"

definition resize_table :: "ptr list \<Rightarrow> ggml_cgraph \<Rightarrow> ggml_gallocr \<Rightarrow> ggml_gallocr" where
  "resize_table garbage g ga =
     (let n = length (g_nodes g) + length (g_leafs g);
          min_hash_size = n + n div 4;
          hs = ggml_hash_set_new garbage min_hash_size
      in if hs_size (ga_hash_set ga) < min_hash_size
         then ga\<lparr>ga_hash_set := hs, ga_hash_values := replicate (hs_size hs) zero_node\<rparr>
         else ga)"

text \<open>
  Where every tensor of the graph will be.  The memory that is not yet initialised in the new
  table (\<open>garbage\<close> and the hash values) is cleared before it is read.
\<close>

definition place_graph ::
  "bufts \<Rightarrow> heap \<Rightarrow> ptr list \<Rightarrow> ggml_cgraph \<Rightarrow> int list option \<Rightarrow> int list option \<Rightarrow> ggml_gallocr \<Rightarrow> ggml_gallocr outcome" where
  "place_graph B h garbage g node_ids leaf_ids ga =
     (let ga = resize_table garbage g ga;
          ga = ga\<lparr>ga_tallocs := map ggml_dyn_tallocr_reset (ga_tallocs ga)\<rparr> in
      bnd (ggml_gallocr_alloc_graph_impl B h g node_ids leaf_ids ga) (\<lambda>ga.
      bnd (collect_places (node_places B h) (g_nodes g) ga) (\<lambda>(nodes, ga).
      bnd (collect_places (leaf_place B h) (g_leafs g) ga) (\<lambda>(leafs, ga).
      Inr (ga\<lparr>ga_node_allocs := nodes, ga_leaf_allocs := leafs\<rparr>)))))"

text \<open>
  The back end's allocation of a buffer is a parameter: the buffer or \<open>None\<close> for the \<open>n\<close>-th call.
  The number of calls so far is kept next to the state.
\<close>

type_synonym alloc_buffer = "nat \<Rightarrow> ptr \<Rightarrow> size_t \<Rightarrow> backend_buffer option"

fun ggml_vbuffer_alloc :: "alloc_buffer \<Rightarrow> ptr \<Rightarrow> size_t list \<Rightarrow> nat \<Rightarrow> vbuffer option \<times> nat" where
  "ggml_vbuffer_alloc A buft [] n = (Some [], n)"
| "ggml_vbuffer_alloc A buft (sz # szs) n =
     (case A n buft sz of
        None \<Rightarrow> (None, n + 1)
      | Some b \<Rightarrow> (let (r, n) = ggml_vbuffer_alloc A buft szs (n + 1) in (map_option ((#) b) r, n)))"

definition ggml_vbuffer_chunk_size :: "vbuffer \<Rightarrow> nat \<Rightarrow> size_t" where
  "ggml_vbuffer_chunk_size buf c = (if c < length buf then bb_size (buf ! c) else 0)"

definition ggml_vbuffer_size :: "vbuffer \<Rightarrow> size_t" where
  "ggml_vbuffer_size buf = sum_list (map bb_size buf)"

definition share_buffer :: "nat \<Rightarrow> ggml_gallocr \<Rightarrow> ggml_gallocr" where
  "share_buffer i ga =
     (case find (\<lambda>j. ga_talloc_of ga ! j = ga_talloc_of ga ! i) [0..<i] of
        Some j \<Rightarrow> ga\<lparr>ga_buffers := (ga_buffers ga)[i := ga_buffers ga ! j]\<rparr>
      | None \<Rightarrow> ga)"

definition needs_larger :: "vbuffer option \<Rightarrow> size_t list \<Rightarrow> bool" where
  "needs_larger buf sizes \<longleftrightarrow> (case buf of
     None \<Rightarrow> True
   | Some v \<Rightarrow> (\<exists>c \<in> set [0..<length sizes]. sizes ! c > ggml_vbuffer_chunk_size v c))"

text \<open>The loop over the buffers ends at the first that cannot be allocated.\<close>

fun realloc_loop :: "alloc_buffer \<Rightarrow> bool \<Rightarrow> nat list \<Rightarrow> nat \<Rightarrow> ggml_gallocr \<Rightarrow> (bool \<times> nat \<times> ggml_gallocr) outcome" where
  "realloc_loop A no_alloc [] n ga = Inr (True, n, ga)"
| "realloc_loop A no_alloc (i # is) n ga =
     (let ga = share_buffer i ga in
      bnd (talloc_at ga i) (\<lambda>a.
      let sizes = map max_used (ta_chunks a) in
      if needs_larger (ga_buffers ga ! i) sizes then
        if no_alloc then realloc_loop A no_alloc is n (ga\<lparr>ga_buffers := (ga_buffers ga)[i := None]\<rparr>)
        else
          let (r, n) = ggml_vbuffer_alloc A (ga_bufts ga ! i) sizes n;
              ga = ga\<lparr>ga_buffers := (ga_buffers ga)[i := r]\<rparr>
          in if r = None then Inr (False, n, ga) else realloc_loop A no_alloc is n ga
      else realloc_loop A no_alloc is n ga))"

definition ggml_gallocr_reserve_n_impl ::
  "bufts \<Rightarrow> alloc_buffer \<Rightarrow> heap \<Rightarrow> ptr list \<Rightarrow> ggml_cgraph \<Rightarrow> int list option \<Rightarrow> int list option \<Rightarrow> bool \<Rightarrow> nat \<Rightarrow>
   ggml_gallocr \<Rightarrow> (bool \<times> nat \<times> ggml_gallocr) outcome" where
  "ggml_gallocr_reserve_n_impl B A h garbage g node_ids leaf_ids no_alloc n ga =
     bnd (place_graph B h garbage g node_ids leaf_ids ga) (\<lambda>ga.
     realloc_loop A no_alloc [0..<length (ga_bufts ga)] n ga)"

definition ggml_gallocr_reserve_n where
  "ggml_gallocr_reserve_n B A h garbage g node_ids leaf_ids n ga =
     ggml_gallocr_reserve_n_impl B A h garbage g node_ids leaf_ids False n ga"

definition ggml_gallocr_reserve where
  "ggml_gallocr_reserve B A h garbage g n ga = ggml_gallocr_reserve_n B A h garbage g None None n ga"

definition ggml_gallocr_reserve_n_size ::
  "bufts \<Rightarrow> alloc_buffer \<Rightarrow> heap \<Rightarrow> ptr list \<Rightarrow> ggml_cgraph \<Rightarrow> int list option \<Rightarrow> int list option \<Rightarrow> nat \<Rightarrow>
   ggml_gallocr \<Rightarrow> (size_t list \<times> nat \<times> ggml_gallocr) outcome" where
  "ggml_gallocr_reserve_n_size B A h garbage g node_ids leaf_ids n ga =
     bnd (ggml_gallocr_reserve_n_impl B A h garbage g node_ids leaf_ids True n ga) (\<lambda>(ok, n, ga).
     bnd (ensure ok Aborted) (\<lambda>_.
     bnd (collect_places (\<lambda>i ga. bnd (talloc_at ga i) (\<lambda>a. Inr (sum_list (map max_used (ta_chunks a)), ga)))
            [0..<length (ga_bufts ga)] ga) (\<lambda>(sizes, ga).
     Inr (sizes, n, ga))))"

subsection \<open>Giving the tensors their addresses\<close>

definition ptr_of :: "64 word \<Rightarrow> ptr option" where
  "ptr_of a = (if a = 0 then None else Some a)"

definition ggml_backend_buffer_get_base :: "backend_buffer \<Rightarrow> 64 word outcome" where
  "ggml_backend_buffer_get_base b =
     (if bb_size b = 0 then Inr 0 else bnd (ensure (bb_base b \<noteq> 0) Aborted) (\<lambda>_. Inr (bb_base b)))"

definition ggml_backend_view_init :: "ptr \<Rightarrow> heap \<Rightarrow> heap outcome" where
  "ggml_backend_view_init p h =
     bnd (deref h p) (\<lambda>t.
     bnd (ensure (t_buffer t = None) Aborted) (\<lambda>_.
     case t_view_src t of
       None \<Rightarrow> Inl Aborted
     | Some v \<Rightarrow>
         bnd (deref h v) (\<lambda>vt.
         case (t_buffer vt, t_addr vt) of
           (Some b, Some a) \<Rightarrow> Inr (h(p \<mapsto> t\<lparr>t_buffer := Some b, t_addr := ptr_of (a + t_view_offs t)\<rparr>))
         | _ \<Rightarrow> Inl Aborted)))"

definition ggml_backend_tensor_alloc :: "bufts \<Rightarrow> backend_buffer \<Rightarrow> ptr \<Rightarrow> 64 word \<Rightarrow> heap \<Rightarrow> heap outcome" where
  "ggml_backend_tensor_alloc B b p addr h =
     bnd (deref h p) (\<lambda>t.
     bnd (ensure (t_buffer t = None \<and> t_addr t = None \<and> t_view_src t = None) Aborted) (\<lambda>_.
     bnd (ggml_backend_buffer_get_base b) (\<lambda>base.
     bnd (ggml_backend_buft_get_alloc_size B (bb_buft b) t) (\<lambda>sz.
     bnd (ensure (addr \<ge> base \<and> addr + sz \<le> base + bb_size b) Aborted) (\<lambda>_.
     Inr (h(p \<mapsto> t\<lparr>t_buffer := Some (bb_ptr b), t_addr := ptr_of addr\<rparr>)))))))"

definition ggml_vbuffer_tensor_alloc :: "bufts \<Rightarrow> vbuffer \<Rightarrow> ptr \<Rightarrow> int \<times> size_t \<Rightarrow> heap \<Rightarrow> heap outcome" where
  "ggml_vbuffer_tensor_alloc B buf p addr h =
     bnd (ensure (0 \<le> fst addr) Undefined) (\<lambda>_.
     bnd (elem buf (nat (fst addr))) (\<lambda>b.
     bnd (ggml_backend_buffer_get_base b) (\<lambda>base.
     ggml_backend_tensor_alloc B b p (base + snd addr) h)))"

definition place_holds :: "bufts \<Rightarrow> ggml_gallocr \<Rightarrow> graph_tensor \<Rightarrow> tensor_alloc \<Rightarrow> bool outcome" where
  "place_holds B ga t ta =
     bnd (ensure (0 \<le> tl_buffer ta) Undefined) (\<lambda>_.
     bnd (alloc_size_in B ga (nat (tl_buffer ta)) t) (\<lambda>sz. Inr (sz \<le> tl_size_max ta)))"

definition ggml_gallocr_init_tensor :: "bufts \<Rightarrow> ggml_gallocr \<Rightarrow> ptr \<Rightarrow> tensor_alloc \<Rightarrow> heap \<Rightarrow> heap outcome" where
  "ggml_gallocr_init_tensor B ga p ta h =
     bnd (deref h p) (\<lambda>t.
     case t_view_src t of
       Some v \<Rightarrow>
         if t_buffer t = None then
           bnd (ensure (snd (tl_addr ta) = SIZE_MAX) Aborted) (\<lambda>_.
           bnd (deref h v) (\<lambda>vt. if t_buffer vt = None then Inr h else ggml_backend_view_init p h))
         else Inr h
     | None \<Rightarrow>
         if t_addr t = None then
           bnd (place_holds B ga t ta) (\<lambda>ok.
           bnd (ensure (ok \<and> snd (tl_addr ta) \<noteq> SIZE_MAX) Aborted) (\<lambda>_.
           bnd (elem (ga_buffers ga) (nat (tl_buffer ta))) (\<lambda>buf.
           case buf of None \<Rightarrow> Inl Undefined | Some buf \<Rightarrow> ggml_vbuffer_tensor_alloc B buf p (tl_addr ta) h)))
         else Inr h)"

text \<open>Despite its name the C function returns true when the place is still good.\<close>

definition ggml_gallocr_node_needs_realloc ::
  "bufts \<Rightarrow> heap \<Rightarrow> ggml_gallocr \<Rightarrow> ptr \<Rightarrow> tensor_alloc \<Rightarrow> bool outcome" where
  "ggml_gallocr_node_needs_realloc B h ga p ta =
     bnd (deref h p) (\<lambda>t.
     if t_addr t = None \<and> t_view_src t = None then
       if tl_buffer ta < 0 then Inr False
       else bnd (alloc_size_in B ga (nat (tl_buffer ta)) t) (\<lambda>sz. Inr (tl_size_max ta \<ge> sz))
     else Inr True)"

fun all_good :: "(nat \<Rightarrow> bool outcome) \<Rightarrow> nat list \<Rightarrow> bool outcome" where
  "all_good f [] = Inr True"
| "all_good f (i # is) = bnd (f i) (\<lambda>ok. if ok then all_good f is else Inr False)"

definition node_good :: "bufts \<Rightarrow> heap \<Rightarrow> ggml_cgraph \<Rightarrow> ggml_gallocr \<Rightarrow> nat \<Rightarrow> bool outcome" where
  "node_good B h g ga i =
     (let p = g_nodes g ! i; na = ga_node_allocs ga ! i in
      bnd (ggml_gallocr_node_needs_realloc B h ga p (na_dst na)) (\<lambda>ok.
      if \<not> ok then Inr False
      else bnd (deref h p) (\<lambda>t.
        all_good (\<lambda>j. case t_src t ! j of
          None \<Rightarrow> Inr True
        | Some s \<Rightarrow> bnd (elem (na_src na) j) (\<lambda>ta. ggml_gallocr_node_needs_realloc B h ga s ta)) [0..<length (t_src t)])))"

definition ggml_gallocr_needs_realloc :: "bufts \<Rightarrow> heap \<Rightarrow> ggml_cgraph \<Rightarrow> ggml_gallocr \<Rightarrow> bool outcome" where
  "ggml_gallocr_needs_realloc B h g ga =
     (if length (ga_node_allocs ga) \<noteq> length (g_nodes g) then Inr True
      else if length (ga_leaf_allocs ga) \<noteq> length (g_leafs g) then Inr True
      else bnd (all_good (node_good B h g ga) [0..<length (g_nodes g)]) (\<lambda>ok. Inr (\<not> ok)))"

definition init_node :: "bufts \<Rightarrow> ggml_cgraph \<Rightarrow> ggml_gallocr \<Rightarrow> nat \<Rightarrow> heap \<Rightarrow> heap outcome" where
  "init_node B g ga i h =
     (let p = g_nodes g ! i; na = ga_node_allocs ga ! i in
      bnd (deref h p) (\<lambda>t.
      bnd (each_outcome (\<lambda>j h. case t_src t ! j of
             None \<Rightarrow> Inr h
           | Some s \<Rightarrow> bnd (elem (na_src na) j) (\<lambda>ta. ggml_gallocr_init_tensor B ga s ta h)) [0..<length (t_src t)] h) (\<lambda>h.
      ggml_gallocr_init_tensor B ga p (na_dst na) h)))"

definition init_graph :: "bufts \<Rightarrow> ggml_cgraph \<Rightarrow> ggml_gallocr \<Rightarrow> heap \<Rightarrow> heap outcome" where
  "init_graph B g ga h =
     bnd (each_outcome (\<lambda>i h. ggml_gallocr_init_tensor B ga (g_leafs g ! i) (ga_leaf_allocs ga ! i) h)
            [0..<length (g_leafs g)] h) (\<lambda>h.
     each_outcome (init_node B g ga) [0..<length (g_nodes g)] h)"

definition ggml_gallocr_alloc_graph ::
  "bufts \<Rightarrow> alloc_buffer \<Rightarrow> ptr list \<Rightarrow> ggml_cgraph \<Rightarrow> heap \<Rightarrow> nat \<Rightarrow> ggml_gallocr \<Rightarrow>
   (bool \<times> heap \<times> nat \<times> ggml_gallocr) outcome" where
  "ggml_gallocr_alloc_graph B A garbage g h n ga =
     bnd (ggml_gallocr_needs_realloc B h g ga) (\<lambda>realloc.
     bnd (if \<not> realloc then Inr (True, n, ga)
          else if length (ga_bufts ga) = 1 then ggml_gallocr_reserve B A h garbage g n ga
          else Inr (False, n, ga)) (\<lambda>(ok, n, ga).
     if \<not> ok then Inr (False, h, n, ga)
     else bnd (init_graph B g ga h) (\<lambda>h. Inr (True, h, n, ga))))"

definition ggml_gallocr_get_buffer_size :: "ggml_gallocr \<Rightarrow> int \<Rightarrow> size_t outcome" where
  "ggml_gallocr_get_buffer_size ga b =
     bnd (ensure (0 \<le> b \<and> b < int (length (ga_bufts ga))) Aborted) (\<lambda>_.
     case ga_buffers ga ! nat b of
       None \<Rightarrow> Inr 0
     | Some v \<Rightarrow> if Some v \<in> set (take (nat b) (ga_buffers ga)) then Inr 0 else Inr (ggml_vbuffer_size v))"

end
