(* ===== verification/Gallocr_Spec.thy ===== *)
theory Gallocr_Spec
  imports Gallocr
begin

text \<open>
  The graph allocator over a map from tensors to their state, in place of the hash table and the
  vector that its slots index, and the proof that the allocator implements it.
\<close>

subsection \<open>A vector indexed by the slots of a table is a map\<close>

definition slots :: "ggml_hash_set \<Rightarrow> nat \<Rightarrow> ptr option" where
  "slots hs i = (if i < hs_size hs then slot hs i else None)"

text \<open>\<open>M\<close> is the map: the entry of a key is the value in its slot, of other keys the default.\<close>

definition is_map :: "'v \<Rightarrow> (nat \<Rightarrow> 'k option) \<Rightarrow> 'v list \<Rightarrow> ('k \<Rightarrow> 'v) \<Rightarrow> bool" where
  "is_map d sl vs M \<longleftrightarrow>
     (\<forall>i k. sl i = Some k \<longrightarrow> i < length vs \<and> vs ! i = M k) \<and>
     (\<forall>k. (\<forall>i. sl i \<noteq> Some k) \<longrightarrow> M k = d) \<and>
     (\<forall>i < length vs. sl i = None \<longrightarrow> vs ! i = d)"

locale slot_table =
  fixes add :: "'t \<Rightarrow> 'k \<Rightarrow> (nat \<times> 't) outcome" and slot_of :: "'t \<Rightarrow> nat \<Rightarrow> 'k option" and ok :: "'t \<Rightarrow> bool"
  assumes add_ok: "ok t \<Longrightarrow> add t k = Inr (i, t') \<Longrightarrow> ok t'"
    and add_slot: "ok t \<Longrightarrow> add t k = Inr (i, t') \<Longrightarrow>
      slot_of t' = slot_of t \<and> slot_of t i = Some k \<or>
      slot_of t i = None \<and> (\<forall>j. slot_of t j \<noteq> Some k) \<and> slot_of t' = (slot_of t)(i \<mapsto> k)"
    and one_slot: "ok t \<Longrightarrow> slot_of t i = Some k \<Longrightarrow> slot_of t j = Some k \<Longrightarrow> i = j"
begin

lemma get_map:
  assumes "ok t" "add t k = Inr (i, t')" "is_map d (slot_of t) vs M" "i < length vs"
  shows "is_map d (slot_of t') vs M" "slot_of t' i = Some k"
    "slot_of t j = Some l \<Longrightarrow> slot_of t' j = Some l"
proof -
  consider "slot_of t' = slot_of t" "slot_of t i = Some k"
    | "slot_of t i = None" "\<forall>j. slot_of t j \<noteq> Some k" "slot_of t' = (slot_of t)(i \<mapsto> k)"
    using add_slot [OF assms(1,2)] by (elim disjE conjE)
  then have "is_map d (slot_of t') vs M \<and> slot_of t' i = Some k \<and> (\<forall>j l. slot_of t j = Some l \<longrightarrow> slot_of t' j = Some l)"
  proof cases
    case 1
    then show ?thesis using assms(3) by simp
  next
    case 2
    have k: "vs ! i = M k" using assms(3,4) 2(1,2) by (simp add: is_map_def)
    have "is_map d (slot_of t') vs M"
      unfolding is_map_def
    proof (intro conjI allI impI)
      show "j < length vs" "vs ! j = M l" if "slot_of t' j = Some l" for j l
        using that k assms(3,4) by (auto simp: 2(3) is_map_def split: if_splits)
      show "M l = d" if l: "\<forall>j. slot_of t' j \<noteq> Some l" for l
      proof -
        have "slot_of t j \<noteq> Some l" for j using l [rule_format, of j] 2(1) by (auto simp: 2(3) split: if_splits)
        then show ?thesis using assms(3) by (simp add: is_map_def)
      qed
      show "vs ! j = d" if "j < length vs" "slot_of t' j = None" for j
        using that assms(3) by (auto simp: 2(3) is_map_def split: if_splits)
    qed
    then show ?thesis using 2 by auto
  qed
  then show "is_map d (slot_of t') vs M" "slot_of t' i = Some k" "slot_of t j = Some l \<Longrightarrow> slot_of t' j = Some l"
    by blast+
qed

lemma put_map:
  assumes "ok t" "is_map d (slot_of t) vs M" "slot_of t i = Some k"
  shows "is_map d (slot_of t) (vs[i := v]) (M(k := v))"
  unfolding is_map_def
proof (intro conjI allI impI)
  have other: "i \<noteq> j" if "slot_of t j = Some l" "l \<noteq> k" for j l using that assms(3) by auto
  show "j < length (vs[i := v])" if "slot_of t j = Some l" for j l using that assms(2) by (simp add: is_map_def)
  show "vs[i := v] ! j = (M(k := v)) l" if l: "slot_of t j = Some l" for j l
  proof (cases "l = k")
    case True
    then have "i = j" using one_slot [OF assms(1,3)] l by simp
    then show ?thesis using True assms(2,3) by (simp add: is_map_def)
  next
    case False
    then show ?thesis using other [OF l] l assms(2) by (simp add: is_map_def)
  qed
  show "(M(k := v)) l = d" if "\<forall>j. slot_of t j \<noteq> Some l" for l
    using that assms(2,3) by (auto simp: is_map_def)
  show "vs[i := v] ! j = d" if "j < length (vs[i := v])" "slot_of t j = None" for j
    using that assms(2,3) by (cases "i = j") (auto simp: is_map_def)
qed

end

text \<open>A galloc starts with a table of no slots, in which nothing can be looked up.\<close>

definition slots_ok :: "ggml_hash_set \<Rightarrow> bool" where
  "slots_ok hs \<longleftrightarrow> hs_size hs = 0 \<or> hs_inv hs"

lemma find_or_insert_slots:
  assumes "slots_ok hs" "ggml_hash_find_or_insert hs key = Inr (i, hs')"
  shows "slots_ok hs' \<and> hs_size hs' = hs_size hs \<and>
    (slots hs' = slots hs \<and> slots hs i = Some key \<or>
     slots hs i = None \<and> (\<forall>j. slots hs j \<noteq> Some key) \<and> slots hs' = (slots hs)(i \<mapsto> key))"
proof -
  have "hs_size hs \<noteq> 0" using assms(2) by (cases "hs_size hs = 0") (simp_all add: ggml_hash_find_or_insert_def probe_insert_def)
  then have inv: "hs_inv hs" using assms(1) by (simp add: slots_ok_def)
  show ?thesis
  proof (cases "key \<in> keys_of hs")
    case True
    obtain j where j: "ggml_hash_find hs key = Inr (Some j)" "j < hs_size hs" "slot hs j = Some key"
      using hash_find_key [OF inv True] .
    then have "i = j" "hs' = hs"
      using assms(2) by (simp_all add: ggml_hash_find_or_insert_def probe_insert_find [OF hs_inv_shape [OF inv]] store_key_def)
    then show ?thesis using j assms(1) by (simp add: slots_def)
  next
    case False
    have "card (keys_of hs) \<noteq> hs_size hs"
      using probe_insert_full [OF inv False] assms(2) by (auto simp: ggml_hash_find_or_insert_def)
    then have "card (keys_of hs) < hs_size hs" using keys_card [OF inv] by simp
    then obtain j hs'' where new: "probe_insert hs key = Inr (Added j, hs'')" "takes_key hs j key hs''" "hs_inv hs''"
      using probe_insert_absent [OF inv False] by blast
    then have "i = j" "hs' = hs''" using assms(2) by (simp_all add: ggml_hash_find_or_insert_def)
    then show ?thesis using new(2,3) False
      by (auto simp: takes_key_def slots_def keys_of_def slots_ok_def fun_eq_iff split: if_splits)
  qed
qed

interpretation node_table: slot_table ggml_hash_find_or_insert slots slots_ok
proof
  show "i = j" if "slots_ok hs" "slots hs i = Some k" "slots hs j = Some k" for hs i j k
    using that by (auto simp: slots_def slots_ok_def hs_inv_def split: if_splits)
qed (use find_or_insert_slots in blast)+

subsection \<open>Refinement of outcomes\<close>

text \<open>Whenever the routine returns, so does its specification, with a related result.\<close>

definition refines :: "('a \<Rightarrow> 'b \<Rightarrow> bool) \<Rightarrow> 'a outcome \<Rightarrow> 'b outcome \<Rightarrow> bool" where
  "refines R x y \<longleftrightarrow> (\<forall>a. x = Inr a \<longrightarrow> (\<exists>b. y = Inr b \<and> R a b))"

lemma refines_Inl [simp]: "refines R (Inl e) y"
  by (simp add: refines_def)

lemma refines_Inr [simp]: "refines R (Inr a) (Inr b) \<longleftrightarrow> R a b"
  by (simp add: refines_def)

lemma refines_bnd:
  assumes "refines R x y" "\<And>a b. R a b \<Longrightarrow> refines S (f a) (g b)"
  shows "refines S (bnd x f) (bnd y g)"
  using assms by (cases x; cases y) (auto simp: refines_def)

lemma refines_same: "(\<And>a. x = Inr a \<Longrightarrow> refines S (f a) (g a)) \<Longrightarrow> refines S (bnd x f) (bnd x g)"
  by (cases x) auto

lemma refines_each:
  assumes "R s t" "\<And>x s t. x \<in> set xs \<Longrightarrow> R s t \<Longrightarrow> refines R (f x s) (g x t)"
  shows "refines R (each_outcome f xs s) (each_outcome g xs t)"
  using assms
proof (induction xs arbitrary: s t)
  case (Cons x xs)
  have "refines R (each_outcome f xs a) (each_outcome g xs b)" if "R a b" for a b
    using Cons.IH [OF that] Cons.prems(2) by simp
  moreover have "refines R (f x s) (g x t)" using Cons.prems by simp
  ultimately show ?case by (simp add: refines_bnd)
qed simp

subsection \<open>The allocator on a map\<close>

text \<open>What does not change while a graph is placed: the tensors, the buffer types and which allocator each uses.\<close>

record place_env =
  pe_types :: bufts
  pe_heap :: heap
  pe_bufts :: "ptr list"
  pe_talloc_of :: "nat list"

type_synonym places = "(ptr \<Rightarrow> hash_node) \<times> ggml_dyn_tallocr list"

definition s_size :: "place_env \<Rightarrow> nat \<Rightarrow> ptr \<Rightarrow> size_t outcome" where
  "s_size e b p = bnd (deref (pe_heap e) p) (\<lambda>t.
     bnd (elem (pe_bufts e) b) (\<lambda>buft. ggml_backend_buft_get_alloc_size (pe_types e) buft t))"

definition s_talloc :: "place_env \<Rightarrow> ggml_dyn_tallocr list \<Rightarrow> nat \<Rightarrow> ggml_dyn_tallocr outcome" where
  "s_talloc e T b = bnd (elem (pe_talloc_of e) b) (elem T)"

definition s_put :: "place_env \<Rightarrow> nat \<Rightarrow> ggml_dyn_tallocr \<Rightarrow> ggml_dyn_tallocr list \<Rightarrow> ggml_dyn_tallocr list" where
  "s_put e b a T = T[pe_talloc_of e ! b := a]"

definition s_is_allocated :: "place_env \<Rightarrow> places \<Rightarrow> ptr \<Rightarrow> bool outcome" where
  "s_is_allocated e st p = bnd (deref (pe_heap e) p) (\<lambda>t.
     Inr (t_addr t \<noteq> None \<or> t_buffer t \<noteq> None \<or> hn_allocated (fst st p)))"

definition s_free_extra :: "place_env \<Rightarrow> ptr \<Rightarrow> ptr \<Rightarrow> places \<Rightarrow> places outcome" where
  "s_free_extra e node parent st =
     (let (M, T) = st; b = hn_buffer (M parent) in
      bnd (s_size e b parent) (\<lambda>parent_size.
      bnd (s_size e (hn_buffer (M node)) node) (\<lambda>node_size.
      bnd (ensure (parent_size \<ge> node_size) Aborted) (\<lambda>_.
      bnd (s_talloc e T b) (\<lambda>a.
      bnd (aligned_offset 0 parent_size (ta_alignment a)) (\<lambda>parent_size.
      bnd (aligned_offset 0 node_size (ta_alignment a)) (\<lambda>node_size.
      if parent_size > node_size then
        let (c, offset) = hn_addr (M parent) in
        bnd (ggml_dyn_tallocr_free_bytes a (c, offset + node_size) (parent_size - node_size)) (\<lambda>a.
        Inr (M, s_put e b a T))
      else Inr (M, T))))))))"

definition s_take_over :: "ptr \<Rightarrow> ptr \<Rightarrow> (ptr \<Rightarrow> hash_node) \<Rightarrow> ptr \<Rightarrow> hash_node" where
  "s_take_over node parent M =
     (let M = M(node := (M node)\<lparr>hn_buffer := hn_buffer (M parent), hn_addr := hn_addr (M parent)\<rparr>)
      in M(parent := (M parent)\<lparr>hn_allocated := False\<rparr>))"

definition s_reuse_parent :: "place_env \<Rightarrow> ptr \<Rightarrow> graph_tensor \<Rightarrow> ptr \<Rightarrow> places \<Rightarrow> (bool \<times> places) outcome" where
  "s_reuse_parent e node t parent st =
     (case st of (M, T) \<Rightarrow>
      if \<not> hn_allocated (M parent) then Inr (False, st)
      else bnd (deref (pe_heap e) parent) (\<lambda>pt.
        bnd (is_output (pe_heap e) pt) (\<lambda>out.
        if out \<or> \<not> ggml_are_same_layout t pt then Inr (False, st)
        else if hn_children (M parent) = 1 \<and> hn_views (M parent) = 0 then
          case t_view_src pt of
            Some v \<Rightarrow>
              bnd (deref (pe_heap e) v) (\<lambda>vt.
              if hn_views (M v) = 1 \<and> hn_children (M v) = 0 \<and> t_addr vt = t_addr pt then
                bnd (ensure (hn_addr (M v) = hn_addr (M parent)) Aborted) (\<lambda>_.
                let M = s_take_over node parent M; M = M(v := (M v)\<lparr>hn_allocated := False\<rparr>) in
                bnd (s_free_extra e node v (M, T)) (\<lambda>st. Inr (True, st)))
              else Inr (False, st))
          | None \<Rightarrow> bnd (s_free_extra e node parent (s_take_over node parent M, T)) (\<lambda>st. Inr (True, st))
        else Inr (False, st))))"

fun s_reuse_loop :: "place_env \<Rightarrow> ptr \<Rightarrow> graph_tensor \<Rightarrow> ptr option list \<Rightarrow> places \<Rightarrow> (bool \<times> places) outcome" where
  "s_reuse_loop e node t [] st = Inr (False, st)"
| "s_reuse_loop e node t (None # srcs) st = s_reuse_loop e node t srcs st"
| "s_reuse_loop e node t (Some parent # srcs) st =
     bnd (s_reuse_parent e node t parent st) (\<lambda>(reused, st).
     if reused then Inr (True, st) else s_reuse_loop e node t srcs st)"

definition s_place_fresh :: "place_env \<Rightarrow> ptr \<Rightarrow> nat \<Rightarrow> places \<Rightarrow> places outcome" where
  "s_place_fresh e p b st =
     (let (M, T) = st in
      bnd (s_talloc e T b) (\<lambda>a.
      bnd (s_size e b p) (\<lambda>sz.
      bnd (ggml_dyn_tallocr_alloc a sz) (\<lambda>(addr, a).
      Inr (M(p := (M p)\<lparr>hn_buffer := b, hn_addr := addr\<rparr>), s_put e b a T)))))"

definition s_allocate :: "place_env \<Rightarrow> ptr \<Rightarrow> int \<Rightarrow> places \<Rightarrow> places outcome" where
  "s_allocate e p buffer_id st =
     bnd (ensure (0 \<le> buffer_id) Aborted) (\<lambda>_.
     bnd (s_is_allocated e st p) (\<lambda>allocated.
     bnd (deref (pe_heap e) p) (\<lambda>t.
     if allocated \<or> ggml_is_view t then Inr st
     else
       let (M, T) = st; M = M(p := (M p)\<lparr>hn_allocated := True\<rparr>) in
       bnd (ensure (snd (hn_addr (M p)) = 0) Aborted) (\<lambda>_.
       bnd (if ggml_op_can_inplace (t_op t) then s_reuse_loop e p t (t_src t) (M, T) else Inr (False, (M, T))) (\<lambda>(reused, st).
       if reused then Inr st else s_place_fresh e p (nat buffer_id) st)))))"

definition s_free :: "place_env \<Rightarrow> ptr \<Rightarrow> places \<Rightarrow> places outcome" where
  "s_free e p st =
     (let (M, T) = st; b = hn_buffer (M p) in
      bnd (deref (pe_heap e) p) (\<lambda>t.
      if has_flag t GGML_TENSOR_FLAG_OUTPUT then Inr st
      else bnd (s_talloc e T b) (\<lambda>a.
        bnd (s_size e b p) (\<lambda>sz.
        bnd (ggml_dyn_tallocr_free_bytes a (hn_addr (M p)) sz) (\<lambda>a.
        Inr (M(p := (M p)\<lparr>hn_allocated := False\<rparr>), s_put e b a T))))))"

definition s_place_leaf :: "place_env \<Rightarrow> ggml_cgraph \<Rightarrow> int list option \<Rightarrow> nat \<Rightarrow> places \<Rightarrow> places outcome" where
  "s_place_leaf e g ids i st = bnd (get_node_buffer_id ids i) (\<lambda>b. s_allocate e (g_leafs g ! i) b st)"

definition s_count_src :: "place_env \<Rightarrow> int outcome \<Rightarrow> ptr \<Rightarrow> places \<Rightarrow> places outcome" where
  "s_count_src e buffer_id p st =
     (let (M, T) = st; M = M(p := (M p)\<lparr>hn_children := hn_children (M p) + 1\<rparr>) in
      bnd (deref (pe_heap e) p) (\<lambda>t.
      if has_flag t GGML_TENSOR_FLAG_INPUT then bnd buffer_id (\<lambda>b. s_allocate e p b (M, T)) else Inr (M, T)))"

definition s_count_node :: "place_env \<Rightarrow> ggml_cgraph \<Rightarrow> int list option \<Rightarrow> nat \<Rightarrow> places \<Rightarrow> places outcome" where
  "s_count_node e g ids i st =
     (let node = g_nodes g ! i in
      bnd (deref (pe_heap e) node) (\<lambda>t.
      let (M, T) = st;
          st = (case t_view_src t of
            Some v \<Rightarrow> if t_op t \<noteq> GGML_OP_NONE then (M(v := (M v)\<lparr>hn_views := hn_views (M v) + 1\<rparr>), T) else st
          | None \<Rightarrow> st) in
      bnd (if has_flag t GGML_TENSOR_FLAG_INPUT
           then bnd (get_node_buffer_id ids i) (\<lambda>b. s_allocate e node b st) else Inr st) (\<lambda>st.
      each_src (s_count_src e (get_node_buffer_id ids i)) t st)))"

definition s_update_parent :: "place_env \<Rightarrow> ptr \<Rightarrow> places \<Rightarrow> places outcome" where
  "s_update_parent e parent st =
     (let (M, T) = st; M = M(parent := (M parent)\<lparr>hn_children := hn_children (M parent) - 1\<rparr>) in
      if hn_children (M parent) = 0 \<and> hn_views (M parent) = 0 then
        bnd (deref (pe_heap e) parent) (\<lambda>pt.
        case t_view_src pt of
          Some v \<Rightarrow>
            let M = M(v := (M v)\<lparr>hn_views := hn_views (M v) - 1\<rparr>) in
            if hn_views (M v) = 0 \<and> hn_children (M v) = 0 \<and> hn_allocated (M v) then s_free e v (M, T) else Inr (M, T)
        | None \<Rightarrow> if hn_allocated (M parent) then s_free e parent (M, T) else Inr (M, T))
      else Inr (M, T))"

definition s_place_node :: "place_env \<Rightarrow> ggml_cgraph \<Rightarrow> int list option \<Rightarrow> nat \<Rightarrow> places \<Rightarrow> places outcome" where
  "s_place_node e g ids i st =
     (let node = g_nodes g ! i in
      bnd (get_node_buffer_id ids i) (\<lambda>b.
      bnd (deref (pe_heap e) node) (\<lambda>t.
      bnd (each_src (\<lambda>p. s_allocate e p b) t st) (\<lambda>st.
      bnd (s_allocate e node b st) (each_src (s_update_parent e) t)))))"

definition s_place_graph :: "place_env \<Rightarrow> ggml_cgraph \<Rightarrow> int list option \<Rightarrow> int list option \<Rightarrow> places \<Rightarrow> places outcome" where
  "s_place_graph e g node_ids leaf_ids st =
     bnd (each_outcome (s_place_leaf e g leaf_ids) [0..<length (g_leafs g)] st) (\<lambda>st.
     bnd (each_outcome (s_count_node e g node_ids) [0..<length (g_nodes g)] st)
       (each_outcome (s_place_node e g node_ids) [0..<length (g_nodes g)]))"

subsection \<open>The allocator implements it\<close>

text \<open>\<open>H\<close> holds the pointers into the vector of values that a routine keeps: a slot and its tensor.\<close>

definition ga_rel :: "place_env \<Rightarrow> (nat \<times> ptr) set \<Rightarrow> ggml_gallocr \<Rightarrow> places \<Rightarrow> bool" where
  "ga_rel e H ga st \<longleftrightarrow>
     ga_bufts ga = pe_bufts e \<and> ga_talloc_of ga = pe_talloc_of e \<and> ga_tallocs ga = snd st \<and>
     slots_ok (ga_hash_set ga) \<and> is_map zero_node (slots (ga_hash_set ga)) (ga_hash_values ga) (fst st) \<and>
     (\<forall>(i, p) \<in> H. slots (ga_hash_set ga) i = Some p)"

lemma refines_get:
  assumes "ga_rel e H ga st" "\<And>i ga'. ga_rel e (insert (i, p) H) ga' st \<Longrightarrow> refines S (f (i, ga')) y"
  shows "refines S (bnd (ggml_gallocr_hash_get ga p) f) y"
proof (cases "ggml_gallocr_hash_get ga p")
  case (Inr r)
  obtain i ga' where r: "r = (i, ga')" by (cases r)
  then obtain hs where add: "ggml_hash_find_or_insert (ga_hash_set ga) p = Inr (i, hs)"
    "i < length (ga_hash_values ga)" "ga' = ga\<lparr>ga_hash_set := hs\<rparr>"
    using Inr by (auto simp: ggml_gallocr_hash_get_def bnd_eq_Inr bnd_ensure split: if_splits)
  note rel = assms(1) [unfolded ga_rel_def]
  have "slots_ok (ga_hash_set ga)" "is_map zero_node (slots (ga_hash_set ga)) (ga_hash_values ga) (fst st)"
    using rel by simp_all
  note get = node_table.get_map [OF this(1) add(1) this(2) add(2)] node_table.add_ok [OF this(1) add(1)]
  have "ga_rel e (insert (i, p) H) ga' st" using rel get unfolding ga_rel_def add(3) by auto
  then show ?thesis using assms(2) Inr r by simp
qed simp

lemma hnode_rel: "ga_rel e H ga st \<Longrightarrow> (i, p) \<in> H \<Longrightarrow> hnode ga i = fst st p"
  by (auto simp: ga_rel_def is_map_def hnode_def)

lemma set_hnode_rel:
  assumes "ga_rel e H ga (M, T)" "(i, p) \<in> H" "v = f (M p)"
  shows "ga_rel e H (set_hnode i f ga) (M(p := v), T)"
proof -
  have "hnode ga i = M p" using hnode_rel [OF assms(1,2)] by simp
  then show ?thesis using assms node_table.put_map [of "ga_hash_set ga" zero_node "ga_hash_values ga" M i p v]
    by (auto simp: ga_rel_def set_hnode_def)
qed

lemma put_talloc_rel: "ga_rel e H ga (M, T) \<Longrightarrow> ga_rel e H (put_talloc b a ga) (M, s_put e b a T)"
  by (auto simp: ga_rel_def put_talloc_def s_put_def)

lemma talloc_at_rel: "ga_rel e H ga (M, T) \<Longrightarrow> talloc_at ga b = s_talloc e T b"
  by (simp add: ga_rel_def talloc_at_def s_talloc_def)

lemma alloc_size_rel:
  "ga_rel e H ga st \<Longrightarrow> bnd (deref (pe_heap e) p) (alloc_size_in (pe_types e) ga b) = s_size e b p"
  by (simp add: ga_rel_def alloc_size_in_def [abs_def] s_size_def)

lemma ga_rel_mono: "ga_rel e H ga st \<Longrightarrow> H' \<subseteq> H \<Longrightarrow> ga_rel e H' ga st"
  by (auto simp: ga_rel_def)

lemma free_extra_rel:
  assumes "ga_rel e H ga (M, T)"
  shows "refines (ga_rel e H) (ggml_gallocr_free_extra_space (pe_types e) (pe_heap e) node parent ga)
    (s_free_extra e node parent (M, T))"
  unfolding ggml_gallocr_free_extra_space_def
  apply (rule refines_get [OF assms], simp only: prod.case, rule refines_get, assumption)
  subgoal premises rel for i ga1 j ga2
  proof -
    have node: "hnode ga2 i = M node" "hnode ga2 j = M parent" using hnode_rel [OF rel(2)] by auto
    have rel': "ga_rel e H ga2 (M, T)" using rel(2) by (rule ga_rel_mono) blast
    show ?thesis
      unfolding s_free_extra_def Let_def prod.case node alloc_size_rel [OF rel'] talloc_at_rel [OF rel']
      by (intro refines_same) (auto split: prod.split intro!: refines_same simp: rel' put_talloc_rel [OF rel'])
  qed
  done

lemma take_over_rel:
  assumes "ga_rel e H ga (M, T)" "(i, node) \<in> H" "(j, parent) \<in> H"
  shows "ga_rel e H (take_over i j ga) (s_take_over node parent M, T)"
proof -
  let ?v = "(M node)\<lparr>hn_buffer := hn_buffer (M parent), hn_addr := hn_addr (M parent)\<rparr>"
  have "hnode ga j = M parent" using hnode_rel [OF assms(1,3)] by simp
  then have "ga_rel e H (set_hnode i (\<lambda>n. n\<lparr>hn_buffer := hn_buffer (hnode ga j), hn_addr := hn_addr (hnode ga j)\<rparr>) ga)
      (M(node := ?v), T)"
    by (intro set_hnode_rel [OF assms(1,2)]) simp
  from set_hnode_rel [OF this assms(3) refl, of "\<lambda>n. n\<lparr>hn_allocated := False\<rparr>"]
  show ?thesis by (simp add: take_over_def s_take_over_def Let_def)
qed

definition flag_rel :: "place_env \<Rightarrow> (nat \<times> ptr) set \<Rightarrow> bool \<times> ggml_gallocr \<Rightarrow> bool \<times> places \<Rightarrow> bool" where
  "flag_rel e H x y \<longleftrightarrow> fst x = fst y \<and> ga_rel e H (snd x) (snd y)"

lemma flag_rel_pair [simp]: "flag_rel e H (b, ga) (b', st) \<longleftrightarrow> b = b' \<and> ga_rel e H ga st"
  by (simp add: flag_rel_def)

text \<open>The case of a parent that is a view, and of one that is not.\<close>

lemma reuse_view_rel:
  assumes "ga_rel e H ga (M, T)" "(i, node) \<in> H" "(j, parent) \<in> H" and that: "H' \<subseteq> H"
  shows "refines (flag_rel e H')
    (bnd (ggml_gallocr_hash_get ga v) (\<lambda>(k, ga).
     bnd (deref (pe_heap e) v) (\<lambda>vt.
     if hn_views (hnode ga k) = 1 \<and> hn_children (hnode ga k) = 0 \<and> t_addr vt = t_addr pt then
       bnd (ensure (hn_addr (hnode ga k) = hn_addr (hnode ga j)) Aborted) (\<lambda>_.
       bnd (ggml_gallocr_free_extra_space (pe_types e) (pe_heap e) node v
              (set_hnode k (\<lambda>n. n\<lparr>hn_allocated := False\<rparr>) (take_over i j ga))) (\<lambda>ga.
       Inr (True, ga)))
     else Inr (False, ga))))
    (bnd (deref (pe_heap e) v) (\<lambda>vt.
     if hn_views (M v) = 1 \<and> hn_children (M v) = 0 \<and> t_addr vt = t_addr pt then
       bnd (ensure (hn_addr (M v) = hn_addr (M parent)) Aborted) (\<lambda>_.
       let M = s_take_over node parent M; M = M(v := (M v)\<lparr>hn_allocated := False\<rparr>) in
       bnd (s_free_extra e node v (M, T)) (\<lambda>st. Inr (True, st)))
     else Inr (False, M, T)))"
  apply (rule refines_get [OF assms(1)], simp only: prod.case)
  subgoal premises rel for k ga1
  proof -
    have node: "hnode ga1 k = M v" "hnode ga1 j = M parent"
      using hnode_rel [OF rel(1)] assms(3) by auto
    have rel': "ga_rel e H' ga1 (M, T)" using rel(1) by (rule ga_rel_mono) (use that in blast)
    have taken: "ga_rel e (insert (k, v) H) (take_over i j ga1) (s_take_over node parent M, T)"
      by (rule take_over_rel [OF rel(1)]) (use assms in auto)
    have "ga_rel e H' (set_hnode k (\<lambda>n. n\<lparr>hn_allocated := False\<rparr>) (take_over i j ga1))
        ((s_take_over node parent M)(v := (s_take_over node parent M v)\<lparr>hn_allocated := False\<rparr>), T)"
      by (rule ga_rel_mono [OF set_hnode_rel [OF taken, of k v]]) (use that in auto)
    from free_extra_rel [OF this, of node v] show ?thesis
      unfolding node Let_def by (intro refines_same) (auto intro!: refines_same refines_bnd simp: rel')
  qed
  done

lemma reuse_plain_rel:
  assumes "ga_rel e H ga (M, T)" "(i, node) \<in> H" "(j, parent) \<in> H" "H' \<subseteq> H"
  shows "refines (flag_rel e H')
    (bnd (ggml_gallocr_free_extra_space (pe_types e) (pe_heap e) node parent (take_over i j ga)) (\<lambda>ga. Inr (True, ga)))
    (bnd (s_free_extra e node parent (s_take_over node parent M, T)) (\<lambda>st. Inr (True, st)))"
  by (rule refines_bnd [OF free_extra_rel [OF take_over_rel [OF assms(1-3)]]])
    (use assms(4) ga_rel_mono in auto)

lemma reuse_parent_rel:
  assumes "ga_rel e H ga (M, T)" "(i, node) \<in> H"
  shows "refines (flag_rel e H) (reuse_parent (pe_types e) (pe_heap e) node t i parent ga)
    (s_reuse_parent e node t parent (M, T))"
  unfolding reuse_parent_def ggml_gallocr_is_own_def bnd_assoc
  apply (rule refines_get [OF assms(1)], simp only: prod.case bnd_Inr)
  subgoal premises rel for j ga1
  proof -
    have own: "hnode ga1 j = M parent" using hnode_rel [OF rel] by simp
    have rel1: "ga_rel e H ga1 (M, T)" using rel by (rule ga_rel_mono) blast
    have checked: "refines (flag_rel e H)
      (bnd (ggml_gallocr_hash_get ga1 parent) (\<lambda>(j, ga).
       if hn_children (hnode ga j) = 1 \<and> hn_views (hnode ga j) = 0 then F j ga else Inr (False, ga)))
      (if hn_children (M parent) = 1 \<and> hn_views (M parent) = 0 then G else Inr (False, M, T))"
      if step: "\<And>j ga. ga_rel e (insert (j, parent) H) ga (M, T) \<Longrightarrow> refines (flag_rel e H) (F j ga) G" for F G
      apply (rule refines_get [OF rel1], simp only: prod.case)
      subgoal premises prems for j ga
      proof -
        have "hnode ga j = M parent" using hnode_rel [OF prems] by simp
        then show ?thesis using step [OF prems] ga_rel_mono [OF prems, of H] by auto
      qed
      done
    show ?thesis
    proof (cases "hn_allocated (M parent)")
      case True
      show ?thesis
        unfolding own s_reuse_parent_def prod.case
        apply (simp only: True not_True_eq_False if_False)
        apply (rule refines_same, rule refines_same)
        subgoal for pt out
        proof (cases "out \<or> \<not> ggml_are_same_layout t pt")
          case False
          show ?thesis
            apply (simp only: False if_False, rule checked)
            subgoal premises prems for j ga
              using reuse_view_rel [OF prems, of i node j parent H _ pt] reuse_plain_rel [OF prems, of i node j parent H] assms(2)
              by (cases "t_view_src pt") (simp_all add: subset_insertI)
            done
        qed (simp add: rel1)
        done
    next
      case False
      then show ?thesis using rel1 by (simp add: own s_reuse_parent_def)
    qed
  qed
  done

lemma reuse_loop_rel:
  assumes "ga_rel e H ga st" "(i, node) \<in> H"
  shows "refines (flag_rel e H) (reuse_loop (pe_types e) (pe_heap e) node t i srcs ga) (s_reuse_loop e node t srcs st)"
  using assms(1)
proof (induction srcs arbitrary: ga st)
  case (Cons s srcs)
  show ?case
  proof (cases s)
    case (Some parent)
    have "refines (flag_rel e H) (reuse_parent (pe_types e) (pe_heap e) node t i parent ga)
        (s_reuse_parent e node t parent st)"
      using reuse_parent_rel [of e H ga "fst st" "snd st"] Cons.prems assms(2) by simp
    then show ?thesis unfolding Some
      by (auto intro!: refines_bnd Cons.IH split: prod.split)
  qed (use Cons in simp)
qed simp

lemma place_fresh_rel:
  assumes "ga_rel e H ga (M, T)" "(i, p) \<in> H" "deref (pe_heap e) p = Inr t"
  shows "refines (ga_rel e H) (place_fresh (pe_types e) t i b ga) (s_place_fresh e p b (M, T))"
proof -
  have "s_size e b p = alloc_size_in (pe_types e) ga b t"
    using alloc_size_rel [OF assms(1), of p b] assms(3) by simp
  then show ?thesis
    unfolding place_fresh_def s_place_fresh_def Let_def prod.case talloc_at_rel [OF assms(1)]
    by (auto intro!: refines_same put_talloc_rel set_hnode_rel [OF assms(1,2)] split: prod.split)
qed

lemma is_allocated_rel:
  assumes "ga_rel e H ga st"
  shows "refines (\<lambda>(b, ga) b'. b = b' \<and> ga_rel e H ga st) (ggml_gallocr_is_allocated (pe_heap e) ga p)
    (s_is_allocated e st p)"
  unfolding ggml_gallocr_is_allocated_def s_is_allocated_def ggml_gallocr_is_own_def
proof (rule refines_same)
  fix t
  show "refines (\<lambda>(b, ga) b'. b = b' \<and> ga_rel e H ga st)
     (if t_addr t \<noteq> None \<or> t_buffer t \<noteq> None then Inr (True, ga)
      else bnd (ggml_gallocr_hash_get ga p) (\<lambda>(i, ga). Inr (hn_allocated (hnode ga i), ga)))
     (Inr (t_addr t \<noteq> None \<or> t_buffer t \<noteq> None \<or> hn_allocated (fst st p)))"
  proof (cases "t_addr t \<noteq> None \<or> t_buffer t \<noteq> None")
    case True
    then show ?thesis using assms by auto
  next
    case False
    show ?thesis
      apply (simp only: False if_False, rule refines_get [OF assms])
      subgoal premises prems for i ga'
        using hnode_rel [OF prems, of i p] ga_rel_mono [OF prems, of H] False by auto
      done
  qed
qed

lemma allocate_rel:
  assumes "ga_rel e H ga st"
  shows "refines (ga_rel e H) (ggml_gallocr_allocate_node (pe_types e) (pe_heap e) p b ga) (s_allocate e p b st)"
  unfolding ggml_gallocr_allocate_node_def s_allocate_def
  apply (rule refines_same, rule refines_get [OF assms], simp only: prod.case,
      rule refines_bnd [OF is_allocated_rel], assumption)
  subgoal premises prems for u i ga1 r allocated
  proof -
    let ?H = "insert (i, p) H"
    obtain ga2 M T where r: "r = (allocated, ga2)" "ga_rel e ?H ga2 (M, T)" "st = (M, T)"
      using prems(3) by (cases r; cases st) auto
    let ?ga = "set_hnode i (\<lambda>n. n\<lparr>hn_allocated := True\<rparr>) ga2"
    let ?M = "M(p := (M p)\<lparr>hn_allocated := True\<rparr>)"
    have skip: "refines (ga_rel e H) (Inr ga2) (Inr (M, T))" using ga_rel_mono [OF r(2), of H] by auto
    have rel: "ga_rel e ?H ?ga (?M, T)" by (rule set_hnode_rel [OF r(2)]) auto
    have node: "hnode ?ga i = ?M p" using hnode_rel [OF rel, of i p] by simp
    have loop: "refines (flag_rel e ?H)
        (if ggml_op_can_inplace (t_op t) then reuse_loop (pe_types e) (pe_heap e) p t i (t_src t) ?ga else Inr (False, ?ga))
        (if ggml_op_can_inplace (t_op t) then s_reuse_loop e p t (t_src t) (?M, T) else Inr (False, ?M, T))" for t
      using reuse_loop_rel [OF rel, of i p t "t_src t"] rel by simp
    have fresh: "refines (ga_rel e H) (place_fresh (pe_types e) t i (nat b) ga3) (s_place_fresh e p (nat b) (M3, T3))"
      if "ga_rel e ?H ga3 (M3, T3)" "deref (pe_heap e) p = Inr t" for ga3 M3 T3 t
      using place_fresh_rel [OF that(1), of i p t "nat b"] that(2) ga_rel_mono
      by (fastforce simp: refines_def)
    show ?thesis
      unfolding r(1,3) prod.case
      apply (rule refines_same)
      subgoal premises t for t
        apply (cases "allocated \<or> ggml_is_view t", use skip in simp)
        apply (simp only: Let_def prod.case if_False node)
        apply (rule refines_same, rule refines_bnd [OF loop])
        using fresh [OF _ t] ga_rel_mono [of e ?H _ _ H, OF _ subset_insertI] by (auto split: prod.split)
      done
  qed
  done

lemma free_rel:
  assumes "ga_rel e H ga st"
  shows "refines (ga_rel e H) (ggml_gallocr_free_node (pe_types e) (pe_heap e) p ga) (s_free e p st)"
proof -
  obtain M T where st: "st = (M, T)" by (cases st)
  show ?thesis
    unfolding ggml_gallocr_free_node_def s_free_def st Let_def prod.case
    apply (rule refines_same)
    subgoal premises t for t
      apply (cases "has_flag t GGML_TENSOR_FLAG_OUTPUT", use assms st in simp)
      apply (simp only: if_False, rule refines_get [OF assms [unfolded st]], simp only: prod.case)
      subgoal premises prems for i ga1
      proof -
        note rel = prems(2)
        have node: "hnode ga1 i = M p" using hnode_rel [OF rel] by simp
        have sz: "s_size e b p = alloc_size_in (pe_types e) ga1 b t" for b
          using alloc_size_rel [OF rel, of p b] t by simp
        have out: "ga_rel e H (set_hnode i (\<lambda>n. n\<lparr>hn_allocated := False\<rparr>) (put_talloc b a ga1))
            (M(p := (M p)\<lparr>hn_allocated := False\<rparr>), s_put e b a T)" for a b
          by (rule ga_rel_mono [OF set_hnode_rel [OF put_talloc_rel [OF rel]]]) auto
        show ?thesis
          unfolding node talloc_at_rel [OF rel] sz by (intro refines_same) (simp add: out)
      qed
      done
    done
qed

lemma refines_srcs:
  assumes "R s t" "\<And>p s t. R s t \<Longrightarrow> refines R (f p s) (g p t)"
  shows "refines R (each_src f tn s) (each_src g tn t)"
  unfolding each_src_def by (rule refines_each) (use assms in \<open>auto split: option.split\<close>)

lemma count_src_rel:
  assumes "ga_rel e H ga st"
  shows "refines (ga_rel e H) (count_src (pe_types e) (pe_heap e) b p ga) (s_count_src e b p st)"
proof -
  obtain M T where st: "st = (M, T)" by (cases st)
  show ?thesis
    unfolding count_src_def s_count_src_def st Let_def prod.case
    apply (rule refines_get [OF assms [unfolded st]], simp only: prod.case)
    subgoal premises rel for i ga1
    proof -
      have "ga_rel e H (set_hnode i (\<lambda>n. n\<lparr>hn_children := hn_children n + 1\<rparr>) ga1)
          (M(p := (M p)\<lparr>hn_children := hn_children (M p) + 1\<rparr>), T)"
        by (rule ga_rel_mono [OF set_hnode_rel [OF rel]]) auto
      then show ?thesis using allocate_rel by (auto intro!: refines_same)
    qed
    done
qed

lemma count_node_rel:
  assumes "ga_rel e H ga st"
  shows "refines (ga_rel e H) (count_node (pe_types e) (pe_heap e) g ids i ga) (s_count_node e g ids i st)"
proof -
  obtain M T where st: "st = (M, T)" by (cases st)
  have view: "refines (ga_rel e H)
      (case t_view_src t of
         Some v \<Rightarrow> if t_op t \<noteq> GGML_OP_NONE
           then bnd (ggml_gallocr_hash_get ga v) (\<lambda>(k, ga). Inr (set_hnode k (\<lambda>n. n\<lparr>hn_views := hn_views n + 1\<rparr>) ga))
           else Inr ga
       | None \<Rightarrow> Inr ga)
      (Inr (case t_view_src t of
         Some v \<Rightarrow> if t_op t \<noteq> GGML_OP_NONE then (M(v := (M v)\<lparr>hn_views := hn_views (M v) + 1\<rparr>), T) else (M, T)
       | None \<Rightarrow> (M, T)))" for t
  proof (cases "t_view_src t")
    case (Some v)
    have "refines (ga_rel e H)
        (bnd (ggml_gallocr_hash_get ga v) (\<lambda>(k, ga). Inr (set_hnode k (\<lambda>n. n\<lparr>hn_views := hn_views n + 1\<rparr>) ga)))
        (Inr (M(v := (M v)\<lparr>hn_views := hn_views (M v) + 1\<rparr>), T))"
      apply (rule refines_get [OF assms [unfolded st]], simp only: prod.case refines_Inr)
      subgoal premises rel for k ga1
        by (rule ga_rel_mono [OF set_hnode_rel [OF rel]]) auto
      done
    then show ?thesis using assms by (simp add: Some st)
  qed (use assms in \<open>simp add: st\<close>)
  show ?thesis
    unfolding count_node_def s_count_node_def st Let_def prod.case
    apply (rule refines_same)
    apply (subst bnd_Inr [symmetric, where f = "\<lambda>st. bnd (if _ then bnd (get_node_buffer_id ids i) (\<lambda>b. s_allocate e (g_nodes g ! i) b st) else Inr st) _"])
    apply (rule refines_bnd [OF view])
    apply (rule refines_bnd)
     apply (auto intro!: refines_same allocate_rel) [1]
    apply (rule refines_srcs, assumption, rule count_src_rel, assumption)
    done
qed

lemma update_parent_rel:
  assumes "ga_rel e H ga st"
  shows "refines (ga_rel e H) (update_parent (pe_types e) (pe_heap e) p ga) (s_update_parent e p st)"
proof -
  obtain M T where st: "st = (M, T)" by (cases st)
  show ?thesis
    unfolding update_parent_def s_update_parent_def st Let_def prod.case
    apply (rule refines_get [OF assms [unfolded st]], simp only: prod.case)
    subgoal premises prems for j ga1
    proof -
      let ?H = "insert (j, p) H"
      let ?ga = "set_hnode j (\<lambda>n. n\<lparr>hn_children := hn_children n - 1\<rparr>) ga1"
      let ?M = "M(p := (M p)\<lparr>hn_children := hn_children (M p) - 1\<rparr>)"
      have rel: "ga_rel e ?H ?ga (?M, T)" by (rule set_hnode_rel [OF prems]) auto
      have rel1: "ga_rel e H ?ga (?M, T)" using rel by (rule ga_rel_mono) blast
      have node: "hnode ?ga j = ?M p" using hnode_rel [OF rel, of j p] by simp
      have view: "refines (ga_rel e H)
          (bnd (ggml_gallocr_hash_get ?ga v) (\<lambda>(k, ga).
           if hn_views (hnode (set_hnode k (\<lambda>n. n\<lparr>hn_views := hn_views n - 1\<rparr>) ga) k) = 0 \<and>
              hn_children (hnode (set_hnode k (\<lambda>n. n\<lparr>hn_views := hn_views n - 1\<rparr>) ga) k) = 0 \<and>
              hn_allocated (hnode (set_hnode k (\<lambda>n. n\<lparr>hn_views := hn_views n - 1\<rparr>) ga) k)
           then ggml_gallocr_free_node (pe_types e) (pe_heap e) v (set_hnode k (\<lambda>n. n\<lparr>hn_views := hn_views n - 1\<rparr>) ga)
           else Inr (set_hnode k (\<lambda>n. n\<lparr>hn_views := hn_views n - 1\<rparr>) ga)))
          (let M' = ?M(v := (?M v)\<lparr>hn_views := hn_views (?M v) - 1\<rparr>) in
           if hn_views (M' v) = 0 \<and> hn_children (M' v) = 0 \<and> hn_allocated (M' v) then s_free e v (M', T) else Inr (M', T))" for v
        apply (rule refines_get [OF rel1], simp only: prod.case Let_def)
        subgoal premises prems for k ga2
        proof -
          let ?ga2 = "set_hnode k (\<lambda>n. n\<lparr>hn_views := hn_views n - 1\<rparr>) ga2"
          let ?M2 = "?M(v := (?M v)\<lparr>hn_views := hn_views (?M v) - 1\<rparr>)"
          have rel2: "ga_rel e (insert (k, v) H) ?ga2 (?M2, T)" by (rule set_hnode_rel [OF prems]) auto
          have "hnode ?ga2 k = ?M2 v" using hnode_rel [OF rel2, of k v] by simp
          moreover have "ga_rel e H ?ga2 (?M2, T)" using rel2 by (rule ga_rel_mono) blast
          ultimately show ?thesis using free_rel by (simp only: refines_Inr split: if_split) blast
        qed
        done
      show ?thesis
        apply (cases "hn_children (?M p) = 0 \<and> hn_views (?M p) = 0")
         apply (simp only: node simp_thms if_True, rule refines_same)
        subgoal for t
          apply (cases "t_view_src t")
           apply (simp only: option.case, use free_rel [OF rel1] rel1 in \<open>simp only: refines_Inr split: if_split, blast\<close>)
          apply (simp only: option.case, rule view [unfolded Let_def])
          done
        apply (simp only: node if_False refines_Inr rel1)
        done
    qed
    done
qed

lemma place_node_rel:
  assumes "ga_rel e H ga st"
  shows "refines (ga_rel e H) (place_node (pe_types e) (pe_heap e) g ids i ga) (s_place_node e g ids i st)"
  unfolding place_node_def s_place_node_def Let_def
  apply (rule refines_same, rule refines_same, rule refines_bnd)
   apply (rule refines_srcs, rule assms, rule allocate_rel, assumption)
  apply (rule refines_bnd, rule allocate_rel, assumption)
  apply (rule refines_srcs, assumption, rule update_parent_rel, assumption)
  done

lemma alloc_graph_impl_rel:
  assumes "ga_bufts ga = pe_bufts e" "ga_talloc_of ga = pe_talloc_of e" "slots_ok (ggml_hash_set_reset (ga_hash_set ga))"
    and empty: "\<forall>i < hs_size (ga_hash_set ga). slot (ggml_hash_set_reset (ga_hash_set ga)) i = None"
    and "hs_size (ggml_hash_set_reset (ga_hash_set ga)) = hs_size (ga_hash_set ga)"
  shows "refines (ga_rel e {}) (ggml_gallocr_alloc_graph_impl (pe_types e) (pe_heap e) g node_ids leaf_ids ga)
    (s_place_graph e g node_ids leaf_ids (\<lambda>_. zero_node, ga_tallocs ga))"
proof -
  let ?ga = "ga\<lparr>ga_hash_set := ggml_hash_set_reset (ga_hash_set ga),
    ga_hash_values := replicate (hs_size (ga_hash_set ga)) zero_node\<rparr>"
  have "ga_rel e {} ?ga (\<lambda>_. zero_node, ga_tallocs ga)"
    using assms by (auto simp: ga_rel_def is_map_def slots_def)
  moreover have "refines (ga_rel e {}) (place_leaf (pe_types e) (pe_heap e) g leaf_ids i ga1) (s_place_leaf e g leaf_ids i st)"
    if "ga_rel e {} ga1 st" for i ga1 st
    unfolding place_leaf_def s_place_leaf_def by (intro refines_same allocate_rel that)
  ultimately show ?thesis
    unfolding ggml_gallocr_alloc_graph_impl_def s_place_graph_def Let_def
    apply -
    apply (rule refines_bnd, rule refines_each, assumption, assumption)
    apply (rule refines_bnd, rule refines_each, assumption, rule count_node_rel, assumption)
    apply (rule refines_each, assumption, rule place_node_rel, assumption)
    done
qed

end
