(* ===== verification/Gallocr_Places.thy ===== *)
theory Gallocr_Places
  imports Gallocr_Spec
begin

text \<open>
  What the graph allocator guarantees: at every moment the tensors that are allocated own disjoint
  regions of their allocators, and a region is given up only when nothing needs it any more.
\<close>

subsection \<open>Who owns which region\<close>

text \<open>The tensors that the allocator places: not views, and without memory of their own.\<close>

definition managed :: "heap \<Rightarrow> ptr \<Rightarrow> bool" where
  "managed h p \<longleftrightarrow> (\<exists>t. h p = Some t \<and> t_view_src t = None \<and> t_addr t = None \<and> t_buffer t = None)"

definition buf_alignment :: "place_env \<Rightarrow> nat \<Rightarrow> size_t" where
  "buf_alignment e b = if_alignment (pe_types e (pe_bufts e ! b))"

definition round_to :: "nat \<Rightarrow> nat \<Rightarrow> nat" where
  "round_to al n = (n + al - 1) div al * al"

text \<open>The memory that a tensor takes in a buffer, a multiple of the alignment.\<close>

definition room_of :: "place_env \<Rightarrow> nat \<Rightarrow> ptr \<Rightarrow> nat" where
  "room_of e b p = (case s_size e b p of Inr sz \<Rightarrow> round_to (unat (buf_alignment e b)) (unat sz) | Inl _ \<Rightarrow> 0)"

text \<open>The allocator, the chunk and the region of a tensor.\<close>

definition region_at :: "place_env \<Rightarrow> (ptr \<Rightarrow> hash_node) \<Rightarrow> ptr \<Rightarrow> region" where
  "region_at e M p = (unat (snd (hn_addr (M p))), room_of e (hn_buffer (M p)) p)"

definition spot :: "place_env \<Rightarrow> (ptr \<Rightarrow> hash_node) \<Rightarrow> ptr \<Rightarrow> nat \<times> nat \<times> region" where
  "spot e M p = (pe_talloc_of e ! hn_buffer (M p), fst (hn_addr (M p)), region_at e M p)"

definition live_in :: "place_env \<Rightarrow> (ptr \<Rightarrow> hash_node) \<Rightarrow> nat \<Rightarrow> live_regions" where
  "live_in e M a = {cr. \<exists>p. hn_allocated (M p) \<and> spot e M p = (a, cr)}"

definition env_ok :: "place_env \<Rightarrow> bool" where
  "env_ok e \<longleftrightarrow> length (pe_talloc_of e) = length (pe_bufts e) \<and>
     (\<forall>b < length (pe_bufts e). is_pow2 (buf_alignment e b) \<and>
        (\<forall>p sz. managed (pe_heap e) p \<longrightarrow> s_size e b p = Inr sz \<longrightarrow>
           0 < unat sz \<and> unat sz + unat (buf_alignment e b) \<le> 2 ^ 63))"

definition tallocs_fit :: "place_env \<Rightarrow> ggml_dyn_tallocr list \<Rightarrow> bool" where
  "tallocs_fit e T \<longleftrightarrow> (\<forall>b < length (pe_bufts e). pe_talloc_of e ! b < length T \<and>
     ta_alignment (T ! (pe_talloc_of e ! b)) = buf_alignment e b)"

text \<open>\<open>E\<close> are the tensors that have been given a place so far, allocated still or not.\<close>

definition own_inv :: "place_env \<Rightarrow> ptr set \<Rightarrow> places \<Rightarrow> bool" where
  "own_inv e E st \<longleftrightarrow> (case st of (M, T) \<Rightarrow>
     tallocs_fit e T \<and> (\<forall>a < length T. alloc_ok (T ! a) (live_in e M a)) \<and>
     (\<forall>p. hn_allocated (M p) \<longrightarrow> p \<in> E) \<and>
     (\<forall>p \<in> E. managed (pe_heap e) p \<and> hn_buffer (M p) < length (pe_bufts e) \<and>
        reg_end (region_at e M p) \<le>
          unat (ggml_dyn_tallocr_max_size (T ! (pe_talloc_of e ! hn_buffer (M p))) (fst (hn_addr (M p))))) \<and>
     (\<forall>p q. hn_allocated (M p) \<longrightarrow> hn_allocated (M q) \<longrightarrow> p \<noteq> q \<longrightarrow> spot e M p \<noteq> spot e M q))"

lemma own_invD:
  assumes "own_inv e E (M, T)"
  shows "tallocs_fit e T" "a < length T \<Longrightarrow> alloc_ok (T ! a) (live_in e M a)" "hn_allocated (M p) \<Longrightarrow> p \<in> E"
    "p \<in> E \<Longrightarrow> managed (pe_heap e) p" "p \<in> E \<Longrightarrow> hn_buffer (M p) < length (pe_bufts e)"
    "p \<in> E \<Longrightarrow> reg_end (region_at e M p) \<le>
       unat (ggml_dyn_tallocr_max_size (T ! (pe_talloc_of e ! hn_buffer (M p))) (fst (hn_addr (M p))))"
    "hn_allocated (M p) \<Longrightarrow> hn_allocated (M q) \<Longrightarrow> p \<noteq> q \<Longrightarrow> spot e M p \<noteq> spot e M q"
  using assms by (auto simp: own_inv_def)

lemma room_rounded:
  assumes "env_ok e" "b < length (pe_bufts e)" "managed (pe_heap e) p" "s_size e b p = Inr sz"
    and "aligned_offset 0 sz (buf_alignment e b) = Inr s"
  shows "unat s = room_of e b p" "0 < unat s" "s \<le> HALF_SIZE_MAX" "unat (buf_alignment e b) dvd unat s"
proof -
  have al: "is_pow2 (buf_alignment e b)" and sz: "0 < unat sz" "unat sz + unat (buf_alignment e b) \<le> 2 ^ 63"
    using assms(1-4) by (auto simp: env_ok_def)
  then have le: "unat sz + unat (buf_alignment e b) \<le> 2 ^ 64" by simp
  obtain s' where "aligned_offset 0 sz (buf_alignment e b) = Inr s'"
      "unat s' = (unat sz + unat (buf_alignment e b) - 1) div unat (buf_alignment e b) * unat (buf_alignment e b)"
    using aligned_offset_Inr [OF al le] .
  then show "unat s = room_of e b p" using assms(4,5) by (simp add: room_of_def round_to_def)
  note s = aligned_size [OF al le assms(5)]
  show "0 < unat s" "unat (buf_alignment e b) dvd unat s" using s sz by auto
  have "unat s \<le> 2 ^ 63 - 1" using s(3) sz(2) by simp
  then show "s \<le> HALF_SIZE_MAX" by (simp add: HALF_SIZE_MAX_def word_le_nat_alt unat_div)
qed

text \<open>Changing one allocator: the others keep what they have.\<close>

lemma tallocs_fit_put:
  assumes "tallocs_fit e T" "ta_alignment a = ta_alignment (T ! (pe_talloc_of e ! b))" "b < length (pe_bufts e)"
  shows "tallocs_fit e (s_put e b a T)"
  unfolding tallocs_fit_def
proof (intro allI impI conjI)
  fix b' assume "b' < length (pe_bufts e)"
  then have b': "pe_talloc_of e ! b' < length T" "ta_alignment (T ! (pe_talloc_of e ! b')) = buf_alignment e b'"
    using assms(1) by (auto simp: tallocs_fit_def)
  then show "pe_talloc_of e ! b' < length (s_put e b a T)" by (simp add: s_put_def)
  show "ta_alignment (s_put e b a T ! (pe_talloc_of e ! b')) = buf_alignment e b'"
    using b' assms(2) by (cases "pe_talloc_of e ! b' = pe_talloc_of e ! b") (simp_all add: s_put_def)
qed

lemma spot_upd_other: "q \<noteq> p \<Longrightarrow> spot e (M(p := n)) q = spot e M q" "q \<noteq> p \<Longrightarrow> region_at e (M(p := n)) q = region_at e M q"
  by (simp_all add: spot_def region_at_def)

lemma max_size_put:
  assumes "\<And>c. ggml_dyn_tallocr_max_size (T ! (pe_talloc_of e ! b)) c \<le> ggml_dyn_tallocr_max_size a c"
  shows "unat (ggml_dyn_tallocr_max_size (T ! i) c) \<le> unat (ggml_dyn_tallocr_max_size (s_put e b a T ! i) c)"
proof (cases "i = pe_talloc_of e ! b \<and> i < length T")
  case True
  then show ?thesis using assms [of c] by (simp add: s_put_def word_le_nat_alt)
next
  case False
  then have "s_put e b a T ! i = T ! i"
    by (cases "i = pe_talloc_of e ! b") (simp_all add: s_put_def list_update_beyond)
  then show ?thesis by simp
qed

lemma place_fresh_ok:
  assumes env: "env_ok e" and inv: "own_inv e E (M, T)" and p: "managed (pe_heap e) p" "p \<notin> E" and b: "b < length (pe_bufts e)"
    and place: "s_place_fresh e p b (M(p := (M p)\<lparr>hn_allocated := True\<rparr>), T) = Inr (M', T')"
  shows "\<exists>addr. M' = M(p := (M p)\<lparr>hn_allocated := True, hn_buffer := b, hn_addr := addr\<rparr>) \<and> own_inv e (insert p E) (M', T')"
proof -
  let ?i = "pe_talloc_of e ! b"
  note inv' = own_invD [OF inv]
  have i: "?i < length T" "ta_alignment (T ! ?i) = buf_alignment e b" and len: "length (pe_talloc_of e) = length (pe_bufts e)"
    using inv'(1) b env by (auto simp: tallocs_fit_def env_ok_def)
  obtain sz c x a where sz: "s_size e b p = Inr sz" and alloc: "ggml_dyn_tallocr_alloc (T ! ?i) sz = Inr ((c, x), a)"
    and M': "M' = M(p := (M p)\<lparr>hn_allocated := True, hn_buffer := b, hn_addr := (c, x)\<rparr>)" and T': "T' = s_put e b a T"
    using place b i len by (auto simp: s_place_fresh_def s_talloc_def bnd_eq_Inr elem_eq_Inr)
  obtain s where s: "aligned_offset 0 sz (buf_alignment e b) = Inr s"
    using alloc i(2) by (auto simp: ggml_dyn_tallocr_alloc_def bnd_eq_Inr)
  note room = room_rounded [OF env b p(1) sz s]
  have free: "\<not> hn_allocated (M p)" using inv'(3) p(2) by blast
  have step: "alloc_ok a (insert (c, unat x, unat s) (live_in e M ?i))" "(c, unat x, unat s) \<notin> live_in e M ?i"
      "ta_alignment a = buf_alignment e b"
    using alloc_step_ok [OF inv'(2) [OF i(1)] alloc] s room(2-4) i(2) by auto
  have spot: "spot e M' p = (?i, c, unat x, unat s)" by (simp add: M' spot_def region_at_def room(1))
  have other: "spot e M' q = spot e M q" "region_at e M' q = region_at e M q" if "q \<noteq> p" for q
    using that by (simp_all add: M' spot_upd_other)
  have live: "live_in e M' j = (if j = ?i then insert (c, unat x, unat s) (live_in e M j) else live_in e M j)" for j
  proof -
    have "hn_allocated (M' q) \<and> spot e M' q = (j, cr) \<longleftrightarrow>
        q = p \<and> j = ?i \<and> cr = (c, unat x, unat s) \<or> hn_allocated (M q) \<and> spot e M q = (j, cr)" for q cr
      using spot other [of q] free by (cases "q = p") (auto simp: M')
    then show ?thesis by (auto simp: live_in_def)
  qed
  have grow: "ggml_dyn_tallocr_max_size (T ! ?i) d \<le> ggml_dyn_tallocr_max_size a d" for d
    using alloc by (rule alloc_max_size)
  have "own_inv e (insert p E) (M', T')"
    unfolding own_inv_def prod.case
  proof (intro conjI allI impI ballI)
    show "tallocs_fit e T'" unfolding T' by (rule tallocs_fit_put [OF inv'(1) _ b]) (simp add: step(3) i(2))
    show "alloc_ok (T' ! j) (live_in e M' j)" if "j < length T'" for j
      using that step(1) inv'(2) live by (auto simp: T' s_put_def nth_list_update)
    show "q \<in> insert p E" if "hn_allocated (M' q)" for q using that inv'(3) by (auto simp: M' split: if_splits)
    show "managed (pe_heap e) q" if "q \<in> insert p E" for q using that p(1) inv'(4) by auto
    show "hn_buffer (M' q) < length (pe_bufts e)" if "q \<in> insert p E" for q
      using that b inv'(5) p(2) by (auto simp: M')
    show "spot e M' q \<noteq> spot e M' r" if "hn_allocated (M' q)" "hn_allocated (M' r)" "q \<noteq> r" for q r
    proof -
      have new: "spot e M r \<noteq> spot e M' p" if "hn_allocated (M r)" for r
        using step(2) that unfolding spot by (auto simp: live_in_def)
      show ?thesis using that new [of r] new [of q] other [of r] other [of q] inv'(7) [of q r]
        by (cases "q = p"; cases "r = p") (auto simp: M')
    qed
    show "reg_end (region_at e M' q) \<le>
        unat (ggml_dyn_tallocr_max_size (T' ! (pe_talloc_of e ! hn_buffer (M' q))) (fst (hn_addr (M' q))))" if "q \<in> insert p E" for q
    proof (cases "q = p")
      case True
      then show ?thesis using live_below_max [OF step(1), of c "(unat x, unat s)"] i(1) spot
        by (simp add: M' T' s_put_def spot_def)
    next
      case False
      then have "q \<in> E" using that by simp
      then have "reg_end (region_at e M q) \<le>
          unat (ggml_dyn_tallocr_max_size (T' ! (pe_talloc_of e ! hn_buffer (M q))) (fst (hn_addr (M q))))"
        using inv'(6) max_size_put [where T = T and e = e, OF grow] unfolding T' by (meson order_trans)
      then show ?thesis using other(2) [OF False] False by (simp add: M')
    qed
  qed
  then show ?thesis using M' by blast
qed

subsection \<open>Giving a region back\<close>

text \<open>The region of an allocated tensor is one that the allocator has handed out.\<close>

lemma owned_region:
  assumes "env_ok e" "own_inv e E (M, T)" "hn_allocated (M p)"
  shows "hn_buffer (M p) < length (pe_bufts e)" "pe_talloc_of e ! hn_buffer (M p) < length T"
    "ta_alignment (T ! (pe_talloc_of e ! hn_buffer (M p))) = buf_alignment e (hn_buffer (M p))"
    "s_talloc e T (hn_buffer (M p)) = Inr (T ! (pe_talloc_of e ! hn_buffer (M p)))"
    "alloc_ok (T ! (pe_talloc_of e ! hn_buffer (M p))) (live_in e M (pe_talloc_of e ! hn_buffer (M p)))"
    "(fst (hn_addr (M p)), region_at e M p) \<in> live_in e M (pe_talloc_of e ! hn_buffer (M p))"
proof -
  note inv = own_invD [OF assms(2)]
  show b: "hn_buffer (M p) < length (pe_bufts e)" using inv(3,5) assms(3) by blast
  then show i: "pe_talloc_of e ! hn_buffer (M p) < length T"
    "ta_alignment (T ! (pe_talloc_of e ! hn_buffer (M p))) = buf_alignment e (hn_buffer (M p))"
    using inv(1) by (auto simp: tallocs_fit_def)
  then show "s_talloc e T (hn_buffer (M p)) = Inr (T ! (pe_talloc_of e ! hn_buffer (M p)))"
    using b assms(1) by (simp add: s_talloc_def elem_def env_ok_def)
  show "alloc_ok (T ! (pe_talloc_of e ! hn_buffer (M p))) (live_in e M (pe_talloc_of e ! hn_buffer (M p)))"
    using inv(2) i(1) .
  show "(fst (hn_addr (M p)), region_at e M p) \<in> live_in e M (pe_talloc_of e ! hn_buffer (M p))"
    using assms(3) by (auto simp: live_in_def spot_def)
qed

lemma live_in_dealloc:
  assumes "own_inv e E (M, T)" "hn_allocated (M p)"
  shows "live_in e (M(p := (M p)\<lparr>hn_allocated := False\<rparr>)) j =
    (if j = pe_talloc_of e ! hn_buffer (M p) then live_in e M j - {(fst (hn_addr (M p)), region_at e M p)} else live_in e M j)"
proof -
  let ?M = "M(p := (M p)\<lparr>hn_allocated := False\<rparr>)"
  have "hn_allocated (?M q) \<and> spot e ?M q = (j, cr) \<longleftrightarrow> hn_allocated (M q) \<and> q \<noteq> p \<and> spot e M q = (j, cr)" for q cr
    by (cases "q = p") (simp_all add: spot_upd_other)
  then have "live_in e ?M j = {cr. \<exists>q. hn_allocated (M q) \<and> q \<noteq> p \<and> spot e M q = (j, cr)}"
    by (simp add: live_in_def)
  moreover have "spot e M q = spot e M p \<longrightarrow> q = p" if "hn_allocated (M q)" for q
    using own_invD(7) [OF assms(1) that assms(2)] by blast
  moreover have "spot e M p = (pe_talloc_of e ! hn_buffer (M p), fst (hn_addr (M p)), region_at e M p)" by (simp add: spot_def)
  ultimately show ?thesis using assms(2) unfolding live_in_def by auto
qed

text \<open>One allocator changes and a tensor is no longer allocated.\<close>

lemma own_inv_dealloc:
  assumes inv: "own_inv e E (M, T)" and p: "hn_allocated (M p)" "b = hn_buffer (M p)"
    and a: "alloc_ok a (live_in e M (pe_talloc_of e ! b) - {(fst (hn_addr (M p)), region_at e M p)})"
      "ta_alignment a = ta_alignment (T ! (pe_talloc_of e ! b))"
      "\<And>c. ggml_dyn_tallocr_max_size (T ! (pe_talloc_of e ! b)) c \<le> ggml_dyn_tallocr_max_size a c"
  shows "own_inv e E (M(p := (M p)\<lparr>hn_allocated := False\<rparr>), s_put e b a T)"
proof -
  note inv' = own_invD [OF inv]
  let ?M = "M(p := (M p)\<lparr>hn_allocated := False\<rparr>)"
  have same: "hn_addr (?M q) = hn_addr (M q)" "hn_buffer (?M q) = hn_buffer (M q)" for q by auto
  have spot: "spot e ?M q = spot e M q" "region_at e ?M q = region_at e M q" for q
    by (simp_all add: spot_def region_at_def)
  have b: "b < length (pe_bufts e)" using inv'(3,5) p by blast
  have "reg_end (region_at e M q) \<le>
      unat (ggml_dyn_tallocr_max_size (s_put e b a T ! (pe_talloc_of e ! hn_buffer (M q))) (fst (hn_addr (M q))))" if "q \<in> E" for q
    using inv'(6) [OF that] max_size_put [where T = T and e = e, OF a(3)] by (meson order_trans)
  moreover have "alloc_ok (s_put e b a T ! j) (live_in e ?M j)" if "j < length T" for j
    using that a(1) inv'(2) p(2) unfolding live_in_dealloc [OF inv p(1)] by (auto simp: s_put_def nth_list_update)
  moreover have "tallocs_fit e (s_put e b a T)" by (rule tallocs_fit_put [OF inv'(1) a(2) b])
  ultimately show ?thesis
    using inv'(3-5,7) unfolding own_inv_def prod.case same spot
    by (auto simp: s_put_def split: if_splits)
qed

lemma free_ok:
  assumes env: "env_ok e" and inv: "own_inv e E (M, T)" and p: "hn_allocated (M p)" "pe_heap e p = Some t"
    and free: "s_free e p (M, T) = Inr (M', T')"
  shows "if has_flag t GGML_TENSOR_FLAG_OUTPUT then M' = M \<and> T' = T
    else M' = M(p := (M p)\<lparr>hn_allocated := False\<rparr>) \<and> own_inv e E (M', T')"
proof (cases "has_flag t GGML_TENSOR_FLAG_OUTPUT")
  case True
  then show ?thesis using free p(2) by (auto simp: s_free_def deref_def)
next
  case False
  let ?b = "hn_buffer (M p)"
  note own = owned_region [OF env inv p(1)]
  have man: "managed (pe_heap e) p" using own_invD(3,4) [OF inv] p(1) by blast
  obtain sz a where sz: "s_size e ?b p = Inr sz" and a: "ggml_dyn_tallocr_free_bytes (T ! (pe_talloc_of e ! ?b)) (hn_addr (M p)) sz = Inr a"
    and M': "M' = M(p := (M p)\<lparr>hn_allocated := False\<rparr>)" and T': "T' = s_put e ?b a T"
    using free p(2) own(4) False by (auto simp: s_free_def deref_def Let_def bnd_eq_Inr)
  obtain s where s: "aligned_offset 0 sz (buf_alignment e ?b) = Inr s"
    using a own(3) by (auto simp: ggml_dyn_tallocr_free_bytes_def bnd_eq_Inr)
  have r: "region_at e M p = (unat (snd (hn_addr (M p))), unat s)"
    using room_rounded(1) [OF env own(1) man sz s] by (simp add: region_at_def)
  have step: "alloc_ok a (live_in e M (pe_talloc_of e ! ?b) - {(fst (hn_addr (M p)), region_at e M p)}) \<and>
      ta_alignment a = ta_alignment (T ! (pe_talloc_of e ! ?b))"
    using free_step_ok [OF own(5), of "fst (hn_addr (M p))" "snd (hn_addr (M p))" sz a s] a s own(3,6) r by simp
  have "own_inv e E (M', T')"
    unfolding M' T' by (rule own_inv_dealloc [OF inv p(1)]) (use step free_max_size [OF a] in auto)
  then show ?thesis using False M' by simp
qed

subsection \<open>Taking over the region of a source\<close>

lemma aligned_stays:
  assumes "is_pow2 al" "unat al dvd unat x"
  shows "aligned_offset 0 x al = Inr x"
proof -
  have "unat (x mod al) = 0" using assms(2) by (simp add: unat_mod dvd_imp_mod_0)
  then have "x mod al = 0" by (simp add: unat_eq_0)
  moreover have "al mod al = 0" by simp
  ultimately show ?thesis using assms(1) by (simp add: aligned_offset_def Let_def)
qed

text \<open>The front of a region is kept and the rest of it given back.\<close>

lemma shrink_ok:
  assumes ok: "alloc_ok a live" and r: "(c, unat x, unat big) \<in> live" and al: "ta_alignment a = al" "is_pow2 al"
    and n: "small < big" "0 < unat small" "unat al dvd unat small" "unat al dvd unat big"
    and free: "ggml_dyn_tallocr_free_bytes a (c, x + small) (big - small) = Inr a'"
  shows "alloc_ok a' (insert (c, unat x, unat small) (live - {(c, unat x, unat big)}))" "ta_alignment a' = ta_alignment a"
proof -
  let ?n = "unat small" and ?m = "unat big - unat small"
  have lt: "unat small < unat big" using n(1) by (simp add: word_less_nat_alt)
  have sum: "?n + ?m = unat big" using lt by simp
  have m: "unat (big - small) = ?m" using n(1) by (simp add: unat_sub less_imp_le)
  have "unat x + unat big < 2 ^ 64" using live_size(3) [OF ok r] by (simp add: reg_end_def)
  then have x: "unat (x + small) = unat x + ?n" using lt by (intro unat_add_small) simp
  have "unat al dvd unat (big - small)" using n(3,4) m by (simp add: dvd_diff_nat)
  then have s: "aligned_offset 0 (big - small) (ta_alignment a) = Inr (big - small)" using al aligned_stays by simp
  let ?live = "insert (c, unat x, ?n) (insert (c, unat x + ?n, ?m) (live - {(c, unat x, unat big)}))"
  have "alloc_ok a ?live"
    using split_step_ok [OF ok, of c "unat x" ?n ?m] r n(2,3) lt al by (simp add: sum)
  from free_step_ok [OF this free s]
  have "alloc_ok a' (?live - {(c, unat x + ?n, ?m)})" and al': "ta_alignment a' = ta_alignment a"
    using x m by auto
  moreover have "(c, unat x + ?n, ?m) \<notin> live"
  proof
    assume "(c, unat x + ?n, ?m) \<in> live"
    from live_apart [OF ok r this] show False using n(2) lt by (auto simp: regions_apart_def reg_end_def)
  qed
  moreover have "(c, unat x, ?n) \<noteq> (c, unat x + ?n, ?m)" using n(2) by simp
  ultimately show "alloc_ok a' (insert (c, unat x, unat small) (live - {(c, unat x, unat big)}))"
    "ta_alignment a' = ta_alignment a"
    by (auto simp: insert_Diff_if)
qed

lemma round_to_mono: "n \<le> m \<Longrightarrow> round_to al n \<le> round_to al m"
  unfolding round_to_def by (intro mult_right_mono div_le_mono) auto

text \<open>What the allocator keeps when a node takes the place of a source.\<close>

lemma free_extra_ok:
  assumes env: "env_ok e" and inv: "own_inv e E (M, T)" and p: "managed (pe_heap e) p" "p \<notin> E" and q: "hn_allocated (M q)"
    and free: "s_free_extra e p q (s_take_over p q (M(p := (M p)\<lparr>hn_allocated := True\<rparr>)), T) = Inr (M', T')"
  defines "b \<equiv> hn_buffer (M q)"
  shows "M' = s_take_over p q (M(p := (M p)\<lparr>hn_allocated := True\<rparr>)) \<and>
    0 < room_of e b p \<and> room_of e b p \<le> room_of e b q \<and>
    (\<exists>a. T' = s_put e b a T \<and> ta_alignment a = ta_alignment (T ! (pe_talloc_of e ! b)) \<and>
       (\<forall>c. ggml_dyn_tallocr_max_size a c = ggml_dyn_tallocr_max_size (T ! (pe_talloc_of e ! b)) c) \<and>
       alloc_ok a (insert (fst (hn_addr (M q)), unat (snd (hn_addr (M q))), room_of e b p)
         (live_in e M (pe_talloc_of e ! b) - {(fst (hn_addr (M q)), region_at e M q)})))"
proof -
  let ?M = "s_take_over p q (M(p := (M p)\<lparr>hn_allocated := True\<rparr>))" and ?i = "pe_talloc_of e ! b"
  obtain c x where addr: "hn_addr (M q) = (c, x)" by (cases "hn_addr (M q)")
  note own = owned_region [OF env inv q, folded b_def]
  have qE: "q \<in> E" "managed (pe_heap e) q" using own_invD(3,4) [OF inv] q by blast+
  have pq: "p \<noteq> q" using qE(1) p(2) by blast
  have M: "hn_buffer (?M q) = b" "hn_buffer (?M p) = b" "hn_addr (?M q) = (c, x)"
    using pq by (simp_all add: s_take_over_def b_def addr)
  obtain ps ns ps' ns' where ps: "s_size e b q = Inr ps" and ns: "s_size e b p = Inr ns" and le: "ns \<le> ps"
    and ps': "aligned_offset 0 ps (buf_alignment e b) = Inr ps'" and ns': "aligned_offset 0 ns (buf_alignment e b) = Inr ns'"
    and rest: "(if ps' > ns' then bnd (ggml_dyn_tallocr_free_bytes (T ! ?i) (c, x + ns') (ps' - ns')) (\<lambda>a. Inr (?M, s_put e b a T))
       else Inr (?M, T)) = Inr (M', T')"
    using free own(3,4) unfolding s_free_extra_def Let_def prod.case M by (auto simp: bnd_eq_Inr)
  note rq = room_rounded [OF env own(1) qE(2) ps ps'] and rp = room_rounded [OF env own(1) p(1) ns ns']
  have room: "room_of e b p \<le> room_of e b q"
    using le by (auto simp: room_of_def ps ns intro!: round_to_mono word_le_nat_alt [THEN iffD1])
  have reg: "region_at e M q = (unat x, unat ps')" by (simp add: region_at_def addr rq(1) flip: b_def)
  have al: "is_pow2 (buf_alignment e b)" using env own(1) by (simp add: env_ok_def)
  show ?thesis
  proof (cases "ps' > ns'")
    case True
    then obtain a where a: "ggml_dyn_tallocr_free_bytes (T ! ?i) (c, x + ns') (ps' - ns') = Inr a" "M' = ?M" "T' = s_put e b a T"
      using rest by (auto simp: bnd_eq_Inr)
    have "(c, unat x, unat ps') \<in> live_in e M ?i" using own(6) by (simp add: addr reg)
    from shrink_ok [OF own(5) this own(3) al True rp(2,4) rq(4) a(1)]
    show ?thesis using a(2,3) free_max_size [OF a(1)] rp(1,2) room by (auto simp: addr reg rp(1))
  next
    case False
    then have "unat ps' \<le> unat ns'" by (simp add: word_le_nat_alt not_less)
    then have eq: "room_of e b p = room_of e b q" using room rp(1) rq(1) by simp
    have kept: "M' = ?M" "T' = T" using rest False by auto
    have "T' = s_put e b (T ! ?i) T" using kept(2) by (simp add: s_put_def)
    moreover have "alloc_ok (T ! ?i) (insert (c, unat x, room_of e b p) (live_in e M ?i - {(c, region_at e M q)}))"
      using own(5,6) by (simp add: addr reg eq rq(1) insert_absorb)
    ultimately show ?thesis using kept(1) rp(1,2) eq by (auto simp: addr)
  qed
qed

lemma take_ok:
  assumes env: "env_ok e" and inv: "own_inv e E (M, T)" and p: "managed (pe_heap e) p" "p \<notin> E" and q: "hn_allocated (M q)"
    and free: "s_free_extra e p q (s_take_over p q (M(p := (M p)\<lparr>hn_allocated := True\<rparr>)), T) = Inr (M', T')"
  shows "M' = M(p := (M p)\<lparr>hn_allocated := True, hn_buffer := hn_buffer (M q), hn_addr := hn_addr (M q)\<rparr>,
      q := (M q)\<lparr>hn_allocated := False\<rparr>) \<and> own_inv e (insert p E) (M', T')"
proof -
  let ?b = "hn_buffer (M q)" and ?c = "fst (hn_addr (M q))" and ?x = "unat (snd (hn_addr (M q)))"
  let ?i = "pe_talloc_of e ! ?b" and ?r = "(unat (snd (hn_addr (M q))), room_of e (hn_buffer (M q)) p)"
  note inv' = own_invD [OF inv]
  have qE: "q \<in> E" using inv'(3) q .
  then have pq: "p \<noteq> q" using p(2) by blast
  have free_p: "\<not> hn_allocated (M p)" using inv'(3) p(2) by blast
  note own = owned_region [OF env inv q]
  obtain a where M0: "M' = s_take_over p q (M(p := (M p)\<lparr>hn_allocated := True\<rparr>))" and T': "T' = s_put e ?b a T"
    and room: "0 < room_of e ?b p" "room_of e ?b p \<le> room_of e ?b q"
    and a: "ta_alignment a = ta_alignment (T ! ?i)" "\<And>c. ggml_dyn_tallocr_max_size a c = ggml_dyn_tallocr_max_size (T ! ?i) c"
      "alloc_ok a (insert (?c, ?r) (live_in e M ?i - {(?c, region_at e M q)}))"
    using free_extra_ok [OF env inv p q free] by blast
  have M': "M' = M(p := (M p)\<lparr>hn_allocated := True, hn_buffer := ?b, hn_addr := hn_addr (M q)\<rparr>,
      q := (M q)\<lparr>hn_allocated := False\<rparr>)"
    unfolding M0 using pq by (auto simp: s_take_over_def fun_eq_iff)
  have spot_p: "spot e M' p = (?i, ?c, ?r)" "region_at e M' p = ?r" using pq by (simp_all add: M' spot_def region_at_def)
  have other: "spot e M' s = spot e M s" "region_at e M' s = region_at e M s" if "s \<noteq> p" for s
    using that by (auto simp: M' spot_def region_at_def)
  have spot_q: "spot e M q = (?i, ?c, region_at e M q)" by (simp add: spot_def)
  have reg_q: "region_at e M q = (?x, room_of e ?b q)" by (simp add: region_at_def)
  have new: "spot e M s \<noteq> (?i, ?c, ?r)" if s: "hn_allocated (M s)" "s \<noteq> q" for s
  proof
    assume eq: "spot e M s = (?i, ?c, ?r)"
    then have "(?c, ?r) \<in> live_in e M ?i" using s(1) by (auto simp: live_in_def)
    moreover have "?r \<noteq> region_at e M q" using eq inv'(7) [OF s(1) q s(2)] spot_q by auto
    ultimately have "regions_apart ?r (region_at e M q)" using live_apart [OF own(5) _ own(6)] by blast
    then show False using room by (auto simp: regions_apart_def reg_end_def reg_q)
  qed
  have live: "live_in e M' j = (if j = ?i then insert (?c, ?r) (live_in e M j - {(?c, region_at e M q)}) else live_in e M j)" for j
  proof -
    have "hn_allocated (M' s) \<and> spot e M' s = (j, cr) \<longleftrightarrow>
        s = p \<and> (?i, ?c, ?r) = (j, cr) \<or> hn_allocated (M s) \<and> s \<noteq> q \<and> spot e M s = (j, cr)" for s cr
      using other(1) [of s] spot_p(1) free_p pq by (cases "s = p") (auto simp: M')
    moreover have "hn_allocated (M s) \<and> s \<noteq> q \<and> spot e M s = (j, cr) \<longleftrightarrow>
        hn_allocated (M s) \<and> spot e M s = (j, cr) \<and> (j, cr) \<noteq> spot e M q" for s cr
      using inv'(7) [of s q] q by auto
    ultimately have "(\<exists>s. hn_allocated (M' s) \<and> spot e M' s = (j, cr)) \<longleftrightarrow>
        (?i, ?c, ?r) = (j, cr) \<or> (\<exists>s. hn_allocated (M s) \<and> spot e M s = (j, cr)) \<and> (j, cr) \<noteq> spot e M q" for cr
      by blast
    then show ?thesis unfolding live_in_def spot_q by auto
  qed
  have "own_inv e (insert p E) (M', T')"
    unfolding own_inv_def prod.case
  proof (intro conjI allI impI ballI)
    show "tallocs_fit e T'" unfolding T' by (rule tallocs_fit_put [OF inv'(1) a(1) own(1)])
    show "alloc_ok (T' ! j) (live_in e M' j)" if "j < length T'" for j
      using that a(3) inv'(2) live by (auto simp: T' s_put_def nth_list_update)
    show "s \<in> insert p E" if "hn_allocated (M' s)" for s using that inv'(3) by (auto simp: M' split: if_splits)
    show "managed (pe_heap e) s" if "s \<in> insert p E" for s using that p(1) inv'(4) by auto
    show "hn_buffer (M' s) < length (pe_bufts e)" if "s \<in> insert p E" for s
      using that own(1) inv'(5) p(2) by (auto simp: M')
    show "spot e M' s \<noteq> spot e M' r" if "hn_allocated (M' s)" "hn_allocated (M' r)" "s \<noteq> r" for s r
    proof -
      have alloc: "s = p \<or> hn_allocated (M s) \<and> s \<noteq> q" if "hn_allocated (M' s)" for s
        using that by (auto simp: M' split: if_splits)
      have fresh: "spot e M' s \<noteq> spot e M' p" if "hn_allocated (M' s)" "s \<noteq> p" for s
        using new [of s] alloc [OF that(1)] that(2) other(1) [OF that(2)] spot_p(1) by auto
      have old: "spot e M' s \<noteq> spot e M' r" if ne: "s \<noteq> p" "r \<noteq> p"
      proof -
        have "hn_allocated (M s)" "hn_allocated (M r)"
          using alloc [OF \<open>hn_allocated (M' s)\<close>] alloc [OF \<open>hn_allocated (M' r)\<close>] ne by auto
        then show ?thesis using inv'(7) \<open>s \<noteq> r\<close> other(1) [OF ne(1)] other(1) [OF ne(2)] by simp
      qed
      show ?thesis
      proof (cases "s = p")
        case True
        then show ?thesis using fresh [of r] that(2,3) by auto
      next
        case False
        then show ?thesis using fresh [of s] old that(1) by (cases "r = p") auto
      qed
    qed
    show "reg_end (region_at e M' s) \<le>
        unat (ggml_dyn_tallocr_max_size (T' ! (pe_talloc_of e ! hn_buffer (M' s))) (fst (hn_addr (M' s))))" if s: "s \<in> insert p E" for s
    proof (cases "s = p")
      case True
      then show ?thesis using live_below_max [OF a(3), of ?c ?r] own(2) spot_p pq
        by (simp add: M' T' s_put_def)
    next
      case False
      then have sE: "s \<in> E" using s by simp
      have "ggml_dyn_tallocr_max_size (T ! ?i) d \<le> ggml_dyn_tallocr_max_size a d" for d using a(2) by simp
      from order_trans [OF inv'(6) [OF sE] max_size_put [OF this]]
      have "reg_end (region_at e M s) \<le>
          unat (ggml_dyn_tallocr_max_size (T' ! (pe_talloc_of e ! hn_buffer (M s))) (fst (hn_addr (M s))))"
        unfolding T' .
      moreover have "hn_buffer (M' s) = hn_buffer (M s)" "hn_addr (M' s) = hn_addr (M s)" using False by (auto simp: M')
      ultimately show ?thesis using other(2) [OF False] by simp
    qed
  qed
  then show ?thesis using M' by blast
qed

subsection \<open>Placing a tensor\<close>

text \<open>The ways in which the place of a tensor is decided.\<close>

definition can_take :: "heap \<Rightarrow> (ptr \<Rightarrow> hash_node) \<Rightarrow> ptr \<Rightarrow> ptr \<Rightarrow> bool" where
  "can_take h M p q \<longleftrightarrow> (\<exists>t u. h p = Some t \<and> h q = Some u \<and> Some q \<in> set (t_src t) \<and> ggml_op_can_inplace (t_op t) \<and>
     ggml_are_same_layout t u \<and> \<not> has_flag u GGML_TENSOR_FLAG_OUTPUT \<and>
     hn_allocated (M q) \<and> hn_children (M q) = 1 \<and> hn_views (M q) = 0)"

definition placed_at :: "hash_node \<Rightarrow> nat \<Rightarrow> buffer_address \<Rightarrow> hash_node" where
  "placed_at n b addr = n\<lparr>hn_allocated := True, hn_buffer := b, hn_addr := addr\<rparr>"

definition place_step :: "heap \<Rightarrow> ptr \<Rightarrow> (ptr \<Rightarrow> hash_node) \<Rightarrow> (ptr \<Rightarrow> hash_node) \<Rightarrow> bool" where
  "place_step h p M M' \<longleftrightarrow> (\<exists>b addr. M' = M(p := placed_at (M p) b addr)) \<or>
     (\<exists>q. q \<noteq> p \<and> can_take h M p q \<and>
        M' = M(p := placed_at (M p) (hn_buffer (M q)) (hn_addr (M q)), q := (M q)\<lparr>hn_allocated := False\<rparr>))"

lemma s_reuse_parent_cases:
  assumes "s_reuse_parent e p t q (M, T) = Inr (r, st)" and man: "hn_allocated (M q) \<longrightarrow> managed (pe_heap e) q"
  shows "if r then hn_allocated (M q) \<and> hn_children (M q) = 1 \<and> hn_views (M q) = 0 \<and>
      (\<exists>u. pe_heap e q = Some u \<and> ggml_are_same_layout t u \<and> \<not> has_flag u GGML_TENSOR_FLAG_OUTPUT) \<and>
      s_free_extra e p q (s_take_over p q M, T) = Inr st
    else st = (M, T)"
proof (cases "hn_allocated (M q)")
  case True
  obtain u where u: "pe_heap e q = Some u" "t_view_src u = None" using man True by (auto simp: managed_def)
  then have "is_output (pe_heap e) u = Inr (has_flag u GGML_TENSOR_FLAG_OUTPUT)" by (simp add: is_output_def)
  then show ?thesis using assms(1) True u by (auto simp: s_reuse_parent_def deref_def bnd_eq_Inr split: if_splits)
next
  case False
  then show ?thesis using assms(1) by (auto simp: s_reuse_parent_def)
qed

lemma s_reuse_loop_cases:
  assumes "s_reuse_loop e p t srcs (M, T) = Inr (r, st)" and man: "\<forall>q. hn_allocated (M q) \<longrightarrow> managed (pe_heap e) q"
  shows "if r then \<exists>q. Some q \<in> set srcs \<and> hn_allocated (M q) \<and> hn_children (M q) = 1 \<and> hn_views (M q) = 0 \<and>
      (\<exists>u. pe_heap e q = Some u \<and> ggml_are_same_layout t u \<and> \<not> has_flag u GGML_TENSOR_FLAG_OUTPUT) \<and>
      s_free_extra e p q (s_take_over p q M, T) = Inr st
    else st = (M, T)"
  using assms(1)
proof (induction srcs)
  case (Cons s srcs)
  show ?case
  proof (cases s)
    case None
    then show ?thesis using Cons by (auto split: if_splits)
  next
    case (Some q)
    obtain r1 st1 where first: "s_reuse_parent e p t q (M, T) = Inr (r1, st1)"
      and rest: "(if r1 then Inr (True, st1) else s_reuse_loop e p t srcs st1) = Inr (r, st)"
      using Cons.prems Some by (auto simp: bnd_eq_Inr)
    note cases = s_reuse_parent_cases [OF first] man
    show ?thesis
    proof (cases r1)
      case True
      then show ?thesis using cases rest Some by auto
    next
      case False
      then have "st1 = (M, T)" using cases by simp
      then have "s_reuse_loop e p t srcs (M, T) = Inr (r, st)" using rest False by simp
      then show ?thesis using Cons.IH Some by (auto split: if_splits)
    qed
  qed
qed simp

lemma allocate_ok:
  assumes env: "env_ok e" and inv: "own_inv e E (M, T)" and t: "pe_heap e p = Some t" "Some p \<notin> set (t_src t)"
    and once: "managed (pe_heap e) p \<longrightarrow> \<not> hn_allocated (M p) \<longrightarrow> p \<notin> E"
    and alloc: "s_allocate e p b (M, T) = Inr (M', T')" and b: "nat b < length (pe_bufts e)"
  shows "if managed (pe_heap e) p \<and> \<not> hn_allocated (M p)
    then place_step (pe_heap e) p M M' \<and> own_inv e (insert p E) (M', T') else M' = M \<and> T' = T"
proof (cases "managed (pe_heap e) p \<and> \<not> hn_allocated (M p)")
  case False
  then show ?thesis using alloc t(1)
    by (auto simp: s_allocate_def s_is_allocated_def deref_def managed_def ggml_is_view_def bnd_eq_Inr split: if_splits)
next
  case True
  then have t': "t_view_src t = None" "t_addr t = None" "t_buffer t = None" and p: "p \<notin> E"
    using t(1) once by (auto simp: managed_def)
  let ?M = "M(p := (M p)\<lparr>hn_allocated := True\<rparr>)"
  obtain r M2 T2 where loop: "(if ggml_op_can_inplace (t_op t) then s_reuse_loop e p t (t_src t) (?M, T) else Inr (False, ?M, T)) =
      Inr (r, M2, T2)"
    and rest: "(if r then Inr (M2, T2) else s_place_fresh e p (nat b) (M2, T2)) = Inr (M', T')"
    using alloc t(1) t' True
    by (auto simp: s_allocate_def s_is_allocated_def deref_def ggml_is_view_def bnd_eq_Inr Let_def)
  have man: "\<forall>q. hn_allocated (?M q) \<longrightarrow> managed (pe_heap e) q"
    using own_invD(3,4) [OF inv] True by auto
  show ?thesis
  proof (cases r)
    case False
    then have "s_reuse_loop e p t (t_src t) (?M, T) = Inr (False, M2, T2) \<or> (M2, T2) = (?M, T)"
      using loop by (auto split: if_splits)
    then have "M2 = ?M" "T2 = T"
      using s_reuse_loop_cases [where M = ?M, OF _ man, of p t "t_src t" T False "(M2, T2)"] by auto
    then obtain addr where "M' = M(p := placed_at (M p) (nat b) addr)" "own_inv e (insert p E) (M', T')"
      using place_fresh_ok [OF env inv _ p b] True rest False by (auto simp: placed_at_def)
    then show ?thesis unfolding place_step_def if_P [OF True] by blast
  next
    case taken: True
    then have op: "ggml_op_can_inplace (t_op t)" "s_reuse_loop e p t (t_src t) (?M, T) = Inr (True, M2, T2)"
      using loop by (auto split: if_splits)
    obtain q u where q: "Some q \<in> set (t_src t)" "hn_allocated (?M q)" "hn_children (?M q) = 1" "hn_views (?M q) = 0"
      "pe_heap e q = Some u" "ggml_are_same_layout t u" "\<not> has_flag u GGML_TENSOR_FLAG_OUTPUT"
      and free: "s_free_extra e p q (s_take_over p q ?M, T) = Inr (M2, T2)"
      using s_reuse_loop_cases [OF op(2) man] by auto
    have pq: "q \<noteq> p" using q(1) t(2) by blast
    then have "hn_allocated (M q)" using q(2) by simp
    from take_ok [OF env inv _ p this free]
    have "M2 = M(p := placed_at (M p) (hn_buffer (M q)) (hn_addr (M q)), q := (M q)\<lparr>hn_allocated := False\<rparr>)"
      "own_inv e (insert p E) (M2, T2)" using True by (auto simp: placed_at_def)
    moreover have "can_take (pe_heap e) M p q" using q pq op(1) t(1) by (auto simp: can_take_def)
    moreover have "M' = M2" "T' = T2" using rest taken by auto
    ultimately show ?thesis using True pq unfolding place_step_def by auto
  qed
qed

end
