(* ===== verification/Gallocr_Order.thy ===== *)
theory Gallocr_Order
  imports Gallocr_Places
begin

text \<open>
  The placement of a whole graph: the uses that are counted, and the invariant of the loop over
  the nodes, from which follows that computing the nodes in order never overwrites a tensor that
  is still needed.
\<close>

subsection \<open>Graphs that can be placed\<close>

definition tensor_at :: "heap \<Rightarrow> ptr \<Rightarrow> graph_tensor" where
  "tensor_at h p = the (h p)"

definition srcs_of :: "heap \<Rightarrow> ptr \<Rightarrow> ptr set" where
  "srcs_of h p = {s. Some s \<in> set (t_src (tensor_at h p))}"

definition view_of :: "heap \<Rightarrow> ptr \<Rightarrow> ptr option" where
  "view_of h p = t_view_src (tensor_at h p)"

definition flagged :: "heap \<Rightarrow> 32 word \<Rightarrow> ptr \<Rightarrow> bool" where
  "flagged h f p = has_flag (tensor_at h p) f"

text \<open>The tensors that exist before node \<open>i\<close> is computed.\<close>

definition before :: "ggml_cgraph \<Rightarrow> nat \<Rightarrow> ptr set" where
  "before g i = set (g_leafs g) \<union> set (take i (g_nodes g))"

text \<open>
  The nodes are in an order of computation; views are nodes, of tensors before them that are not
  views; leafs and inputs are not operations that work in place.
\<close>

definition placeable :: "heap \<Rightarrow> ggml_cgraph \<Rightarrow> bool" where
  "placeable h g \<longleftrightarrow> distinct (g_leafs g @ g_nodes g) \<and> set (g_leafs g @ g_nodes g) \<subseteq> dom h \<and>
     (\<forall>i < length (g_nodes g). srcs_of h (g_nodes g ! i) \<subseteq> before g i) \<and>
     (\<forall>i < length (g_nodes g). \<forall>v. view_of h (g_nodes g ! i) = Some v \<longrightarrow>
        v \<in> before g i \<and> view_of h v = None \<and> t_op (tensor_at h (g_nodes g ! i)) \<noteq> GGML_OP_NONE) \<and>
     (\<forall>p \<in> set (g_leafs g). view_of h p = None \<and> p \<notin> srcs_of h p \<and> \<not> ggml_op_can_inplace (t_op (tensor_at h p))) \<and>
     (\<forall>p \<in> set (g_nodes g). flagged h GGML_TENSOR_FLAG_INPUT p \<longrightarrow> \<not> ggml_op_can_inplace (t_op (tensor_at h p)))"

lemma placeableD:
  assumes "placeable h g"
  shows "distinct (g_nodes g)" "p \<in> set (g_leafs g) \<Longrightarrow> p \<notin> set (g_nodes g)"
    "i < length (g_nodes g) \<Longrightarrow> s \<in> srcs_of h (g_nodes g ! i) \<Longrightarrow> s \<in> before g i"
    "i < length (g_nodes g) \<Longrightarrow> view_of h (g_nodes g ! i) = Some v \<Longrightarrow> v \<in> before g i"
    "i < length (g_nodes g) \<Longrightarrow> view_of h (g_nodes g ! i) = Some v \<Longrightarrow> view_of h v = None"
    "i < length (g_nodes g) \<Longrightarrow> view_of h (g_nodes g ! i) = Some v \<Longrightarrow> t_op (tensor_at h (g_nodes g ! i)) \<noteq> GGML_OP_NONE"
    "p \<in> set (g_leafs g) \<Longrightarrow> view_of h p = None" "p \<in> set (g_leafs g) \<Longrightarrow> p \<notin> srcs_of h p"
    "p \<in> set (g_leafs g) \<Longrightarrow> \<not> ggml_op_can_inplace (t_op (tensor_at h p))"
    "p \<in> set (g_nodes g) \<Longrightarrow> flagged h GGML_TENSOR_FLAG_INPUT p \<Longrightarrow> \<not> ggml_op_can_inplace (t_op (tensor_at h p))"
  using assms unfolding placeable_def by auto

lemma before_mono: "i \<le> j \<Longrightarrow> before g i \<subseteq> before g j"
  using set_take_subset_set_take by (fastforce simp: before_def)

lemma before_Suc: "i < length (g_nodes g) \<Longrightarrow> before g (Suc i) = insert (g_nodes g ! i) (before g i)"
  by (auto simp: before_def take_Suc_conv_app_nth)

lemma before_graph: "before g i \<subseteq> set (g_leafs g) \<union> set (g_nodes g)"
  by (auto simp: before_def dest: in_set_takeD)

lemma graph_heap: "placeable h g \<Longrightarrow> p \<in> set (g_leafs g) \<union> set (g_nodes g) \<Longrightarrow> h p = Some (tensor_at h p)"
proof -
  assume "placeable h g" "p \<in> set (g_leafs g) \<union> set (g_nodes g)"
  then have "p \<in> dom h" unfolding placeable_def by auto
  then show "h p = Some (tensor_at h p)" by (auto simp: tensor_at_def)
qed

lemma before_heap: "placeable h g \<Longrightarrow> p \<in> before g i \<Longrightarrow> h p = Some (tensor_at h p)"
  using before_graph [of g i] graph_heap by blast

lemma node_heap: "placeable h g \<Longrightarrow> i < length (g_nodes g) \<Longrightarrow> h (g_nodes g ! i) = Some (tensor_at h (g_nodes g ! i))"
  using graph_heap [of h g "g_nodes g ! i"] by simp

lemma node_not_before: "placeable h g \<Longrightarrow> i < length (g_nodes g) \<Longrightarrow> g_nodes g ! i \<notin> before g i"
  using placeableD(1,2) [of h g] by (auto simp: before_def in_set_conv_nth nth_eq_iff_index_eq)

subsection \<open>Counting uses\<close>

text \<open>How often a tensor is a source from node \<open>i\<close> on.\<close>

definition uses :: "heap \<Rightarrow> ggml_cgraph \<Rightarrow> nat \<Rightarrow> ptr \<Rightarrow> int" where
  "uses h g i p = (\<Sum>k \<in> {i..<length (g_nodes g)}. times_used h (g_nodes g ! k) p)"

definition views_on :: "heap \<Rightarrow> ggml_cgraph \<Rightarrow> ptr \<Rightarrow> ptr set" where
  "views_on h g v = {x \<in> set (g_nodes g). view_of h x = Some v}"

text \<open>The views of a tensor that have not had their last use, when \<open>R\<close> uses of each tensor are left.\<close>

definition waiting :: "heap \<Rightarrow> ggml_cgraph \<Rightarrow> (ptr \<Rightarrow> int) \<Rightarrow> ptr \<Rightarrow> ptr set" where
  "waiting h g R v = {x \<in> views_on h g v. 0 < R x \<or> uses h g 0 x = 0}"

lemma times_used_nonneg: "0 \<le> times_used h n s"
  by (simp add: times_used_def split: option.split)

lemma times_used_src: "h n = Some (tensor_at h n) \<Longrightarrow> times_used h n s = int (count_list (t_src (tensor_at h n)) (Some s))"
  by (simp add: times_used_def)

lemma uses_nonneg: "0 \<le> uses h g i p"
  unfolding uses_def by (intro sum_nonneg times_used_nonneg)

lemma uses_Suc: "i < length (g_nodes g) \<Longrightarrow> uses h g i p = times_used h (g_nodes g ! i) p + uses h g (Suc i) p"
  unfolding uses_def by (simp add: sum.atLeast_Suc_lessThan)

lemma uses_antimono: "i \<le> j \<Longrightarrow> uses h g j p \<le> uses h g i p"
  unfolding uses_def by (rule sum_mono2) (auto simp: times_used_nonneg)

lemma uses_end: "length (g_nodes g) \<le> i \<Longrightarrow> uses h g i p = 0"
  by (simp add: uses_def)

lemma used_by:
  assumes "placeable h g" "i \<le> k" "k < length (g_nodes g)" "s \<in> srcs_of h (g_nodes g ! k)"
  shows "0 < uses h g i s"
proof -
  have "0 < times_used h (g_nodes g ! k) s"
    using assms(4) node_heap [OF assms(1,3)] by (auto simp: times_used_src srcs_of_def count_list_0_iff intro: gr0I)
  then have "0 < uses h g k s" using uses_Suc [OF assms(3), of h s] uses_nonneg [of h g "Suc k" s] by simp
  then show ?thesis using uses_antimono [OF assms(2), of h g s] by simp
qed

lemma waiting_mono: "(\<And>p. R p \<le> R' p) \<Longrightarrow> waiting h g R v \<subseteq> waiting h g R' v"
  by (auto simp: waiting_def intro: less_le_trans)

lemma waiting_finite: "finite (waiting h g R v)"
  by (simp add: waiting_def views_on_def)

lemma views_on_view: "placeable h g \<Longrightarrow> view_of h v \<noteq> None \<Longrightarrow> views_on h g v = {}"
  using placeableD(5) [of h g] by (force simp: views_on_def in_set_conv_nth)

text \<open>One use less: a view may have had its last one.\<close>

lemma waiting_step:
  assumes "0 < R s" "0 < uses h g 0 s"
  shows "waiting h g (R(s := R s - 1)) v =
    (if R s = 1 \<and> s \<in> views_on h g v then waiting h g R v - {s} else waiting h g R v)"
    and "R s = 1 \<Longrightarrow> s \<in> views_on h g v \<Longrightarrow> s \<in> waiting h g R v"
  using assms by (auto simp: waiting_def)

subsection \<open>Which tensors are still needed\<close>

text \<open>A tensor is needed from node \<open>i\<close> on if it is an output or a later node reads it or a view of it.\<close>

definition needed :: "heap \<Rightarrow> ggml_cgraph \<Rightarrow> nat \<Rightarrow> ptr \<Rightarrow> bool" where
  "needed h g i q \<longleftrightarrow> flagged h GGML_TENSOR_FLAG_OUTPUT q \<or>
     (\<exists>k \<in> {i..<length (g_nodes g)}. \<exists>s \<in> srcs_of h (g_nodes g ! k). s = q \<or> view_of h s = Some q)"

lemma needed_counts:
  assumes "placeable h g" "needed h g i q" "\<not> flagged h GGML_TENSOR_FLAG_OUTPUT q"
  shows "0 < uses h g i q \<or> waiting h g (uses h g i) q \<noteq> {}"
proof -
  obtain k s where k: "i \<le> k" "k < length (g_nodes g)" "s \<in> srcs_of h (g_nodes g ! k)" "s = q \<or> view_of h s = Some q"
    using assms(2,3) by (auto simp: needed_def)
  have u: "0 < uses h g i s" by (rule used_by [OF assms(1) k(1-3)])
  show ?thesis
  proof (cases "s = q")
    case True
    then show ?thesis using u by simp
  next
    case False
    then have "view_of h s = Some q" using k(4) by blast
    moreover have "s \<in> before g k" using placeableD(3) [OF assms(1) k(2,3)] .
    ultimately have "s \<in> views_on h g q"
      using placeableD(7) [OF assms(1), of s] by (auto simp: before_def views_on_def dest: in_set_takeD)
    then show ?thesis using u by (auto simp: waiting_def)
  qed
qed

subsection \<open>Leafs and inputs\<close>

text \<open>Before the first node is placed nothing is released.\<close>

definition early :: "place_env \<Rightarrow> ptr set \<Rightarrow> (ptr \<Rightarrow> int) \<Rightarrow> (ptr \<Rightarrow> int) \<Rightarrow> places \<Rightarrow> bool" where
  "early e E C V st \<longleftrightarrow> own_inv e E st \<and> (\<forall>p \<in> E. hn_allocated (fst st p)) \<and>
     (\<forall>p. hn_children (fst st p) = C p \<and> hn_views (fst st p) = V p)"

lemma place_step_counts:
  "place_step h p M M' \<Longrightarrow> hn_children (M' q) = hn_children (M q) \<and> hn_views (M' q) = hn_views (M q)"
  by (auto simp: place_step_def placed_at_def)

lemma allocate_early:
  assumes env: "env_ok e" and inv: "early e E C V st" and t: "pe_heap e p = Some (tensor_at (pe_heap e) p)"
    and op: "p \<notin> srcs_of (pe_heap e) p" "\<not> ggml_op_can_inplace (t_op (tensor_at (pe_heap e) p))"
    and alloc: "s_allocate e p b st = Inr st'" and b: "nat b < length (pe_bufts e)"
  shows "early e (if managed (pe_heap e) p then insert p E else E) C V st'"
proof -
  obtain M T M' T' where st: "st = (M, T)" "st' = (M', T')" by (cases st; cases st')
  have own: "own_inv e E (M, T)" and all: "\<forall>q \<in> E. hn_allocated (M q)" using inv by (auto simp: early_def st)
  have src: "Some p \<notin> set (t_src (tensor_at (pe_heap e) p))" using op(1) by (simp add: srcs_of_def)
  have new: "\<not> hn_allocated (M p) \<longrightarrow> p \<notin> E" using all by blast
  note step = allocate_ok [OF env own t src _ alloc [unfolded st] b]
  show ?thesis
  proof (cases "managed (pe_heap e) p \<and> \<not> hn_allocated (M p)")
    case True
    then have step: "place_step (pe_heap e) p M M'" "own_inv e (insert p E) (M', T')" using step new by auto
    have "\<not> can_take (pe_heap e) M p q" for q using op(2) t by (auto simp: can_take_def)
    then obtain c addr where "M' = M(p := placed_at (M p) c addr)" using step(1) by (auto simp: place_step_def)
    then show ?thesis using True step(2) all inv place_step_counts [OF step(1)]
      by (auto simp: early_def st placed_at_def)
  next
    case False
    then have "M' = M" "T' = T" using step new by (auto split: if_splits)
    moreover have "managed (pe_heap e) p \<Longrightarrow> insert p E = E" using False own_invD(3) [OF own] by blast
    ultimately show ?thesis using inv by (simp add: st)
  qed
qed

definition ids_fit :: "place_env \<Rightarrow> int list option \<Rightarrow> nat \<Rightarrow> bool" where
  "ids_fit e ids n \<longleftrightarrow> (\<forall>i < n. \<forall>b. get_node_buffer_id ids i = Inr b \<longrightarrow> nat b < length (pe_bufts e))"

definition managed_in :: "heap \<Rightarrow> ptr set \<Rightarrow> ptr set" where
  "managed_in h A = {p \<in> A. managed h p}"

lemma managed_in_insert: "managed_in h (insert p A) = (if managed h p then insert p (managed_in h A) else managed_in h A)"
  by (auto simp: managed_in_def)

lemma leafs_early:
  assumes env: "env_ok e" and g: "placeable (pe_heap e) g" and ids: "ids_fit e ids (length (g_leafs g))"
    and init: "early e {} C V st"
    and run: "each_outcome (s_place_leaf e g ids) [0..<length (g_leafs g)] st = Inr st'"
  shows "early e (managed_in (pe_heap e) (set (g_leafs g))) C V st'"
proof -
  have "early e (managed_in (pe_heap e) (set (take (length (g_leafs g)) (g_leafs g)))) C V st'"
  proof (rule each_outcome_upto [where I = "\<lambda>i. early e (managed_in (pe_heap e) (set (take i (g_leafs g)))) C V", OF run])
    show "early e (managed_in (pe_heap e) (set (take 0 (g_leafs g)))) C V st" using init by (simp add: managed_in_def)
  next
    fix i st1 st2
    assume i: "i < length (g_leafs g)" and inv: "early e (managed_in (pe_heap e) (set (take i (g_leafs g)))) C V st1"
      and step: "s_place_leaf e g ids i st1 = Inr st2"
    let ?p = "g_leafs g ! i"
    obtain b where b: "get_node_buffer_id ids i = Inr b" "s_allocate e ?p b st1 = Inr st2"
      using step by (auto simp: s_place_leaf_def bnd_eq_Inr)
    have leaf: "?p \<in> set (g_leafs g)" using i by simp
    have "early e (if managed (pe_heap e) ?p then insert ?p (managed_in (pe_heap e) (set (take i (g_leafs g))))
        else managed_in (pe_heap e) (set (take i (g_leafs g)))) C V st2"
      by (rule allocate_early [OF env inv graph_heap [OF g] placeableD(8,9) [OF g leaf] b(2)])
        (use leaf ids i b(1) in \<open>auto simp: ids_fit_def\<close>)
    then show "early e (managed_in (pe_heap e) (set (take (Suc i) (g_leafs g)))) C V st2"
      using i by (simp add: take_Suc_conv_app_nth managed_in_insert)
  qed
  then show ?thesis by simp
qed

subsection \<open>Counting\<close>

text \<open>A loop over the sources, with an invariant on how often each was met so far.\<close>

lemma each_src_counts:
  assumes "each_src f t st = Inr st'" "I (\<lambda>_. 0) st"
    and "\<And>c p st st'. Some p \<in> set (t_src t) \<Longrightarrow> c p < int (count_list (t_src t) (Some p)) \<Longrightarrow> I c st \<Longrightarrow>
      f p st = Inr st' \<Longrightarrow> I (c(p := c p + 1)) st'"
  shows "I (\<lambda>p. int (count_list (t_src t) (Some p))) st'"
proof -
  let ?F = "\<lambda>s. case s of None \<Rightarrow> Inr | Some p \<Rightarrow> f p" and ?c = "\<lambda>xs p. int (count_list xs (Some p))"
  have "I (?c (before @ xs)) u'" if "t_src t = before @ xs" "each_outcome ?F xs u = Inr u'" "I (?c before) u" for before xs u u'
    using that
  proof (induction xs arbitrary: before u)
    case (Cons x xs)
    obtain v where v: "?F x u = Inr v" "each_outcome ?F xs v = Inr u'" using Cons.prems(2) by (auto simp: bnd_eq_Inr)
    have "I (?c (before @ [x])) v"
    proof (cases x)
      case None
      then have "?c (before @ [x]) = ?c before" by (simp add: fun_eq_iff)
      then show ?thesis using v(1) Cons.prems(3) None by simp
    next
      case (Some p)
      have "I ((?c before)(p := ?c before p + 1)) v"
        by (rule assms(3)) (use v(1) Cons.prems(1,3) Some in auto)
      moreover have "(?c before)(p := ?c before p + 1) = ?c (before @ [x])" using Some by (auto simp: fun_eq_iff)
      ultimately show ?thesis by simp
    qed
    then show ?case using Cons.IH [of "before @ [x]" v] Cons.prems(1) v(2) by simp
  qed simp
  from this [of "[]" "t_src t"] show ?thesis using assms(1,2) by (simp add: each_src_def)
qed

text \<open>Counts do not matter to who owns what.\<close>

definition same_places :: "(ptr \<Rightarrow> hash_node) \<Rightarrow> (ptr \<Rightarrow> hash_node) \<Rightarrow> ptr set \<Rightarrow> bool" where
  "same_places M M' A \<longleftrightarrow> (\<forall>p \<in> A. hn_buffer (M' p) = hn_buffer (M p) \<and> hn_addr (M' p) = hn_addr (M p))"

lemma own_inv_counts:
  assumes "own_inv e E (M, T)" "same_places M M' UNIV" "\<And>p. hn_allocated (M' p) = hn_allocated (M p)"
  shows "own_inv e E (M', T)"
proof -
  have same: "hn_buffer (M' p) = hn_buffer (M p)" "hn_addr (M' p) = hn_addr (M p)" for p
    using assms(2) by (auto simp: same_places_def)
  have "region_at e M' = region_at e M" "spot e M' = spot e M" by (simp_all add: region_at_def spot_def same fun_eq_iff)
  then show ?thesis using assms(1) by (simp add: own_inv_def live_in_def same assms(3))
qed

definition inputs :: "heap \<Rightarrow> ggml_cgraph \<Rightarrow> ptr set" where
  "inputs h g = {p \<in> set (g_nodes g). flagged h GGML_TENSOR_FLAG_INPUT p}"

definition views_upto :: "heap \<Rightarrow> ggml_cgraph \<Rightarrow> nat \<Rightarrow> ptr \<Rightarrow> int" where
  "views_upto h g i v = int (card (views_on h g v \<inter> set (take i (g_nodes g))))"

text \<open>
  The state of the counting loop: \<open>i\<close> nodes and \<open>c\<close> sources of the next are counted, \<open>j\<close> nodes have
  been placed if they are inputs, and the views among \<open>k\<close> nodes are counted.
\<close>

definition early_set :: "place_env \<Rightarrow> ggml_cgraph \<Rightarrow> nat \<Rightarrow> ptr set \<Rightarrow> bool" where
  "early_set e g j E \<longleftrightarrow> managed_in (pe_heap e) (set (g_leafs g) \<union> (inputs (pe_heap e) g \<inter> set (take j (g_nodes g)))) \<subseteq> E \<and>
     E \<subseteq> managed_in (pe_heap e) (set (g_leafs g) \<union> inputs (pe_heap e) g)"

definition counting :: "place_env \<Rightarrow> ggml_cgraph \<Rightarrow> nat \<Rightarrow> nat \<Rightarrow> nat \<Rightarrow> (ptr \<Rightarrow> int) \<Rightarrow> places \<Rightarrow> bool" where
  "counting e g i j k c st \<longleftrightarrow> (\<exists>E. early_set e g j E \<and>
     early e E (\<lambda>p. uses (pe_heap e) g 0 p - uses (pe_heap e) g i p + c p) (views_upto (pe_heap e) g k) st)"

lemma early_upd:
  assumes "early e E C V (M, T)" "n = (M p)\<lparr>hn_children := C' p, hn_views := V' p\<rparr>"
    and "\<And>q. q \<noteq> p \<Longrightarrow> C' q = C q" "\<And>q. q \<noteq> p \<Longrightarrow> V' q = V q"
  shows "early e E C' V' (M(p := n), T)"
proof -
  have "own_inv e E (M(p := n), T)"
    by (rule own_inv_counts [of e E M]) (use assms(1,2) in \<open>auto simp: early_def same_places_def\<close>)
  then show ?thesis using assms by (auto simp: early_def)
qed

lemma input_early:
  assumes env: "env_ok e" and g: "placeable (pe_heap e) g" and i: "i < length (g_nodes g)"
    and inv: "early e E C V st" "early_set e g j E" and p: "p \<in> before g (Suc i)"
    and alloc: "s_allocate e p b st = Inr st'" and b: "nat b < length (pe_bufts e)"
    and flag: "flagged (pe_heap e) GGML_TENSOR_FLAG_INPUT p"
  defines "E' \<equiv> if managed (pe_heap e) p then insert p E else E"
  shows "early e E' C V st'" "early_set e g j E'"
proof -
  have self: "p \<notin> srcs_of (pe_heap e) p \<and> \<not> ggml_op_can_inplace (t_op (tensor_at (pe_heap e) p))"
  proof (cases "p \<in> set (g_leafs g)")
    case True
    then show ?thesis using placeableD(8,9) [OF g] by blast
  next
    case False
    then obtain k where k: "k < length (g_nodes g)" "p = g_nodes g ! k"
      using p by (auto simp: before_def in_set_conv_nth)
    then have "p \<notin> srcs_of (pe_heap e) p" using placeableD(3) [OF g k(1)] node_not_before [OF g k(1)] by auto
    then show ?thesis using placeableD(10) [OF g _ flag] k by simp
  qed
  show "early e E' C V st'" unfolding E'_def
    by (rule allocate_early [OF env inv(1) before_heap [OF g p] _ _ alloc b]) (use self in auto)
  show "early_set e g j E'"
    using inv(2) p flag unfolding E'_def early_set_def by (auto simp: managed_in_def inputs_def before_def dest: in_set_takeD)
qed

lemma count_srcs:
  assumes env: "env_ok e" and g: "placeable (pe_heap e) g" and i: "i < length (g_nodes g)"
    and ids: "\<forall>b. bid = Inr b \<longrightarrow> nat b < length (pe_bufts e)"
    and inv: "counting e g i j k (\<lambda>_. 0) st"
    and run: "each_src (s_count_src e bid) (tensor_at (pe_heap e) (g_nodes g ! i)) st = Inr st'"
  shows "counting e g (Suc i) j k (\<lambda>_. 0) st'"
proof -
  let ?h = "pe_heap e" let ?t = "tensor_at ?h (g_nodes g ! i)"
  have "counting e g i j k (\<lambda>p. int (count_list (t_src ?t) (Some p))) st'"
  proof (rule each_src_counts [where I = "counting e g i j k", OF run inv])
    fix c p st1 st2
    assume p: "Some p \<in> set (t_src ?t)" and inv: "counting e g i j k c st1" and step: "s_count_src e bid p st1 = Inr st2"
    have pb: "p \<in> before g i" using placeableD(3) [OF g i] p by (simp add: srcs_of_def)
    obtain M T where st: "st1 = (M, T)" by (cases st1)
    let ?M = "M(p := (M p)\<lparr>hn_children := hn_children (M p) + 1\<rparr>)"
    let ?C = "\<lambda>c q. uses ?h g 0 q - uses ?h g i q + c q"
    obtain E where E: "early_set e g j E" "early e E (?C c) (views_upto ?h g k) (M, T)"
      using inv by (auto simp: counting_def st)
    have one: "early e E (?C (c(p := c p + 1))) (views_upto ?h g k) (?M, T)"
      by (rule early_upd [OF E(2)]) (use E(2) in \<open>auto simp: early_def\<close>)
    show "counting e g i j k (c(p := c p + 1)) st2"
    proof (cases "flagged ?h GGML_TENSOR_FLAG_INPUT p")
      case True
      then obtain b where b: "bid = Inr b" "s_allocate e p b (?M, T) = Inr st2"
        using step before_heap [OF g pb] by (auto simp: s_count_src_def st Let_def deref_def flagged_def bnd_eq_Inr)
      have "p \<in> before g (Suc i)" using pb before_mono [of i "Suc i" g] by auto
      from input_early [OF env g i one E(1) this b(2) _ True] ids b(1)
      show ?thesis unfolding counting_def by blast
    next
      case False
      then have "st2 = (?M, T)"
        using step before_heap [OF g pb] by (auto simp: s_count_src_def st Let_def deref_def flagged_def)
      then show ?thesis using one E(1) unfolding counting_def by blast
    qed
  qed
  moreover have "uses ?h g 0 p - uses ?h g i p + int (count_list (t_src ?t) (Some p)) = uses ?h g 0 p - uses ?h g (Suc i) p + 0" for p
    using uses_Suc [OF i, of ?h p] times_used_src [OF node_heap [OF g i], of p] by simp
  ultimately show ?thesis unfolding counting_def by (simp only:)
qed

lemma views_upto_Suc:
  assumes "placeable h g" "i < length (g_nodes g)"
  shows "views_upto h g (Suc i) v = views_upto h g i v + of_bool (view_of h (g_nodes g ! i) = Some v)"
proof -
  let ?x = "g_nodes g ! i"
  have new: "?x \<notin> set (take i (g_nodes g))" using node_not_before [OF assms] by (simp add: before_def)
  have "views_on h g v \<inter> set (take (Suc i) (g_nodes g)) =
      (if view_of h ?x = Some v then insert ?x (views_on h g v \<inter> set (take i (g_nodes g)))
       else views_on h g v \<inter> set (take i (g_nodes g)))"
    using assms(2) by (auto simp: take_Suc_conv_app_nth views_on_def)
  then show ?thesis using new by (simp add: views_upto_def)
qed

lemma count_nodes:
  assumes env: "env_ok e" and g: "placeable (pe_heap e) g" and ids: "ids_fit e ids (length (g_nodes g))"
    and init: "counting e g 0 0 0 (\<lambda>_. 0) st"
    and run: "each_outcome (s_count_node e g ids) [0..<length (g_nodes g)] st = Inr st'"
  shows "counting e g (length (g_nodes g)) (length (g_nodes g)) (length (g_nodes g)) (\<lambda>_. 0) st'"
proof (rule each_outcome_upto [where I = "\<lambda>i. counting e g i i i (\<lambda>_. 0)", OF run init])
  fix i st1 st2
  assume i: "i < length (g_nodes g)" and inv: "counting e g i i i (\<lambda>_. 0) st1" and step: "s_count_node e g ids i st1 = Inr st2"
  let ?h = "pe_heap e" and ?w = "g_nodes g ! i" let ?t = "tensor_at ?h ?w"
  obtain M T where st: "st1 = (M, T)" by (cases st1)
  let ?C = "\<lambda>q. uses ?h g 0 q - uses ?h g i q + 0"
  obtain E where E: "early_set e g i E" "early e E ?C (views_upto ?h g i) (M, T)"
    using inv by (auto simp: counting_def st)
  define st3 where "st3 = (case view_of ?h ?w of
      Some v \<Rightarrow> (M(v := (M v)\<lparr>hn_views := hn_views (M v) + 1\<rparr>), T) | None \<Rightarrow> (M, T))"
  have viewed: "early e E ?C (views_upto ?h g (Suc i)) st3"
  proof (cases "view_of ?h ?w")
    case None
    then have "views_upto ?h g (Suc i) = views_upto ?h g i" using views_upto_Suc [OF g i] by (auto simp: fun_eq_iff)
    then show ?thesis using E(2) None by (simp add: st3_def)
  next
    case (Some v)
    show ?thesis unfolding st3_def Some option.case
      by (rule early_upd [OF E(2)]) (use E(2) views_upto_Suc [OF g i] Some in \<open>auto simp: early_def\<close>)
  qed
  have id: "\<forall>b. get_node_buffer_id ids i = Inr b \<longrightarrow> nat b < length (pe_bufts e)" using ids i by (simp add: ids_fit_def)
  obtain st4 where input: "(if flagged ?h GGML_TENSOR_FLAG_INPUT ?w
        then bnd (get_node_buffer_id ids i) (\<lambda>b. s_allocate e ?w b st3) else Inr st3) = Inr st4"
    and srcs: "each_src (s_count_src e (get_node_buffer_id ids i)) ?t st4 = Inr st2"
    using step node_heap [OF g i] placeableD(6) [OF g i]
    by (cases "view_of ?h ?w")
      (auto simp: s_count_node_def st st3_def deref_def flagged_def view_of_def Let_def bnd_eq_Inr split: if_splits)
  have "counting e g i (Suc i) (Suc i) (\<lambda>_. 0) st4"
  proof (cases "flagged ?h GGML_TENSOR_FLAG_INPUT ?w")
    case True
    then obtain b where b: "get_node_buffer_id ids i = Inr b" "s_allocate e ?w b st3 = Inr st4"
      using input by (auto simp: bnd_eq_Inr)
    have w: "?w \<in> before g (Suc i)" using before_Suc [OF i] by simp
    note next_E = input_early [OF env g i viewed E(1) w b(2) _ True] id b(1)
    then have "early_set e g (Suc i) (if managed ?h ?w then insert ?w E else E)"
      using i by (auto simp: early_set_def managed_in_def take_Suc_conv_app_nth)
    then show ?thesis using next_E unfolding counting_def by blast
  next
    case False
    then have "early_set e g (Suc i) E"
      using E(1) i by (auto simp: early_set_def managed_in_def take_Suc_conv_app_nth inputs_def)
    then show ?thesis using input False viewed unfolding counting_def by auto
  qed
  then show "counting e g (Suc i) (Suc i) (Suc i) (\<lambda>_. 0) st2" by (rule count_srcs [OF env g i id _ srcs])
qed

subsection \<open>The loop over the nodes\<close>

text \<open>A tensor that has been computed and will not be read again.\<close>

definition dead :: "heap \<Rightarrow> ggml_cgraph \<Rightarrow> nat \<Rightarrow> ptr \<Rightarrow> bool" where
  "dead h g i p \<longleftrightarrow> p \<in> before g i \<and> uses h g i p = 0 \<and> waiting h g (uses h g i) p = {} \<and>
     \<not> flagged h GGML_TENSOR_FLAG_OUTPUT p"

text \<open>\<open>R\<close> uses of every tensor are left; what is not allocated any more is dead from node \<open>i\<close> on.\<close>

definition alive :: "place_env \<Rightarrow> ggml_cgraph \<Rightarrow> nat \<Rightarrow> (ptr \<Rightarrow> int) \<Rightarrow> ptr set \<Rightarrow> places \<Rightarrow> bool" where
  "alive e g i R E st \<longleftrightarrow> own_inv e E st \<and>
     (\<forall>p. hn_children (fst st p) = R p \<and> hn_views (fst st p) = int (card (waiting (pe_heap e) g R p))) \<and>
     managed_in (pe_heap e) (before g i \<union> inputs (pe_heap e) g) \<subseteq> E \<and>
     (\<forall>p \<in> E. \<not> hn_allocated (fst st p) \<longrightarrow> dead (pe_heap e) g i p)"

lemma dead_Suc: "dead h g i p \<Longrightarrow> dead h g (Suc i) p"
  using before_mono [of i "Suc i" g] uses_antimono [of i "Suc i" h g p] uses_nonneg [of h g "Suc i" p]
    waiting_mono [of "uses h g (Suc i)" "uses h g i" h g p] uses_antimono [of i "Suc i" h g]
  by (auto simp: dead_def)

lemma alive_start:
  assumes "placeable (pe_heap e) g" "counting e g (length (g_nodes g)) (length (g_nodes g)) (length (g_nodes g)) (\<lambda>_. 0) st"
  shows "\<exists>E. alive e g 0 (uses (pe_heap e) g 0) E st"
proof -
  let ?h = "pe_heap e"
  obtain E where E: "early_set e g (length (g_nodes g)) E"
    "early e E (\<lambda>p. uses ?h g 0 p - uses ?h g (length (g_nodes g)) p + 0) (views_upto ?h g (length (g_nodes g))) st"
    using assms(2) by (auto simp: counting_def)
  have all: "0 < uses ?h g 0 x \<or> uses ?h g 0 x = 0" for x using uses_nonneg [of ?h g 0 x] by auto
  have "waiting ?h g (uses ?h g 0) v = views_on ?h g v" for v using all by (auto simp: waiting_def)
  moreover have "views_on ?h g v \<inter> set (g_nodes g) = views_on ?h g v" for v by (auto simp: views_on_def)
  moreover have "managed_in ?h (before g 0 \<union> inputs ?h g) \<subseteq> E"
    using E(1) by (auto simp: early_set_def before_def inputs_def managed_in_def)
  ultimately have "alive e g 0 (uses ?h g 0) E st"
    using E(2) by (simp add: alive_def early_def uses_end views_upto_def)
  then show ?thesis by blast
qed

text \<open>What placing node \<open>i\<close> must not do to a tensor that is still needed.\<close>

definition keeps_apart :: "place_env \<Rightarrow> (ptr \<Rightarrow> hash_node) \<Rightarrow> ptr \<Rightarrow> ptr \<Rightarrow> bool" where
  "keeps_apart e M p q \<longleftrightarrow> (pe_talloc_of e ! hn_buffer (M p) = pe_talloc_of e ! hn_buffer (M q) \<longrightarrow>
     fst (hn_addr (M p)) = fst (hn_addr (M q)) \<longrightarrow> regions_apart (region_at e M p) (region_at e M q))"

definition hands_over :: "heap \<Rightarrow> ggml_cgraph \<Rightarrow> nat \<Rightarrow> (ptr \<Rightarrow> hash_node) \<Rightarrow> ptr \<Rightarrow> bool" where
  "hands_over h g i M q \<longleftrightarrow> (let w = g_nodes g ! i in
     q \<in> srcs_of h w \<and> ggml_op_can_inplace (t_op (tensor_at h w)) \<and>
     ggml_are_same_layout (tensor_at h w) (tensor_at h q) \<and> \<not> needed h g (Suc i) q \<and>
     hn_buffer (M w) = hn_buffer (M q) \<and> hn_addr (M w) = hn_addr (M q))"

definition present :: "heap \<Rightarrow> ggml_cgraph \<Rightarrow> nat \<Rightarrow> ptr \<Rightarrow> bool" where
  "present h g i q \<longleftrightarrow> managed h q \<and> q \<in> before g i \<union> inputs h g"

definition safe_at :: "place_env \<Rightarrow> ggml_cgraph \<Rightarrow> nat \<Rightarrow> (ptr \<Rightarrow> hash_node) \<Rightarrow> bool" where
  "safe_at e g i M \<longleftrightarrow> (managed (pe_heap e) (g_nodes g ! i) \<longrightarrow>
     (\<forall>q. present (pe_heap e) g i q \<longrightarrow> q \<noteq> g_nodes g ! i \<longrightarrow> needed (pe_heap e) g i q \<longrightarrow>
        keeps_apart e M (g_nodes g ! i) q \<or> hands_over (pe_heap e) g i M q))"

lemma keeps_apart_spots:
  assumes "own_inv e E (M, T)" "hn_allocated (M p)" "hn_allocated (M q)" "p \<noteq> q"
  shows "keeps_apart e M p q"
  unfolding keeps_apart_def
proof (intro impI)
  assume same: "pe_talloc_of e ! hn_buffer (M p) = pe_talloc_of e ! hn_buffer (M q)" "fst (hn_addr (M p)) = fst (hn_addr (M q))"
  let ?a = "pe_talloc_of e ! hn_buffer (M p)" and ?c = "fst (hn_addr (M p))"
  note inv = own_invD [OF assms(1)]
  have "hn_buffer (M p) < length (pe_bufts e)" using inv(3,5) assms(2) by blast
  then have "?a < length T" using inv(1) by (auto simp: tallocs_fit_def)
  then have ok: "alloc_ok (T ! ?a) (live_in e M ?a)" by (rule inv(2))
  have "(?c, region_at e M p) \<in> live_in e M ?a" using assms(2) by (auto simp: live_in_def spot_def)
  moreover have "(?c, region_at e M q) \<in> live_in e M ?a" using assms(3) same by (auto simp: live_in_def spot_def)
  moreover have "region_at e M p \<noteq> region_at e M q" using inv(7) [OF assms(2-4)] same by (auto simp: spot_def)
  ultimately show "regions_apart (region_at e M p) (region_at e M q)" using live_apart [OF ok] by blast
qed

lemma needed_dead:
  assumes "placeable h g" "needed h g i q" "dead h g i q"
  shows False
  using needed_counts [OF assms(1,2)] assms(3) by (auto simp: dead_def)

text \<open>Placing the sources of a node changes nothing: they have their places.\<close>

lemma place_srcs:
  assumes env: "env_ok e" and g: "placeable (pe_heap e) g" and i: "i < length (g_nodes g)"
    and b: "nat b < length (pe_bufts e)"
    and inv: "alive e g i (uses (pe_heap e) g i) E st"
    and run: "each_src (\<lambda>p. s_allocate e p b) (tensor_at (pe_heap e) (g_nodes g ! i)) st = Inr st'"
  shows "st' = st"
proof (rule each_src_counts [where I = "\<lambda>_ st'. st' = st", OF run refl])
  fix p st1 st2
  assume p: "Some p \<in> set (t_src (tensor_at (pe_heap e) (g_nodes g ! i)))" and st1: "st1 = st" and step: "s_allocate e p b st1 = Inr st2"
  obtain M T M2 T2 where st: "st = (M, T)" "st2 = (M2, T2)" by (cases st; cases st2)
  have src: "p \<in> srcs_of (pe_heap e) (g_nodes g ! i)" using p by (simp add: srcs_of_def)
  have pb: "p \<in> before g i" using placeableD(3) [OF g i src] .
  have own: "own_inv e E (M, T)" using inv by (simp add: alive_def st)
  have "\<not> dead (pe_heap e) g i p" using used_by [OF g order_refl i src] by (simp add: dead_def)
  then have alloc: "managed (pe_heap e) p \<longrightarrow> hn_allocated (M p)"
    using inv pb by (auto simp: alive_def st managed_in_def)
  have "Some p \<notin> set (t_src (tensor_at (pe_heap e) p))"
  proof (cases "p \<in> set (g_leafs g)")
    case True
    then show ?thesis using placeableD(8) [OF g] by (auto simp: srcs_of_def)
  next
    case False
    then obtain k where k: "k < length (g_nodes g)" "p = g_nodes g ! k"
      using pb by (auto simp: before_def in_set_conv_nth)
    then show ?thesis using placeableD(3) [OF g k(1)] node_not_before [OF g k(1)] by (auto simp: srcs_of_def)
  qed
  from allocate_ok [OF env own before_heap [OF g pb] this _ step [unfolded st1 st] b]
  show "st2 = st" using alloc by (auto simp: st split: if_splits)
qed

text \<open>A source whose memory the node takes over has no other use.\<close>

lemma taken_dead:
  assumes g: "placeable (pe_heap e) g" and i: "i < length (g_nodes g)"
    and inv: "alive e g i (uses (pe_heap e) g i) E (M, T)" and take: "can_take (pe_heap e) M (g_nodes g ! i) q"
  shows "dead (pe_heap e) g (Suc i) q" "q \<in> srcs_of (pe_heap e) (g_nodes g ! i)"
    "ggml_op_can_inplace (t_op (tensor_at (pe_heap e) (g_nodes g ! i)))"
    "ggml_are_same_layout (tensor_at (pe_heap e) (g_nodes g ! i)) (tensor_at (pe_heap e) q)"
proof -
  let ?h = "pe_heap e" and ?w = "g_nodes g ! i"
  have t: "?h ?w = Some (tensor_at ?h ?w)" by (rule node_heap [OF g i])
  have q: "q \<in> srcs_of ?h ?w" "ggml_op_can_inplace (t_op (tensor_at ?h ?w))"
    "ggml_are_same_layout (tensor_at ?h ?w) (tensor_at ?h q)" "\<not> flagged ?h GGML_TENSOR_FLAG_OUTPUT q"
    "hn_children (M q) = 1" "hn_views (M q) = 0"
  proof -
    obtain tw tq where "?h ?w = Some tw" "?h q = Some tq" "Some q \<in> set (t_src tw)" "ggml_op_can_inplace (t_op tw)"
      "ggml_are_same_layout tw tq" "\<not> has_flag tq GGML_TENSOR_FLAG_OUTPUT" and counts: "hn_children (M q) = 1" "hn_views (M q) = 0"
      using take unfolding can_take_def by blast
    moreover from this have "tensor_at ?h ?w = tw" "tensor_at ?h q = tq" by (simp_all add: tensor_at_def)
    ultimately show "q \<in> srcs_of ?h ?w" "ggml_op_can_inplace (t_op (tensor_at ?h ?w))"
      "ggml_are_same_layout (tensor_at ?h ?w) (tensor_at ?h q)" "\<not> flagged ?h GGML_TENSOR_FLAG_OUTPUT q"
      "hn_children (M q) = 1" "hn_views (M q) = 0"
      by (simp_all add: srcs_of_def flagged_def)
  qed
  then show "q \<in> srcs_of ?h ?w" "ggml_op_can_inplace (t_op (tensor_at ?h ?w))"
    "ggml_are_same_layout (tensor_at ?h ?w) (tensor_at ?h q)" by blast+
  have counts: "uses ?h g i q = 1" "int (card (waiting ?h g (uses ?h g i) q)) = 0"
    using inv q(5,6) by (auto simp: alive_def)
  have "0 < times_used ?h ?w q"
    using q(1) t by (auto simp: times_used_src srcs_of_def count_list_0_iff intro: gr0I)
  then have "uses ?h g (Suc i) q = 0" using counts(1) uses_Suc [OF i, of ?h q] uses_nonneg [of ?h g "Suc i" q] by linarith
  moreover have "waiting ?h g (uses ?h g i) q = {}" using counts(2) waiting_finite by simp
  then have "waiting ?h g (uses ?h g (Suc i)) q = {}"
    using waiting_mono [of "uses ?h g (Suc i)" "uses ?h g i" ?h g q] uses_antimono [of i "Suc i" ?h g] by auto
  moreover have "q \<in> before g (Suc i)" using placeableD(3) [OF g i q(1)] before_mono [of i "Suc i" g] by auto
  ultimately show "dead ?h g (Suc i) q" using q(4) by (simp add: dead_def)
qed

lemma place_this:
  assumes env: "env_ok e" and g: "placeable (pe_heap e) g" and i: "i < length (g_nodes g)"
    and b: "nat b < length (pe_bufts e)"
    and inv: "alive e g i (uses (pe_heap e) g i) E (M, T)" and step: "s_allocate e (g_nodes g ! i) b (M, T) = Inr (M', T')"
  shows "\<exists>E'. alive e g (Suc i) (uses (pe_heap e) g i) E' (M', T') \<and> E \<subseteq> E' \<and> same_places M M' E \<and> safe_at e g i M'"
proof -
  let ?h = "pe_heap e" and ?w = "g_nodes g ! i"
  have own: "own_inv e E (M, T)" and counts: "\<And>p. hn_children (M p) = uses ?h g i p"
      "\<And>p. hn_views (M p) = int (card (waiting ?h g (uses ?h g i) p))"
    and placed: "managed_in ?h (before g i \<union> inputs ?h g) \<subseteq> E" and rest: "\<And>p. p \<in> E \<Longrightarrow> \<not> hn_allocated (M p) \<Longrightarrow> dead ?h g i p"
    using inv by (auto simp: alive_def)
  have self: "Some ?w \<notin> set (t_src (tensor_at ?h ?w))"
    using placeableD(3) [OF g i] node_not_before [OF g i] by (auto simp: srcs_of_def)
  have once: "managed ?h ?w \<longrightarrow> \<not> hn_allocated (M ?w) \<longrightarrow> ?w \<notin> E"
    using rest node_not_before [OF g i] by (auto simp: dead_def)
  have needs: "hn_allocated (M q)" if "present ?h g i q" "needed ?h g i q" for q
    using that placed rest needed_dead [OF g that(2)] by (auto simp: present_def managed_in_def)
  have before: "before g (Suc i) = insert ?w (before g i)" by (rule before_Suc [OF i])
  note out = allocate_ok [OF env own node_heap [OF g i] self once step b]
  show ?thesis
  proof (cases "managed ?h ?w \<and> \<not> hn_allocated (M ?w)")
    case False
    then have same: "M' = M" "T' = T" using out by (auto split: if_splits)
    have w: "managed ?h ?w \<Longrightarrow> ?w \<in> E" using False own_invD(3) [OF own] by blast
    then have "managed_in ?h (before g (Suc i) \<union> inputs ?h g) \<subseteq> E" using placed by (auto simp: before managed_in_def)
    then have "alive e g (Suc i) (uses ?h g i) E (M', T')"
      using own counts rest dead_Suc by (auto simp: alive_def same)
    moreover have "safe_at e g i M'"
      using False needs keeps_apart_spots [OF own] by (auto simp: safe_at_def same)
    ultimately show ?thesis by (auto simp: same same_places_def)
  next
    case True
    then have step: "place_step ?h ?w M M'" and own': "own_inv e (insert ?w E) (M', T')" and w: "?w \<notin> E" using out once by auto
    have same: "same_places M M' E" using step w by (auto simp: place_step_def same_places_def placed_at_def)
    have placed': "managed_in ?h (before g (Suc i) \<union> inputs ?h g) \<subseteq> insert ?w E"
      using placed by (auto simp: before managed_in_def)
    have w_alloc: "hn_allocated (M' ?w)" using step by (auto simp: place_step_def placed_at_def)
    consider (fresh) "\<And>p. p \<noteq> ?w \<Longrightarrow> hn_allocated (M' p) = hn_allocated (M p)"
      | (taken) q where "q \<noteq> ?w" "can_take ?h M ?w q" "\<And>p. p \<noteq> ?w \<Longrightarrow> p \<noteq> q \<Longrightarrow> hn_allocated (M' p) = hn_allocated (M p)"
          "hn_buffer (M' ?w) = hn_buffer (M' q)" "hn_addr (M' ?w) = hn_addr (M' q)"
    proof -
      from step consider (a) c addr where "M' = M(?w := placed_at (M ?w) c addr)"
        | (b) q where "q \<noteq> ?w" "can_take ?h M ?w q"
            "M' = M(?w := placed_at (M ?w) (hn_buffer (M q)) (hn_addr (M q)), q := (M q)\<lparr>hn_allocated := False\<rparr>)"
        unfolding place_step_def by blast
      then show thesis
      proof cases
        case a
        then show thesis by (intro fresh) simp
      next
        case b
        then show thesis by (intro taken [OF b(1,2)]) (simp_all add: placed_at_def)
      qed
    qed
    then have "(\<forall>p \<in> insert ?w E. \<not> hn_allocated (M' p) \<longrightarrow> dead ?h g (Suc i) p) \<and> safe_at e g i M'"
    proof cases
      case fresh
      have "dead ?h g (Suc i) p" if "p \<in> insert ?w E" "\<not> hn_allocated (M' p)" for p
        using that w_alloc fresh [of p] rest [of p] dead_Suc by (cases "p = ?w") auto
      moreover have "safe_at e g i M'"
        using needs fresh keeps_apart_spots [OF own' w_alloc] by (simp add: safe_at_def)
      ultimately show ?thesis by blast
    next
      case taken
      note d = taken_dead [OF g i inv taken(2)]
      have "dead ?h g (Suc i) p" if "p \<in> insert ?w E" "\<not> hn_allocated (M' p)" for p
        using that w_alloc taken(3) [of p] rest [of p] dead_Suc d(1) by (cases "p = ?w"; cases "p = q") auto
      moreover have "keeps_apart e M' ?w p \<or> hands_over ?h g i M' p"
        if p: "present ?h g i p" "p \<noteq> ?w" "needed ?h g i p" for p
      proof (cases "p = q")
        case True
        have "\<not> needed ?h g (Suc i) q" using needed_dead [OF g _ d(1)] by blast
        then show ?thesis using True d(2-4) taken(4,5) by (simp add: hands_over_def)
      next
        case False
        then show ?thesis using needs [OF p(1,3)] taken(3) [OF p(2)] keeps_apart_spots [OF own' w_alloc] p(2) by auto
      qed
      ultimately show ?thesis by (auto simp: safe_at_def)
    qed
    then have "alive e g (Suc i) (uses ?h g i) (insert ?w E) (M', T')" "safe_at e g i M'"
      using own' placed' counts place_step_counts [OF step] by (auto simp: alive_def)
    then show ?thesis using same by blast
  qed
qed

text \<open>Releasing a tensor that has no use left.\<close>

lemma free_alive:
  assumes env: "env_ok e" and g: "placeable (pe_heap e) g" and inv: "alive e g j R E (M, T)"
    and left: "\<And>p. uses (pe_heap e) g j p \<le> R p" and v: "v \<in> before g j" "R v = 0" "waiting (pe_heap e) g R v = {}"
    and step: "(if hn_allocated (M v) then s_free e v (M, T) else Inr (M, T)) = Inr (M', T')"
  shows "alive e g j R E (M', T') \<and> same_places M M' UNIV"
proof (cases "hn_allocated (M v) \<and> \<not> flagged (pe_heap e) GGML_TENSOR_FLAG_OUTPUT v")
  case True
  let ?h = "pe_heap e"
  have own: "own_inv e E (M, T)" using inv by (simp add: alive_def)
  have M': "M' = M(v := (M v)\<lparr>hn_allocated := False\<rparr>)" and own': "own_inv e E (M', T')"
    using free_ok [OF env own _ before_heap [OF g v(1)]] step True by (auto simp: flagged_def split: if_splits)
  have "uses ?h g j v = 0" using left [of v] v(2) uses_nonneg [of ?h g j v] by simp
  moreover have "waiting ?h g (uses ?h g j) v = {}" using waiting_mono [of "uses ?h g j" R ?h g v] left v(3) by auto
  ultimately have "dead ?h g j v" using v(1) True by (simp add: dead_def)
  then have "alive e g j R E (M', T')" using inv own' by (auto simp: alive_def M')
  then show ?thesis by (auto simp: M' same_places_def)
next
  case False
  then have "M' = M" "T' = T"
    using step free_ok [OF env _ _ before_heap [OF g v(1)], of E M T] inv
    by (auto simp: alive_def flagged_def split: if_splits)
  then show ?thesis using inv by (simp add: same_places_def)
qed

lemma update_one:
  assumes env: "env_ok e" and g: "placeable (pe_heap e) g" and i: "i < length (g_nodes g)"
    and inv: "alive e g (Suc i) R E (M, T)" and left: "\<And>p. uses (pe_heap e) g (Suc i) p \<le> R p"
    and s: "s \<in> srcs_of (pe_heap e) (g_nodes g ! i)" "uses (pe_heap e) g (Suc i) s < R s"
    and step: "s_update_parent e s (M, T) = Inr (M', T')"
  shows "alive e g (Suc i) (R(s := R s - 1)) E (M', T') \<and> same_places M M' UNIV"
proof -
  let ?h = "pe_heap e" and ?R = "R(s := R s - 1)"
  let ?M = "M(s := (M s)\<lparr>hn_children := hn_children (M s) - 1\<rparr>)"
  have own: "own_inv e E (M, T)" and counts: "\<And>p. hn_children (M p) = R p" "\<And>p. hn_views (M p) = int (card (waiting ?h g R p))"
    and placed: "managed_in ?h (before g (Suc i) \<union> inputs ?h g) \<subseteq> E"
    and rest: "\<And>p. p \<in> E \<Longrightarrow> \<not> hn_allocated (M p) \<Longrightarrow> dead ?h g (Suc i) p"
    using inv by (auto simp: alive_def)
  have sb: "s \<in> before g i" "s \<in> before g (Suc i)" using placeableD(3) [OF g i s(1)] before_mono [of i "Suc i" g] by auto
  note t = before_heap [OF g sb(1)]
  have pos: "0 < R s" "0 < uses ?h g 0 s"
    using s uses_nonneg [of ?h g "Suc i" s] used_by [OF g _ i s(1), of 0] by auto
  have left': "uses ?h g (Suc i) p \<le> ?R p" for p using left [of p] s(2) by auto
  note wait = waiting_step [where R = R, OF pos]
  have state: "alive e g (Suc i) ?R E (N, T)" if "same_places M N UNIV" "\<And>p. hn_allocated (N p) = hn_allocated (M p)"
    "\<And>p. hn_children (N p) = ?R p" "\<And>p. hn_views (N p) = int (card (waiting ?h g ?R p))" for N
    using own_inv_counts [OF own that(1,2)] that(2-4) placed rest by (auto simp: alive_def)
  have same1: "same_places M ?M UNIV" "\<And>p. hn_allocated (?M p) = hn_allocated (M p)" "\<And>p. hn_children (?M p) = ?R p"
    by (auto simp: same_places_def counts)
  have trans: "same_places M N UNIV \<Longrightarrow> same_places N M' UNIV \<Longrightarrow> same_places M M' UNIV" for N
    by (auto simp: same_places_def)
  show ?thesis
  proof (cases "view_of ?h s")
    case None
    have "s \<notin> views_on ?h g v" for v using None by (simp add: views_on_def)
    then have "waiting ?h g ?R v = waiting ?h g R v" for v using wait(1) by simp
    then have al: "alive e g (Suc i) ?R E (?M, T)" by (intro state same1) (simp add: counts)
    have now: "hn_children (?M s) = ?R s" "hn_views (?M s) = int (card (waiting ?h g ?R s))"
      using al unfolding alive_def fst_conv by blast+
    show ?thesis
    proof (cases "?R s = 0 \<and> waiting ?h g ?R s = {}")
      case True
      then have "(if hn_allocated (?M s) then s_free e s (?M, T) else Inr (?M, T)) = Inr (M', T')"
      proof -
        have "hn_children (?M s) = 0" "hn_views (?M s) = 0" using True unfolding now by auto
        then show ?thesis using step t None unfolding s_update_parent_def prod.case Let_def deref_def view_of_def by simp
      qed
      from free_alive [OF env g al left' sb(2) _ _ this] True show ?thesis using trans [OF same1(1)] by blast
    next
      case False
      then have "\<not> (hn_children (?M s) = 0 \<and> hn_views (?M s) = 0)"
        unfolding now using waiting_finite by (metis card_0_eq of_nat_eq_0_iff)
      then have "M' = ?M" "T' = T" using step unfolding s_update_parent_def prod.case Let_def by (simp_all only: if_False) auto
      then show ?thesis using al same1(1) by simp
    qed
  next
    case (Some v)
    have node: "s \<in> set (g_nodes g)" using placeableD(7) [OF g] Some sb(1) by (auto simp: before_def dest: in_set_takeD)
    then have on: "s \<in> views_on ?h g u \<longleftrightarrow> u = v" for u using Some by (auto simp: views_on_def)
    have none: "hn_views (?M s) = 0" using views_on_view [OF g, of s] Some counts(2) [of s] by (simp add: waiting_def)
    obtain k where k: "k < length (g_nodes g)" "s = g_nodes g ! k" using node by (auto simp: in_set_conv_nth)
    have vb: "v \<in> before g (Suc i)"
    proof -
      have "k < i" using sb(1) node placeableD(1,2) [OF g] k by (auto simp: before_def in_set_conv_nth nth_eq_iff_index_eq)
      then show ?thesis using placeableD(4) [OF g k(1)] Some k(2) before_mono [of k "Suc i" g] by auto
    qed
    have sv: "s \<noteq> v" using placeableD(5) [OF g k(1)] Some k(2) by auto
    show ?thesis
    proof (cases "R s = 1")
      case True
      let ?N = "?M(v := (?M v)\<lparr>hn_views := hn_views (?M v) - 1\<rparr>)"
      have "waiting ?h g ?R u = (if u = v then waiting ?h g R u - {s} else waiting ?h g R u)" for u
        using wait(1) [of u] True on by simp
      moreover have "s \<in> waiting ?h g R v" using wait(2) [OF True] on by blast
      then have "0 < card (waiting ?h g R v)" using waiting_finite card_gt_0_iff by blast
      ultimately have al: "alive e g (Suc i) ?R E (?N, T)"
        using \<open>s \<in> waiting ?h g R v\<close> sv waiting_finite
        by (intro state) (auto simp: counts same_places_def card_Diff_singleton of_nat_diff)
      have zero: "hn_children (?M s) = 0" using counts(1) True by simp
      have run: "(if hn_views (?N v) = 0 \<and> hn_children (?N v) = 0 \<and> hn_allocated (?N v) then s_free e v (?N, T) else Inr (?N, T)) =
          Inr (M', T')"
        using step t Some zero none unfolding s_update_parent_def prod.case Let_def deref_def view_of_def by simp
      have now: "hn_children (?N v) = ?R v" "hn_views (?N v) = int (card (waiting ?h g ?R v))"
        using al unfolding alive_def fst_conv by blast+
      have over: "same_places M ?N UNIV" by (auto simp: same_places_def)
      show ?thesis
      proof (cases "?R v = 0 \<and> waiting ?h g ?R v = {}")
        case True
        then have "hn_children (?N v) = 0 \<and> hn_views (?N v) = 0" unfolding now by auto
        then have "(if hn_allocated (?N v) then s_free e v (?N, T) else Inr (?N, T)) = Inr (M', T')"
          using run by (simp only: simp_thms)
        from free_alive [OF env g al left' vb _ _ this] True show ?thesis using trans [OF over] by blast
      next
        case False
        then have "\<not> (hn_views (?N v) = 0 \<and> hn_children (?N v) = 0)"
          unfolding now using waiting_finite by (metis card_0_eq of_nat_eq_0_iff)
        then have "(?N, T) = (M', T')" using run by (metis Inr_inject)
        then show ?thesis using al over by simp
      qed
    next
      case False
      then have "waiting ?h g ?R u = waiting ?h g R u" for u using wait(1) by simp
      then have al: "alive e g (Suc i) ?R E (?M, T)" by (intro state same1) (simp add: counts)
      have "M' = ?M" "T' = T" using step False counts(1) [of s] by (auto simp: s_update_parent_def Let_def)
      then show ?thesis using al same1(1) by simp
    qed
  qed
qed

lemma update_srcs:
  assumes env: "env_ok e" and g: "placeable (pe_heap e) g" and i: "i < length (g_nodes g)"
    and inv: "alive e g (Suc i) (uses (pe_heap e) g i) E (M, T)"
    and run: "each_src (s_update_parent e) (tensor_at (pe_heap e) (g_nodes g ! i)) (M, T) = Inr st'"
  shows "alive e g (Suc i) (uses (pe_heap e) g (Suc i)) E st' \<and> same_places M (fst st') UNIV"
proof -
  let ?h = "pe_heap e" let ?t = "tensor_at ?h (g_nodes g ! i)"
  let ?I = "\<lambda>c st. alive e g (Suc i) (\<lambda>p. uses ?h g i p - c p) E st \<and> same_places M (fst st) UNIV"
  have times: "uses ?h g i p = int (count_list (t_src ?t) (Some p)) + uses ?h g (Suc i) p" for p
    using uses_Suc [OF i, of ?h p] times_used_src [OF node_heap [OF g i], of p] by simp
  have strong: "?I c st \<and> (\<forall>p. c p \<le> int (count_list (t_src ?t) (Some p)))
      \<Longrightarrow> Some p \<in> set (t_src ?t) \<Longrightarrow> c p < int (count_list (t_src ?t) (Some p)) \<Longrightarrow> s_update_parent e p st = Inr st2 \<Longrightarrow>
      ?I (c(p := c p + 1)) st2 \<and> (\<forall>q. (c(p := c p + 1)) q \<le> int (count_list (t_src ?t) (Some q)))" for c p st st2
  proof -
    assume st: "?I c st \<and> (\<forall>p. c p \<le> int (count_list (t_src ?t) (Some p)))"
      and p: "Some p \<in> set (t_src ?t)" "c p < int (count_list (t_src ?t) (Some p))" and step: "s_update_parent e p st = Inr st2"
    obtain N U N2 U2 where eq: "st = (N, U)" "st2 = (N2, U2)" by (cases st; cases st2)
    let ?R = "\<lambda>p. uses ?h g i p - c p"
    have al: "alive e g (Suc i) ?R E (N, U)" and same: "same_places M N UNIV" using st by (auto simp: eq)
    have left: "uses ?h g (Suc i) q \<le> ?R q" for q using st times [of q] by auto
    have "alive e g (Suc i) (?R(p := ?R p - 1)) E (N2, U2) \<and> same_places N N2 UNIV"
      by (rule update_one [OF env g i al left]) (use p times [of p] step eq in \<open>auto simp: srcs_of_def\<close>)
    moreover have "?R(p := ?R p - 1) = (\<lambda>q. uses ?h g i q - (c(p := c p + 1)) q)" by (auto simp: fun_eq_iff)
    ultimately show "?I (c(p := c p + 1)) st2 \<and> (\<forall>q. (c(p := c p + 1)) q \<le> int (count_list (t_src ?t) (Some q)))"
      using same st p(2) by (auto simp: eq same_places_def)
  qed
  have "?I (\<lambda>p. int (count_list (t_src ?t) (Some p))) st' \<and>
      (\<forall>p. int (count_list (t_src ?t) (Some p)) \<le> int (count_list (t_src ?t) (Some p)))"
    by (rule each_src_counts [where I = "\<lambda>c st. ?I c st \<and> (\<forall>p. c p \<le> int (count_list (t_src ?t) (Some p)))", OF run _ strong])
      (use inv in \<open>auto simp: same_places_def\<close>)
  moreover have "(\<lambda>p. uses ?h g i p - int (count_list (t_src ?t) (Some p))) = uses ?h g (Suc i)"
    using times by (simp add: fun_eq_iff)
  ultimately show ?thesis by simp
qed

subsection \<open>The whole graph\<close>

lemma safe_at_places:
  assumes "safe_at e g i M" "same_places M M' E" "managed_in (pe_heap e) (before g (Suc i) \<union> inputs (pe_heap e) g) \<subseteq> E"
    and "i < length (g_nodes g)"
  shows "safe_at e g i M'"
  unfolding safe_at_def
proof (intro impI allI)
  let ?w = "g_nodes g ! i"
  fix q assume w: "managed (pe_heap e) ?w" and q: "present (pe_heap e) g i q" "q \<noteq> ?w" "needed (pe_heap e) g i q"
  have "?w \<in> E" "q \<in> E" using assms(3) before_Suc [OF assms(4)] w q(1) by (auto simp: managed_in_def present_def)
  then have "hn_buffer (M' ?w) = hn_buffer (M ?w)" "hn_addr (M' ?w) = hn_addr (M ?w)"
    "hn_buffer (M' q) = hn_buffer (M q)" "hn_addr (M' q) = hn_addr (M q)" using assms(2) by (auto simp: same_places_def)
  then show "keeps_apart e M' ?w q \<or> hands_over (pe_heap e) g i M' q"
    using assms(1) w q by (simp add: safe_at_def keeps_apart_def hands_over_def region_at_def Let_def)
qed

lemma place_node_alive:
  assumes env: "env_ok e" and g: "placeable (pe_heap e) g" and i: "i < length (g_nodes g)"
    and ids: "ids_fit e ids (length (g_nodes g))"
    and inv: "alive e g i (uses (pe_heap e) g i) E (M, T)" and step: "s_place_node e g ids i (M, T) = Inr (M', T')"
  shows "\<exists>E'. alive e g (Suc i) (uses (pe_heap e) g (Suc i)) E' (M', T') \<and> E \<subseteq> E' \<and> same_places M M' E \<and> safe_at e g i M'"
proof -
  let ?h = "pe_heap e"
  obtain b st1 st2 where b: "get_node_buffer_id ids i = Inr b"
    and srcs: "each_src (\<lambda>p. s_allocate e p b) (tensor_at ?h (g_nodes g ! i)) (M, T) = Inr st1"
    and own_place: "s_allocate e (g_nodes g ! i) b st1 = Inr st2"
    and upd: "each_src (s_update_parent e) (tensor_at ?h (g_nodes g ! i)) st2 = Inr (M', T')"
    using step node_heap [OF g i] by (auto simp: s_place_node_def deref_def bnd_eq_Inr Let_def)
  have nb: "nat b < length (pe_bufts e)" using ids i b by (simp add: ids_fit_def)
  have st1: "st1 = (M, T)" by (rule place_srcs [OF env g i nb inv srcs])
  obtain M2 T2 where st2: "st2 = (M2, T2)" by (cases st2)
  obtain E' where E': "alive e g (Suc i) (uses ?h g i) E' (M2, T2)" "E \<subseteq> E'" "same_places M M2 E" "safe_at e g i M2"
    using place_this [OF env g i nb inv own_place [unfolded st1 st2]] by blast
  have upd': "alive e g (Suc i) (uses ?h g (Suc i)) E' (M', T')" "same_places M2 M' UNIV"
    using update_srcs [OF env g i E'(1) upd [unfolded st2]] by auto
  moreover have "safe_at e g i M'"
    by (rule safe_at_places [OF E'(4) _ _ i, of _ E']) (use E'(1) upd'(2) in \<open>auto simp: alive_def same_places_def\<close>)
  moreover have "same_places M M' E" using E'(3) upd'(2) by (simp add: same_places_def)
  ultimately show ?thesis using E'(2) by blast
qed

lemma s_place_graph_safe:
  assumes env: "env_ok e" and g: "placeable (pe_heap e) g"
    and ids: "ids_fit e node_ids (length (g_nodes g))" "ids_fit e leaf_ids (length (g_leafs g))"
    and T0: "tallocs_fit e T0" "\<forall>a \<in> set T0. alloc_ok a {}"
    and run: "s_place_graph e g node_ids leaf_ids (\<lambda>_. zero_node, T0) = Inr (M, T)"
  shows "(\<forall>i < length (g_nodes g). safe_at e g i M) \<and>
    (\<exists>E. own_inv e E (M, T) \<and> managed_in (pe_heap e) (set (g_leafs g) \<union> set (g_nodes g)) \<subseteq> E)"
proof -
  let ?h = "pe_heap e" and ?n = "length (g_nodes g)"
  obtain st1 st2 where leafs: "each_outcome (s_place_leaf e g leaf_ids) [0..<length (g_leafs g)] (\<lambda>_. zero_node, T0) = Inr st1"
    and count: "each_outcome (s_count_node e g node_ids) [0..<?n] st1 = Inr st2"
    and place: "each_outcome (s_place_node e g node_ids) [0..<?n] st2 = Inr (M, T)"
    using run by (auto simp: s_place_graph_def bnd_eq_Inr)
  have "early e {} (\<lambda>_. 0) (\<lambda>_. 0) (\<lambda>_. zero_node, T0)"
    using T0 by (auto simp: early_def own_inv_def live_in_def zero_node_def)
  from leafs_early [OF env g ids(2) this leafs]
  have "early e (managed_in ?h (set (g_leafs g))) (\<lambda>_. 0) (\<lambda>_. 0) st1" .
  moreover have "views_upto ?h g 0 = (\<lambda>_. 0)" by (simp add: views_upto_def fun_eq_iff)
  ultimately have "counting e g 0 0 0 (\<lambda>_. 0) st1"
    unfolding counting_def early_set_def by (intro exI [of _ "managed_in ?h (set (g_leafs g))"])
      (auto simp: managed_in_def)
  from alive_start [OF g count_nodes [OF env g ids(1) this count]]
  obtain E0 where E0: "alive e g 0 (uses ?h g 0) E0 st2" ..
  have "\<exists>E. alive e g ?n (uses ?h g ?n) E (M, T) \<and> (\<forall>k < ?n. safe_at e g k (fst (M, T)))"
  proof (rule each_outcome_upto [where I = "\<lambda>i st. \<exists>E. alive e g i (uses ?h g i) E st \<and> (\<forall>k < i. safe_at e g k (fst st))", OF place])
    show "\<exists>E. alive e g 0 (uses ?h g 0) E st2 \<and> (\<forall>k < 0. safe_at e g k (fst st2))" using E0 by blast
  next
    fix i st st'
    assume i: "i < ?n" and "\<exists>E. alive e g i (uses ?h g i) E st \<and> (\<forall>k < i. safe_at e g k (fst st))"
      and step: "s_place_node e g node_ids i st = Inr st'"
    then obtain E where E: "alive e g i (uses ?h g i) E st" "\<forall>k < i. safe_at e g k (fst st)" by blast
    obtain N U N2 U2 where eq: "st = (N, U)" "st' = (N2, U2)" by (cases st; cases st')
    obtain E' where E': "alive e g (Suc i) (uses ?h g (Suc i)) E' (N2, U2)" "same_places N N2 E" "safe_at e g i N2"
      using place_node_alive [OF env g i ids(1) E(1) [unfolded eq] step [unfolded eq]] by blast
    have "safe_at e g k N2" if "k < i" for k
    proof (rule safe_at_places [OF _ E'(2)])
      show "safe_at e g k N" using E(2) that by (simp add: eq)
      show "managed_in ?h (before g (Suc k) \<union> inputs ?h g) \<subseteq> E"
        using E(1) before_mono [of "Suc k" i g] that by (auto simp: alive_def managed_in_def)
    qed (use that i in simp)
    then show "\<exists>E. alive e g (Suc i) (uses ?h g (Suc i)) E st' \<and> (\<forall>k < Suc i. safe_at e g k (fst st'))"
      using E'(1,3) by (auto simp: eq less_Suc_eq)
  qed
  then show ?thesis by (auto simp: alive_def before_def managed_in_def)
qed

end
