(* ===== verification/Gallocr_Correct.thy ===== *)
theory Gallocr_Correct
  imports Gallocr_Order
begin

text \<open>
  The placement of a graph by \<open>ggml_gallocr_reserve_n\<close>, from the hash table up to the records that the
  allocation of the graph reads: computing the nodes in order keeps every tensor that is needed.
\<close>

subsection \<open>A graph allocator between two reservations\<close>

definition gal_ok :: "bufts \<Rightarrow> ggml_gallocr \<Rightarrow> bool" where
  "gal_ok B ga \<longleftrightarrow> slots_ok (ga_hash_set ga) \<and> length (ga_talloc_of ga) = length (ga_bufts ga) \<and>
     (\<forall>b < length (ga_bufts ga). ga_talloc_of ga ! b < length (ga_tallocs ga) \<and>
        ta_alignment (ga_tallocs ga ! (ga_talloc_of ga ! b)) = if_alignment (B (ga_bufts ga ! b))) \<and>
     (\<forall>a \<in> set (ga_tallocs ga). is_pow2 (ta_alignment a))"

lemma find_Some_upt: "find P [0..<n] = Some j \<Longrightarrow> j < n \<and> P j"
  by (auto simp: find_Some_iff)

lemma add_buffer_type_ok:
  assumes "gal_ok B ga" "is_pow2 (if_alignment (B buft))"
  shows "gal_ok B (add_buffer_type B buft ga)" "ga_bufts (add_buffer_type B buft ga) = ga_bufts ga @ [buft]"
proof -
  show "ga_bufts (add_buffer_type B buft ga) = ga_bufts ga @ [buft]"
    by (simp add: add_buffer_type_def Let_def split: option.split)
  show "gal_ok B (add_buffer_type B buft ga)"
  proof (cases "find (\<lambda>j. ga_bufts ga ! j = buft) [0..<length (ga_bufts ga)]")
    case None
    then show ?thesis using assms
      by (auto simp: gal_ok_def add_buffer_type_def Let_def nth_append less_Suc_eq ggml_dyn_tallocr_new_def
          ggml_dyn_tallocr_reset_def ggml_backend_buft_get_alignment_def)
  next
    case (Some j)
    then show ?thesis using assms find_Some_upt [OF Some]
      by (auto simp: gal_ok_def add_buffer_type_def Let_def nth_append less_Suc_eq)
  qed
qed

lemma new_gal_ok:
  assumes "\<forall>b \<in> set bufts. is_pow2 (if_alignment (B b))"
  shows "gal_ok B (ggml_gallocr_new_n B bufts) \<and> ga_bufts (ggml_gallocr_new_n B bufts) = bufts"
proof -
  have "gal_ok B ga \<Longrightarrow> \<forall>b \<in> set bufts. is_pow2 (if_alignment (B b)) \<Longrightarrow>
      gal_ok B (fold (add_buffer_type B) bufts ga) \<and> ga_bufts (fold (add_buffer_type B) bufts ga) = ga_bufts ga @ bufts" for ga bufts
    by (induction bufts arbitrary: ga) (simp_all add: add_buffer_type_ok)
  moreover have "gal_ok B \<lparr>ga_bufts = [], ga_buffers = [], ga_talloc_of = [], ga_tallocs = [],
      ga_hash_set = \<lparr>hs_size = 0, hs_used = [], hs_keys = []\<rparr>, ga_hash_values = [], ga_node_allocs = [], ga_leaf_allocs = []\<rparr>"
    by (simp add: gal_ok_def slots_ok_def)
  ultimately show ?thesis using assms by (simp add: ggml_gallocr_new_n_def)
qed

text \<open>The environment in which a graph is placed.\<close>

definition env_of :: "bufts \<Rightarrow> heap \<Rightarrow> ggml_gallocr \<Rightarrow> place_env" where
  "env_of B h ga = \<lparr>pe_types = B, pe_heap = h, pe_bufts = ga_bufts ga, pe_talloc_of = ga_talloc_of ga\<rparr>"

lemma env_of_simps [simp]:
  "pe_types (env_of B h ga) = B" "pe_heap (env_of B h ga) = h" "pe_bufts (env_of B h ga) = ga_bufts ga"
  "pe_talloc_of (env_of B h ga) = ga_talloc_of ga"
  by (simp_all add: env_of_def)

text \<open>What back ends ask for a tensor is positive and leaves room for the rounding.\<close>

definition alloc_sizes_fit :: "bufts \<Rightarrow> heap \<Rightarrow> ptr list \<Rightarrow> bool" where
  "alloc_sizes_fit B h bufts \<longleftrightarrow> (\<forall>b \<in> set bufts. \<forall>p sz. managed h p \<longrightarrow>
     bnd (deref h p) (ggml_backend_buft_get_alloc_size B b) = Inr sz \<longrightarrow> 0 < unat sz \<and> unat sz + unat (if_alignment (B b)) \<le> 2 ^ 63)"

lemma env_of_ok:
  assumes "gal_ok B ga" "alloc_sizes_fit B h (ga_bufts ga)"
  shows "env_ok (env_of B h ga)"
  unfolding env_ok_def
proof (intro conjI allI impI)
  show "length (pe_talloc_of (env_of B h ga)) = length (pe_bufts (env_of B h ga))" using assms(1) by (simp add: gal_ok_def)
  fix b assume "b < length (pe_bufts (env_of B h ga))"
  then have b: "b < length (ga_bufts ga)" by simp
  show "is_pow2 (buf_alignment (env_of B h ga) b)"
  proof -
    have "ga_talloc_of ga ! b < length (ga_tallocs ga)"
      "ta_alignment (ga_tallocs ga ! (ga_talloc_of ga ! b)) = if_alignment (B (ga_bufts ga ! b))"
      using b assms(1) by (auto simp: gal_ok_def)
    moreover from this(1) have "is_pow2 (ta_alignment (ga_tallocs ga ! (ga_talloc_of ga ! b)))"
      using assms(1) nth_mem unfolding gal_ok_def by blast
    ultimately show ?thesis by (simp add: buf_alignment_def)
  qed
  fix p sz assume "managed (pe_heap (env_of B h ga)) p" "s_size (env_of B h ga) b p = Inr sz"
  then have "managed h p" "bnd (deref h p) (ggml_backend_buft_get_alloc_size B (ga_bufts ga ! b)) = Inr sz"
    using b by (simp_all add: s_size_def)
  then have "0 < unat sz \<and> unat sz + unat (if_alignment (B (ga_bufts ga ! b))) \<le> 2 ^ 63"
    using assms(2) nth_mem [OF b] unfolding alloc_sizes_fit_def by blast
  then show "0 < unat sz" "unat sz + unat (buf_alignment (env_of B h ga) b) \<le> 2 ^ 63"
    by (simp_all add: buf_alignment_def)
qed

subsection \<open>The records that are kept of a placement\<close>

definition recorded :: "place_env \<Rightarrow> (ptr \<Rightarrow> hash_node) \<Rightarrow> ptr \<Rightarrow> tensor_alloc \<Rightarrow> bool" where
  "recorded e M p ta \<longleftrightarrow> (\<exists>t. pe_heap e p = Some t \<and>
     (if t_view_src t \<noteq> None \<or> t_addr t \<noteq> None then ta = no_place
      else \<exists>sz. s_size e (hn_buffer (M p)) p = Inr sz \<and>
        ta = \<lparr>tl_buffer = int (hn_buffer (M p)), tl_addr = (int (fst (hn_addr (M p))), snd (hn_addr (M p))), tl_size_max = sz\<rparr>))"

lemma collect_places_all:
  assumes "collect_places f xs s = Inr (ys, s')" "I s"
    and "\<And>x s y s'. x \<in> set xs \<Longrightarrow> I s \<Longrightarrow> f x s = Inr (y, s') \<Longrightarrow> I s' \<and> P x y"
  shows "I s' \<and> list_all2 P xs ys"
  using assms
proof (induction xs arbitrary: s ys)
  case (Cons x xs)
  then obtain y s1 zs where y: "f x s = Inr (y, s1)" and rest: "collect_places f xs s1 = Inr (zs, s')" and ys: "ys = y # zs"
    by (auto simp: bnd_eq_Inr)
  have I: "I s1" "P x y" using Cons.prems(2,3) y by auto
  have "I s' \<and> list_all2 P xs zs"
    by (rule Cons.IH [OF rest I(1)]) (use Cons.prems(3) in auto)
  then show ?case using I(2) ys by simp
qed simp

lemma place_at_recorded:
  assumes "ga_rel e H ga (M, T)" "(i, p) \<in> H" "pe_heap e p = Some t" "place_at (pe_types e) t i ga = Inr ta"
    and "t_view_src t = None" "t_addr t = None"
  shows "recorded e M p ta"
proof -
  have "hnode ga i = M p" using hnode_rel [OF assms(1,2)] by simp
  moreover have "alloc_size_in (pe_types e) ga b t = s_size e b p" for b
    using alloc_size_rel [OF assms(1), of p b] assms(3) by (simp add: deref_def)
  ultimately show ?thesis using assms(3-6) by (auto simp: recorded_def place_at_def Let_def bnd_eq_Inr)
qed

lemma get_rel:
  assumes "ga_rel e H ga st" "ggml_gallocr_hash_get ga p = Inr (i, ga')"
  shows "ga_rel e (insert (i, p) H) ga' st"
  using refines_get [OF assms(1), where S = "\<lambda>r (_ :: unit). case r of (i, ga') \<Rightarrow> ga_rel e (insert (i, p) H) ga' st" and f = Inr and y = "Inr ()" and p = p]
    assms(2) by simp

lemma tensor_place_recorded:
  assumes "ga_rel e {} ga (M, T)" "tensor_place (pe_types e) (pe_heap e) p ga = Inr (ta, ga')"
  shows "ga_rel e {} ga' (M, T) \<and> recorded e M p ta"
proof -
  obtain t where t: "pe_heap e p = Some t" using assms(2) by (cases "pe_heap e p") (auto simp: tensor_place_def deref_def)
  show ?thesis
  proof (cases "t_view_src t \<noteq> None \<or> t_addr t \<noteq> None")
    case True
    then show ?thesis using assms t by (auto simp: tensor_place_def deref_def recorded_def)
  next
    case False
    then obtain i where get: "ggml_gallocr_hash_get ga p = Inr (i, ga')" and at: "place_at (pe_types e) t i ga' = Inr ta"
      using assms(2) t by (auto simp: tensor_place_def deref_def bnd_eq_Inr)
    note rel = get_rel [OF assms(1) get]
    show ?thesis using place_at_recorded [OF rel _ t at] False ga_rel_mono [OF rel, of "{}"] by simp
  qed
qed

lemma leaf_place_recorded:
  assumes "ga_rel e {} ga (M, T)" "leaf_place (pe_types e) (pe_heap e) p ga = Inr (ta, ga')"
  shows "ga_rel e {} ga' (M, T) \<and> recorded e M p ta"
proof -
  obtain i ga1 t where get: "ggml_gallocr_hash_get ga p = Inr (i, ga1)" and t: "pe_heap e p = Some t"
    and rest: "(if t_view_src t \<noteq> None \<or> t_addr t \<noteq> None then Inr (no_place, ga1)
      else bnd (place_at (pe_types e) t i ga1) (\<lambda>ta. Inr (ta, ga1))) = Inr (ta, ga')"
    using assms(2) by (cases "pe_heap e p") (auto simp: leaf_place_def deref_def bnd_eq_Inr)
  note rel = get_rel [OF assms(1) get]
  show ?thesis
    using rest place_at_recorded [OF rel _ t] ga_rel_mono [OF rel, of "{}"] t
    by (auto simp: bnd_eq_Inr recorded_def split: if_splits)
qed

definition node_recorded :: "place_env \<Rightarrow> (ptr \<Rightarrow> hash_node) \<Rightarrow> ptr \<Rightarrow> node_alloc \<Rightarrow> bool" where
  "node_recorded e M p na \<longleftrightarrow> recorded e M p (na_dst na) \<and> (\<exists>t. pe_heap e p = Some t \<and>
     list_all2 (\<lambda>s ta. case s of None \<Rightarrow> ta = no_place | Some q \<Rightarrow> recorded e M q ta) (t_src t) (na_src na))"

lemma node_places_recorded:
  assumes "ga_rel e {} ga (M, T)" "node_places (pe_types e) (pe_heap e) p ga = Inr (na, ga')"
  shows "ga_rel e {} ga' (M, T) \<and> node_recorded e M p na"
proof -
  let ?f = "\<lambda>src ga. case src of None \<Rightarrow> Inr (no_place, ga) | Some s \<Rightarrow> tensor_place (pe_types e) (pe_heap e) s ga"
  obtain dst ga1 t srcs where dst: "tensor_place (pe_types e) (pe_heap e) p ga = Inr (dst, ga1)" and t: "pe_heap e p = Some t"
    and srcs: "collect_places ?f (t_src t) ga1 = Inr (srcs, ga')" and na: "na = \<lparr>na_dst = dst, na_src = srcs\<rparr>"
    using assms(2) by (cases "pe_heap e p") (auto simp: node_places_def deref_def bnd_eq_Inr)
  have first: "ga_rel e {} ga1 (M, T)" "recorded e M p dst" using tensor_place_recorded [OF assms(1) dst] by auto
  have "ga_rel e {} ga' (M, T) \<and> list_all2 (\<lambda>s ta. case s of None \<Rightarrow> ta = no_place | Some q \<Rightarrow> recorded e M q ta) (t_src t) srcs"
    by (rule collect_places_all [where I = "\<lambda>ga. ga_rel e {} ga (M, T)", OF srcs first(1)])
      (use tensor_place_recorded in \<open>auto split: option.splits\<close>)
  then show ?thesis using first(2) t na by (simp add: node_recorded_def)
qed

subsection \<open>Placing a graph\<close>

lemma reset_table:
  assumes "slots_ok hs"
  shows "slots_ok (ggml_hash_set_reset hs)" "\<forall>i < hs_size hs. slot (ggml_hash_set_reset hs) i = None"
    "hs_size (ggml_hash_set_reset hs) = hs_size hs"
proof -
  show size: "hs_size (ggml_hash_set_reset hs) = hs_size hs" by (simp add: ggml_hash_set_reset_def)
  have "slots_ok (ggml_hash_set_reset hs) \<and> (\<forall>i < hs_size hs. slot (ggml_hash_set_reset hs) i = None)"
  proof (cases "hs_size hs = 0")
    case True
    then show ?thesis using size by (simp add: slots_ok_def)
  next
    case False
    then have "hs_inv hs" using assms by (simp add: slots_ok_def)
    then have "0 < hs_size hs" "length (hs_keys hs) = hs_size hs" "ggml_bitset_size (hs_size hs) \<le> length (hs_used hs)"
      using hs_inv_shape by (auto simp: hs_shape_def)
    note reset = reset_empty [OF this]
    have "slot (ggml_hash_set_reset hs) i = None" if "i < hs_size hs" for i
      using reset(2) that size unfolding keys_of_def by (cases "slot (ggml_hash_set_reset hs) i") auto
    then show ?thesis using reset(1) by (auto simp: slots_ok_def)
  qed
  then show "slots_ok (ggml_hash_set_reset hs)" "\<forall>i < hs_size hs. slot (ggml_hash_set_reset hs) i = None" by blast+
qed

lemma resize_table_ok:
  assumes "gal_ok B ga"
  shows "gal_ok B (resize_table garbage g ga)" "ga_bufts (resize_table garbage g ga) = ga_bufts ga"
    "ga_talloc_of (resize_table garbage g ga) = ga_talloc_of ga" "ga_tallocs (resize_table garbage g ga) = ga_tallocs ga"
  using assms new_empty(1) hash_size_enough(2)
  by (auto simp: resize_table_def Let_def gal_ok_def slots_ok_def)

lemma reset_tallocs_ok:
  assumes "gal_ok B ga"
  shows "tallocs_fit (env_of B h ga) (map ggml_dyn_tallocr_reset (ga_tallocs ga))"
    "\<forall>a \<in> set (map ggml_dyn_tallocr_reset (ga_tallocs ga)). alloc_ok a {}"
  using assms
  by (auto simp: gal_ok_def tallocs_fit_def buf_alignment_def ggml_dyn_tallocr_reset_def alloc_ok_def)

lemma place_graph_spec:
  assumes ga: "gal_ok B ga" and sizes: "alloc_sizes_fit B h (ga_bufts ga)" and g: "placeable h g"
    and ids: "ids_fit (env_of B h ga) node_ids (length (g_nodes g))" "ids_fit (env_of B h ga) leaf_ids (length (g_leafs g))"
    and run: "place_graph B h garbage g node_ids leaf_ids ga = Inr ga'"
  shows "\<exists>M T E. (\<forall>i < length (g_nodes g). safe_at (env_of B h ga) g i M) \<and> own_inv (env_of B h ga) E (M, T) \<and>
    managed_in h (set (g_leafs g) \<union> set (g_nodes g)) \<subseteq> E \<and> ga_rel (env_of B h ga) {} ga' (M, T) \<and>
    (\<forall>a \<in> set T. is_pow2 (ta_alignment a)) \<and>
    list_all2 (node_recorded (env_of B h ga) M) (g_nodes g) (ga_node_allocs ga') \<and>
    list_all2 (recorded (env_of B h ga) M) (g_leafs g) (ga_leaf_allocs ga')"
proof -
  let ?e = "env_of B h ga" and ?ga = "resize_table garbage g ga"
  let ?ga0 = "?ga\<lparr>ga_tallocs := map ggml_dyn_tallocr_reset (ga_tallocs ?ga)\<rparr>"
  obtain ga1 ga2 nodes ga3 leafs where impl: "ggml_gallocr_alloc_graph_impl B h g node_ids leaf_ids ?ga0 = Inr ga1"
    and nodes: "collect_places (node_places B h) (g_nodes g) ga1 = Inr (nodes, ga2)"
    and leafs: "collect_places (leaf_place B h) (g_leafs g) ga2 = Inr (leafs, ga3)"
    and ga': "ga' = ga3\<lparr>ga_node_allocs := nodes, ga_leaf_allocs := leafs\<rparr>"
    using run by (auto simp: place_graph_def Let_def bnd_eq_Inr)
  note size = resize_table_ok [OF ga, of garbage g]
  have table: "slots_ok (ga_hash_set ?ga0)" using size(1) by (simp add: gal_ok_def)
  have "refines (ga_rel ?e {}) (ggml_gallocr_alloc_graph_impl (pe_types ?e) (pe_heap ?e) g node_ids leaf_ids ?ga0)
      (s_place_graph ?e g node_ids leaf_ids (\<lambda>_. zero_node, ga_tallocs ?ga0))"
    by (rule alloc_graph_impl_rel) (use size(2,3) reset_table [OF table] in simp_all)
  then obtain M T where spec: "s_place_graph ?e g node_ids leaf_ids (\<lambda>_. zero_node, map ggml_dyn_tallocr_reset (ga_tallocs ga)) = Inr (M, T)"
    and rel1: "ga_rel ?e {} ga1 (M, T)"
    using impl size(4) by (auto simp: refines_def)
  have env: "env_ok ?e" by (rule env_of_ok [OF ga sizes])
  obtain E where safe: "\<forall>i < length (g_nodes g). safe_at ?e g i M" and own: "own_inv ?e E (M, T)"
    and E: "managed_in h (set (g_leafs g) \<union> set (g_nodes g)) \<subseteq> E"
    using s_place_graph_safe [OF env _ ids reset_tallocs_ok [OF ga] spec] g by auto
  have "ga_rel ?e {} ga2 (M, T) \<and> list_all2 (node_recorded ?e M) (g_nodes g) nodes"
    by (rule collect_places_all [where I = "\<lambda>ga. ga_rel ?e {} ga (M, T)", OF nodes rel1]) (use node_places_recorded [of ?e] in auto)
  moreover have "ga_rel ?e {} ga3 (M, T) \<and> list_all2 (recorded ?e M) (g_leafs g) leafs"
    if "ga_rel ?e {} ga2 (M, T)"
    by (rule collect_places_all [where I = "\<lambda>ga. ga_rel ?e {} ga (M, T)", OF leafs that]) (use leaf_place_recorded [of ?e] in auto)
  moreover have "is_pow2 (ta_alignment a)" if a: "a \<in> set T" for a
  proof -
    obtain j where "j < length T" "a = T ! j" using a by (auto simp: in_set_conv_nth)
    then show ?thesis using own_invD(2) [OF own] by (auto simp: alloc_ok_def)
  qed
  ultimately have "ga_rel ?e {} ga3 (M, T)" "list_all2 (node_recorded ?e M) (g_nodes g) nodes"
    "list_all2 (recorded ?e M) (g_leafs g) leafs" "\<forall>a \<in> set T. is_pow2 (ta_alignment a)" by blast+
  moreover from this(1) have "ga_rel ?e {} ga' (M, T)" by (simp add: ga' ga_rel_def)
  ultimately show ?thesis using safe own E unfolding ga' by auto
qed

subsection \<open>The guarantee\<close>

definition place_in :: "ggml_cgraph \<Rightarrow> ggml_gallocr \<Rightarrow> ptr \<Rightarrow> tensor_alloc" where
  "place_in g ga p =
     the (map_of (zip (g_nodes g) (map na_dst (ga_node_allocs ga)) @ zip (g_leafs g) (ga_leaf_allocs ga)) p)"

definition ta_region :: "tensor_alloc \<Rightarrow> region" where
  "ta_region ta = (unat (snd (tl_addr ta)), unat (tl_size_max ta))"

definition ta_apart :: "ggml_gallocr \<Rightarrow> tensor_alloc \<Rightarrow> tensor_alloc \<Rightarrow> bool" where
  "ta_apart ga a b \<longleftrightarrow> (ga_talloc_of ga ! nat (tl_buffer a) = ga_talloc_of ga ! nat (tl_buffer b) \<longrightarrow>
     fst (tl_addr a) = fst (tl_addr b) \<longrightarrow> regions_apart (ta_region a) (ta_region b))"

definition takes_over :: "heap \<Rightarrow> ggml_cgraph \<Rightarrow> nat \<Rightarrow> ggml_gallocr \<Rightarrow> ptr \<Rightarrow> bool" where
  "takes_over h g i ga q \<longleftrightarrow> (let w = g_nodes g ! i in
     q \<in> srcs_of h w \<and> ggml_op_can_inplace (t_op (tensor_at h w)) \<and>
     ggml_are_same_layout (tensor_at h w) (tensor_at h q) \<and> \<not> needed h g (Suc i) q \<and>
     tl_buffer (place_in g ga w) = tl_buffer (place_in g ga q) \<and> tl_addr (place_in g ga w) = tl_addr (place_in g ga q))"

text \<open>
  Writing node \<open>i\<close> leaves alone every tensor that exists by then and is needed from then on, unless
  it is a source that the node replaces in place and that nothing needs later.
\<close>

definition placement_safe :: "heap \<Rightarrow> ggml_cgraph \<Rightarrow> ggml_gallocr \<Rightarrow> bool" where
  "placement_safe h g ga \<longleftrightarrow> (\<forall>i < length (g_nodes g). managed h (g_nodes g ! i) \<longrightarrow>
     (\<forall>q. present h g i q \<longrightarrow> q \<noteq> g_nodes g ! i \<longrightarrow> needed h g i q \<longrightarrow>
        ta_apart ga (place_in g ga (g_nodes g ! i)) (place_in g ga q) \<or> takes_over h g i ga q))"

definition place_fits :: "ggml_gallocr \<Rightarrow> tensor_alloc \<Rightarrow> bool" where
  "place_fits ga ta \<longleftrightarrow> 0 \<le> tl_buffer ta \<and> nat (tl_buffer ta) < length (ga_bufts ga) \<and> 0 \<le> fst (tl_addr ta) \<and>
     reg_end (ta_region ta) \<le> unat (ggml_dyn_tallocr_max_size
       (ga_tallocs ga ! (ga_talloc_of ga ! nat (tl_buffer ta))) (nat (fst (tl_addr ta))))"

lemma list_all2_map_of:
  assumes "list_all2 P xs ys" "map_of (zip xs ys) p = Some y"
  shows "P p y"
  using assms by (auto simp: list_all2_iff dest!: map_of_SomeD)

lemma place_in_recorded:
  assumes "list_all2 (node_recorded e M) (g_nodes g) (ga_node_allocs ga)" "list_all2 (recorded e M) (g_leafs g) (ga_leaf_allocs ga)"
    and "p \<in> set (g_leafs g) \<union> set (g_nodes g)"
  shows "recorded e M p (place_in g ga p)"
proof -
  let ?N = "zip (g_nodes g) (map na_dst (ga_node_allocs ga))" and ?L = "zip (g_leafs g) (ga_leaf_allocs ga)"
  have nodes: "list_all2 (recorded e M) (g_nodes g) (map na_dst (ga_node_allocs ga))"
    using assms(1) by (auto simp: list_all2_map2 node_recorded_def elim: list_all2_mono)
  have "length (g_nodes g) = length (map na_dst (ga_node_allocs ga))" "length (g_leafs g) = length (ga_leaf_allocs ga)"
    using nodes assms(2) by (auto dest: list_all2_lengthD)
  then have "fst ` set (?N @ ?L) = set (g_leafs g) \<union> set (g_nodes g)"
    unfolding set_append image_Un using map_fst_zip [of "g_nodes g"] map_fst_zip [of "g_leafs g"] by (metis set_map Un_commute)
  then obtain ta where ta: "map_of (?N @ ?L) p = Some ta" using assms(3) by (metis map_of_eq_None_iff option.exhaust)
  then have "map_of ?N p = Some ta \<or> map_of ?L p = Some ta" by (auto simp: map_add_Some_iff)
  then have "recorded e M p ta" using list_all2_map_of [OF nodes] list_all2_map_of [OF assms(2)] by blast
  then show ?thesis using ta unfolding place_in_def by simp
qed

lemma recorded_managed:
  assumes "recorded e M p ta" "managed (pe_heap e) p"
  shows "tl_buffer ta = int (hn_buffer (M p))" "tl_addr ta = (int (fst (hn_addr (M p))), snd (hn_addr (M p)))"
    "s_size e (hn_buffer (M p)) p = Inr (tl_size_max ta)"
  using assms by (auto simp: recorded_def managed_def)

lemma round_to_ge: "0 < al \<Longrightarrow> n \<le> round_to al n"
  using div_mult_mod_eq [of "n + al - 1" al] mod_less_divisor [of al "n + al - 1"] unfolding round_to_def by linarith

text \<open>The bytes of a tensor lie in the region that was set aside for it.\<close>

lemma recorded_region:
  assumes env: "env_ok e" and own: "own_inv e E (M, T)" "p \<in> E" and rec: "recorded e M p ta"
  shows "fst (ta_region ta) = fst (region_at e M p)" "snd (ta_region ta) \<le> snd (region_at e M p)"
proof -
  have man: "managed (pe_heap e) p" "hn_buffer (M p) < length (pe_bufts e)" using own_invD(4,5) [OF own(1)] own(2) by auto
  note r = recorded_managed [OF rec man(1)]
  have "is_pow2 (buf_alignment e (hn_buffer (M p)))" using env man(2) by (simp add: env_ok_def)
  then have "0 < unat (buf_alignment e (hn_buffer (M p)))" by (simp add: is_pow2_def unat_gt_0)
  then show "fst (ta_region ta) = fst (region_at e M p)" "snd (ta_region ta) \<le> snd (region_at e M p)"
    using r round_to_ge by (simp_all add: ta_region_def region_at_def room_of_def)
qed

lemma apart_smaller:
  assumes "regions_apart r s" "fst r' = fst r" "snd r' \<le> snd r" "fst s' = fst s" "snd s' \<le> snd s"
  shows "regions_apart r' s'"
  using assms by (auto simp: regions_apart_def reg_end_def)

text \<open>
  C36. The graph allocator is correct.  For a graph whose nodes are in an order of computation, the
  places that \<open>ggml_gallocr_reserve_n\<close> records are such that computing the nodes in this order never
  overwrites a tensor, an output or a view's tensor that is still needed, except where an operation
  that works in place takes over a source that nothing needs later; every place lies within the
  size that its buffer is given; all records of a tensor agree; and the allocator is ready for the
  next graph.
\<close>

theorem gallocr_placement_safe:
  assumes ga: "gal_ok B ga" and sizes: "alloc_sizes_fit B h (ga_bufts ga)" and g: "placeable h g"
    and ids: "ids_fit (env_of B h ga) node_ids (length (g_nodes g))" "ids_fit (env_of B h ga) leaf_ids (length (g_leafs g))"
    and run: "place_graph B h garbage g node_ids leaf_ids ga = Inr ga'"
  shows "gal_ok B ga' \<and> placement_safe h g ga' \<and>
    (\<forall>p \<in> set (g_leafs g) \<union> set (g_nodes g). managed h p \<longrightarrow> place_fits ga' (place_in g ga' p)) \<and>
    (\<forall>i < length (g_nodes g). list_all2 (\<lambda>s ta. \<forall>q. s = Some q \<longrightarrow> managed h q \<longrightarrow> ta = place_in g ga' q)
       (t_src (tensor_at h (g_nodes g ! i))) (na_src (ga_node_allocs ga' ! i)))"
proof -
  let ?e = "env_of B h ga" and ?G = "set (g_leafs g) \<union> set (g_nodes g)" and ?p = "place_in g ga'"
  obtain M T E where safe: "\<forall>i < length (g_nodes g). safe_at ?e g i M" and own: "own_inv ?e E (M, T)"
    and E: "managed_in h ?G \<subseteq> E" and rel: "ga_rel ?e {} ga' (M, T)" and pow2: "\<forall>a \<in> set T. is_pow2 (ta_alignment a)"
    and nodes: "list_all2 (node_recorded ?e M) (g_nodes g) (ga_node_allocs ga')"
    and leafs: "list_all2 (recorded ?e M) (g_leafs g) (ga_leaf_allocs ga')"
    using place_graph_spec [OF ga sizes g ids run] by blast
  have env: "env_ok ?e" by (rule env_of_ok [OF ga sizes])
  have same: "ga_bufts ga' = ga_bufts ga" "ga_talloc_of ga' = ga_talloc_of ga" "ga_tallocs ga' = T" "slots_ok (ga_hash_set ga')"
    using rel by (simp_all add: ga_rel_def)
  have rec: "recorded ?e M p (?p p)" if "p \<in> ?G" for p by (rule place_in_recorded [OF nodes leafs that])
  have inE: "p \<in> E" if "p \<in> ?G" "managed h p" for p using that E by (auto simp: managed_in_def)
  have "gal_ok B ga'"
    using ga own_invD(1) [OF own] pow2 by (simp add: gal_ok_def same tallocs_fit_def buf_alignment_def)
  moreover have "placement_safe h g ga'"
    unfolding placement_safe_def
  proof (intro allI impI)
    fix i q assume i: "i < length (g_nodes g)" and w: "managed h (g_nodes g ! i)"
      and q: "present h g i q" "q \<noteq> g_nodes g ! i" "needed h g i q"
    let ?w = "g_nodes g ! i"
    have G: "?w \<in> ?G" "q \<in> ?G" "managed h q"
      using i q(1) before_graph [of g i] by (auto simp: present_def inputs_def)
    note rw = recorded_managed [OF rec [OF G(1)]] recorded_region [OF env own inE [OF G(1) w] rec [OF G(1)]]
    note rq = recorded_managed [OF rec [OF G(2)]] recorded_region [OF env own inE [OF G(2,3)] rec [OF G(2)]]
    have "keeps_apart ?e M ?w q \<or> hands_over h g i M q" using safe i w q by (simp add: safe_at_def)
    then show "ta_apart ga' (?p ?w) (?p q) \<or> takes_over h g i ga' q"
    proof
      assume "keeps_apart ?e M ?w q"
      then have "ta_apart ga' (?p ?w) (?p q)"
        using rw rq w G(3) apart_smaller [of "region_at ?e M ?w" "region_at ?e M q" "ta_region (?p ?w)" "ta_region (?p q)"]
        by (simp add: ta_apart_def keeps_apart_def same)
      then show ?thesis ..
    next
      assume "hands_over h g i M q"
      then show ?thesis using rw rq w G(3) by (simp add: hands_over_def takes_over_def Let_def)
    qed
  qed
  moreover have "place_fits ga' (?p p)" if p: "p \<in> ?G" "managed h p" for p
  proof -
    note r = recorded_managed [OF rec [OF p(1)]] recorded_region [OF env own inE [OF p] rec [OF p(1)]]
    show ?thesis
      using own_invD(5,6) [OF own inE [OF p]] r p(2) by (simp add: place_fits_def same reg_end_def)
  qed
  moreover have "list_all2 (\<lambda>s ta. \<forall>q. s = Some q \<longrightarrow> managed h q \<longrightarrow> ta = ?p q)
      (t_src (tensor_at h (g_nodes g ! i))) (na_src (ga_node_allocs ga' ! i))" if i: "i < length (g_nodes g)" for i
  proof -
    have "node_recorded ?e M (g_nodes g ! i) (ga_node_allocs ga' ! i)" using nodes i by (rule list_all2_nthD)
    then have "list_all2 (\<lambda>s ta. case s of None \<Rightarrow> ta = no_place | Some q \<Rightarrow> recorded ?e M q ta)
        (t_src (tensor_at h (g_nodes g ! i))) (na_src (ga_node_allocs ga' ! i))"
      using node_heap [OF g i] by (auto simp: node_recorded_def)
    moreover have "ta = ?p q" if "Some q \<in> set (t_src (tensor_at h (g_nodes g ! i)))" "managed h q" "recorded ?e M q ta" for q ta
    proof -
      have "q \<in> ?G" using placeableD(3) [OF g i, of q] before_graph [of g i] that(1) by (auto simp: srcs_of_def)
      from recorded_managed [OF rec [OF this]] recorded_managed [OF that(3)] that(2)
      show ?thesis by (simp add: tensor_alloc.equality prod_eq_iff)
    qed
    ultimately show ?thesis
      unfolding list_all2_conv_all_nth by (metis nth_mem option.simps(5))
  qed
  ultimately show ?thesis by blast
qed

end
