(* ===== verification/Alloc_Examples.thy ===== *)
theory Alloc_Examples
  imports Tallocr Graph
begin

text \<open>Concrete inputs on which the theorems about allocators and graphs apply.\<close>

definition first_chunk :: "size_t \<Rightarrow> size_t \<Rightarrow> ggml_dyn_tallocr" where
  "first_chunk off used = \<lparr>ta_alignment = 32, max_chunk_size = 1024,
     ta_chunks = [\<lparr>free_blocks = [\<lparr>fb_offset = off, fb_size = 1024 - off\<rparr>], max_used = used\<rparr>]\<rparr>"

lemma sample_allocs:
  "ggml_dyn_tallocr_alloc (ggml_dyn_tallocr_new 32 1024) 100 = Inr ((0, 0), first_chunk 128 128)"
  "ggml_dyn_tallocr_alloc (first_chunk 128 128) 64 = Inr ((0, 128), first_chunk 192 192)"
  "aligned_offset 0 100 32 = Inr 128" "aligned_offset 0 64 32 = Inr 64" "is_pow2 32"
  by code_simp+

lemma sample_reach: "talloc_reach 32 1024 (first_chunk 192 192) {(0, 128, 64), (0, 0, 128)}"
proof -
  have "talloc_step (ggml_dyn_tallocr_new 32 1024, {}) (first_chunk 128 128, {(0, unat (0 :: size_t), unat (128 :: size_t))})"
    by (rule talloc_step.alloc [OF sample_allocs(1)])
      (simp_all add: sample_allocs(3) ggml_dyn_tallocr_new_def ggml_dyn_tallocr_reset_def)
  then have "talloc_reach 32 1024 (first_chunk 128 128) {(0, 0, 128)}"
    using talloc_reach.step [OF talloc_reach.new] by simp
  moreover have "talloc_step (first_chunk 128 128, {(0, 0, 128)})
      (first_chunk 192 192, insert (0, unat (128 :: size_t), unat (64 :: size_t)) {(0, 0, 128)})"
    by (rule talloc_step.alloc [OF sample_allocs(2)]) (simp_all add: sample_allocs(4) first_chunk_def)
  ultimately show ?thesis using talloc_reach.step by fastforce
qed

lemma talloc_no_overlap_witness: "regions_apart (128, 64) (0, 128)"
  using talloc_no_overlap [OF sample_reach sample_allocs(5)] by simp

text \<open>The product of two leaves, as a graph.\<close>

definition plain_tensor :: "ggml_op \<Rightarrow> ptr option list \<Rightarrow> graph_tensor" where
  "plain_tensor op srcs = \<lparr>t_name = [], t_type = 0, t_ne = [1, 1, 1, 1], t_nb = [4, 4, 4, 4], t_data = None,
     t_op = op, t_flags = 0, t_src = srcs @ replicate (10 - length srcs) None, t_view_src = None,
     t_view_offs = 0, t_buffer = None, t_addr = None\<rparr>"

definition product_heap :: heap where
  "product_heap = [16 \<mapsto> plain_tensor GGML_OP_NONE [], 32 \<mapsto> plain_tensor GGML_OP_NONE [],
     48 \<mapsto> plain_tensor GGML_OP_MUL [Some 16, Some 32]]"

lemma product_edges: "edges product_heap = {(48, 16), (48, 32)}"
  by (auto simp: edges_def product_heap_def plain_tensor_def split: if_splits)

lemma product_heap_ok: "heap_ok product_heap"
proof -
  have "acyclic ({} :: (ptr \<times> ptr) set)" by (simp add: acyclic_def)
  then have "acyclic (edges product_heap)"
    unfolding product_edges by (auto simp: acyclic_insert elim: converse_rtranclE)
  then show ?thesis unfolding heap_ok_def
    by (auto simp: product_heap_def plain_tensor_def GGML_MAX_SRC_def split: if_splits)
qed

lemma product_below: "below product_heap 48 = {48, 16, 32}"
proof -
  have "below product_heap 16 = {16}" "below product_heap 32 = {32}"
    using below_unfold [of product_heap 16 "plain_tensor GGML_OP_NONE []"]
      below_unfold [of product_heap 32 "plain_tensor GGML_OP_NONE []"]
    by (simp_all add: product_heap_def plain_tensor_def)
  moreover have "{s. Some s \<in> set (t_src (plain_tensor GGML_OP_MUL [Some 16, Some 32]))} = {16, 32}"
    by (auto simp: plain_tensor_def)
  ultimately show ?thesis
    using below_unfold [of product_heap 48 "plain_tensor GGML_OP_MUL [Some 16, Some 32]"]
    by (auto simp: product_heap_def)
qed

lemma build_forward_correct_witness:
  "\<exists>g' nm'. ggml_build_forward_expand 4 product_heap 48 (ggml_new_graph_custom [] [] 8, \<lambda>_. []) = Inr (g', nm') \<and>
     graph_ok product_heap g'"
proof -
  have "visited (ggml_new_graph_custom [] [] 8) = {}"
    using new_empty(2) [of 16] hash_size_enough(2) [of 16]
    by (simp add: visited_def ggml_new_graph_custom_def Let_def)
  moreover have "g_size (ggml_new_graph_custom [] [] 8) = 8" by (simp add: ggml_new_graph_custom_def Let_def)
  moreover have "product_heap 48 = Some (plain_tensor GGML_OP_MUL [Some 16, Some 32])" by (simp add: product_heap_def)
  moreover have "\<not> is_leaf (plain_tensor GGML_OP_MUL [Some 16, Some 32])"
    by (simp add: is_leaf_def plain_tensor_def GGML_OP_MUL_def GGML_OP_NONE_def)
  ultimately show ?thesis
    using build_forward_correct [OF product_heap_ok new_graph_ok [of product_heap "[]" "[]" 8], of 48 _ 4 "\<lambda>_. []"]
    by (auto simp: product_below)
qed

end
