(* ===== verification/Gallocr_Examples.thy ===== *)
theory Gallocr_Examples
  imports Gallocr_Correct Alloc_Examples
begin

text \<open>Graphs on which the theorem about the graph allocator applies, and two that share a placement.\<close>

text \<open>
  The leaf 16 and four products: of the leaf with itself, of 32 with itself, of 48 with itself, and of
  64 with \<open>y\<close>.
\<close>

definition cell :: "ggml_op \<Rightarrow> ptr option list \<Rightarrow> graph_tensor" where
  "cell x srcs = (plain_tensor x srcs)\<lparr>t_ne := [16, 1, 1, 1], t_nb := [4, 64, 64, 64]\<rparr>"

definition chain_heap :: "ptr \<Rightarrow> heap" where
  "chain_heap y =
     [16 \<mapsto> cell GGML_OP_NONE [], 32 \<mapsto> cell GGML_OP_MUL_MAT [Some 16, Some 16],
      48 \<mapsto> cell GGML_OP_MUL_MAT [Some 32, Some 32], 64 \<mapsto> cell GGML_OP_MUL_MAT [Some 48, Some 48],
      80 \<mapsto> cell GGML_OP_MUL_MAT [Some 64, Some y]]"

definition chain_graph :: ggml_cgraph where
  "chain_graph = \<lparr>g_size = 8, g_nodes = [32, 48, 64, 80], g_leafs = [16], g_use_counts = [],
     g_visited = \<lparr>hs_size = 0, hs_used = [], hs_keys = []\<rparr>, g_left_to_right = True\<rparr>"

definition plain_bufts :: bufts where
  "plain_bufts = (\<lambda>_. \<lparr>if_alignment = 32, if_max_size = None, if_alloc_size = None\<rparr>)"

definition granting :: alloc_buffer where
  "granting n buft sz = Some \<lparr>bb_ptr = 4000, bb_buft = buft, bb_base = 4096, bb_size = sz\<rparr>"

text \<open>An equation for the evaluation of small tables, which does not expand the list of primes.\<close>

lemma small_hash_size [code]:
  "ggml_hash_size n =
     (if n \<le> 11 then if n \<le> 2 then 2 else if n \<le> 3 then 3 else if n \<le> 5 then 5 else 11
      else let l = bisect n 0 (length primes) in if l < length primes then primes ! l else n OR 1)"
  by (cases "n \<le> 11") (simp_all add: ggml_hash_size_def bisect.simps primes_def)

subsection \<open>A placement that is safe\<close>

lemma chain_tensor:
  "tensor_at (chain_heap y) 16 = cell GGML_OP_NONE []"
  "tensor_at (chain_heap y) 32 = cell GGML_OP_MUL_MAT [Some 16, Some 16]"
  "tensor_at (chain_heap y) 48 = cell GGML_OP_MUL_MAT [Some 32, Some 32]"
  "tensor_at (chain_heap y) 64 = cell GGML_OP_MUL_MAT [Some 48, Some 48]"
  "tensor_at (chain_heap y) 80 = cell GGML_OP_MUL_MAT [Some 64, Some y]"
  by (simp_all add: tensor_at_def chain_heap_def)

lemma cell_simps:
  "t_view_src (cell x srcs) = None" "t_op (cell x srcs) = x" "t_addr (cell x srcs) = None" "t_buffer (cell x srcs) = None"
  "t_flags (cell x srcs) = 0" "{s. Some s \<in> set (t_src (cell x srcs))} = {s. Some s \<in> set srcs}"
  by (auto simp: cell_def plain_tensor_def)

lemma chain_ops: "\<not> ggml_op_can_inplace GGML_OP_NONE" "\<not> ggml_op_can_inplace GGML_OP_MUL_MAT"
  by code_simp+

lemma chain_graph_simps: "g_leafs chain_graph = [16]" "g_nodes chain_graph = [32, 48, 64, 80]"
  by (simp_all add: chain_graph_def)

lemma chain_nodes:
  "g_nodes chain_graph ! 0 = 32" "g_nodes chain_graph ! Suc 0 = 48" "g_nodes chain_graph ! 2 = 64" "g_nodes chain_graph ! 3 = 80"
  by (simp_all add: chain_graph_def)

lemma chain_before:
  "before chain_graph 0 = {16}" "before chain_graph (Suc 0) = {16, 32}" "before chain_graph 2 = {16, 32, 48}"
  "before chain_graph 3 = {16, 32, 48, 64}"
  by (auto simp: before_def chain_graph_def)

lemma chain_srcs:
  "srcs_of (chain_heap y) 16 = {}" "srcs_of (chain_heap y) 32 = {16}" "srcs_of (chain_heap y) 48 = {32}"
  "srcs_of (chain_heap y) 64 = {48}" "srcs_of (chain_heap y) 80 = {64, y}"
  by (auto simp: srcs_of_def chain_tensor cell_simps)

lemma all_less_4: "(\<forall>i < 4. P i) \<longleftrightarrow> P 0 \<and> P (Suc 0) \<and> P 2 \<and> P (3 :: nat)"
  by (auto simp: less_Suc_eq numeral_eq_Suc)

lemma chain_placeable: "placeable (chain_heap 64) chain_graph" "placeable (chain_heap 32) chain_graph"
proof -
  have all: "(\<forall>i < length (g_nodes chain_graph). P i) \<longleftrightarrow> P 0 \<and> P (Suc 0) \<and> P 2 \<and> P 3" for P
    using all_less_4 [of P] by (simp add: chain_graph_simps numeral_eq_Suc)
  have dom: "dom (chain_heap y) = {16, 32, 48, 64, 80}" for y by (auto simp: chain_heap_def)
  show "placeable (chain_heap 64) chain_graph" "placeable (chain_heap 32) chain_graph"
    unfolding placeable_def all chain_before
    by (simp_all add: chain_nodes chain_srcs dom view_of_def flagged_def has_flag_def chain_graph_simps chain_tensor
        cell_simps chain_ops)
qed

lemma chain_sizes: "alloc_sizes_fit plain_bufts (chain_heap y) [1]"
proof -
  have "tensor_nbytes (cell x srcs) = tensor_nbytes (cell x [])" for x srcs
    by (simp add: tensor_nbytes_def cell_def plain_tensor_def ggml_nbytes_def ggml_tensor.truncate_def)
  moreover have "tensor_nbytes (cell GGML_OP_NONE []) = 64" "tensor_nbytes (cell GGML_OP_MUL_MAT []) = 64" by code_simp+
  ultimately have "tensor_nbytes (cell GGML_OP_NONE srcs) = 64" "tensor_nbytes (cell GGML_OP_MUL_MAT srcs) = 64" for srcs
    by metis+
  then show ?thesis
    by (auto simp: alloc_sizes_fit_def ggml_backend_buft_get_alloc_size_def plain_bufts_def chain_heap_def deref_def split: if_splits)
qed

lemma gallocr_placement_safe_witness:
  "\<exists>ga. place_graph plain_bufts (chain_heap 64) [] chain_graph None None (ggml_gallocr_new plain_bufts 1) = Inr ga \<and>
     placement_safe (chain_heap 64) chain_graph ga"
proof -
  let ?ga = "ggml_gallocr_new plain_bufts 1"
  have "\<not> isl (place_graph plain_bufts (chain_heap 64) [] chain_graph None None ?ga)" by code_simp
  then obtain ga where ga: "place_graph plain_bufts (chain_heap 64) [] chain_graph None None ?ga = Inr ga"
    by (metis isl_def sum.exhaust_sel)
  have "is_pow2 (32 :: size_t)" by code_simp
  then have ok: "gal_ok plain_bufts ?ga" "ga_bufts ?ga = [1]"
    using new_gal_ok [of "[1]" plain_bufts] by (simp_all add: ggml_gallocr_new_def plain_bufts_def)
  then have "ids_fit (env_of plain_bufts (chain_heap 64) ?ga) None n" for n
    by (simp add: ids_fit_def get_node_buffer_id_def)
  then show ?thesis
    using gallocr_placement_safe [OF ok(1) _ chain_placeable(1) _ _ ga] ok(2) chain_sizes ga by auto
qed

subsection \<open>A placement that is not\<close>

definition same_place :: "heap \<Rightarrow> ptr \<Rightarrow> ptr \<Rightarrow> bool" where
  "same_place h p q \<longleftrightarrow> (case (h p, h q) of (Some t, Some u) \<Rightarrow> t_addr t = t_addr u \<and> t_addr t \<noteq> None | _ \<Rightarrow> False)"

definition alloc_twice :: "heap \<Rightarrow> heap \<Rightarrow> ggml_cgraph \<Rightarrow> (bool \<times> bool \<times> heap) outcome" where
  "alloc_twice h1 h2 g =
     bnd (ggml_gallocr_alloc_graph plain_bufts granting [] g h1 0 (ggml_gallocr_new plain_bufts 1)) (\<lambda>(ok1, _, n, ga).
     bnd (ggml_gallocr_alloc_graph plain_bufts granting [] g h2 n ga) (\<lambda>(ok2, h, _). Inr (ok1, ok2, h)))"

text \<open>
  C37. \<open>ggml_gallocr_alloc_graph\<close> keeps the places of the last graph when the numbers of nodes and leafs
  and the sizes agree, although the edges differ.  After a chain of four products, a second graph
  of the same shape whose last node also reads the first one is given the old places without an
  error: the third node is put where the first one is, which is still needed.
\<close>

theorem alloc_graph_stale_places:
  "(case alloc_twice (chain_heap 64) (chain_heap 32) chain_graph of
      Inr (ok1, ok2, h) \<Rightarrow> ok1 \<and> ok2 \<and> same_place h 32 64
    | Inl _ \<Rightarrow> False) \<and>
   placeable (chain_heap 32) chain_graph \<and> g_nodes chain_graph ! 2 = 64 \<and> needed (chain_heap 32) chain_graph 2 32"
proof -
  have "needed (chain_heap 32) chain_graph 2 32"
  proof -
    have "(32 :: ptr) \<in> srcs_of (chain_heap 32) (g_nodes chain_graph ! 3)"
      by (simp add: chain_nodes chain_srcs)
    moreover have "3 \<in> {2..<length (g_nodes chain_graph)}" by (simp add: chain_graph_simps)
    ultimately show ?thesis unfolding needed_def by blast
  qed
  moreover have "case alloc_twice (chain_heap 64) (chain_heap 32) chain_graph of
      Inr (ok1, ok2, h) \<Rightarrow> ok1 \<and> ok2 \<and> same_place h 32 64 | Inl _ \<Rightarrow> False" by code_simp
  ultimately show ?thesis using chain_placeable(2) by (simp add: chain_graph_simps)
qed

end
