(* ===== verification/Compute_Pool.thy ===== *)
theory Compute_Pool
  imports Graph
begin

text \<open>
  The threads that compute a graph on the CPU, of \<open>src/ggml-cpu/ggml-cpu.c\<close> without OpenMP: the loop of a
  thread over the nodes, the barrier between them, and the protocol by which the first thread lets
  all threads stop at one node.  Each access to a shared variable is a step; the threads
  interleave arbitrarily.  The memory is sequentially consistent.
\<close>

subsection \<open>State\<close>

definition ggml_op_is_empty :: "ggml_op \<Rightarrow> bool" where
  "ggml_op_is_empty x \<longleftrightarrow>
     x \<in> set [GGML_OP_NONE, GGML_OP_RESHAPE, GGML_OP_TRANSPOSE, GGML_OP_VIEW, GGML_OP_PERMUTE]"

text \<open>
  A plan: the operations of the nodes, the number of threads, what the callback answers after each
  node (\<open>False\<close> throughout if there is none), and how many barriers the kernel of each node has inside.
\<close>

record compute_plan =
  cp_ops :: "ggml_op list"
  cp_threads :: nat
  cp_abort :: "nat \<Rightarrow> bool"
  cp_barriers :: "nat \<Rightarrow> nat"

record threadpool =
  tp_n_graph :: "32 word"
  tp_n_barrier :: "32 word"
  tp_n_barrier_passed :: "32 word"
  tp_current_chunk :: "32 word"
  tp_abort :: int
  tp_n_threads :: nat
  tp_ec :: int

definition GGML_STATUS_SUCCESS :: int where "GGML_STATUS_SUCCESS = 0"
definition GGML_STATUS_ABORTED :: int where "GGML_STATUS_ABORTED = 1"
definition GGML_THREADPOOL_N_THREADS_MASK :: "32 word" where "GGML_THREADPOOL_N_THREADS_MASK = 0xFFFF"
definition GGML_THREADPOOL_N_THREADS_BITS :: nat where "GGML_THREADPOOL_N_THREADS_BITS = 16"

definition active_threads :: "threadpool \<Rightarrow> nat" where
  "active_threads tp = unat (tp_n_graph tp AND GGML_THREADPOOL_N_THREADS_MASK)"

text \<open>
  Where a thread is in its loop: before node \<open>k\<close>, in the kernel of node \<open>k\<close> after \<open>j\<close> of its barriers, after
  the kernel, or at the end, having left the loop at node \<open>k\<close>.
\<close>

datatype place = Loop nat | Kernel nat nat | Callback nat | Finish nat

text \<open>
  A thread is at a place or in the barrier before one: about to read the number of threads, to
  read \<open>n_barrier_passed\<close>, to add to \<open>n_barrier\<close>, to reset it, to let the others go, or waiting for that.
\<close>

datatype pc =
    At place
  | Barrier place
  | Load nat place
  | Add nat "32 word" place
  | Reset place
  | Release place
  | Spin "32 word" place

record pool_state =
  ps_tp :: threadpool
  ps_pcs :: "pc list"

subsection \<open>Steps\<close>

fun ggml_barrier :: "pc \<Rightarrow> threadpool \<Rightarrow> pc \<times> threadpool" where
  "ggml_barrier (Barrier r) tp = (if active_threads tp = 1 then At r else Load (active_threads tp) r, tp)"
| "ggml_barrier (Load n r) tp = (Add n (tp_n_barrier_passed tp) r, tp)"
| "ggml_barrier (Add n p r) tp =
     (if tp_n_barrier tp = word_of_nat n - 1 then Reset r else Spin p r, tp\<lparr>tp_n_barrier := tp_n_barrier tp + 1\<rparr>)"
| "ggml_barrier (Reset r) tp = (Release r, tp\<lparr>tp_n_barrier := 0\<rparr>)"
| "ggml_barrier (Release r) tp = (At r, tp\<lparr>tp_n_barrier_passed := tp_n_barrier_passed tp + 1\<rparr>)"
| "ggml_barrier (Spin p r) tp = (if tp_n_barrier_passed tp = p then Spin p r else At r, tp)"
| "ggml_barrier (At r) tp = (At r, tp)"

fun ggml_graph_compute_thread :: "compute_plan \<Rightarrow> nat \<Rightarrow> place \<Rightarrow> threadpool \<Rightarrow> pc \<times> threadpool" where
  "ggml_graph_compute_thread P ith (Loop k) tp =
     (if k < length (cp_ops P) \<and> tp_abort tp \<noteq> int k then
        if ggml_op_is_empty (cp_ops P ! k) then At (Loop (Suc k)) else At (Kernel k 0)
      else Barrier (Finish k), tp)"
| "ggml_graph_compute_thread P ith (Kernel k j) tp =
     (if j < cp_barriers P k then Barrier (Kernel k (Suc j)) else At (Callback k), tp)"
| "ggml_graph_compute_thread P ith (Callback k) tp =
     (if Suc k < length (cp_ops P) then Barrier (Loop (Suc k)) else At (Loop (Suc k)),
      if ith = 0 \<and> cp_abort P k then tp\<lparr>tp_abort := int k + 1, tp_ec := GGML_STATUS_ABORTED\<rparr> else tp)"
| "ggml_graph_compute_thread P ith (Finish k) tp = (At (Finish k), tp)"

fun thread_step :: "compute_plan \<Rightarrow> nat \<Rightarrow> pc \<Rightarrow> threadpool \<Rightarrow> pc \<times> threadpool" where
  "thread_step P ith (At r) tp = ggml_graph_compute_thread P ith r tp"
| "thread_step P ith c tp = ggml_barrier c tp"

definition sched_step :: "compute_plan \<Rightarrow> nat \<Rightarrow> pool_state \<Rightarrow> pool_state" where
  "sched_step P t s =
     (if t < length (ps_pcs s) then
        let (c, tp) = thread_step P t (ps_pcs s ! t) (ps_tp s) in \<lparr>ps_tp = tp, ps_pcs = (ps_pcs s)[t := c]\<rparr>
      else s)"

text \<open>
  The shift of the counter of graphs is signed, and not defined when the counter reaches
  \<open>2 ^ 15\<close>.
\<close>

definition ggml_graph_compute_kickoff :: "nat \<Rightarrow> threadpool \<Rightarrow> threadpool outcome" where
  "ggml_graph_compute_kickoff n tp =
     (let n_graph = sint (tp_n_graph tp) div 2 ^ GGML_THREADPOOL_N_THREADS_BITS + 1 in
      bnd (ensure (0 \<le> n_graph \<and> n_graph * 2 ^ GGML_THREADPOOL_N_THREADS_BITS < 2 ^ 31) Undefined) (\<lambda>_.
      Inr (tp\<lparr>tp_n_graph := push_bit GGML_THREADPOOL_N_THREADS_BITS (word_of_int n_graph) OR
                 (word_of_nat n AND GGML_THREADPOOL_N_THREADS_MASK)\<rparr>)))"

definition ggml_graph_compute :: "compute_plan \<Rightarrow> threadpool \<Rightarrow> pool_state outcome" where
  "ggml_graph_compute P tp =
     bnd (ensure (0 < cp_threads P) Aborted) (\<lambda>_.
     let tp = tp\<lparr>tp_current_chunk := 0, tp_abort := - 1, tp_ec := GGML_STATUS_SUCCESS\<rparr>;
         n = min (cp_threads P) (tp_n_threads tp)
     in bnd (ggml_graph_compute_kickoff n tp) (\<lambda>tp. Inr \<lparr>ps_tp = tp, ps_pcs = replicate n (At (Loop 0))\<rparr>))"

text \<open>The states that the threads can get into, and the run under a schedule.\<close>

inductive pool_reach :: "compute_plan \<Rightarrow> pool_state \<Rightarrow> pool_state \<Rightarrow> bool" for P s0 where
  start: "pool_reach P s0 s0"
| step: "pool_reach P s0 s \<Longrightarrow> pool_reach P s0 (sched_step P t s)"

fun run_pool :: "compute_plan \<Rightarrow> (nat \<Rightarrow> nat) \<Rightarrow> pool_state \<Rightarrow> nat \<Rightarrow> pool_state" where
  "run_pool P sched s 0 = s"
| "run_pool P sched s (Suc i) = sched_step P (sched i) (run_pool P sched s i)"

lemma run_pool_reach: "pool_reach P s (run_pool P sched s i)"
  by (induction i) (auto intro: pool_reach.intros)

end
