(* ===== verification/Compute_Sync.thy ===== *)
theory Compute_Sync
  imports Compute_Pool
begin

text \<open>
  The barrier separates the phases of a computation: an invariant that counts, for every place of a
  thread, the barriers before it.
\<close>

subsection \<open>The barriers before a place\<close>

definition nonempty :: "compute_plan \<Rightarrow> nat \<Rightarrow> bool" where
  "nonempty P k \<longleftrightarrow> \<not> ggml_op_is_empty (cp_ops P ! k)"

abbreviation n_nodes :: "compute_plan \<Rightarrow> nat" where
  "n_nodes P \<equiv> length (cp_ops P)"

definition node_rounds :: "compute_plan \<Rightarrow> nat \<Rightarrow> nat" where
  "node_rounds P k = (if nonempty P k then cp_barriers P k + (if Suc k < n_nodes P then 1 else 0) else 0)"

definition base :: "compute_plan \<Rightarrow> nat \<Rightarrow> nat" where
  "base P k = (\<Sum>i < k. node_rounds P i)"

fun rounds :: "compute_plan \<Rightarrow> place \<Rightarrow> nat" where
  "rounds P (Loop k) = base P k"
| "rounds P (Kernel k j) = base P k + j"
| "rounds P (Callback k) = base P k + cp_barriers P k"
| "rounds P (Finish k) = Suc (base P k)"

lemma base_Suc: "base P (Suc k) = base P k + node_rounds P k"
  by (simp add: base_def)

lemma base_mono: "i \<le> j \<Longrightarrow> base P i \<le> base P j"
  by (simp add: base_def sum_mono2)

lemma base_less: "base P i < base P j \<Longrightarrow> i < j"
  using base_mono [of j i P] by (meson leD leI)

lemma base_step:
  assumes "nonempty P i" "Suc i < n_nodes P" "i < j"
  shows "base P i + cp_barriers P i < base P j"
  using base_mono [of "Suc i" j P] assms by (simp add: base_Suc node_rounds_def)

subsection \<open>The places a thread can be at\<close>

text \<open>\<open>L\<close> is the node before which the loop ends.\<close>

fun place_ok :: "compute_plan \<Rightarrow> nat \<Rightarrow> place \<Rightarrow> bool" where
  "place_ok P L (Loop k) \<longleftrightarrow> k \<le> L"
| "place_ok P L (Kernel k j) \<longleftrightarrow> k < L \<and> nonempty P k \<and> j \<le> cp_barriers P k"
| "place_ok P L (Callback k) \<longleftrightarrow> k < L \<and> nonempty P k"
| "place_ok P L (Finish k) \<longleftrightarrow> k = L"

fun return_ok :: "compute_plan \<Rightarrow> nat \<Rightarrow> place \<Rightarrow> bool" where
  "return_ok P L (Loop k) \<longleftrightarrow> (\<exists>i. k = Suc i \<and> i < L \<and> nonempty P i \<and> Suc i < n_nodes P)"
| "return_ok P L (Kernel k j) \<longleftrightarrow> k < L \<and> nonempty P k \<and> 0 < j \<and> j \<le> cp_barriers P k"
| "return_ok P L (Callback k) \<longleftrightarrow> False"
| "return_ok P L (Finish k) \<longleftrightarrow> k = L"

lemma return_place: "return_ok P L r \<Longrightarrow> place_ok P L r"
  by (cases r) auto

fun goal_place :: "pc \<Rightarrow> place" where
  "goal_place (At r) = r"
| "goal_place (Barrier r) = r"
| "goal_place (Load n r) = r"
| "goal_place (Add n p r) = r"
| "goal_place (Reset r) = r"
| "goal_place (Release r) = r"
| "goal_place (Spin p r) = r"

definition shape_ok :: "compute_plan \<Rightarrow> nat \<Rightarrow> pc \<Rightarrow> bool" where
  "shape_ok P L c \<longleftrightarrow> (if \<exists>r. c = At r then place_ok P L (goal_place c) else return_ok P L (goal_place c))"

lemma shape_ok_simps [simp]:
  "shape_ok P L (At r) = place_ok P L r" "shape_ok P L (Barrier r) = return_ok P L r" "shape_ok P L (Load n r) = return_ok P L r"
  "shape_ok P L (Add n p r) = return_ok P L r" "shape_ok P L (Reset r) = return_ok P L r"
  "shape_ok P L (Release r) = return_ok P L r" "shape_ok P L (Spin p r) = return_ok P L r"
  by (simp_all add: shape_ok_def)

subsection \<open>The state of the barrier\<close>

text \<open>\<open>w\<close> is the value of \<open>n_barrier_passed\<close> and \<open>E\<close> the number of barriers that have been passed.\<close>

fun synced :: "compute_plan \<Rightarrow> nat \<Rightarrow> 32 word \<Rightarrow> nat \<Rightarrow> pc \<Rightarrow> bool" where
  "synced P n w E (At r) \<longleftrightarrow> rounds P r = E"
| "synced P n w E (Barrier r) \<longleftrightarrow> rounds P r = Suc E"
| "synced P n w E (Load m r) \<longleftrightarrow> rounds P r = Suc E \<and> m = n"
| "synced P n w E (Add m p r) \<longleftrightarrow> rounds P r = Suc E \<and> m = n \<and> p = w"
| "synced P n w E (Reset r) \<longleftrightarrow> rounds P r = Suc E"
| "synced P n w E (Release r) \<longleftrightarrow> rounds P r = Suc E"
| "synced P n w E (Spin p r) \<longleftrightarrow> rounds P r = Suc E \<and> p = w \<or> rounds P r = E \<and> p = w - 1"

definition waiting_at :: "32 word \<Rightarrow> pc \<Rightarrow> bool" where
  "waiting_at w c \<longleftrightarrow> (\<exists>r. c = Spin w r)"

definition waiters :: "32 word \<Rightarrow> pc list \<Rightarrow> nat set" where
  "waiters w pcs = {t. t < length pcs \<and> waiting_at w (pcs ! t)}"

definition others_wait :: "32 word \<Rightarrow> nat \<Rightarrow> pc list \<Rightarrow> bool" where
  "others_wait w t pcs \<longleftrightarrow> (\<forall>u < length pcs. u \<noteq> t \<longrightarrow> waiting_at w (pcs ! u))"

definition leaving :: "pc \<Rightarrow> bool" where
  "leaving c \<longleftrightarrow> (\<exists>r. c = Reset r \<or> c = Release r)"

definition barrier_ok :: "32 word \<Rightarrow> 32 word \<Rightarrow> pc list \<Rightarrow> bool" where
  "barrier_ok w nb pcs \<longleftrightarrow>
     (\<forall>c \<in> set pcs. \<not> leaving c) \<and> nb = word_of_nat (card (waiters w pcs)) \<and> card (waiters w pcs) < length pcs \<or>
     (\<exists>t < length pcs. \<exists>r. pcs ! t = Reset r \<and> others_wait w t pcs) \<or>
     (\<exists>t < length pcs. \<exists>r. pcs ! t = Release r \<and> nb = 0 \<and> others_wait w t pcs)"

text \<open>The barrier of a single thread returns at once.\<close>

definition alone :: "pc \<Rightarrow> bool" where
  "alone c \<longleftrightarrow> (\<exists>r. c = At r \<or> c = Barrier r)"

definition sync_ok :: "compute_plan \<Rightarrow> nat \<Rightarrow> pool_state \<Rightarrow> bool" where
  "sync_ok P E s \<longleftrightarrow> (let n = length (ps_pcs s); tp = ps_tp s in
     0 < n \<and> n < 2 ^ 16 \<and> active_threads tp = n \<and>
     (if n = 1 then alone (ps_pcs s ! 0) \<and> tp_n_barrier tp = 0
      else (\<forall>c \<in> set (ps_pcs s). synced P n (tp_n_barrier_passed tp) E c) \<and>
        barrier_ok (tp_n_barrier_passed tp) (tp_n_barrier tp) (ps_pcs s)))"

subsection \<open>Stopping\<close>

definition stop_node :: "compute_plan \<Rightarrow> nat" where
  "stop_node P = (case find (\<lambda>k. nonempty P k \<and> cp_abort P k) [0..<n_nodes P] of None \<Rightarrow> n_nodes P | Some k \<Rightarrow> Suc k)"

definition loop_end :: "compute_plan \<Rightarrow> threadpool \<Rightarrow> nat" where
  "loop_end P tp = (if tp_abort tp = - 1 then n_nodes P else nat (tp_abort tp))"

fun node_of :: "place \<Rightarrow> nat" where
  "node_of (Loop k) = k"
| "node_of (Kernel k j) = k"
| "node_of (Callback k) = k"
| "node_of (Finish k) = k"

definition abort_ok :: "compute_plan \<Rightarrow> pool_state \<Rightarrow> bool" where
  "abort_ok P s \<longleftrightarrow>
     (if tp_abort (ps_tp s) = - 1
      then tp_ec (ps_tp s) = GGML_STATUS_SUCCESS \<and> (\<forall>i < node_of (goal_place (ps_pcs s ! 0)). nonempty P i \<longrightarrow> \<not> cp_abort P i)
      else tp_abort (ps_tp s) = int (stop_node P) \<and> tp_ec (ps_tp s) = GGML_STATUS_ABORTED \<and>
        (\<exists>k < n_nodes P. nonempty P k \<and> cp_abort P k))"

definition pool_inv :: "compute_plan \<Rightarrow> nat \<Rightarrow> pool_state \<Rightarrow> bool" where
  "pool_inv P E s \<longleftrightarrow> sync_ok P E s \<and> abort_ok P s \<and> (\<forall>c \<in> set (ps_pcs s). shape_ok P (loop_end P (ps_tp s)) c)"

lemma stop_node_le: "stop_node P \<le> n_nodes P"
  by (auto simp: stop_node_def find_Some_iff split: option.split)

lemma stop_node_here:
  assumes "k < n_nodes P" "nonempty P k" "cp_abort P k" "\<forall>i < k. nonempty P i \<longrightarrow> \<not> cp_abort P i"
  shows "stop_node P = Suc k"
proof -
  have "find (\<lambda>k. nonempty P k \<and> cp_abort P k) [0..<n_nodes P] = Some k"
    unfolding find_Some_iff using assms by (intro exI [of _ k]) auto
  then show ?thesis by (simp add: stop_node_def)
qed

lemma stop_node_never: "\<forall>i < n_nodes P. nonempty P i \<longrightarrow> \<not> cp_abort P i \<Longrightarrow> stop_node P = n_nodes P"
  by (auto simp: stop_node_def find_Some_iff split: option.split)

lemma loop_end_le: "abort_ok P s \<Longrightarrow> loop_end P (ps_tp s) \<le> n_nodes P"
  using stop_node_le [of P] by (simp add: abort_ok_def loop_end_def split: if_splits)

subsection \<open>The barrier keeps its state\<close>

lemma waiters_finite: "finite (waiters w pcs)"
  by (simp add: waiters_def)

lemma waiters_less: "t < length pcs \<Longrightarrow> \<not> waiting_at w (pcs ! t) \<Longrightarrow> card (waiters w pcs) < length pcs"
proof -
  assume t: "t < length pcs" "\<not> waiting_at w (pcs ! t)"
  then have "waiters w pcs \<subset> {..<length pcs}" by (auto simp: waiters_def)
  then show ?thesis using psubset_card_mono [of "{..<length pcs}" "waiters w pcs"] by simp
qed

lemma waiters_upd:
  assumes "t < length pcs" "\<not> waiting_at w (pcs ! t)"
  shows "waiters w (pcs[t := c]) = (if waiting_at w c then insert t (waiters w pcs) else waiters w pcs)"
  using assms by (auto simp: waiters_def nth_list_update)

lemma others_wait_upd: "others_wait w t (pcs[t := c]) \<longleftrightarrow> others_wait w t pcs"
  by (auto simp: others_wait_def)

lemma barrier_cases:
  assumes "barrier_ok w nb pcs" "t < length pcs" "\<not> waiting_at w (pcs ! t)" "\<not> leaving (pcs ! t)"
  shows "\<forall>c \<in> set pcs. \<not> leaving c" "nb = word_of_nat (card (waiters w pcs))"
proof -
  have "u = t" if "others_wait w u pcs" "u < length pcs" for u using that assms(2,3) by (auto simp: others_wait_def)
  then show "\<forall>c \<in> set pcs. \<not> leaving c" "nb = word_of_nat (card (waiters w pcs))"
    using assms(1,4) by (auto simp: barrier_ok_def leaving_def)
qed

lemma barrier_passive:
  assumes ok: "barrier_ok w nb pcs" and t: "t < length pcs" "\<not> waiting_at w (pcs ! t)" "\<not> leaving (pcs ! t)"
    and c: "\<not> waiting_at w c" "\<not> leaving c"
  shows "barrier_ok w nb (pcs[t := c])"
proof -
  note b = barrier_cases [OF ok t]
  have "\<forall>d \<in> set (pcs[t := c]). \<not> leaving d" using b(1) c(2) set_update_subset_insert [of pcs t c] by auto
  moreover have "waiters w (pcs[t := c]) = waiters w pcs" using waiters_upd [OF t(1,2), of c] c(1) by simp
  ultimately show ?thesis using b(2) waiters_less [OF t(1,2)] unfolding barrier_ok_def by simp
qed

lemma barrier_add:
  assumes ok: "barrier_ok w nb pcs" and t: "t < length pcs" "pcs ! t = Add n w r" and n: "n = length pcs" "n < 2 ^ 16"
  shows "barrier_ok w (nb + 1) (pcs[t := if nb = word_of_nat n - 1 then Reset r else Spin w r])"
proof -
  have nw: "\<not> waiting_at w (pcs ! t)" "\<not> leaving (pcs ! t)" using t by (auto simp: waiting_at_def leaving_def)
  note b = barrier_cases [OF ok t(1) nw]
  let ?W = "waiters w pcs"
  have W: "card ?W < n" using waiters_less [OF t(1) nw(1)] n by simp
  have nb: "nb = word_of_nat n - 1 \<longleftrightarrow> card ?W = n - 1"
  proof -
    have "word_of_nat n - 1 = (word_of_nat (n - 1) :: 32 word)" using t n by (cases n) simp_all
    moreover have "unat (word_of_nat k :: 32 word) = k" if "k < n" for k
      using that n(2) by (simp add: unat_of_nat)
    moreover have "n - 1 < n" using t n(1) by simp
    ultimately have "unat (word_of_nat n - 1 :: 32 word) = n - 1" "unat (word_of_nat (card ?W) :: 32 word) = card ?W"
      using W by metis+
    then show ?thesis unfolding b(2) by (metis word_unat_eq_iff)
  qed
  show ?thesis
  proof (cases "card ?W = n - 1")
    case True
    have "?W \<subseteq> {..<length pcs} - {t}" using nw(1) by (auto simp: waiters_def)
    moreover have "card ({..<length pcs} - {t}) = n - 1" using t n by simp
    ultimately have "?W = {..<length pcs} - {t}" using True by (metis card_subset_eq finite_Diff finite_lessThan)
    then have "others_wait w t pcs" by (auto simp: others_wait_def waiters_def)
    then show ?thesis using nb True t unfolding barrier_ok_def by (auto simp: others_wait_upd)
  next
    case False
    have "waiting_at w (Spin w r)" "\<not> leaving (Spin w r)" by (auto simp: waiting_at_def leaving_def)
    moreover have "t \<notin> ?W" using nw(1) by (simp add: waiters_def)
    ultimately have "card (waiters w (pcs[t := Spin w r])) = Suc (card ?W)"
      using waiters_upd [OF t(1) nw(1)] by (simp add: waiters_finite)
    moreover have "\<forall>d \<in> set (pcs[t := Spin w r]). \<not> leaving d"
      using b(1) set_update_subset_insert [of pcs t "Spin w r"] by (auto simp: leaving_def)
    moreover have "Suc (card ?W) < length pcs" using False W n by linarith
    ultimately show ?thesis using False nb n b(2) unfolding barrier_ok_def by (simp add: add.commute)
  qed
qed

lemma barrier_leaver:
  assumes "barrier_ok w nb pcs" "t < length pcs" "leaving (pcs ! t)"
  shows "others_wait w t pcs"
proof -
  have "u = t" if "others_wait w u pcs" "u < length pcs" for u
    using that assms(2,3) by (auto simp: others_wait_def leaving_def waiting_at_def)
  then show ?thesis using assms nth_mem unfolding barrier_ok_def by blast
qed

lemma barrier_reset:
  "barrier_ok w nb pcs \<Longrightarrow> t < length pcs \<Longrightarrow> pcs ! t = Reset r \<Longrightarrow> barrier_ok w 0 (pcs[t := Release r])"
  using barrier_leaver [of w nb pcs t] by (auto simp: barrier_ok_def [of w 0] others_wait_upd leaving_def)

lemma barrier_release:
  assumes ok: "barrier_ok w nb pcs" and t: "t < length pcs" "pcs ! t = Release r"
  shows "barrier_ok (w + 1) nb (pcs[t := At r])"
proof -
  have others: "others_wait w t pcs" by (rule barrier_leaver [OF ok t(1)]) (simp add: t leaving_def)
  have "nb = 0"
  proof -
    have "u = t" if "others_wait w u pcs" "u < length pcs" for u
      using that t by (auto simp: others_wait_def waiting_at_def)
    then show ?thesis using ok t nth_mem [OF t(1)] unfolding barrier_ok_def leaving_def by auto
  qed
  moreover have "waiters (w + 1) (pcs[t := At r]) = {}"
  proof -
    have "\<not> waiting_at (w + 1) (pcs[t := At r] ! u)" if "u < length pcs" for u
      using others that by (cases "u = t") (auto simp: others_wait_def waiting_at_def)
    then show ?thesis by (simp add: waiters_def)
  qed
  moreover have "\<forall>d \<in> set (pcs[t := At r]). \<not> leaving d"
  proof
    fix d assume "d \<in> set (pcs[t := At r])"
    then obtain u where "u < length pcs" "d = pcs[t := At r] ! u" by (metis in_set_conv_nth length_list_update)
    then have "d = At r \<or> waiting_at w d" using others by (cases "u = t") (simp_all add: others_wait_def)
    then show "\<not> leaving d" by (auto simp: leaving_def waiting_at_def)
  qed
  moreover have "0 < length (pcs[t := At r])" using t(1) by (metis length_list_update gr_implies_not0 gr0I)
  ultimately show ?thesis unfolding barrier_ok_def by (intro disjI1 conjI) simp_all
qed

subsection \<open>A step keeps the invariant\<close>

text \<open>A step of the loop.\<close>

lemma loop_step:
  assumes "ggml_graph_compute_thread P t r tp = (c, tp')" "place_ok P L r" "rounds P r = E"
    and "L = loop_end P tp" "L \<le> n_nodes P" "- 1 \<le> tp_abort tp"
  shows "synced P n w E c" "shape_ok P L c" "alone c" "\<not> waiting_at w c" "\<not> leaving c"
  using assms
  by (auto simp: node_rounds_def base_Suc nonempty_def loop_end_def alone_def waiting_at_def leaving_def
      elim!: ggml_graph_compute_thread.elims split: if_splits)

lemma loop_step_pool:
  assumes "ggml_graph_compute_thread P t r tp = (c, tp')"
  shows "tp_n_barrier tp' = tp_n_barrier tp" "tp_n_barrier_passed tp' = tp_n_barrier_passed tp" "tp_n_graph tp' = tp_n_graph tp"
    "active_threads tp' = active_threads tp"
    "tp_abort tp' = tp_abort tp \<and> tp_ec tp' = tp_ec tp \<or>
       t = 0 \<and> (\<exists>k. r = Callback k \<and> cp_abort P k \<and> tp_abort tp' = int k + 1 \<and> tp_ec tp' = GGML_STATUS_ABORTED)"
  using assms by (auto simp: active_threads_def elim!: ggml_graph_compute_thread.elims split: if_splits)

text \<open>A step of the barrier.\<close>

lemma barrier_step:
  assumes step: "ggml_barrier (pcs ! t) tp = (c, tp')" and t: "t < length pcs" "n = length pcs" "n < 2 ^ 16" "n \<noteq> 1"
    and nat: "\<not> (\<exists>r. pcs ! t = At r)" and act: "active_threads tp = n"
    and sync: "\<forall>c \<in> set pcs. synced P n (tp_n_barrier_passed tp) E c"
    and bar: "barrier_ok (tp_n_barrier_passed tp) (tp_n_barrier tp) pcs"
  shows "\<exists>E'. (\<forall>d \<in> set (pcs[t := c]). synced P n (tp_n_barrier_passed tp') E' d) \<and>
    barrier_ok (tp_n_barrier_passed tp') (tp_n_barrier tp') (pcs[t := c])"
proof -
  let ?w = "tp_n_barrier_passed tp"
  have here: "synced P n ?w E (pcs ! t)" using sync t(1) by simp
  have keep: "\<forall>d \<in> set (pcs[t := d']). synced P n ?w E d" if "synced P n ?w E d'" for d'
    using that sync set_update_subset_insert [of pcs t d'] by auto
  show ?thesis
  proof (cases "pcs ! t")
    case (At r) then show ?thesis using nat by simp
  next
    case (Barrier r)
    then have "c = Load n r" "tp' = tp" using step act t(4) by auto
    moreover have "barrier_ok ?w (tp_n_barrier tp) (pcs[t := Load n r])"
      by (rule barrier_passive [OF bar t(1)]) (simp_all add: Barrier waiting_at_def leaving_def)
    ultimately show ?thesis using keep [of "Load n r"] here Barrier by auto
  next
    case (Load m r)
    then have "c = Add n ?w r" "tp' = tp" using step here by auto
    moreover have "barrier_ok ?w (tp_n_barrier tp) (pcs[t := Add n ?w r])"
      by (rule barrier_passive [OF bar t(1)]) (simp_all add: Load waiting_at_def leaving_def)
    ultimately show ?thesis using keep [of "Add n ?w r"] here Load by auto
  next
    case (Add m p r)
    then have p: "p = ?w" "m = n" "rounds P r = Suc E" using here by auto
    let ?c = "if tp_n_barrier tp = word_of_nat n - 1 then Reset r else Spin ?w r"
    have "c = ?c" "tp' = tp\<lparr>tp_n_barrier := tp_n_barrier tp + 1\<rparr>" using step p Add by auto
    moreover have "barrier_ok ?w (tp_n_barrier tp + 1) (pcs[t := ?c])"
      using barrier_add [OF bar t(1) _ t(2,3)] Add p by simp
    moreover have "synced P n ?w E ?c" using p by simp
    ultimately show ?thesis using keep [of ?c] by (intro exI [of _ E]) simp
  next
    case (Reset r)
    then have "c = Release r" "tp' = tp\<lparr>tp_n_barrier := 0\<rparr>" using step by auto
    moreover have "barrier_ok ?w 0 (pcs[t := Release r])" by (rule barrier_reset [OF bar t(1) Reset])
    ultimately show ?thesis using keep [of "Release r"] here Reset by auto
  next
    case (Release r)
    then have c: "c = At r" "tp' = tp\<lparr>tp_n_barrier_passed := ?w + 1\<rparr>" using step by auto
    have "others_wait ?w t pcs" by (rule barrier_leaver [OF bar t(1)]) (simp add: Release leaving_def)
    have "synced P n (?w + 1) (Suc E) (pcs[t := c] ! u)" if u: "u < length pcs" for u
    proof (cases "u = t")
      case True then show ?thesis using here Release c t(1) by simp
    next
      case False
      then obtain q where q: "pcs ! u = Spin ?w q" using \<open>others_wait ?w t pcs\<close> u by (auto simp: others_wait_def waiting_at_def)
      moreover have "synced P n ?w E (pcs ! u)" using sync u by simp
      ultimately show ?thesis using False by simp
    qed
    then have "\<forall>d \<in> set (pcs[t := c]). synced P n (?w + 1) (Suc E) d"
      by (metis in_set_conv_nth length_list_update)
    moreover have "barrier_ok (?w + 1) (tp_n_barrier tp) (pcs[t := At r])" by (rule barrier_release [OF bar t(1) Release])
    ultimately show ?thesis using c by auto
  next
    case (Spin p r)
    show ?thesis
    proof (cases "?w = p")
      case True
      then have "c = pcs ! t" "tp' = tp" using step Spin by auto
      then show ?thesis using sync bar by auto
    next
      case False
      then have c: "c = At r" "tp' = tp" "rounds P r = E" using step Spin here by auto
      moreover have "barrier_ok ?w (tp_n_barrier tp) (pcs[t := At r])"
        by (rule barrier_passive [OF bar t(1)]) (use False Spin in \<open>auto simp: waiting_at_def leaving_def\<close>)
      ultimately show ?thesis using keep [of "At r"] by auto
    qed
  qed
qed

lemma barrier_step_pool:
  assumes "ggml_barrier c tp = (c', tp')" "shape_ok P L c"
  shows "tp_n_graph tp' = tp_n_graph tp" "active_threads tp' = active_threads tp" "tp_abort tp' = tp_abort tp" "tp_ec tp' = tp_ec tp"
    "goal_place c' = goal_place c" "shape_ok P L c'"
  using assms by (auto simp: active_threads_def return_place elim!: ggml_barrier.elims split: if_splits)

text \<open>When the first thread gives up after node \<open>m\<close>, no other thread is behind the new end of the loop.\<close>

lemma abort_shrinks:
  assumes m: "nonempty P m" "m < n_nodes P" "E = base P m + cp_barriers P m"
    and c: "synced P n w E c" "shape_ok P (n_nodes P) c"
  shows "shape_ok P (Suc m) c"
proof (cases "Suc m = n_nodes P")
  case True then show ?thesis using c(2) by simp
next
  case False
  then have b: "base P (Suc m) = Suc E" using m by (simp add: base_Suc node_rounds_def)
  have le: "i \<le> m" if "base P i \<le> E" for i using that base_less [of P i "Suc m"] b by simp
  have ret: "return_ok P (Suc m) r" if that': "return_ok P (n_nodes P) r" "rounds P r \<le> Suc E" for r
  proof (cases r)
    case (Loop k)
    then obtain i where i: "k = Suc i" "nonempty P i" "Suc i < n_nodes P" using that' by auto
    then have "base P i \<le> E" using that'(2) Loop by (simp add: base_Suc node_rounds_def)
    then show ?thesis using i le [of i] Loop by auto
  next
    case (Kernel k j) then show ?thesis using that' le [of k] by simp
  next
    case (Callback k) then show ?thesis using that' by simp
  next
    case (Finish k) then show ?thesis using that' le [of k] m(2) False by simp
  qed
  have here: "place_ok P (Suc m) r" if "place_ok P (n_nodes P) r" "rounds P r = E" for r
    using that le [of "node_of r"] m(2) False by (cases r) auto
  show ?thesis using c here ret by (cases c) auto
qed

lemma stop_node_unique:
  assumes "k < stop_node P" "nonempty P k" "cp_abort P k" "k < n_nodes P"
  shows "stop_node P = Suc k"
proof -
  have "\<forall>i < k. nonempty P i \<longrightarrow> \<not> cp_abort P i"
    using assms by (auto simp: stop_node_def find_Some_iff find_None_iff split: option.splits)
  then show ?thesis using stop_node_here assms by blast
qed

lemma ball_update: "\<forall>c \<in> set xs. Q c \<Longrightarrow> Q c' \<Longrightarrow> \<forall>c \<in> set (xs[t := c']). Q c"
  using set_update_subset_insert [of xs t c'] by auto

lemma node_of_step:
  assumes "ggml_graph_compute_thread P t r tp = (c, tp')" "place_ok P L r"
  shows "node_of (goal_place c) = node_of r \<or>
    node_of (goal_place c) = Suc (node_of r) \<and> (r = Callback (node_of r) \<or> \<not> nonempty P (node_of r))"
  using assms by (auto simp: nonempty_def elim!: ggml_graph_compute_thread.elims split: if_splits)

lemma step_inv_loop:
  assumes inv: "pool_inv P E s" and t: "t < length (ps_pcs s)" "ps_pcs s ! t = At r"
    and step: "ggml_graph_compute_thread P t r (ps_tp s) = (c, tp')"
  shows "pool_inv P E \<lparr>ps_tp = tp', ps_pcs = (ps_pcs s)[t := c]\<rparr>"
proof -
  let ?pcs = "ps_pcs s" and ?tp = "ps_tp s"
  let ?n = "length ?pcs" and ?w = "tp_n_barrier_passed ?tp" and ?L = "loop_end P ?tp"
  let ?E = "if ?n = 1 then rounds P r else E"
  have sync: "sync_ok P E s" and ab: "abort_ok P s" and shape: "\<forall>c \<in> set ?pcs. shape_ok P ?L c"
    using inv by (auto simp: pool_inv_def)
  have place: "place_ok P ?L r" using shape nth_mem [OF t(1)] t(2) by (metis shape_ok_simps(1))
  have L: "?L \<le> n_nodes P" by (rule loop_end_le [OF ab])
  have low: "- 1 \<le> tp_abort ?tp" using ab by (auto simp: abort_ok_def split: if_splits)
  have n: "0 < ?n" "?n < 2 ^ 16" "active_threads ?tp = ?n" using sync by (auto simp: sync_ok_def Let_def)
  have many: "\<forall>c \<in> set ?pcs. synced P ?n ?w ?E c" "barrier_ok ?w (tp_n_barrier ?tp) ?pcs" if "?n \<noteq> 1"
    using sync that by (auto simp: sync_ok_def Let_def)
  have r: "rounds P r = ?E" using many(1) nth_mem [OF t(1)] t(2) by (cases "?n = 1") (auto dest!: bspec)
  note ls = loop_step [OF step place r refl L low]
  note pool = loop_step_pool [OF step]
  have "sync_ok P E \<lparr>ps_tp = tp', ps_pcs = ?pcs[t := c]\<rparr>"
  proof (cases "?n = 1")
    case True then show ?thesis using n pool ls(3) t(1) sync by (simp add: sync_ok_def Let_def)
  next
    case False
    have "barrier_ok ?w (tp_n_barrier ?tp) (?pcs[t := c])"
      by (rule barrier_passive [OF many(2) [OF False] t(1)]) (use t(2) ls(4,5) in \<open>auto simp: waiting_at_def leaving_def\<close>)
    moreover have "\<forall>c \<in> set (?pcs[t := c]). synced P ?n ?w E c"
      using ball_update [OF many(1) [OF False] ls(1)] False by simp
    ultimately show ?thesis using n False pool by (simp add: sync_ok_def Let_def)
  qed
  moreover have "abort_ok P \<lparr>ps_tp = tp', ps_pcs = ?pcs[t := c]\<rparr> \<and> (\<forall>c \<in> set (?pcs[t := c]). shape_ok P (loop_end P tp') c)"
  proof (cases "tp_abort tp' = tp_abort ?tp \<and> tp_ec tp' = tp_ec ?tp")
    case True
    then have end': "loop_end P tp' = ?L" by (simp add: loop_end_def)
    have "\<not> cp_abort P i" if a: "tp_abort ?tp = - 1" and i: "i < node_of (goal_place (?pcs[t := c] ! 0))" "nonempty P i" for i
    proof (cases "t = 0 \<and> i = node_of r")
      case True
      then have "r = Callback i" "t = 0" using i node_of_step [OF step place] t(1) by auto
      then have "cp_abort P i \<Longrightarrow> tp_abort tp' = int i + 1" using step by auto
      then show ?thesis using \<open>tp_abort tp' = tp_abort ?tp \<and> tp_ec tp' = tp_ec ?tp\<close> a by auto
    next
      case False
      then have "i < node_of (goal_place (?pcs ! 0))"
        using i(1) t node_of_step [OF step place] by (cases "t = 0") auto
      then show ?thesis using ab a i(2) by (auto simp: abort_ok_def)
    qed
    then have "abort_ok P \<lparr>ps_tp = tp', ps_pcs = ?pcs[t := c]\<rparr>" using True ab by (auto simp: abort_ok_def split: if_splits)
    then show ?thesis using ball_update [OF shape ls(2)] end' by simp
  next
    case False
    then obtain k where k: "t = 0" "r = Callback k" "cp_abort P k" "tp_abort tp' = int k + 1" "tp_ec tp' = GGML_STATUS_ABORTED"
      using pool(5) by auto
    have nk: "nonempty P k" "k < ?L" "k < n_nodes P" using place k(2) L by auto
    have stop: "stop_node P = Suc k"
    proof (cases "tp_abort ?tp = - 1")
      case True then show ?thesis using ab t k nk by (intro stop_node_here) (auto simp: abort_ok_def)
    next
      case False then show ?thesis using ab k nk by (intro stop_node_unique) (auto simp: abort_ok_def loop_end_def)
    qed
    have end': "loop_end P tp' = Suc k" using k(4) by (simp add: loop_end_def)
    have "\<forall>d \<in> set (?pcs[t := c]). shape_ok P (Suc k) d"
    proof (cases "tp_abort ?tp = - 1")
      case True
      have "shape_ok P (n_nodes P) d \<and> synced P ?n ?w ?E d" if "d \<in> set (?pcs[t := c])" for d
      proof (cases "?n = 1")
        case True
        then have "d = c" using that t(1) by (cases ?pcs) auto
        then show ?thesis using ls(1,2) \<open>tp_abort ?tp = - 1\<close> by (simp add: loop_end_def)
      next
        case False
        then show ?thesis using that ball_update [OF shape ls(2)] ball_update [OF many(1) [OF False] ls(1)] True
          by (simp add: loop_end_def)
      qed
      moreover have "?E = base P k + cp_barriers P k" using r k(2) by simp
      ultimately show ?thesis using abort_shrinks [OF nk(1,3)] by blast
    next
      case False
      then have "?L = Suc k" using ab stop by (simp add: abort_ok_def loop_end_def)
      then show ?thesis using ball_update [OF shape ls(2)] by simp
    qed
    then show ?thesis using end' k stop nk by (auto simp: abort_ok_def)
  qed
  ultimately show ?thesis by (simp add: pool_inv_def)
qed

lemma step_inv_barrier:
  assumes inv: "pool_inv P E s" and t: "t < length (ps_pcs s)" "\<not> (\<exists>r. ps_pcs s ! t = At r)"
    and step: "ggml_barrier (ps_pcs s ! t) (ps_tp s) = (c, tp')"
  shows "\<exists>E'. pool_inv P E' \<lparr>ps_tp = tp', ps_pcs = (ps_pcs s)[t := c]\<rparr>"
proof -
  let ?pcs = "ps_pcs s" and ?tp = "ps_tp s"
  let ?n = "length ?pcs"
  have sync: "sync_ok P E s" and ab: "abort_ok P s" and shape: "\<forall>c \<in> set ?pcs. shape_ok P (loop_end P ?tp) c"
    using inv by (auto simp: pool_inv_def)
  have n: "0 < ?n" "?n < 2 ^ 16" "active_threads ?tp = ?n" using sync by (auto simp: sync_ok_def Let_def)
  have "shape_ok P (loop_end P ?tp) (?pcs ! t)" using shape t(1) by simp
  note pool = barrier_step_pool [OF step this]
  have "goal_place (?pcs[t := c] ! 0) = goal_place (?pcs ! 0)" using pool(5) t(1) by (cases "t = 0") auto
  then have "abort_ok P \<lparr>ps_tp = tp', ps_pcs = ?pcs[t := c]\<rparr>" using ab pool(3,4) by (simp add: abort_ok_def)
  moreover have "loop_end P tp' = loop_end P ?tp" using pool(3) by (simp add: loop_end_def)
  then have "\<forall>c \<in> set (?pcs[t := c]). shape_ok P (loop_end P tp') c" using ball_update [OF shape pool(6)] by simp
  moreover have "\<exists>E'. sync_ok P E' \<lparr>ps_tp = tp', ps_pcs = ?pcs[t := c]\<rparr>"
  proof (cases "?n = 1")
    case True
    then have "alone (?pcs ! 0)" "t = 0" using sync t(1) by (auto simp: sync_ok_def Let_def)
    then obtain q where "?pcs ! t = Barrier q" using t(2) by (auto simp: alone_def)
    then have "alone c \<and> tp' = ?tp" using step n(3) True by (auto simp: alone_def)
    then show ?thesis using n True \<open>t = 0\<close> t(1) sync by (simp add: sync_ok_def Let_def)
  next
    case False
    have "\<forall>c \<in> set ?pcs. synced P ?n (tp_n_barrier_passed ?tp) E c" "barrier_ok (tp_n_barrier_passed ?tp) (tp_n_barrier ?tp) ?pcs"
      using sync False by (auto simp: sync_ok_def Let_def)
    from barrier_step [OF step t(1) refl n(2) False t(2) n(3) this]
    show ?thesis using n pool(2) False by (simp add: sync_ok_def Let_def)
  qed
  ultimately show ?thesis by (auto simp: pool_inv_def)
qed

lemma step_inv: "pool_inv P E s \<Longrightarrow> \<exists>E'. pool_inv P E' (sched_step P t s)"
proof (cases "t < length (ps_pcs s)")
  case True
  assume inv: "pool_inv P E s"
  obtain c tp' where step: "thread_step P t (ps_pcs s ! t) (ps_tp s) = (c, tp')" by fastforce
  then have "sched_step P t s = \<lparr>ps_tp = tp', ps_pcs = (ps_pcs s)[t := c]\<rparr>" using True by (simp add: sched_step_def)
  moreover have "\<exists>E'. pool_inv P E' \<lparr>ps_tp = tp', ps_pcs = (ps_pcs s)[t := c]\<rparr>"
  proof (cases "\<exists>r. ps_pcs s ! t = At r")
    case True
    then obtain r where "ps_pcs s ! t = At r" by blast
    then show ?thesis using step step_inv_loop [OF inv \<open>t < length (ps_pcs s)\<close>, of r c tp'] by auto
  next
    case False
    then have "thread_step P t (ps_pcs s ! t) (ps_tp s) = ggml_barrier (ps_pcs s ! t) (ps_tp s)"
      by (cases "ps_pcs s ! t") auto
    then show ?thesis using step step_inv_barrier [OF inv True False] by simp
  qed
  ultimately show ?thesis by simp
qed (auto simp: sched_step_def)

end
