(* ===== verification/Compute_Live.thy ===== *)
theory Compute_Live
  imports Compute_Sync
begin

text \<open>The threads compute the nodes in step, never wait for each other for ever, and stop at one node.\<close>

subsection \<open>The start of a graph\<close>

lemma mask_counter: "(push_bit 16 x OR (y AND 0xFFFF)) AND 0xFFFF = (y AND 0xFFFF :: 32 word)"
proof -
  have m: "(0xFFFF :: 32 word) = mask 16" by (simp add: mask_eq_exp_minus_1)
  show ?thesis unfolding m by (rule bit_word_eqI) (auto simp: bit_simps)
qed

lemma mask_threads: "n < 2 ^ 16 \<Longrightarrow> unat (word_of_nat n AND 0xFFFF :: 32 word) = n"
proof -
  assume n: "n < 2 ^ 16"
  have m: "(0xFFFF :: 32 word) = mask 16" by (simp add: mask_eq_exp_minus_1)
  show ?thesis unfolding m
    using n by (simp flip: take_bit_eq_mask add: unsigned_take_bit_eq unsigned_of_nat take_bit_nat_eq_self)
qed

lemma kickoff_threads:
  assumes "ggml_graph_compute_kickoff n tp = Inr tp'" "n < 2 ^ 16"
  shows "active_threads tp' = n \<and> tp_n_barrier tp' = tp_n_barrier tp \<and> tp_abort tp' = tp_abort tp \<and> tp_ec tp' = tp_ec tp"
proof -
  obtain g where tp': "tp' = tp\<lparr>tp_n_graph := push_bit GGML_THREADPOOL_N_THREADS_BITS g OR
      (word_of_nat n AND GGML_THREADPOOL_N_THREADS_MASK)\<rparr>"
    using assms(1) by (auto simp: ggml_graph_compute_kickoff_def Let_def bnd_eq_Inr)
  then have "active_threads tp' = n"
    using mask_counter mask_threads [OF assms(2)]
    by (simp add: active_threads_def GGML_THREADPOOL_N_THREADS_MASK_def GGML_THREADPOOL_N_THREADS_BITS_def)
  then show ?thesis using tp' by simp
qed

lemma waiters_none: "\<forall>c \<in> set pcs. \<not> waiting_at w c \<Longrightarrow> waiters w pcs = {}"
  by (auto simp: waiters_def)

lemma start_inv:
  assumes "ggml_graph_compute P tp = Inr s" "tp_n_barrier tp = 0" "0 < tp_n_threads tp" "min (cp_threads P) (tp_n_threads tp) < 2 ^ 16"
  shows "pool_inv P 0 s" "length (ps_pcs s) = min (cp_threads P) (tp_n_threads tp)"
proof -
  let ?n = "min (cp_threads P) (tp_n_threads tp)"
  let ?tp = "tp\<lparr>tp_current_chunk := 0, tp_abort := - 1, tp_ec := GGML_STATUS_SUCCESS\<rparr>"
  obtain tp' where k: "0 < cp_threads P" "ggml_graph_compute_kickoff ?n ?tp = Inr tp'"
    and s: "s = \<lparr>ps_tp = tp', ps_pcs = replicate ?n (At (Loop 0))\<rparr>"
    using assms(1) by (auto simp: ggml_graph_compute_def Let_def bnd_eq_Inr)
  note t = kickoff_threads [OF k(2) assms(4)]
  have n: "0 < ?n" using k(1) assms(3) by simp
  have "waiters w (replicate ?n (At (Loop 0))) = {}" for w by (rule waiters_none) (simp add: waiting_at_def)
  then have "barrier_ok w 0 (replicate ?n (At (Loop 0)))" for w
    using n unfolding barrier_ok_def by (intro disjI1) (simp add: leaving_def)
  then have "sync_ok P 0 s"
    using n assms(2,4) t by (simp add: s sync_ok_def Let_def alone_def base_def)
  then show "pool_inv P 0 s" using n t by (simp add: s pool_inv_def abort_ok_def)
  show "length (ps_pcs s) = ?n" by (simp add: s)
qed

lemma reach_inv: "pool_reach P s0 s \<Longrightarrow> pool_inv P E s0 \<Longrightarrow> \<exists>E. pool_inv P E s"
  by (induction rule: pool_reach.induct) (auto dest: step_inv)

lemma reach_length: "pool_reach P s0 s \<Longrightarrow> length (ps_pcs s) = length (ps_pcs s0)"
  by (induction rule: pool_reach.induct) (auto simp: sched_step_def split: prod.split)

subsection \<open>Phases\<close>

lemma invD:
  assumes "pool_inv P E s" "t < length (ps_pcs s)"
  shows "shape_ok P (loop_end P (ps_tp s)) (ps_pcs s ! t)" "loop_end P (ps_tp s) \<le> n_nodes P"
    "length (ps_pcs s) \<noteq> 1 \<Longrightarrow> synced P (length (ps_pcs s)) (tp_n_barrier_passed (ps_tp s)) E (ps_pcs s ! t)"
  using assms loop_end_le [of P s] by (auto simp: pool_inv_def sync_ok_def Let_def)

lemma kernel_phase:
  assumes "place_ok P L (Kernel k j)" "place_ok P L (Kernel k' j')" "L \<le> n_nodes P"
    and "rounds P (Kernel k j) = rounds P (Kernel k' j')"
  shows "k = k' \<and> j = j'"
proof -
  have "\<not> k < k'" if "place_ok P L (Kernel k j)" "place_ok P L (Kernel k' j')" "rounds P (Kernel k j) = rounds P (Kernel k' j')"
    for k j k' j'
    using that assms(3) base_step [of P k k'] by auto
  then show ?thesis using assms by (metis linorder_neqE_nat rounds.simps(2) add_left_cancel)
qed

lemma behind_done:
  assumes t: "place_ok P L (Kernel k j)" "rounds P (Kernel k j) = E" and L: "L \<le> n_nodes P"
    and u: "shape_ok P L c" "synced P n w E c" and i: "i < k" "nonempty P i"
  shows "i < node_of (goal_place c)"
proof (rule ccontr)
  assume "\<not> i < node_of (goal_place c)"
  then have m: "node_of (goal_place c) \<le> i" by simp
  have k: "k < L" "k < n_nodes P" using t L by auto
  have less: "base P i + cp_barriers P i < base P k" using base_step [OF i(2) _ i(1)] i(1) k(2) by simp
  have shape: "place_ok P L (goal_place c)" using u(1) by (auto simp: shape_ok_def return_place split: if_splits)
  have "E \<le> rounds P (goal_place c)" using u(2) by (cases c) auto
  moreover have "rounds P (goal_place c) < base P k"
  proof (cases "goal_place c")
    case (Loop q) then show ?thesis using base_mono [of q i P] m less by simp
  next
    case (Kernel q l)
    then have "nonempty P q" "q \<le> i" "rounds P (goal_place c) \<le> base P q + cp_barriers P q" using shape m by auto
    then show ?thesis using base_step [of P q k] i(1) k(2) by linarith
  next
    case (Callback q)
    then have "nonempty P q" "q \<le> i" "rounds P (goal_place c) \<le> base P q + cp_barriers P q" using shape m by auto
    then show ?thesis using base_step [of P q k] i(1) k(2) by linarith
  next
    case (Finish q) then show ?thesis using shape m i(1) k(1) by simp
  qed
  ultimately show False using t(2) by simp
qed

text \<open>
  C38. While the threads compute a graph, two threads that are in kernels are in the kernel of one
  node and between the same barriers of it; by then every thread is done with all earlier nodes
  that are not empty; and all threads that have left the loop have left it at the same node.
\<close>

theorem compute_threads_in_step:
  assumes run: "ggml_graph_compute P tp = Inr s0" "pool_reach P s0 s"
    and pool: "tp_n_barrier tp = 0" "0 < tp_n_threads tp" "min (cp_threads P) (tp_n_threads tp) < 2 ^ 16"
    and tu: "t < length (ps_pcs s)" "u < length (ps_pcs s)"
  shows "(\<forall>k j k' j'. ps_pcs s ! t = At (Kernel k j) \<longrightarrow> ps_pcs s ! u = At (Kernel k' j') \<longrightarrow> k = k' \<and> j = j') \<and>
    (\<forall>k j. ps_pcs s ! t = At (Kernel k j) \<longrightarrow> (\<forall>i < k. nonempty P i \<longrightarrow> i < node_of (goal_place (ps_pcs s ! u)))) \<and>
    (\<forall>k k'. ps_pcs s ! t = At (Finish k) \<longrightarrow> ps_pcs s ! u = At (Finish k') \<longrightarrow> k = k')"
proof -
  obtain E where inv: "pool_inv P E s" using reach_inv [OF run(2) start_inv(1) [OF run(1) pool]] by blast
  note it = invD [OF inv tu(1)] and iu = invD [OF inv tu(2)]
  show ?thesis
  proof (cases "length (ps_pcs s) = 1")
    case True
    then have "t = u" using tu by simp
    then show ?thesis by auto
  next
    case False
    note st = it(3) [OF False] and su = iu(3) [OF False]
    have "k = k' \<and> j = j'" if "ps_pcs s ! t = At (Kernel k j)" "ps_pcs s ! u = At (Kernel k' j')" for k j k' j'
      using kernel_phase [OF _ _ it(2), of k j k' j'] it(1) iu(1) st su that by simp
    moreover have "i < node_of (goal_place (ps_pcs s ! u))" if "ps_pcs s ! t = At (Kernel k j)" "i < k" "nonempty P i" for k j i
      by (rule behind_done [OF _ _ it(2) iu(1) su that(2,3)]) (use it(1) st that(1) in auto)
    moreover have "k = k'" if "ps_pcs s ! t = At (Finish k)" "ps_pcs s ! u = At (Finish k')" for k k'
      using it(1) iu(1) that by simp
    ultimately show ?thesis by blast
  qed
qed

subsection \<open>Progress\<close>

text \<open>The steps that a thread has left, at most.\<close>

definition node_cost :: "compute_plan \<Rightarrow> nat \<Rightarrow> nat" where
  "node_cost P k = 12 + 8 * cp_barriers P k"

definition loop_cost :: "compute_plan \<Rightarrow> nat \<Rightarrow> nat" where
  "loop_cost P k = 8 + (\<Sum>i = k..<n_nodes P. node_cost P i)"

fun place_cost :: "compute_plan \<Rightarrow> place \<Rightarrow> nat" where
  "place_cost P (Loop k) = loop_cost P k"
| "place_cost P (Kernel k j) = 9 + 8 * (cp_barriers P k - j) + loop_cost P (Suc k)"
| "place_cost P (Callback k) = 8 + loop_cost P (Suc k)"
| "place_cost P (Finish k) = 0"

fun pc_cost :: "compute_plan \<Rightarrow> pc \<Rightarrow> nat" where
  "pc_cost P (At r) = place_cost P r"
| "pc_cost P (Barrier r) = place_cost P r + 6"
| "pc_cost P (Load n r) = place_cost P r + 5"
| "pc_cost P (Add n p r) = place_cost P r + 4"
| "pc_cost P (Reset r) = place_cost P r + 3"
| "pc_cost P (Release r) = place_cost P r + 2"
| "pc_cost P (Spin p r) = place_cost P r + 1"

definition pool_cost :: "compute_plan \<Rightarrow> pool_state \<Rightarrow> nat" where
  "pool_cost P s = sum_list (map (pc_cost P) (ps_pcs s))"

definition at_end :: "pc \<Rightarrow> bool" where
  "at_end c \<longleftrightarrow> (\<exists>k. c = At (Finish k))"

lemma loop_cost_unfold: "k < n_nodes P \<Longrightarrow> loop_cost P k = node_cost P k + loop_cost P (Suc k)"
  by (simp add: loop_cost_def sum.atLeast_Suc_lessThan)

lemma loop_step_cost:
  assumes "ggml_graph_compute_thread P t r tp = (c, tp')" "\<not> at_end (At r)"
  shows "pc_cost P c < place_cost P r"
proof (cases r)
  case (Loop k)
  have "8 \<le> loop_cost P k" by (simp add: loop_cost_def)
  then show ?thesis using assms(1) loop_cost_unfold [of k P] Loop by (auto simp: node_cost_def split: if_splits)
qed (use assms in \<open>auto simp: at_end_def split: if_splits\<close>)

lemma barrier_step_cost:
  assumes "ggml_barrier c tp = (c', tp')" "\<nexists>r. c = At r" "\<not> waiting_at (tp_n_barrier_passed tp) c"
  shows "pc_cost P c' < pc_cost P c"
  using assms by (cases c) (auto simp: waiting_at_def split: if_splits)

lemma thread_step_cost:
  assumes "thread_step P t c tp = (c', tp')" "\<not> at_end c" "\<not> waiting_at (tp_n_barrier_passed tp) c"
  shows "pc_cost P c' < pc_cost P c"
proof (cases "\<exists>r. c = At r")
  case True then show ?thesis using assms loop_step_cost by auto
next
  case False
  then have "thread_step P t c tp = ggml_barrier c tp" by (cases c) auto
  then show ?thesis using assms barrier_step_cost [of c tp c' tp' P] False by simp
qed

lemma thread_step_stuck:
  "at_end c \<or> waiting_at (tp_n_barrier_passed tp) c \<Longrightarrow> thread_step P t c tp = (c, tp)"
  by (auto simp: at_end_def waiting_at_def)

lemma sum_list_update_less:
  fixes f :: "'a \<Rightarrow> nat"
  assumes "t < length xs" "f y < f (xs ! t)"
  shows "sum_list (map f (xs[t := y])) < sum_list (map f xs)"
  using assms
proof (induction xs arbitrary: t)
  case (Cons x xs) then show ?case by (cases t) auto
qed simp

text \<open>A step either changes nothing or brings the threads closer to the end.\<close>

definition movable :: "pool_state \<Rightarrow> nat \<Rightarrow> bool" where
  "movable s t \<longleftrightarrow> t < length (ps_pcs s) \<and> \<not> at_end (ps_pcs s ! t) \<and> \<not> waiting_at (tp_n_barrier_passed (ps_tp s)) (ps_pcs s ! t)"

lemma sched_step_moves: "movable s t \<Longrightarrow> pool_cost P (sched_step P t s) < pool_cost P s"
  using thread_step_cost sum_list_update_less [of t "ps_pcs s" "pc_cost P"]
  by (auto simp: movable_def sched_step_def pool_cost_def split: prod.split)

lemma sched_step_idle: "\<not> movable s t \<Longrightarrow> sched_step P t s = s"
  using thread_step_stuck [of "ps_pcs s ! t" "ps_tp s" P t] by (auto simp: movable_def sched_step_def)

lemma rounds_max: "return_ok P L r \<Longrightarrow> L \<le> n_nodes P \<Longrightarrow> rounds P r \<le> Suc (base P L)"
proof -
  assume r: "return_ok P L r" and L: "L \<le> n_nodes P"
  show ?thesis
  proof (cases r)
    case (Loop k) then show ?thesis using r base_mono [of k L P] by auto
  next
    case (Kernel k j)
    then have k: "k < L" "nonempty P k" "j \<le> cp_barriers P k" using r by auto
    then have "base P k + cp_barriers P k \<le> base P (Suc k)" by (simp add: base_Suc node_rounds_def)
    then show ?thesis using k base_mono [of "Suc k" L P] Kernel by simp
  qed (use r in auto)
qed

text \<open>No deadlock: as long as a thread is not at its end, some thread can move.\<close>

lemma no_deadlock:
  assumes inv: "pool_inv P E s" and t: "t < length (ps_pcs s)" "\<not> at_end (ps_pcs s ! t)"
  shows "\<exists>u. movable s u"
proof (rule ccontr)
  assume none: "\<nexists>u. movable s u"
  let ?n = "length (ps_pcs s)" and ?w = "tp_n_barrier_passed (ps_tp s)" and ?L = "loop_end P (ps_tp s)"
  have stuck: "at_end (ps_pcs s ! u) \<or> waiting_at ?w (ps_pcs s ! u)" if "u < ?n" for u
    using none that by (auto simp: movable_def)
  show False
  proof (cases "?n = 1")
    case True
    then have "alone (ps_pcs s ! t)" using inv t(1) by (auto simp: pool_inv_def sync_ok_def Let_def)
    then show False using stuck [OF t(1)] t(2) by (auto simp: alone_def waiting_at_def)
  next
    case False
    then have "barrier_ok ?w (tp_n_barrier (ps_tp s)) (ps_pcs s)" using inv by (auto simp: pool_inv_def sync_ok_def Let_def)
    moreover have "\<not> leaving (ps_pcs s ! u)" if "u < ?n" for u
      using stuck [OF that] by (auto simp: at_end_def waiting_at_def leaving_def)
    ultimately have "card (waiters ?w (ps_pcs s)) < ?n" by (auto simp: barrier_ok_def leaving_def)
    then have "waiters ?w (ps_pcs s) \<noteq> {..<?n}" by (metis card_lessThan less_irrefl)
    then obtain u where u: "u < ?n" "\<not> waiting_at ?w (ps_pcs s ! u)" by (auto simp: waiters_def)
    then obtain k where k: "ps_pcs s ! u = At (Finish k)" using stuck by (auto simp: at_end_def)
    obtain q where q: "ps_pcs s ! t = Spin ?w q" using stuck [OF t(1)] t(2) by (auto simp: waiting_at_def)
    note iu = invD [OF inv u(1)] and it = invD [OF inv t(1)]
    have "Suc (base P ?L) = E" using iu(1) iu(3) [OF False] k by simp
    moreover have "rounds P q = Suc E" using it(3) [OF False] q by simp
    moreover have "rounds P q \<le> Suc (base P ?L)" using rounds_max it(1,2) q by simp
    ultimately show False by simp
  qed
qed

lemma run_inv: "pool_inv P E s \<Longrightarrow> \<exists>E. pool_inv P E (run_pool P sched s i)"
  by (rule reach_inv [OF run_pool_reach])

lemma run_length: "length (ps_pcs (run_pool P sched s i)) = length (ps_pcs s)"
  by (rule reach_length [OF run_pool_reach])

lemma run_progress:
  "movable (run_pool P sched s i) (sched (i + d)) \<Longrightarrow> \<exists>j > i. pool_cost P (run_pool P sched s j) < pool_cost P (run_pool P sched s i)"
proof (induction d arbitrary: i)
  case 0 then show ?case using sched_step_moves [of "run_pool P sched s i" "sched i" P] by (intro exI [of _ "Suc i"]) simp
next
  case (Suc d)
  show ?case
  proof (cases "movable (run_pool P sched s i) (sched i)")
    case True then show ?thesis using sched_step_moves [OF True, of P] by (intro exI [of _ "Suc i"]) simp
  next
    case False
    then have "run_pool P sched s (Suc i) = run_pool P sched s i" by (simp add: sched_step_idle)
    then show ?thesis using Suc.IH [of "Suc i"] Suc.prems by (metis add_Suc_shift Suc_lessD)
  qed
qed

lemma run_ends:
  assumes fair: "\<forall>t < length (ps_pcs s). \<forall>i. \<exists>j \<ge> i. sched j = t" and inv: "pool_inv P E s"
  shows "\<exists>j. \<forall>t < length (ps_pcs s). at_end (ps_pcs (run_pool P sched s j) ! t)"
proof -
  have "\<exists>j. \<forall>t < length (ps_pcs s). at_end (ps_pcs (run_pool P sched s j) ! t)"
    if "pool_cost P (run_pool P sched s i) = m" for i m
    using that
  proof (induction m arbitrary: i rule: less_induct)
    case (less m)
    show ?case
    proof (cases "\<forall>t < length (ps_pcs s). at_end (ps_pcs (run_pool P sched s i) ! t)")
      case False
      then obtain t where t: "t < length (ps_pcs s)" "\<not> at_end (ps_pcs (run_pool P sched s i) ! t)" by blast
      obtain E' where "pool_inv P E' (run_pool P sched s i)" using run_inv [OF inv] by blast
      then obtain u where u: "movable (run_pool P sched s i) u" using no_deadlock t run_length by metis
      then have "u < length (ps_pcs s)" by (simp add: movable_def run_length)
      then obtain j where "i \<le> j" "sched j = u" using fair by blast
      then have "movable (run_pool P sched s i) (sched (i + (j - i)))" using u by simp
      then show ?thesis using run_progress less by metis
    qed blast
  qed
  then show ?thesis by blast
qed

lemma ended_stays:
  assumes "\<forall>t < length (ps_pcs s). at_end (ps_pcs (run_pool P sched s i) ! t)"
  shows "run_pool P sched s (i + d) = run_pool P sched s i"
proof (induction d)
  case (Suc d)
  have "\<not> movable (run_pool P sched s i) t" for t using assms by (auto simp: movable_def run_length)
  then show ?case using Suc by (simp add: sched_step_idle)
qed simp

lemma ended_state:
  assumes inv: "pool_inv P E s" and ends: "\<forall>t < length (ps_pcs s). at_end (ps_pcs s ! t)"
  shows "ps_pcs s = replicate (length (ps_pcs s)) (At (Finish (stop_node P)))" "tp_n_barrier (ps_tp s) = 0"
    "tp_ec (ps_tp s) = (if \<exists>k < n_nodes P. nonempty P k \<and> cp_abort P k then GGML_STATUS_ABORTED else GGML_STATUS_SUCCESS)"
proof -
  let ?L = "loop_end P (ps_tp s)"
  have at: "ps_pcs s ! t = At (Finish ?L)" if "t < length (ps_pcs s)" for t
    using ends that invD(1) [OF inv that] by (auto simp: at_end_def)
  have ab: "abort_ok P s" and n: "0 < length (ps_pcs s)" using inv by (auto simp: pool_inv_def sync_ok_def Let_def)
  have never: "\<forall>k < n_nodes P. nonempty P k \<longrightarrow> \<not> cp_abort P k" if "tp_abort (ps_tp s) = - 1"
    using ab that at [OF n] by (auto simp: abort_ok_def loop_end_def)
  have "?L = stop_node P"
    using ab never stop_node_never [of P] by (cases "tp_abort (ps_tp s) = - 1") (auto simp: abort_ok_def loop_end_def)
  then show "ps_pcs s = replicate (length (ps_pcs s)) (At (Finish (stop_node P)))"
    using at by (simp add: list_eq_iff_nth_eq)
  show "tp_ec (ps_tp s) = (if \<exists>k < n_nodes P. nonempty P k \<and> cp_abort P k then GGML_STATUS_ABORTED else GGML_STATUS_SUCCESS)"
    using ab never by (auto simp: abort_ok_def split: if_splits)
  have quiet: "\<forall>c \<in> set (ps_pcs s). \<not> waiting_at w c \<and> \<not> leaving c" for w
    using at by (auto simp: in_set_conv_nth waiting_at_def leaving_def)
  then have "waiters w (ps_pcs s) = {}" for w using waiters_none by blast
  moreover have "\<not> leaving (ps_pcs s ! t)" if "t < length (ps_pcs s)" for t using quiet that by auto
  ultimately show "tp_n_barrier (ps_tp s) = 0"
    using inv by (auto simp: pool_inv_def sync_ok_def Let_def barrier_ok_def leaving_def split: if_splits)
qed

text \<open>
  C39. However the threads are scheduled, as long as no thread is left out for ever, they all come to
  the end of the graph: after the first node at which the callback asks to abort, or after the last
  one.  The status says which, and the barrier is ready for the next graph.
\<close>

theorem compute_threads_finish:
  assumes start: "ggml_graph_compute P tp = Inr s"
    and pool: "tp_n_barrier tp = 0" "0 < tp_n_threads tp" "min (cp_threads P) (tp_n_threads tp) < 2 ^ 16"
    and fair: "\<forall>t < min (cp_threads P) (tp_n_threads tp). \<forall>i. \<exists>j \<ge> i. sched j = t"
  shows "\<exists>i. \<forall>j \<ge> i. ps_pcs (run_pool P sched s j) = replicate (min (cp_threads P) (tp_n_threads tp)) (At (Finish (stop_node P))) \<and>
    tp_n_barrier (ps_tp (run_pool P sched s j)) = 0 \<and>
    tp_ec (ps_tp (run_pool P sched s j)) =
      (if \<exists>k < n_nodes P. nonempty P k \<and> cp_abort P k then GGML_STATUS_ABORTED else GGML_STATUS_SUCCESS)"
proof -
  note inv = start_inv [OF start pool]
  obtain i where i: "\<forall>t < length (ps_pcs s). at_end (ps_pcs (run_pool P sched s i) ! t)"
    using run_ends [OF _ inv(1), of sched] fair inv(2) by auto
  obtain E where E: "pool_inv P E (run_pool P sched s i)" using run_inv [OF inv(1)] by blast
  have ends: "\<forall>t < length (ps_pcs (run_pool P sched s i)). at_end (ps_pcs (run_pool P sched s i) ! t)"
    using i by (simp add: run_length)
  note final = ended_state [OF E ends]
  have stays: "run_pool P sched s j = run_pool P sched s i" if "i \<le> j" for j
    using ended_stays [OF i, of "j - i"] that by simp
  have pcs: "ps_pcs (run_pool P sched s i) = replicate (min (cp_threads P) (tp_n_threads tp)) (At (Finish (stop_node P)))"
    using final(1) unfolding run_length inv(2) .
  show ?thesis
  proof (intro exI [of _ i] allI impI)
    fix j assume j: "i \<le> j"
    show "ps_pcs (run_pool P sched s j) = replicate (min (cp_threads P) (tp_n_threads tp)) (At (Finish (stop_node P))) \<and>
      tp_n_barrier (ps_tp (run_pool P sched s j)) = 0 \<and>
      tp_ec (ps_tp (run_pool P sched s j)) =
        (if \<exists>k < n_nodes P. nonempty P k \<and> cp_abort P k then GGML_STATUS_ABORTED else GGML_STATUS_SUCCESS)"
      unfolding stays [OF j] using pcs final(2,3) by (intro conjI)
  qed
qed

end
