(* ===== verification/Compute_Examples.thy ===== *)
theory Compute_Examples
  imports Compute_Live
begin

text \<open>Two threads that take turns compute a graph of three nodes, of which one is empty.\<close>

definition two_threads :: compute_plan where
  "two_threads = \<lparr>cp_ops = [GGML_OP_MUL, GGML_OP_VIEW, GGML_OP_ADD], cp_threads = 2, cp_abort = (\<lambda>k. False),
     cp_barriers = (\<lambda>k. if k = 0 then 1 else 0)\<rparr>"

definition idle_pool :: threadpool where
  "idle_pool = \<lparr>tp_n_graph = 0, tp_n_barrier = 0, tp_n_barrier_passed = 0, tp_current_chunk = 0, tp_abort = - 1,
     tp_n_threads = 4, tp_ec = 0\<rparr>"

definition busy_pool :: pool_state where
  "busy_pool = \<lparr>ps_tp = idle_pool\<lparr>tp_n_graph := 0x10002\<rparr>, ps_pcs = [At (Loop 0), At (Loop 0)]\<rparr>"

lemma two_threads_start: "ggml_graph_compute two_threads idle_pool = Inr busy_pool"
  by (simp add: ggml_graph_compute_def ggml_graph_compute_kickoff_def two_threads_def idle_pool_def busy_pool_def
      GGML_THREADPOOL_N_THREADS_BITS_def GGML_THREADPOOL_N_THREADS_MASK_def GGML_STATUS_SUCCESS_def numeral_2_eq_2)

definition turns :: "nat \<Rightarrow> nat" where
  "turns i = i mod 2"

lemma two_threads_small: "tp_n_barrier idle_pool = 0" "0 < tp_n_threads idle_pool"
  "min (cp_threads two_threads) (tp_n_threads idle_pool) = 2"
  by (simp_all add: idle_pool_def two_threads_def)

lemma two_threads_state: "ps_pcs (run_pool two_threads turns busy_pool 33) = [At (Kernel 2 0), At (Loop 2)]"
  by code_simp

lemma compute_threads_in_step_witness:
  "ps_pcs (run_pool two_threads turns busy_pool 33) ! 0 = At (Kernel 2 0) \<and> nonempty two_threads 0 \<and>
     0 < node_of (goal_place (ps_pcs (run_pool two_threads turns busy_pool 33) ! 1))"
proof -
  have "nonempty two_threads 0" by code_simp
  moreover have "min (cp_threads two_threads) (tp_n_threads idle_pool) < 2 ^ 16"
    "0 < length (ps_pcs (run_pool two_threads turns busy_pool 33))" "1 < length (ps_pcs (run_pool two_threads turns busy_pool 33))"
    using two_threads_small(3) two_threads_state by simp_all
  ultimately show ?thesis
    using compute_threads_in_step [OF two_threads_start run_pool_reach two_threads_small(1,2)] two_threads_state
    by (metis nth_Cons_0 zero_less_numeral)
qed

lemma compute_threads_finish_witness:
  "\<exists>i. ps_pcs (run_pool two_threads turns busy_pool i) = replicate 2 (At (Finish 3))"
proof -
  have "\<exists>j \<ge> i. turns j = t" if "t < 2" for t i
    using that by (intro exI [of _ "2 * i + t"]) (auto simp: turns_def)
  moreover have "stop_node two_threads = 3"
    by (simp add: stop_node_def two_threads_def find_None_iff split: option.split)
  ultimately show ?thesis
    using compute_threads_finish [OF two_threads_start two_threads_small(1,2), of turns] two_threads_small(3) by auto
qed

end
