(* ===== verification/Tensor_Ops.thy ===== *)
theory Tensor_Ops
  imports Gguf_Read Graph Ieee
begin

text \<open>
  The constructors of tensors in \<open>src/ggml.c\<close> that the graphs of the two programs are built with:
  \<open>ggml_new_tensor_impl\<close>, views, element-wise operations, matrix products, reshaping and
  convolutions.  A constructor takes and returns the context: the memory pool, its address, and the
  heap with the tensors of this and of other contexts.  The scalars in \<open>op_params\<close>, which only the
  kernels read, are left out.
\<close>

subsection \<open>Context\<close>

record op_ctx =
  oc_pool :: ggml_pool
  oc_base :: ptr
  oc_heap :: heap

definition GGML_TYPE_F32 :: nat where "GGML_TYPE_F32 = 0"
definition GGML_TYPE_F16 :: nat where "GGML_TYPE_F16 = 1"
definition GGML_TYPE_I32 :: nat where "GGML_TYPE_I32 = 26"

definition in_i64 :: "int \<Rightarrow> bool" where
  "in_i64 x \<longleftrightarrow> - (2 ^ 63) \<le> x \<and> x < 2 ^ 63"

text \<open>A product of \<open>int64_t\<close> values, from the left: an overflow is not defined.\<close>

fun mul_i64 :: "int \<Rightarrow> int list \<Rightarrow> int outcome" where
  "mul_i64 acc [] = Inr acc"
| "mul_i64 acc (d # ds) = bnd (ensure (in_i64 (acc * d)) Undefined) (\<lambda>_. mul_i64 (acc * d) ds)"

definition prod_i64 :: "int list \<Rightarrow> int outcome" where
  "prod_i64 ds = mul_i64 (hd ds) (tl ds)"

definition ggml_nelements :: "graph_tensor \<Rightarrow> int outcome" where
  "ggml_nelements t = prod_i64 (t_ne t)"

definition ggml_row_size :: "nat \<Rightarrow> int \<Rightarrow> size_t outcome" where
  "ggml_row_size ty ne =
     bnd (ensure (ggml_blck_size ty \<noteq> 0) Trapped) (\<lambda>_.
     bnd (ensure (c_mod ne (ggml_blck_size ty) = 0) Aborted) (\<lambda>_.
     Inr (word_of_nat (ggml_type_size ty) * word_of_int ne div word_of_int (ggml_blck_size ty))))"

subsection \<open>Shapes\<close>

definition ggml_is_scalar :: "graph_tensor \<Rightarrow> bool" where
  "ggml_is_scalar t \<longleftrightarrow> t_ne t ! 0 = 1 \<and> t_ne t ! 1 = 1 \<and> t_ne t ! 2 = 1 \<and> t_ne t ! 3 = 1"

definition ggml_is_matrix :: "graph_tensor \<Rightarrow> bool" where
  "ggml_is_matrix t \<longleftrightarrow> t_ne t ! 2 = 1 \<and> t_ne t ! 3 = 1"

definition ggml_is_transposed :: "graph_tensor \<Rightarrow> bool" where
  "ggml_is_transposed t \<longleftrightarrow> t_nb t ! 0 > t_nb t ! 1"

definition ggml_is_padded_1d :: "graph_tensor \<Rightarrow> bool" where
  "ggml_is_padded_1d t \<longleftrightarrow>
     t_nb t ! 0 = word_of_nat (ggml_type_size (t_type t)) \<and>
     t_nb t ! 2 = t_nb t ! 1 * word_of_int (t_ne t ! 1) \<and>
     t_nb t ! 3 = t_nb t ! 2 * word_of_int (t_ne t ! 2)"

definition ggml_is_empty :: "graph_tensor \<Rightarrow> bool" where
  "ggml_is_empty t \<longleftrightarrow> (\<exists>i \<in> set [0..<GGML_MAX_DIMS]. t_ne t ! i = 0)"

definition ggml_are_same_shape :: "graph_tensor \<Rightarrow> graph_tensor \<Rightarrow> bool" where
  "ggml_are_same_shape a b \<longleftrightarrow> (\<forall>i \<in> set [0..<GGML_MAX_DIMS]. t_ne a ! i = t_ne b ! i)"

definition ggml_can_repeat :: "graph_tensor \<Rightarrow> graph_tensor \<Rightarrow> bool" where
  "ggml_can_repeat a b \<longleftrightarrow>
     (if ggml_is_empty a then ggml_is_empty b
      else \<forall>i \<in> set [0..<GGML_MAX_DIMS]. c_mod (t_ne b ! i) (t_ne a ! i) = 0)"

text \<open>\<open>ggml_is_contiguous_n\<close>: the dimensions up to \<open>n\<close> need not be contiguous.\<close>

fun contiguous_loop :: "nat \<Rightarrow> nat \<Rightarrow> size_t \<Rightarrow> (int \<times> size_t) list \<Rightarrow> bool" where
  "contiguous_loop n i next_nb [] = True"
| "contiguous_loop n i next_nb ((d, b) # rest) =
     (if d \<noteq> 1 then
        if i > n then if b \<noteq> next_nb then False else contiguous_loop n (Suc i) (next_nb * word_of_int d) rest
        else contiguous_loop n (Suc i) (word_of_int d * b) rest
      else contiguous_loop n (Suc i) next_nb rest)"

definition ggml_is_contiguous_n :: "graph_tensor \<Rightarrow> nat \<Rightarrow> bool" where
  "ggml_is_contiguous_n t n =
     (let next_nb = word_of_nat (ggml_type_size (t_type t)) :: size_t in
      if t_ne t ! 0 \<noteq> ggml_blck_size (t_type t) \<and> t_nb t ! 0 \<noteq> next_nb then False
      else contiguous_loop n 1 (next_nb * word_of_int (c_div (t_ne t ! 0) (ggml_blck_size (t_type t))))
             (zip (tl (t_ne t)) (tl (t_nb t))))"

text \<open>The remainder of a division by zero traps; \<open>&&\<close> does not evaluate it when the first test fails.\<close>

definition divides :: "int \<Rightarrow> int \<Rightarrow> bool outcome" where
  "divides d x = bnd (ensure (d \<noteq> 0) Trapped) (\<lambda>_. Inr (c_mod x d = 0))"

definition ggml_can_mul_mat :: "graph_tensor \<Rightarrow> graph_tensor \<Rightarrow> bool outcome" where
  "ggml_can_mul_mat a b =
     (if t_ne a ! 0 \<noteq> t_ne b ! 0 then Inr False
      else bnd (divides (t_ne a ! 2) (t_ne b ! 2)) (\<lambda>ok. if \<not> ok then Inr False else divides (t_ne a ! 3) (t_ne b ! 3)))"

definition ggml_can_out_prod :: "graph_tensor \<Rightarrow> graph_tensor \<Rightarrow> bool outcome" where
  "ggml_can_out_prod a b =
     (if t_ne a ! 1 \<noteq> t_ne b ! 1 then Inr False
      else bnd (divides (t_ne a ! 2) (t_ne b ! 2)) (\<lambda>ok. if \<not> ok then Inr False else divides (t_ne a ! 3) (t_ne b ! 3)))"

subsection \<open>New tensors\<close>

text \<open>The base tensor of a view, and the offset in it.\<close>

definition view_base :: "heap \<Rightarrow> ptr option \<Rightarrow> size_t \<Rightarrow> (ptr option \<times> size_t) outcome" where
  "view_base h v offs =
     (case v of
        None \<Rightarrow> Inr (None, offs)
      | Some p \<Rightarrow> bnd (deref h p) (\<lambda>t. case t_view_src t of
          None \<Rightarrow> Inr (Some p, offs) | Some q \<Rightarrow> Inr (Some q, offs + t_view_offs t)))"

text \<open>A view must lie in its base tensor; the result is the address of its data.\<close>

definition view_data :: "heap \<Rightarrow> ptr option \<Rightarrow> size_t \<Rightarrow> size_t \<Rightarrow> ptr option outcome" where
  "view_data h v offs nbytes =
     (case v of
        None \<Rightarrow> Inr None
      | Some p \<Rightarrow> bnd (deref h p) (\<lambda>t.
          bnd (ensure (nbytes = 0 \<or> nbytes + offs \<le> ggml_nbytes (ggml_tensor.truncate t)) Aborted) (\<lambda>_.
          Inr (map_option (\<lambda>a. a + offs) (t_addr t)))))"

definition ggml_new_tensor_impl :: "nat \<Rightarrow> int list \<Rightarrow> ptr option \<Rightarrow> size_t \<Rightarrow> op_ctx \<Rightarrow> (ptr \<times> op_ctx) outcome" where
  "ggml_new_tensor_impl ty ne view_src view_offs c =
     bnd (ensure (ty < GGML_TYPE_COUNT \<and> 1 \<le> length ne \<and> length ne \<le> GGML_MAX_DIMS) Aborted) (\<lambda>_.
     bnd (view_base (oc_heap c) view_src view_offs) (\<lambda>(view_src, view_offs).
     bnd (ggml_row_size ty (ne ! 0)) (\<lambda>row.
     let nbytes = foldl (\<lambda>s d. s * word_of_int d) row (tl ne) in
     bnd (view_data (oc_heap c) view_src view_offs nbytes) (\<lambda>dat.
     let obj_alloc_size = (if view_src = None \<and> \<not> pool_no_alloc (oc_pool c) then nbytes else 0);
         ne4 = ne @ replicate (GGML_MAX_DIMS - length ne) 1
     in case ggml_new_object (oc_pool c) (GGML_TENSOR_SIZE + obj_alloc_size) of
          None \<Rightarrow> Inl Aborted
        | Some (pool, offs) \<Rightarrow>
            let p = oc_base c + offs in
            Inr (p, c\<lparr>oc_pool := pool, oc_heap := (oc_heap c)(p \<mapsto>
              \<lparr>t_name = [], t_type = ty, t_ne = ne4, t_nb = row_strides ty ne4, t_data = None, t_op = GGML_OP_NONE,
               t_flags = 0, t_src = replicate GGML_MAX_SRC None, t_view_src = view_src, t_view_offs = view_offs,
               t_buffer = None, t_addr = (if obj_alloc_size > 0 then Some (p + GGML_TENSOR_SIZE) else dat)\<rparr>)\<rparr>)))))"

definition new_tensor :: "nat \<Rightarrow> int list \<Rightarrow> op_ctx \<Rightarrow> (ptr \<times> op_ctx) outcome" where
  "new_tensor ty ne c = ggml_new_tensor_impl ty ne None 0 c"

definition ggml_new_tensor_1d where "ggml_new_tensor_1d ty ne0 c = new_tensor ty [ne0] c"
definition ggml_new_tensor_2d where "ggml_new_tensor_2d ty ne0 ne1 c = new_tensor ty [ne0, ne1] c"
definition ggml_new_tensor_3d where "ggml_new_tensor_3d ty ne0 ne1 ne2 c = new_tensor ty [ne0, ne1, ne2] c"
definition ggml_new_tensor_4d where "ggml_new_tensor_4d ty ne0 ne1 ne2 ne3 c = new_tensor ty [ne0, ne1, ne2, ne3] c"

text \<open>A constructor goes on with the tensor it has made.\<close>

definition change :: "(graph_tensor \<Rightarrow> graph_tensor) \<Rightarrow> ptr \<times> op_ctx \<Rightarrow> (ptr \<times> op_ctx) outcome" where
  "change f r = (case r of (p, c) \<Rightarrow>
     bnd (deref (oc_heap c) p) (\<lambda>t. Inr (p, c\<lparr>oc_heap := (oc_heap c)(p \<mapsto> f t)\<rparr>)))"

definition ggml_format_name :: "bytes \<Rightarrow> bytes \<Rightarrow> graph_tensor \<Rightarrow> graph_tensor" where
  "ggml_format_name name suffix t = t\<lparr>t_name := take (GGML_MAX_NAME - 1) (name @ suffix)\<rparr>"

definition set_op :: "ggml_op \<Rightarrow> ptr list \<Rightarrow> graph_tensor \<Rightarrow> graph_tensor" where
  "set_op x srcs t = t\<lparr>t_op := x, t_src := map Some srcs @ replicate (GGML_MAX_SRC - length srcs) None\<rparr>"

definition ggml_dup_tensor :: "ptr \<Rightarrow> op_ctx \<Rightarrow> (ptr \<times> op_ctx) outcome" where
  "ggml_dup_tensor a c = bnd (deref (oc_heap c) a) (\<lambda>t. new_tensor (t_type t) (t_ne t) c)"

definition ggml_view_tensor :: "ptr \<Rightarrow> op_ctx \<Rightarrow> (ptr \<times> op_ctx) outcome" where
  "ggml_view_tensor a c =
     bnd (deref (oc_heap c) a) (\<lambda>t.
     bnd (ggml_new_tensor_impl (t_type t) (t_ne t) (Some a) 0 c)
       (change (\<lambda>r. (ggml_format_name (t_name t) (bytes_of '' (view)'') r)\<lparr>t_nb := t_nb t\<rparr>)))"

definition result_like :: "bool \<Rightarrow> ptr \<Rightarrow> op_ctx \<Rightarrow> (ptr \<times> op_ctx) outcome" where
  "result_like inplace a c = (if inplace then ggml_view_tensor a c else ggml_dup_tensor a c)"

subsection \<open>Element-wise operations\<close>

text \<open>The shape of all constructors of one operand whose result is like the operand.\<close>

definition unary_like :: "ggml_op \<Rightarrow> bool \<Rightarrow> ptr \<Rightarrow> op_ctx \<Rightarrow> (ptr \<times> op_ctx) outcome" where
  "unary_like x inplace a c = bnd (result_like inplace a c) (change (set_op x [a]))"

definition ggml_dup_impl where "ggml_dup_impl a inplace c = unary_like GGML_OP_DUP inplace a c"
definition ggml_dup where "ggml_dup a c = ggml_dup_impl a False c"
definition ggml_dup_inplace where "ggml_dup_inplace a c = ggml_dup_impl a True c"
definition ggml_sqr_impl where "ggml_sqr_impl a inplace c = unary_like GGML_OP_SQR inplace a c"
definition ggml_sqr where "ggml_sqr a c = ggml_sqr_impl a False c"
definition ggml_sqr_inplace where "ggml_sqr_inplace a c = ggml_sqr_impl a True c"
definition ggml_sqrt_impl where "ggml_sqrt_impl a inplace c = unary_like GGML_OP_SQRT inplace a c"
definition ggml_sqrt where "ggml_sqrt a c = ggml_sqrt_impl a False c"
definition ggml_sqrt_inplace where "ggml_sqrt_inplace a c = ggml_sqrt_impl a True c"
definition ggml_log_impl where "ggml_log_impl a inplace c = unary_like GGML_OP_LOG inplace a c"
definition ggml_log where "ggml_log a c = ggml_log_impl a False c"
definition ggml_log_inplace where "ggml_log_inplace a c = ggml_log_impl a True c"
definition ggml_sin_impl where "ggml_sin_impl a inplace c = unary_like GGML_OP_SIN inplace a c"
definition ggml_sin where "ggml_sin a c = ggml_sin_impl a False c"
definition ggml_sin_inplace where "ggml_sin_inplace a c = ggml_sin_impl a True c"
definition ggml_cos_impl where "ggml_cos_impl a inplace c = unary_like GGML_OP_COS inplace a c"
definition ggml_cos where "ggml_cos a c = ggml_cos_impl a False c"
definition ggml_cos_inplace where "ggml_cos_inplace a c = ggml_cos_impl a True c"
definition ggml_leaky_relu where "ggml_leaky_relu a inplace c = unary_like GGML_OP_LEAKY_RELU inplace a c"
definition ggml_norm_impl where "ggml_norm_impl a inplace c = unary_like GGML_OP_NORM inplace a c"
definition ggml_norm where "ggml_norm a c = ggml_norm_impl a False c"
definition ggml_norm_inplace where "ggml_norm_inplace a c = ggml_norm_impl a True c"
definition ggml_rms_norm_impl where "ggml_rms_norm_impl a inplace c = unary_like GGML_OP_RMS_NORM inplace a c"
definition ggml_rms_norm where "ggml_rms_norm a c = ggml_rms_norm_impl a False c"
definition ggml_rms_norm_inplace where "ggml_rms_norm_inplace a c = ggml_rms_norm_impl a True c"
definition ggml_l2_norm_impl where "ggml_l2_norm_impl a inplace c = unary_like GGML_OP_L2_NORM inplace a c"
definition ggml_l2_norm where "ggml_l2_norm a c = ggml_l2_norm_impl a False c"
definition ggml_l2_norm_inplace where "ggml_l2_norm_inplace a c = ggml_l2_norm_impl a True c"

definition ggml_unary_impl where
  "ggml_unary_impl a inplace c =
     bnd (deref (oc_heap c) a) (\<lambda>t.
     bnd (ensure (ggml_is_contiguous_n t 1) Aborted) (\<lambda>_. unary_like GGML_OP_UNARY inplace a c))"

definition ggml_unary where "ggml_unary a c = ggml_unary_impl a False c"
definition ggml_unary_inplace where "ggml_unary_inplace a c = ggml_unary_impl a True c"

definition ggml_cumsum where
  "ggml_cumsum a c =
     bnd (deref (oc_heap c) a) (\<lambda>t.
     bnd (ensure (t_type t = GGML_TYPE_F32) Aborted) (\<lambda>_. unary_like GGML_OP_CUMSUM False a c))"

definition ggml_scale_impl where
  "ggml_scale_impl a inplace c =
     bnd (deref (oc_heap c) a) (\<lambda>t.
     bnd (ensure (ggml_is_padded_1d t) Aborted) (\<lambda>_. unary_like GGML_OP_SCALE inplace a c))"

definition ggml_scale where "ggml_scale a c = ggml_scale_impl a False c"
definition ggml_scale_inplace where "ggml_scale_inplace a c = ggml_scale_impl a True c"
definition ggml_scale_bias where "ggml_scale_bias a c = ggml_scale_impl a False c"
definition ggml_scale_bias_inplace where "ggml_scale_bias_inplace a c = ggml_scale_impl a True c"

text \<open>Operations of two operands, of which the second is repeated over the first.\<close>

definition binary_repeat :: "ggml_op \<Rightarrow> ptr \<Rightarrow> ptr \<Rightarrow> bool \<Rightarrow> op_ctx \<Rightarrow> (ptr \<times> op_ctx) outcome" where
  "binary_repeat x a b inplace c =
     bnd (deref (oc_heap c) a) (\<lambda>ta.
     bnd (deref (oc_heap c) b) (\<lambda>tb.
     bnd (ensure (ggml_can_repeat tb ta) Aborted) (\<lambda>_.
     bnd (result_like inplace a c) (change (set_op x [a, b])))))"

definition ggml_add_impl where "ggml_add_impl a b inplace c = binary_repeat GGML_OP_ADD a b inplace c"
definition ggml_add where "ggml_add a b c = ggml_add_impl a b False c"
definition ggml_add_inplace where "ggml_add_inplace a b c = ggml_add_impl a b True c"
definition ggml_sub_impl where "ggml_sub_impl a b inplace c = binary_repeat GGML_OP_SUB a b inplace c"
definition ggml_sub where "ggml_sub a b c = ggml_sub_impl a b False c"
definition ggml_sub_inplace where "ggml_sub_inplace a b c = ggml_sub_impl a b True c"
definition ggml_mul_impl where "ggml_mul_impl a b inplace c = binary_repeat GGML_OP_MUL a b inplace c"
definition ggml_mul where "ggml_mul a b c = ggml_mul_impl a b False c"
definition ggml_mul_inplace where "ggml_mul_inplace a b c = ggml_mul_impl a b True c"
definition ggml_div_impl where "ggml_div_impl a b inplace c = binary_repeat GGML_OP_DIV a b inplace c"
definition ggml_div where "ggml_div a b c = ggml_div_impl a b False c"
definition ggml_div_inplace where "ggml_div_inplace a b c = ggml_div_impl a b True c"

definition ggml_add1_impl where
  "ggml_add1_impl a b inplace c =
     bnd (deref (oc_heap c) a) (\<lambda>ta.
     bnd (deref (oc_heap c) b) (\<lambda>tb.
     bnd (ensure (ggml_is_scalar tb \<and> ggml_is_padded_1d ta) Aborted) (\<lambda>_.
     bnd (result_like inplace a c) (change (set_op GGML_OP_ADD1 [a, b])))))"

definition ggml_add1 where "ggml_add1 a b c = ggml_add1_impl a b False c"
definition ggml_add1_inplace where "ggml_add1_inplace a b c = ggml_add1_impl a b True c"

text \<open>The mask is optional; \<open>biased\<close> is the test \<open>max_bias > 0\<close>.\<close>

definition ggml_soft_max_impl where
  "ggml_soft_max_impl a msk biased inplace c =
     bnd (deref (oc_heap c) a) (\<lambda>t.
     bnd (ensure (ggml_is_contiguous (ggml_tensor.truncate t)) Aborted) (\<lambda>_.
     bnd (case msk of
            None \<Rightarrow> ensure (\<not> biased) Aborted
          | Some m \<Rightarrow>
              bnd (deref (oc_heap c) m) (\<lambda>tm.
              bnd (ensure (t_type tm = GGML_TYPE_F16 \<or> t_type tm = GGML_TYPE_F32) Aborted) (\<lambda>_.
              bnd (ensure (ggml_is_contiguous (ggml_tensor.truncate tm)) Aborted) (\<lambda>_.
              bnd (ensure (t_ne tm ! 0 = t_ne t ! 0 \<and> t_ne tm ! 1 \<ge> t_ne t ! 1) Aborted) (\<lambda>_.
              bnd (divides (t_ne tm ! 2) (t_ne t ! 2)) (\<lambda>ok.
              bnd (ensure ok Aborted) (\<lambda>_.
              bnd (divides (t_ne tm ! 3) (t_ne t ! 3)) (\<lambda>ok. ensure ok Aborted)))))))) (\<lambda>_.
     bnd (result_like inplace a c)
       (change (set_op GGML_OP_SOFT_MAX (case msk of None \<Rightarrow> [a] | Some m \<Rightarrow> [a, m]))))))"

definition ggml_soft_max where "ggml_soft_max a c = ggml_soft_max_impl a None False False c"
definition ggml_soft_max_inplace where "ggml_soft_max_inplace a c = ggml_soft_max_impl a None False True c"
definition ggml_soft_max_ext where "ggml_soft_max_ext a msk biased c = ggml_soft_max_impl a msk biased False c"
definition ggml_soft_max_ext_inplace where "ggml_soft_max_ext_inplace a msk biased c = ggml_soft_max_impl a msk biased True c"

subsection \<open>Reductions, repetition, concatenation\<close>

definition ggml_sum where
  "ggml_sum a c = bnd (deref (oc_heap c) a) (\<lambda>t. bnd (ggml_new_tensor_1d (t_type t) 1 c) (change (set_op GGML_OP_SUM [a])))"

definition ggml_sum_rows where
  "ggml_sum_rows a c =
     bnd (deref (oc_heap c) a) (\<lambda>t. bnd (new_tensor (t_type t) (1 # tl (t_ne t)) c) (change (set_op GGML_OP_SUM_ROWS [a])))"

definition ggml_mean where
  "ggml_mean a c =
     bnd (deref (oc_heap c) a) (\<lambda>t.
     bnd (new_tensor GGML_TYPE_F32 [1, t_ne t ! 1, t_ne t ! 2, t_ne t ! 3] c) (change (set_op GGML_OP_MEAN [a])))"

definition ggml_argmax where
  "ggml_argmax a c =
     bnd (deref (oc_heap c) a) (\<lambda>t.
     bnd (ensure (ggml_is_matrix t) Aborted) (\<lambda>_.
     bnd (ensure (t_ne t ! 0 < 2 ^ 31) Aborted) (\<lambda>_.
     bnd (ggml_new_tensor_1d GGML_TYPE_I32 (t_ne t ! 1) c) (change (set_op GGML_OP_ARGMAX [a])))))"

definition ggml_repeat where
  "ggml_repeat a b c =
     bnd (deref (oc_heap c) a) (\<lambda>ta.
     bnd (deref (oc_heap c) b) (\<lambda>tb.
     bnd (ensure (ggml_can_repeat ta tb) Aborted) (\<lambda>_.
     bnd (new_tensor (t_type ta) (t_ne tb) c) (change (set_op GGML_OP_REPEAT [a])))))"

definition ggml_concat where
  "ggml_concat a b axis c =
     bnd (ensure (0 \<le> axis \<and> axis < int GGML_MAX_DIMS) Aborted) (\<lambda>_.
     bnd (deref (oc_heap c) a) (\<lambda>ta.
     bnd (deref (oc_heap c) b) (\<lambda>tb.
     bnd (ensure (t_type ta = t_type tb) Aborted) (\<lambda>_.
     bnd (ensure (\<forall>d \<in> set [0..<GGML_MAX_DIMS]. int d \<noteq> axis \<longrightarrow> t_ne ta ! d = t_ne tb ! d) Aborted) (\<lambda>_.
     bnd (ensure (in_i64 (t_ne ta ! nat axis + t_ne tb ! nat axis)) Undefined) (\<lambda>_.
     bnd (new_tensor (t_type ta) ((t_ne ta)[nat axis := t_ne ta ! nat axis + t_ne tb ! nat axis]) c)
       (change (set_op GGML_OP_CONCAT [a, b]))))))))"

subsection \<open>Matrix products and rows\<close>

definition ggml_mul_mat where
  "ggml_mul_mat a b c =
     bnd (deref (oc_heap c) a) (\<lambda>ta.
     bnd (deref (oc_heap c) b) (\<lambda>tb.
     bnd (ggml_can_mul_mat ta tb) (\<lambda>ok.
     bnd (ensure (ok \<and> \<not> ggml_is_transposed ta) Aborted) (\<lambda>_.
     bnd (new_tensor GGML_TYPE_F32 [t_ne ta ! 1, t_ne tb ! 1, t_ne tb ! 2, t_ne tb ! 3] c)
       (change (set_op GGML_OP_MUL_MAT [a, b]))))))"

definition ggml_out_prod where
  "ggml_out_prod a b c =
     bnd (deref (oc_heap c) a) (\<lambda>ta.
     bnd (deref (oc_heap c) b) (\<lambda>tb.
     bnd (ggml_can_out_prod ta tb) (\<lambda>ok.
     bnd (ensure (ok \<and> \<not> ggml_is_transposed ta) Aborted) (\<lambda>_.
     bnd (new_tensor GGML_TYPE_F32 [t_ne ta ! 0, t_ne tb ! 0, t_ne tb ! 2, t_ne tb ! 3] c)
       (change (set_op GGML_OP_OUT_PROD [a, b]))))))"

definition ggml_get_rows where
  "ggml_get_rows a b c =
     bnd (deref (oc_heap c) a) (\<lambda>ta.
     bnd (deref (oc_heap c) b) (\<lambda>tb.
     bnd (ensure (t_ne ta ! 2 = t_ne tb ! 1 \<and> t_ne ta ! 3 = t_ne tb ! 2 \<and> t_ne tb ! 3 = 1 \<and> t_type tb = GGML_TYPE_I32) Aborted) (\<lambda>_.
     let ty = (if t_type ta = GGML_TYPE_I32 then t_type ta else GGML_TYPE_F32) in
     bnd (ggml_new_tensor_4d ty (t_ne ta ! 0) (t_ne tb ! 0) (t_ne tb ! 1) (t_ne tb ! 2) c)
       (change (set_op GGML_OP_GET_ROWS [a, b])))))"

subsection \<open>Copies and changes of shape\<close>

definition ggml_cpy_impl where
  "ggml_cpy_impl a b c =
     bnd (deref (oc_heap c) a) (\<lambda>ta.
     bnd (deref (oc_heap c) b) (\<lambda>tb.
     bnd (ggml_nelements ta) (\<lambda>na.
     bnd (ggml_nelements tb) (\<lambda>nb.
     bnd (ensure (na = nb) Aborted) (\<lambda>_.
     bnd (ggml_view_tensor b c)
       (change (\<lambda>r. set_op GGML_OP_CPY [a, b]
          (if t_name tb \<noteq> [] then ggml_format_name (t_name tb) (bytes_of '' (copy of '' @ t_name ta @ bytes_of '')'') r
           else ggml_format_name (t_name ta) (bytes_of '' (copy)'') r))))))))"

definition ggml_cpy where "ggml_cpy a b c = ggml_cpy_impl a b c"

text \<open>The second source of a cast is the result itself.\<close>

definition ggml_cast where
  "ggml_cast a ty c =
     bnd (deref (oc_heap c) a) (\<lambda>t.
     bnd (new_tensor ty (t_ne t) c) (\<lambda>(p, c).
     change (\<lambda>r. set_op GGML_OP_CPY [a, p] (ggml_format_name (t_name t) (bytes_of '' (copy)'') r)) (p, c)))"

definition ggml_cont_impl where
  "ggml_cont_impl a c =
     bnd (deref (oc_heap c) a) (\<lambda>t.
     bnd (ggml_dup_tensor a c) (change (\<lambda>r. set_op GGML_OP_CONT [a] (ggml_format_name (t_name t) (bytes_of '' (cont)'') r))))"

definition ggml_cont where "ggml_cont a c = ggml_cont_impl a c"

definition ggml_cont_4d where
  "ggml_cont_4d a ne0 ne1 ne2 ne3 c =
     bnd (deref (oc_heap c) a) (\<lambda>t.
     bnd (ggml_nelements t) (\<lambda>n.
     bnd (prod_i64 [ne0, ne1, ne2, ne3]) (\<lambda>m.
     bnd (ensure (n = m) Aborted) (\<lambda>_.
     bnd (ggml_new_tensor_4d (t_type t) ne0 ne1 ne2 ne3 c)
       (change (\<lambda>r. set_op GGML_OP_CONT [a] (ggml_format_name (t_name t) (bytes_of '' (cont)'') r)))))))"

definition ggml_cont_1d where "ggml_cont_1d a ne0 c = ggml_cont_4d a ne0 1 1 1 c"
definition ggml_cont_2d where "ggml_cont_2d a ne0 ne1 c = ggml_cont_4d a ne0 ne1 1 1 c"
definition ggml_cont_3d where "ggml_cont_3d a ne0 ne1 ne2 c = ggml_cont_4d a ne0 ne1 ne2 1 c"

definition reshape_to :: "ptr \<Rightarrow> int list \<Rightarrow> op_ctx \<Rightarrow> (ptr \<times> op_ctx) outcome" where
  "reshape_to a ne c =
     bnd (deref (oc_heap c) a) (\<lambda>t.
     bnd (ensure (ggml_is_contiguous (ggml_tensor.truncate t)) Aborted) (\<lambda>_.
     bnd (ggml_nelements t) (\<lambda>n.
     bnd (prod_i64 ne) (\<lambda>m.
     bnd (ensure (n = m) Aborted) (\<lambda>_.
     bnd (ggml_new_tensor_impl (t_type t) ne (Some a) 0 c)
       (change (\<lambda>r. set_op GGML_OP_RESHAPE [a] (ggml_format_name (t_name t) (bytes_of '' (reshaped)'') r))))))))"

definition ggml_reshape where "ggml_reshape a b c = bnd (deref (oc_heap c) b) (\<lambda>t. reshape_to a (t_ne t) c)"
definition ggml_reshape_1d where "ggml_reshape_1d a ne0 c = reshape_to a [ne0] c"
definition ggml_reshape_2d where "ggml_reshape_2d a ne0 ne1 c = reshape_to a [ne0, ne1] c"
definition ggml_reshape_3d where "ggml_reshape_3d a ne0 ne1 ne2 c = reshape_to a [ne0, ne1, ne2] c"
definition ggml_reshape_4d where "ggml_reshape_4d a ne0 ne1 ne2 ne3 c = reshape_to a [ne0, ne1, ne2, ne3] c"

definition ggml_view_impl where
  "ggml_view_impl a ne offset c =
     bnd (deref (oc_heap c) a) (\<lambda>t.
     bnd (ggml_new_tensor_impl (t_type t) ne (Some a) offset c)
       (change (\<lambda>r. set_op GGML_OP_VIEW [a] (ggml_format_name (t_name t) (bytes_of '' (view)'') r))))"

text \<open>Strides given by the caller are not checked.\<close>

definition set_strides :: "size_t \<Rightarrow> size_t \<Rightarrow> size_t \<Rightarrow> graph_tensor \<Rightarrow> graph_tensor" where
  "set_strides nb1 nb2 nb3 t = t\<lparr>t_nb := [t_nb t ! 0, nb1, nb2, nb3]\<rparr>"

definition ggml_view_1d where "ggml_view_1d a ne0 offset c = ggml_view_impl a [ne0] offset c"

definition ggml_view_2d where
  "ggml_view_2d a ne0 ne1 nb1 offset c =
     bnd (ggml_view_impl a [ne0, ne1] offset c) (change (set_strides nb1 (nb1 * word_of_int ne1) (nb1 * word_of_int ne1)))"

definition ggml_view_3d where
  "ggml_view_3d a ne0 ne1 ne2 nb1 nb2 offset c =
     bnd (ggml_view_impl a [ne0, ne1, ne2] offset c) (change (set_strides nb1 nb2 (nb2 * word_of_int ne2)))"

definition ggml_view_4d where
  "ggml_view_4d a ne0 ne1 ne2 ne3 nb1 nb2 nb3 offset c =
     bnd (ggml_view_impl a [ne0, ne1, ne2, ne3] offset c) (change (set_strides nb1 nb2 nb3))"

text \<open>\<open>ggml_permute\<close> takes sizes and strides through variables of type \<open>int\<close>.\<close>

definition int_size :: "int \<Rightarrow> int" where
  "int_size d = sint (word_of_int d :: 32 word)"

definition int_stride :: "size_t \<Rightarrow> size_t" where
  "int_stride b = scast (ucast b :: 32 word)"

definition permuted_list :: "int list \<Rightarrow> ('a \<Rightarrow> 'a) \<Rightarrow> 'a list \<Rightarrow> 'a list" where
  "permuted_list axes f xs =
     (xs[nat (axes ! 0) := f (xs ! 0)])[nat (axes ! 1) := f (xs ! 1), nat (axes ! 2) := f (xs ! 2), nat (axes ! 3) := f (xs ! 3)]"

definition ggml_permute where
  "ggml_permute a axis0 axis1 axis2 axis3 c =
     bnd (ensure (\<forall>x \<in> set [axis0, axis1, axis2, axis3]. 0 \<le> x \<and> x < int GGML_MAX_DIMS) Aborted) (\<lambda>_.
     bnd (ensure (distinct [axis0, axis1, axis2, axis3]) Aborted) (\<lambda>_.
     bnd (deref (oc_heap c) a) (\<lambda>t.
     bnd (ggml_view_tensor a c)
       (change (\<lambda>r. set_op GGML_OP_PERMUTE [a] ((ggml_format_name (t_name t) (bytes_of '' (permuted)'') r)
          \<lparr>t_ne := permuted_list [axis0, axis1, axis2, axis3] int_size (t_ne t),
           t_nb := permuted_list [axis0, axis1, axis2, axis3] int_stride (t_nb t)\<rparr>))))))"

definition ggml_transpose where
  "ggml_transpose a c =
     bnd (deref (oc_heap c) a) (\<lambda>t.
     bnd (ggml_view_tensor a c)
       (change (\<lambda>r. set_op GGML_OP_TRANSPOSE [a] ((ggml_format_name (t_name t) (bytes_of '' (transposed)'') r)
          \<lparr>t_ne := (t_ne r)[0 := t_ne t ! 1, 1 := t_ne t ! 0], t_nb := (t_nb r)[0 := t_nb t ! 1, 1 := t_nb t ! 0]\<rparr>))))"

subsection \<open>Convolutions and pooling\<close>

definition ggml_calc_conv_output_size :: "int \<Rightarrow> int \<Rightarrow> int \<Rightarrow> int \<Rightarrow> int \<Rightarrow> int outcome" where
  "ggml_calc_conv_output_size ins ks s p d =
     bnd (ensure (in_i64 (ins + 2 * p) \<and> in_i64 (d * (ks - 1)) \<and> in_i64 (ins + 2 * p - d * (ks - 1) - 1)) Undefined) (\<lambda>_.
     bnd (ensure (s \<noteq> 0) Trapped) (\<lambda>_.
     Inr (c_div (ins + 2 * p - d * (ks - 1) - 1) s + 1)))"

definition ggml_im2col where
  "ggml_im2col a b s0 s1 p0 p1 d0 d1 is_2D dst_type c =
     bnd (deref (oc_heap c) a) (\<lambda>ta.
     bnd (deref (oc_heap c) b) (\<lambda>tb.
     bnd (ensure (if is_2D then t_ne ta ! 2 = t_ne tb ! 2 else t_ne tb ! 1 = t_ne ta ! 1 \<and> t_ne tb ! 3 = 1) Aborted) (\<lambda>_.
     bnd (if is_2D then ggml_calc_conv_output_size (t_ne tb ! 1) (t_ne ta ! 1) s1 p1 d1 else Inr 0) (\<lambda>OH.
     bnd (ggml_calc_conv_output_size (t_ne tb ! 0) (t_ne ta ! 0) s0 p0 d0) (\<lambda>OW.
     bnd (ensure (\<not> is_2D \<or> OH > 0) Aborted) (\<lambda>_.
     bnd (ensure (OW > 0) Aborted) (\<lambda>_.
     bnd (prod_i64 (if is_2D then [t_ne ta ! 2, t_ne ta ! 1, t_ne ta ! 0] else [t_ne ta ! 1, t_ne ta ! 0])) (\<lambda>K.
     bnd (new_tensor dst_type [K, OW, if is_2D then OH else t_ne tb ! 2, if is_2D then t_ne tb ! 3 else 1] c)
       (change (set_op GGML_OP_IM2COL [a, b]))))))))))"

definition ggml_conv_1d where
  "ggml_conv_1d a b s0 p0 d0 c =
     bnd (ggml_im2col a b s0 0 p0 0 d0 0 False GGML_TYPE_F16 c) (\<lambda>(im2col, c).
     bnd (deref (oc_heap c) im2col) (\<lambda>ti.
     bnd (deref (oc_heap c) a) (\<lambda>ta.
     bnd (prod_i64 [t_ne ti ! 2, t_ne ti ! 1]) (\<lambda>rows.
     bnd (ggml_reshape_2d im2col (t_ne ti ! 0) rows c) (\<lambda>(x, c).
     bnd (prod_i64 [t_ne ta ! 0, t_ne ta ! 1]) (\<lambda>taps.
     bnd (ggml_reshape_2d a taps (t_ne ta ! 2) c) (\<lambda>(y, c).
     bnd (ggml_mul_mat x y c) (\<lambda>(r, c).
     ggml_reshape_3d r (t_ne ti ! 1) (t_ne ta ! 2) (t_ne ti ! 2) c))))))))"

definition ggml_conv_1d_ph where
  "ggml_conv_1d_ph a b s d c = bnd (deref (oc_heap c) a) (\<lambda>ta. ggml_conv_1d a b s (c_div (t_ne ta ! 0) 2) d c)"

definition ggml_conv_2d where
  "ggml_conv_2d a b s0 s1 p0 p1 d0 d1 c =
     bnd (deref (oc_heap c) a) (\<lambda>ta.
     bnd (ggml_im2col a b s0 s1 p0 p1 d0 d1 True (t_type ta) c) (\<lambda>(im2col, c).
     bnd (deref (oc_heap c) im2col) (\<lambda>ti.
     bnd (prod_i64 [t_ne ti ! 3, t_ne ti ! 2, t_ne ti ! 1]) (\<lambda>rows.
     bnd (ggml_reshape_2d im2col (t_ne ti ! 0) rows c) (\<lambda>(x, c).
     bnd (prod_i64 [t_ne ta ! 0, t_ne ta ! 1, t_ne ta ! 2]) (\<lambda>taps.
     bnd (ggml_reshape_2d a taps (t_ne ta ! 3) c) (\<lambda>(y, c).
     bnd (ggml_mul_mat x y c) (\<lambda>(r, c).
     bnd (ggml_reshape_4d r (t_ne ti ! 1) (t_ne ti ! 2) (t_ne ti ! 3) (t_ne ta ! 3) c) (\<lambda>(r, c).
     bnd (ggml_permute r 0 1 3 2 c) (\<lambda>(r, c).
     ggml_cont r c))))))))))"

text \<open>
  The padding of a pooling is a \<open>float\<close>, and so the size is computed in single precision.  The
  conversion of a value that is not an \<open>int64_t\<close> is not defined.
\<close>

definition ggml_calc_pool_output_size :: "int \<Rightarrow> int \<Rightarrow> int \<Rightarrow> f32 \<Rightarrow> int outcome" where
  "ggml_calc_pool_output_size ins ks s p =
     fl_trunc (- (2 ^ 63)) (2 ^ 63 - 1)
       (fl32 ((f32_of_int ins + f32_of_int 2 * p - f32_of_int ks) / f32_of_int s + f32_of_int 1))"

definition ggml_pool_1d where
  "ggml_pool_1d a k0 s0 p0 c =
     bnd (deref (oc_heap c) a) (\<lambda>t.
     bnd (ggml_calc_pool_output_size (t_ne t ! 0) k0 s0 (f32_of_int p0)) (\<lambda>n.
     bnd (new_tensor GGML_TYPE_F32 [n, t_ne t ! 1, t_ne t ! 2, t_ne t ! 3] c) (change (set_op GGML_OP_POOL_1D [a]))))"

definition ggml_pool_2d where
  "ggml_pool_2d a k0 k1 s0 s1 p0 p1 c =
     bnd (deref (oc_heap c) a) (\<lambda>t.
     bnd (ggml_calc_pool_output_size (t_ne t ! 0) k0 s0 p0) (\<lambda>n.
     bnd (ggml_calc_pool_output_size (t_ne t ! 1) k1 s1 p1) (\<lambda>m.
     bnd (new_tensor GGML_TYPE_F32 [n, m, t_ne t ! 2, t_ne t ! 3] c) (change (set_op GGML_OP_POOL_2D [a])))))"

end
