(* ===== verification/Tensor_Types.thy ===== *)
theory Tensor_Types
  imports Tensor_Ops
begin

text \<open>
  A typing of the tensors of a graph, with the relations between the shapes of a tensor and of its
  sources that the kernels check or rely on, and the proof that the constructors build typed graphs.
\<close>

lemmas op_codes = GGML_OP_NONE_def GGML_OP_DUP_def GGML_OP_ADD_def GGML_OP_ADD_ID_def GGML_OP_ADD1_def GGML_OP_SUB_def
  GGML_OP_MUL_def GGML_OP_DIV_def GGML_OP_SQR_def GGML_OP_SQRT_def GGML_OP_LOG_def GGML_OP_SIN_def GGML_OP_COS_def
  GGML_OP_SUM_def GGML_OP_SUM_ROWS_def GGML_OP_CUMSUM_def GGML_OP_MEAN_def GGML_OP_ARGMAX_def GGML_OP_REPEAT_def
  GGML_OP_CONCAT_def GGML_OP_NORM_def GGML_OP_RMS_NORM_def GGML_OP_L2_NORM_def GGML_OP_MUL_MAT_def GGML_OP_OUT_PROD_def
  GGML_OP_SCALE_def GGML_OP_CPY_def GGML_OP_CONT_def GGML_OP_RESHAPE_def GGML_OP_VIEW_def GGML_OP_PERMUTE_def
  GGML_OP_TRANSPOSE_def GGML_OP_GET_ROWS_def GGML_OP_SOFT_MAX_def GGML_OP_LEAKY_RELU_def GGML_OP_UNARY_def
  GGML_OP_IM2COL_def GGML_OP_POOL_1D_def GGML_OP_POOL_2D_def

subsection \<open>Types\<close>

definition like_source :: "ggml_op list" where
  "like_source = [GGML_OP_DUP, GGML_OP_SQR, GGML_OP_SQRT, GGML_OP_LOG, GGML_OP_SIN, GGML_OP_COS, GGML_OP_LEAKY_RELU,
     GGML_OP_NORM, GGML_OP_RMS_NORM, GGML_OP_L2_NORM, GGML_OP_UNARY, GGML_OP_CUMSUM, GGML_OP_SCALE]"

definition repeating :: "ggml_op list" where
  "repeating = [GGML_OP_ADD, GGML_OP_SUB, GGML_OP_MUL, GGML_OP_DIV]"

definition pooling :: "ggml_op list" where
  "pooling = [GGML_OP_POOL_1D, GGML_OP_POOL_2D]"

text \<open>The relation between a tensor and its sources, for the operations with one and with two sources.\<close>

definition typed1 :: "graph_tensor \<Rightarrow> graph_tensor \<Rightarrow> bool" where
  "typed1 t a \<longleftrightarrow>
     (t_op t \<in> set like_source \<longrightarrow> t_ne t = t_ne a \<and> t_type t = t_type a) \<and>
     (t_op t = GGML_OP_SUM \<longrightarrow> t_ne t = [1, 1, 1, 1]) \<and>
     (t_op t = GGML_OP_SUM_ROWS \<longrightarrow> t_ne t = 1 # tl (t_ne a)) \<and>
     (t_op t = GGML_OP_MEAN \<longrightarrow> t_ne t = 1 # tl (t_ne a) \<and> t_type t = GGML_TYPE_F32) \<and>
     (t_op t = GGML_OP_ARGMAX \<longrightarrow> ggml_is_matrix a \<and> t_ne t = [t_ne a ! 1, 1, 1, 1] \<and> t_type t = GGML_TYPE_I32) \<and>
     (t_op t = GGML_OP_REPEAT \<longrightarrow> ggml_can_repeat a t \<and> t_type t = t_type a) \<and>
     (t_op t = GGML_OP_CONT \<longrightarrow> prod_list (t_ne t) = prod_list (t_ne a) \<and> t_type t = t_type a) \<and>
     (t_op t = GGML_OP_RESHAPE \<longrightarrow> prod_list (t_ne t) = prod_list (t_ne a) \<and> t_type t = t_type a \<and>
        ggml_is_contiguous (ggml_tensor.truncate a)) \<and>
     (t_op t = GGML_OP_VIEW \<longrightarrow> t_type t = t_type a) \<and>
     (t_op t = GGML_OP_PERMUTE \<longrightarrow> t_type t = t_type a \<and>
        (\<exists>axes. length axes = 4 \<and> distinct axes \<and> (\<forall>i < 4. axes ! i < 4 \<and>
           t_ne t ! (axes ! i) = int_size (t_ne a ! i) \<and> t_nb t ! (axes ! i) = int_stride (t_nb a ! i)))) \<and>
     (t_op t = GGML_OP_TRANSPOSE \<longrightarrow> t_type t = t_type a \<and> t_ne t = [t_ne a ! 1, t_ne a ! 0, t_ne a ! 2, t_ne a ! 3] \<and>
        t_nb t = [t_nb a ! 1, t_nb a ! 0, t_nb a ! 2, t_nb a ! 3]) \<and>
     (t_op t = GGML_OP_SOFT_MAX \<longrightarrow> t_ne t = t_ne a \<and> t_type t = t_type a \<and> ggml_is_contiguous (ggml_tensor.truncate a)) \<and>
     (t_op t \<in> set pooling \<longrightarrow> t_type t = GGML_TYPE_F32 \<and> t_ne t ! 2 = t_ne a ! 2 \<and> t_ne t ! 3 = t_ne a ! 3 \<and>
        (t_op t = GGML_OP_POOL_1D \<longrightarrow> t_ne t ! 1 = t_ne a ! 1))"

definition typed2 :: "graph_tensor \<Rightarrow> graph_tensor \<Rightarrow> graph_tensor \<Rightarrow> bool" where
  "typed2 t a b \<longleftrightarrow>
     (t_op t \<in> set repeating \<longrightarrow> ggml_are_same_shape a t \<and> t_type t = t_type a \<and> ggml_can_repeat b a) \<and>
     (t_op t = GGML_OP_ADD1 \<longrightarrow> ggml_are_same_shape a t \<and> t_type t = t_type a \<and> ggml_is_scalar b) \<and>
     (t_op t = GGML_OP_CONCAT \<longrightarrow> t_type t = t_type a \<and> t_type b = t_type a \<and>
        (\<exists>d < 4. t_ne t ! d = t_ne a ! d + t_ne b ! d \<and> (\<forall>i < 4. i \<noteq> d \<longrightarrow> t_ne t ! i = t_ne a ! i \<and> t_ne t ! i = t_ne b ! i))) \<and>
     (t_op t = GGML_OP_MUL_MAT \<longrightarrow> t_type t = GGML_TYPE_F32 \<and> t_ne t = [t_ne a ! 1, t_ne b ! 1, t_ne b ! 2, t_ne b ! 3] \<and>
        t_ne a ! 0 = t_ne b ! 0 \<and> c_mod (t_ne b ! 2) (t_ne a ! 2) = 0 \<and> c_mod (t_ne b ! 3) (t_ne a ! 3) = 0 \<and>
        \<not> ggml_is_transposed a) \<and>
     (t_op t = GGML_OP_OUT_PROD \<longrightarrow> t_type t = GGML_TYPE_F32 \<and> t_ne t = [t_ne a ! 0, t_ne b ! 0, t_ne b ! 2, t_ne b ! 3] \<and>
        t_ne a ! 1 = t_ne b ! 1 \<and> c_mod (t_ne b ! 2) (t_ne a ! 2) = 0 \<and> c_mod (t_ne b ! 3) (t_ne a ! 3) = 0) \<and>
     (t_op t = GGML_OP_GET_ROWS \<longrightarrow> t_type b = GGML_TYPE_I32 \<and> t_ne t = [t_ne a ! 0, t_ne b ! 0, t_ne b ! 1, t_ne b ! 2] \<and>
        t_ne a ! 2 = t_ne b ! 1 \<and> t_ne a ! 3 = t_ne b ! 2) \<and>
     (t_op t = GGML_OP_CPY \<longrightarrow> t_ne t = t_ne b \<and> prod_list (t_ne a) = prod_list (t_ne b)) \<and>
     (t_op t = GGML_OP_SOFT_MAX \<longrightarrow> t_ne t = t_ne a \<and> t_type t = t_type a \<and> ggml_is_contiguous (ggml_tensor.truncate a) \<and>
        ggml_is_contiguous (ggml_tensor.truncate b) \<and> t_ne b ! 0 = t_ne a ! 0 \<and> t_ne a ! 1 \<le> t_ne b ! 1) \<and>
     (t_op t = GGML_OP_IM2COL \<longrightarrow> 0 < t_ne t ! 1 \<and>
        (t_ne t ! 0 = t_ne a ! 0 * t_ne a ! 1 * t_ne a ! 2 \<and> t_ne a ! 2 = t_ne b ! 2 \<and> 0 < t_ne t ! 2 \<and> t_ne t ! 3 = t_ne b ! 3 \<or>
         t_ne t ! 0 = t_ne a ! 0 * t_ne a ! 1 \<and> t_ne a ! 1 = t_ne b ! 1 \<and> t_ne t ! 2 = t_ne b ! 2 \<and> t_ne t ! 3 = 1))"

definition one_source :: "ggml_op list" where
  "one_source = like_source @ pooling @ [GGML_OP_SUM, GGML_OP_SUM_ROWS, GGML_OP_MEAN, GGML_OP_ARGMAX, GGML_OP_REPEAT,
     GGML_OP_CONT, GGML_OP_RESHAPE, GGML_OP_VIEW, GGML_OP_PERMUTE, GGML_OP_TRANSPOSE]"

definition two_sources :: "ggml_op list" where
  "two_sources = repeating @ [GGML_OP_ADD1, GGML_OP_CONCAT, GGML_OP_MUL_MAT, GGML_OP_OUT_PROD, GGML_OP_GET_ROWS, GGML_OP_CPY,
     GGML_OP_IM2COL]"

definition op_typed :: "graph_tensor \<Rightarrow> graph_tensor list \<Rightarrow> bool" where
  "op_typed t srcs \<longleftrightarrow>
     (t_op t = GGML_OP_NONE \<longrightarrow> srcs = []) \<and>
     (t_op t \<in> set one_source \<longrightarrow> (\<exists>a. srcs = [a] \<and> typed1 t a)) \<and>
     (t_op t \<in> set two_sources \<longrightarrow> (\<exists>a b. srcs = [a, b] \<and> typed2 t a b)) \<and>
     (t_op t = GGML_OP_SOFT_MAX \<longrightarrow> (\<exists>a. srcs = [a] \<and> typed1 t a) \<or> (\<exists>a b. srcs = [a, b] \<and> typed2 t a b))"

text \<open>A tensor is well formed in a heap: its lists are complete, its sources exist, and a view is one of a tensor that is none.\<close>

definition tensor_wf :: "heap \<Rightarrow> graph_tensor \<Rightarrow> bool" where
  "tensor_wf h t \<longleftrightarrow> length (t_ne t) = 4 \<and> length (t_nb t) = 4 \<and> length (t_src t) = GGML_MAX_SRC \<and> t_type t < GGML_TYPE_COUNT \<and>
     (\<forall>s. Some s \<in> set (t_src t) \<longrightarrow> s \<in> dom h) \<and>
     (\<forall>v. t_view_src t = Some v \<longrightarrow> (\<exists>b. h v = Some b \<and> t_view_src b = None))"

definition sources :: "heap \<Rightarrow> graph_tensor \<Rightarrow> graph_tensor list" where
  "sources h t = map (\<lambda>s. the (h (the s))) (takeWhile (\<lambda>s. s \<noteq> None) (t_src t))"

definition graph_typed :: "heap \<Rightarrow> bool" where
  "graph_typed h \<longleftrightarrow> (\<forall>p t. h p = Some t \<longrightarrow> tensor_wf h t \<and> op_typed t (sources h t))"

text \<open>The free part of the pool holds no tensor.\<close>

definition ctx_ok :: "op_ctx \<Rightarrow> bool" where
  "ctx_ok c \<longleftrightarrow> pool_no_alloc (oc_pool c) \<and> unat (pool_end (oc_pool c)) \<le> unat (pool_size (oc_pool c)) \<and>
     unat (pool_size (oc_pool c)) + 1000 \<le> 2 ^ 64 \<and>
     (\<forall>q \<in> dom (oc_heap c). \<not> (unat (pool_end (oc_pool c)) \<le> unat (q - oc_base c) \<and> unat (q - oc_base c) < unat (pool_size (oc_pool c))))"

definition made :: "op_ctx \<Rightarrow> ptr \<Rightarrow> graph_tensor \<Rightarrow> op_ctx \<Rightarrow> bool" where
  "made c p t c' \<longleftrightarrow> p \<notin> dom (oc_heap c) \<and> oc_heap c' = (oc_heap c)(p \<mapsto> t) \<and> ctx_ok c'"

subsection \<open>New tensors\<close>

lemma new_object_ok:
  assumes "ctx_ok c" "ggml_new_object (oc_pool c) GGML_TENSOR_SIZE = Some (pool, offs)" "p = oc_base c + offs"
  shows "made c p t (c\<lparr>oc_pool := pool, oc_heap := (oc_heap c)(p \<mapsto> t)\<rparr>)"
proof -
  let ?e = "pool_end (oc_pool c)" and ?s = "pool_size (oc_pool c)"
  have pad: "ggml_pad GGML_TENSOR_SIZE GGML_MEM_ALIGN = 336" by code_simp
  have c: "unat ?e \<le> unat ?s" "unat ?s + 1000 \<le> 2 ^ 64" "pool_no_alloc (oc_pool c)"
    using assms(1) by (auto simp: ctx_ok_def)
  have dom: "unat (q - oc_base c) < unat ?e \<or> unat ?s \<le> unat (q - oc_base c)" if "q \<in> dom (oc_heap c)" for q
    using assms(1) that unfolding ctx_ok_def by (meson not_le)
  have room: "\<not> ?e + 336 + 32 > ?s" and pool: "pool = (oc_pool c)\<lparr>pool_end := ?e + 32 + 336\<rparr>" and offs: "offs = ?e + 32"
    using assms(2) by (auto simp: ggml_new_object_def Let_def pad GGML_OBJECT_SIZE_def split: if_splits)
  have u: "unat (?e + 336 + 32) = unat ?e + 368" "unat (?e + 32 + 336) = unat ?e + 368" "unat (?e + 32) = unat ?e + 32"
    using c by (simp_all add: unat_word_ariths add.assoc)
  have le: "unat ?e + 368 \<le> unat ?s" using room u(1) by (simp add: word_less_nat_alt)
  have p: "unat (p - oc_base c) = unat ?e + 32" using assms(3) offs u(3) by simp
  then have "p \<notin> dom (oc_heap c)" using dom [of p] le by fastforce
  moreover have "ctx_ok (c\<lparr>oc_pool := pool, oc_heap := (oc_heap c)(p \<mapsto> t)\<rparr>)"
    using c le u(2) p dom by (fastforce simp: ctx_ok_def pool)
  ultimately show ?thesis by (simp add: made_def)
qed

lemma graph_typedD: "graph_typed h \<Longrightarrow> h p = Some t \<Longrightarrow> tensor_wf h t \<and> op_typed t (sources h t)"
  by (simp add: graph_typed_def)

text \<open>What a new tensor looks like before the constructor fills in the operation.\<close>

definition blank :: "heap \<Rightarrow> nat \<Rightarrow> int list \<Rightarrow> graph_tensor \<Rightarrow> bool" where
  "blank h ty ne t \<longleftrightarrow> t_type t = ty \<and> ty < GGML_TYPE_COUNT \<and> t_ne t = ne \<and> length ne = 4 \<and> length (t_nb t) = 4 \<and>
     t_src t = replicate GGML_MAX_SRC None \<and> t_op t = GGML_OP_NONE \<and>
     (\<forall>v. t_view_src t = Some v \<longrightarrow> (\<exists>b. h v = Some b \<and> t_view_src b = None))"

lemma view_base_ok:
  assumes "graph_typed h" "view_base h v offs = Inr (w, offs')" "w = Some q"
  shows "\<exists>b. h q = Some b \<and> t_view_src b = None"
  using assms
  by (auto simp: view_base_def bnd_eq_Inr deref_def graph_typed_def tensor_wf_def split: option.splits)

lemma new_impl_ok:
  assumes "ggml_new_tensor_impl ty ne v offs c = Inr (p, c')" "ctx_ok c" "graph_typed (oc_heap c)"
  shows "\<exists>t. made c p t c' \<and> blank (oc_heap c) ty (ne @ replicate (4 - length ne) 1) t"
proof -
  have na: "pool_no_alloc (oc_pool c)" using assms(2) by (simp add: ctx_ok_def)
  obtain w offs' dat pool off where ty: "ty < GGML_TYPE_COUNT" "1 \<le> length ne" "length ne \<le> GGML_MAX_DIMS"
    and w: "view_base (oc_heap c) v offs = Inr (w, offs')"
    and o: "ggml_new_object (oc_pool c) GGML_TENSOR_SIZE = Some (pool, off)" "p = oc_base c + off"
    and c': "c' = c\<lparr>oc_pool := pool, oc_heap := (oc_heap c)(p \<mapsto>
              \<lparr>t_name = [], t_type = ty, t_ne = ne @ replicate (GGML_MAX_DIMS - length ne) 1,
               t_nb = row_strides ty (ne @ replicate (GGML_MAX_DIMS - length ne) 1), t_data = None, t_op = GGML_OP_NONE,
               t_flags = 0, t_src = replicate GGML_MAX_SRC None, t_view_src = w, t_view_offs = offs',
               t_buffer = None, t_addr = dat\<rparr>)\<rparr>"
    using assms(1) na by (fastforce simp: ggml_new_tensor_impl_def bnd_eq_Inr Let_def split: prod.splits option.splits)
  let ?t = "\<lparr>t_name = [], t_type = ty, t_ne = ne @ replicate (GGML_MAX_DIMS - length ne) 1,
     t_nb = row_strides ty (ne @ replicate (GGML_MAX_DIMS - length ne) 1), t_data = None, t_op = GGML_OP_NONE,
     t_flags = 0, t_src = replicate GGML_MAX_SRC None, t_view_src = w, t_view_offs = offs', t_buffer = None, t_addr = dat\<rparr>"
  have "made c p ?t c'" using new_object_ok [OF assms(2) o] c' by simp
  moreover have "blank (oc_heap c) ty (ne @ replicate (4 - length ne) 1) ?t"
    using ty view_base_ok [OF assms(3) w] by (auto simp: blank_def GGML_MAX_DIMS_def row_strides_def Let_def)
  ultimately show ?thesis by blast
qed

lemma change_made:
  assumes "made c p t c'" "change f (p, c') = Inr (q, c'')"
  shows "q = p \<and> made c p (f t) c''"
proof -
  have "c'' = c'\<lparr>oc_heap := (oc_heap c')(p \<mapsto> f t)\<rparr>" "q = p"
    using assms by (auto simp: change_def made_def deref_def)
  moreover have "dom (oc_heap c'') = dom (oc_heap c')" using assms calculation by (auto simp: made_def)
  ultimately show ?thesis using assms(1) by (auto simp: made_def ctx_ok_def)
qed

text \<open>A typed graph stays typed when a typed tensor is added.\<close>

lemma sources_extend:
  assumes "tensor_wf h t" "p \<notin> dom h"
  shows "sources (h(p \<mapsto> u)) t = sources h t" "tensor_wf (h(p \<mapsto> u)) t"
proof -
  have "the (h' (the s)) = the (h (the s))" 
    if s: "s \<in> set (takeWhile (\<lambda>s. s \<noteq> None) (t_src t))" and h': "h' = h(p \<mapsto> u)" for s h'
  proof -
    obtain q where "s = Some q" "Some q \<in> set (t_src t)" using set_takeWhileD [OF s] by auto
    then show ?thesis using assms h' by (auto simp: tensor_wf_def)
  qed
  then show "sources (h(p \<mapsto> u)) t = sources h t" unfolding sources_def by (intro map_cong) auto
  show "tensor_wf (h(p \<mapsto> u)) t" using assms by (auto simp: tensor_wf_def)
qed

lemma made_typed:
  assumes "graph_typed (oc_heap c)" "made c p t c'" "tensor_wf (oc_heap c') t" "op_typed t (sources (oc_heap c') t)"
  shows "graph_typed (oc_heap c') \<and> ctx_ok c' \<and> oc_heap c \<subseteq>\<^sub>m oc_heap c' \<and> p \<in> dom (oc_heap c')"
proof -
  have h: "oc_heap c' = (oc_heap c)(p \<mapsto> t)" and p: "p \<notin> dom (oc_heap c)" using assms(2) by (auto simp: made_def)
  have "tensor_wf (oc_heap c') u \<and> op_typed u (sources (oc_heap c') u)" if "oc_heap c' q = Some u" for q u
  proof (cases "q = p")
    case False
    then have u: "oc_heap c q = Some u" using that h by simp
    then show ?thesis using sources_extend [OF _ p, of u t] graph_typedD [OF assms(1) u] unfolding h by simp
  qed (use that h assms in auto)
  then have "graph_typed (oc_heap c')" by (simp add: graph_typed_def)
  moreover have "oc_heap c \<subseteq>\<^sub>m oc_heap c'" using h p by (auto simp: map_le_def)
  ultimately show ?thesis using assms(2) h by (simp add: made_def)
qed

end
