(* ===== verification/Op_Calls.thy ===== *)
theory Op_Calls
  imports Tensor_Types
begin

text \<open>
  Every constructor keeps a graph typed: the tensor it adds stands in the relation to its sources that
  the typing states for its operation, and the tensors that were there stay as they are.
\<close>

subsection \<open>Composition\<close>

definition grown :: "op_ctx \<Rightarrow> ptr \<Rightarrow> op_ctx \<Rightarrow> bool" where
  "grown c p c' \<longleftrightarrow> graph_typed (oc_heap c') \<and> ctx_ok c' \<and> oc_heap c \<subseteq>\<^sub>m oc_heap c' \<and> p \<in> dom (oc_heap c')"

definition keeps_typed :: "(op_ctx \<Rightarrow> (ptr \<times> op_ctx) outcome) \<Rightarrow> bool" where
  "keeps_typed m \<longleftrightarrow> (\<forall>c p c'. ctx_ok c \<longrightarrow> graph_typed (oc_heap c) \<longrightarrow> m c = Inr (p, c') \<longrightarrow> grown c p c')"

lemma keeps_typedI:
  assumes "\<And>c p c'. ctx_ok c \<Longrightarrow> graph_typed (oc_heap c) \<Longrightarrow> m c = Inr (p, c') \<Longrightarrow> grown c p c'"
  shows "keeps_typed m"
  using assms by (simp add: keeps_typed_def)

lemma keeps_typedD: "keeps_typed m \<Longrightarrow> ctx_ok c \<Longrightarrow> graph_typed (oc_heap c) \<Longrightarrow> m c = Inr (p, c') \<Longrightarrow> grown c p c'"
  by (simp add: keeps_typed_def)

named_theorems keeps "constructors that keep a graph typed"

lemma keeps_call [keeps]:
  assumes "keeps_typed m" "\<And>x. keeps_typed (f x)"
  shows "keeps_typed (\<lambda>c. bnd (m c) (\<lambda>(x, c). f x c))"
proof (rule keeps_typedI)
  fix c p c'
  assume c: "ctx_ok c" "graph_typed (oc_heap c)" and run: "bnd (m c) (\<lambda>(x, c). f x c) = Inr (p, c')"
  obtain x d where d: "m c = Inr (x, d)" "f x d = Inr (p, c')" using run by (auto simp: bnd_eq_Inr)
  have g: "grown c x d" by (rule keeps_typedD [OF assms(1) c d(1)])
  then have "grown d p c'" using keeps_typedD [OF assms(2) _ _ d(2)] by (simp add: grown_def)
  then show "grown c p c'" using g map_le_trans [of "oc_heap c" "oc_heap d" "oc_heap c'"] by (simp add: grown_def)
qed

lemma keeps_read [keeps]:
  assumes "\<And>t. keeps_typed (f t)"
  shows "keeps_typed (\<lambda>c. bnd (g c) (\<lambda>t. f t c))"
  using assms by (auto simp: keeps_typed_def bnd_eq_Inr)

lemma bnd_change: "bnd (change f r) (change g) = change (g \<circ> f) r"
  by (cases r) (auto simp: change_def deref_def bnd_def split: option.splits)

subsection \<open>Sources\<close>

lemma set_op_simps [simp]:
  "t_op (set_op x srcs t) = x" "t_ne (set_op x srcs t) = t_ne t" "t_nb (set_op x srcs t) = t_nb t"
  "t_type (set_op x srcs t) = t_type t" "t_view_src (set_op x srcs t) = t_view_src t"
  "t_src (set_op x srcs t) = map Some srcs @ replicate (GGML_MAX_SRC - length srcs) None"
  by (simp_all add: set_op_def)

lemma ggml_format_name_simps [simp]:
  "t_op (ggml_format_name n s t) = t_op t" "t_ne (ggml_format_name n s t) = t_ne t" "t_nb (ggml_format_name n s t) = t_nb t"
  "t_type (ggml_format_name n s t) = t_type t" "t_view_src (ggml_format_name n s t) = t_view_src t"
  "t_src (ggml_format_name n s t) = t_src t"
  by (simp_all add: ggml_format_name_def)

lemma sources_wired:
  assumes "t_src t = map Some srcs @ replicate n None"
  shows "sources h t = map (\<lambda>s. the (h s)) srcs"
proof -
  have "takeWhile (\<lambda>s. s \<noteq> None) (map Some srcs @ replicate n None) = map Some srcs"
    by (induction srcs) (cases n, auto)
  then show ?thesis using assms by (simp add: sources_def comp_def)
qed

text \<open>What a constructor makes of a blank tensor \<open>t\<close>: a tensor of the same type and base, with its sources.\<close>

definition wired :: "heap \<Rightarrow> graph_tensor \<Rightarrow> graph_tensor \<Rightarrow> bool" where
  "wired h t u \<longleftrightarrow> length (t_ne u) = 4 \<and> length (t_nb u) = 4 \<and> t_type u = t_type t \<and> t_view_src u = t_view_src t \<and>
     (\<exists>srcs ts. length srcs \<le> GGML_MAX_SRC \<and> t_src u = map Some srcs @ replicate (GGML_MAX_SRC - length srcs) None \<and>
        map h srcs = map Some ts \<and> op_typed u ts)"

lemma wired_grown:
  assumes "graph_typed (oc_heap c)" "made c p u c'" "blank (oc_heap c) ty ne t" "wired (oc_heap c) t u"
  shows "grown c p c'"
proof -
  obtain srcs ts where u: "length srcs \<le> GGML_MAX_SRC" "t_src u = map Some srcs @ replicate (GGML_MAX_SRC - length srcs) None"
    and ts: "map (oc_heap c) srcs = map Some ts" "op_typed u ts"
    using assms(4) by (auto simp: wired_def)
  have h: "oc_heap c' = (oc_heap c)(p \<mapsto> u)" and p: "p \<notin> dom (oc_heap c)" using assms(2) by (auto simp: made_def)
  have in_dom: "s \<in> dom (oc_heap c)" if "s \<in> set srcs" for s
  proof -
    have "oc_heap c s \<in> set (map (oc_heap c) srcs)" using that by simp
    then show ?thesis unfolding ts(1) by auto
  qed
  have eq: "map (oc_heap c') srcs = map (oc_heap c) srcs"
  proof (rule map_cong [OF refl])
    fix s assume "s \<in> set srcs"
    then have "s \<noteq> p" using in_dom p by fastforce
    then show "oc_heap c' s = oc_heap c s" by (simp add: h)
  qed
  have "sources (oc_heap c') u = map the (map (oc_heap c') srcs)" using sources_wired [OF u(2)] by simp
  also have "\<dots> = ts" unfolding eq ts(1) by (simp add: comp_def)
  finally have "sources (oc_heap c') u = ts" .
  moreover have "tensor_wf (oc_heap c') u"
    using assms(3,4) u in_dom p by (auto simp: tensor_wf_def wired_def blank_def h)
  ultimately show ?thesis using made_typed [OF assms(1,2)] ts(2) by (simp add: grown_def)
qed

lemma new_op_grown:
  assumes "bnd (ggml_new_tensor_impl ty ne v offs c) (change f) = Inr (p, c')" "ctx_ok c" "graph_typed (oc_heap c)"
    and "\<And>t. blank (oc_heap c) ty (ne @ replicate (4 - length ne) 1) t \<Longrightarrow> wired (oc_heap c) t (f t)"
  shows "grown c p c'"
proof -
  obtain q d where d: "ggml_new_tensor_impl ty ne v offs c = Inr (q, d)" "change f (q, d) = Inr (p, c')"
    using assms(1) by (auto simp: bnd_eq_Inr)
  obtain t where t: "made c q t d" "blank (oc_heap c) ty (ne @ replicate (4 - length ne) 1) t"
    using new_impl_ok [OF d(1) assms(2,3)] by blast
  have "made c p (f t) c'" using change_made [OF t(1) d(2)] by simp
  then show ?thesis using wired_grown [OF assms(3) _ t(2)] assms(4) [OF t(2)] by blast
qed

lemma view_op_grown:
  assumes "bnd (ggml_view_tensor a c) (change f) = Inr (p, c')" "ctx_ok c" "graph_typed (oc_heap c)" "oc_heap c a = Some ta"
    and "\<And>t u. blank (oc_heap c) (t_type ta) (t_ne ta) t \<Longrightarrow> t_ne u = t_ne t \<Longrightarrow> t_type u = t_type t \<Longrightarrow>
           t_view_src u = t_view_src t \<Longrightarrow> t_nb u = t_nb ta \<Longrightarrow> wired (oc_heap c) t (f u)"
  shows "grown c p c'"
proof -
  have ne: "length (t_ne ta) = 4" using graph_typedD [OF assms(3,4)] by (simp add: tensor_wf_def)
  have "bnd (ggml_new_tensor_impl (t_type ta) (t_ne ta) (Some a) 0 c)
      (change (f \<circ> (\<lambda>r. (ggml_format_name (t_name ta) (bytes_of '' (view)'') r)\<lparr>t_nb := t_nb ta\<rparr>))) = Inr (p, c')"
    using assms(1,4) by (simp add: ggml_view_tensor_def deref_def bnd_assoc bnd_change)
  then show ?thesis using assms(2,3) by (rule new_op_grown) (use assms(5) ne in \<open>simp add: blank_def\<close>)
qed

lemma result_like_grown:
  assumes "bnd (result_like inplace a c) (change f) = Inr (p, c')" "ctx_ok c" "graph_typed (oc_heap c)" "oc_heap c a = Some ta"
    and "\<And>t u. t_ne u = t_ne ta \<Longrightarrow> t_type u = t_type ta \<Longrightarrow> t_type t = t_type ta \<Longrightarrow> length (t_nb u) = 4 \<Longrightarrow>
           t_view_src u = t_view_src t \<Longrightarrow> wired (oc_heap c) t (f u)"
  shows "grown c p c'"
proof (cases inplace)
  case True
  have nb: "length (t_nb ta) = 4" using graph_typedD [OF assms(3,4)] by (simp add: tensor_wf_def)
  have "bnd (ggml_view_tensor a c) (change f) = Inr (p, c')" using assms(1) True by (simp add: result_like_def)
  then show ?thesis using assms(2-4) by (rule view_op_grown) (use assms(5) nb in \<open>simp add: blank_def\<close>)
next
  case False
  have ne: "length (t_ne ta) = 4" using graph_typedD [OF assms(3,4)] by (simp add: tensor_wf_def)
  have "bnd (ggml_new_tensor_impl (t_type ta) (t_ne ta) None 0 c) (change f) = Inr (p, c')"
    using assms(1,4) False by (simp add: result_like_def ggml_dup_tensor_def new_tensor_def deref_def)
  then show ?thesis using assms(2,3) by (rule new_op_grown) (use assms(5) ne in \<open>simp add: blank_def\<close>)
qed

end
