(* ===== verification/Op_Typing.thy ===== *)
theory Op_Typing
  imports Op_Calls
begin

text \<open>The constructors, one after the other, keep a graph typed.\<close>

subsection \<open>Typing by operation\<close>

lemma one_source_only:
  "list_all (\<lambda>x. x \<notin> set two_sources \<and> x \<noteq> GGML_OP_NONE \<and> x \<noteq> GGML_OP_SOFT_MAX) one_source"
  "list_all (\<lambda>x. x \<notin> set one_source \<and> x \<noteq> GGML_OP_NONE \<and> x \<noteq> GGML_OP_SOFT_MAX) two_sources"
  by code_simp+

lemma op_typed1: "t_op t \<in> set one_source \<Longrightarrow> typed1 t a \<Longrightarrow> op_typed t [a]"
  using one_source_only by (auto simp: op_typed_def list_all_iff)

lemma op_typed2: "t_op t \<in> set two_sources \<Longrightarrow> typed2 t a b \<Longrightarrow> op_typed t [a, b]"
  using one_source_only by (auto simp: op_typed_def list_all_iff)

lemma op_typed_soft_max:
  "t_op t = GGML_OP_SOFT_MAX \<Longrightarrow> typed1 t a \<Longrightarrow> op_typed t [a]"
  "t_op t = GGML_OP_SOFT_MAX \<Longrightarrow> typed2 t a b \<Longrightarrow> op_typed t [a, b]"
  using one_source_only by (auto simp: op_typed_def list_all_iff op_codes)

lemma op_typed_none: "t_op t = GGML_OP_NONE \<Longrightarrow> op_typed t []"
  using one_source_only by (auto simp: op_typed_def list_all_iff op_codes)

lemma wired1:
  assumes "h a = Some ta" "t_src u = Some a # replicate (GGML_MAX_SRC - 1) None" "length (t_ne u) = 4" "length (t_nb u) = 4"
    "t_type u = t_type t" "t_view_src u = t_view_src t" "op_typed u [ta]"
  shows "wired h t u"
  unfolding wired_def using assms by (intro conjI exI [of _ "[a]"] exI [of _ "[ta]"]) (simp_all add: GGML_MAX_SRC_def)

lemma wired2:
  assumes "h a = Some ta" "h b = Some tb" "t_src u = Some a # Some b # replicate (GGML_MAX_SRC - 2) None"
    "length (t_ne u) = 4" "length (t_nb u) = 4" "t_type u = t_type t" "t_view_src u = t_view_src t" "op_typed u [ta, tb]"
  shows "wired h t u"
  unfolding wired_def using assms by (intro conjI exI [of _ "[a, b]"] exI [of _ "[ta, tb]"]) (simp_all add: GGML_MAX_SRC_def)

lemma wired0:
  assumes "blank h ty ne t" "t_src u = replicate GGML_MAX_SRC None" "t_op u = GGML_OP_NONE" "length (t_ne u) = 4"
    "length (t_nb u) = 4" "t_type u = t_type t" "t_view_src u = t_view_src t"
  shows "wired h t u"
  unfolding wired_def using assms op_typed_none by (intro conjI exI [of _ "[]"]) simp_all

lemma like_source_only:
  "list_all (\<lambda>x. x \<in> set one_source \<and> x \<notin> set pooling \<and> x \<notin> {GGML_OP_SUM, GGML_OP_SUM_ROWS, GGML_OP_MEAN, GGML_OP_ARGMAX,
     GGML_OP_REPEAT, GGML_OP_CONT, GGML_OP_RESHAPE, GGML_OP_VIEW, GGML_OP_PERMUTE, GGML_OP_TRANSPOSE, GGML_OP_SOFT_MAX}) like_source"
  "list_all (\<lambda>x. x \<in> set two_sources \<and> x \<notin> {GGML_OP_ADD1, GGML_OP_CONCAT, GGML_OP_MUL_MAT, GGML_OP_OUT_PROD, GGML_OP_GET_ROWS,
     GGML_OP_CPY, GGML_OP_SOFT_MAX, GGML_OP_IM2COL}) repeating"
  by code_simp+

lemma typed_like_source: "t_op t \<in> set like_source \<Longrightarrow> t_ne t = t_ne a \<Longrightarrow> t_type t = t_type a \<Longrightarrow> op_typed t [a]"
  using like_source_only(1) by (intro op_typed1) (auto simp: typed1_def list_all_iff)

lemma typed_repeating:
  "t_op t \<in> set repeating \<Longrightarrow> t_ne t = t_ne a \<Longrightarrow> t_type t = t_type a \<Longrightarrow> ggml_can_repeat b a \<Longrightarrow> op_typed t [a, b]"
  using like_source_only(2) by (intro op_typed2) (auto simp: typed2_def list_all_iff ggml_are_same_shape_def)

lemmas typing = typed1_def typed2_def op_codes like_source_def repeating_def pooling_def
lemmas arities = one_source_def two_sources_def op_codes like_source_def repeating_def pooling_def

lemma deref_eq_Inr: "deref h p = Inr t \<longleftrightarrow> h p = Some t"
  by (auto simp: deref_def split: option.splits)

lemmas runs = bnd_eq_Inr deref_eq_Inr

lemma typed_lengths: "graph_typed h \<Longrightarrow> h p = Some t \<Longrightarrow> length (t_ne t) = 4 \<and> length (t_nb t) = 4"
  using graph_typedD by (fastforce simp: tensor_wf_def)

lemma list4: "length xs = 4 \<Longrightarrow> xs = [xs ! 0, xs ! 1, xs ! 2, xs ! 3]"
  by (auto simp: list_eq_iff_nth_eq nth_Cons' less_Suc_eq numeral_eq_Suc)

subsection \<open>New tensors and operations of the shape of a source\<close>

lemma keeps_new_tensor [keeps]: "keeps_typed (new_tensor ty ne)"
proof (rule keeps_typedI)
  fix c p c'
  assume c: "ctx_ok c" "graph_typed (oc_heap c)" and run: "new_tensor ty ne c = Inr (p, c')"
  obtain t where t: "made c p t c'" "blank (oc_heap c) ty (ne @ replicate (4 - length ne) 1) t"
    using new_impl_ok [OF run [unfolded new_tensor_def] c] by blast
  have "wired (oc_heap c) t t" by (rule wired0 [OF t(2)]) (use t(2) in \<open>simp_all add: blank_def\<close>)
  then show "grown c p c'" using wired_grown [OF c(2) t] by blast
qed

lemma keeps_dup_tensor [keeps]: "keeps_typed (ggml_dup_tensor a)"
  unfolding ggml_dup_tensor_def by (intro keeps)

lemma keeps_view_tensor [keeps]: "keeps_typed (ggml_view_tensor a)"
proof (rule keeps_typedI)
  fix c p c'
  assume c: "ctx_ok c" "graph_typed (oc_heap c)" and run: "ggml_view_tensor a c = Inr (p, c')"
  obtain t where t: "oc_heap c a = Some t"
    and r: "bnd (ggml_new_tensor_impl (t_type t) (t_ne t) (Some a) 0 c)
       (change (\<lambda>r. (ggml_format_name (t_name t) (bytes_of '' (view)'') r)\<lparr>t_nb := t_nb t\<rparr>)) = Inr (p, c')"
    using run by (auto simp: ggml_view_tensor_def bnd_eq_Inr [of "deref _ _"] deref_eq_Inr)
  show "grown c p c'"
    by (rule new_op_grown [OF r c], rule wired0) (use typed_lengths [OF c(2) t] in \<open>auto simp: blank_def\<close>)
qed

lemma keeps_unary_like:
  assumes "x \<in> set like_source"
  shows "keeps_typed (unary_like x inplace a)"
proof (rule keeps_typedI)
  fix c p c'
  assume c: "ctx_ok c" "graph_typed (oc_heap c)" and run: "unary_like x inplace a c = Inr (p, c')"
  obtain ta where ta: "oc_heap c a = Some ta"
    using run by (auto simp: unary_like_def result_like_def ggml_view_tensor_def ggml_dup_tensor_def runs split: if_splits)
  show "grown c p c'"
    by (rule result_like_grown [OF run [unfolded unary_like_def] c ta], rule wired1 [where h = "oc_heap c", OF ta])
      (use typed_lengths [OF c(2) ta] assms in \<open>auto intro: typed_like_source\<close>)
qed

lemma keeps_like_source [keeps]:
  "keeps_typed (ggml_dup_impl a inplace)" "keeps_typed (ggml_sqr_impl a inplace)" "keeps_typed (ggml_sqrt_impl a inplace)"
  "keeps_typed (ggml_log_impl a inplace)" "keeps_typed (ggml_sin_impl a inplace)" "keeps_typed (ggml_cos_impl a inplace)"
  "keeps_typed (ggml_leaky_relu a inplace)" "keeps_typed (ggml_norm_impl a inplace)" "keeps_typed (ggml_rms_norm_impl a inplace)"
  "keeps_typed (ggml_l2_norm_impl a inplace)" "keeps_typed (ggml_unary_impl a inplace)" "keeps_typed (ggml_cumsum a)"
  "keeps_typed (ggml_scale_impl a inplace)"
  unfolding ggml_dup_impl_def ggml_sqr_impl_def ggml_sqrt_impl_def ggml_log_impl_def ggml_sin_impl_def ggml_cos_impl_def
    ggml_leaky_relu_def ggml_norm_impl_def ggml_rms_norm_impl_def ggml_l2_norm_impl_def ggml_unary_impl_def ggml_cumsum_def
    ggml_scale_impl_def
  by (intro keeps keeps_unary_like; simp add: like_source_def)+

lemma keeps_binary_repeat:
  assumes "x \<in> set repeating"
  shows "keeps_typed (binary_repeat x a b inplace)"
proof (rule keeps_typedI)
  fix c p c'
  assume c: "ctx_ok c" "graph_typed (oc_heap c)" and run: "binary_repeat x a b inplace c = Inr (p, c')"
  obtain ta tb where ta: "oc_heap c a = Some ta" and tb: "oc_heap c b = Some tb" and rep: "ggml_can_repeat tb ta"
    and r: "bnd (result_like inplace a c) (change (set_op x [a, b])) = Inr (p, c')"
    using run by (auto simp: binary_repeat_def runs)
  show "grown c p c'"
    by (rule result_like_grown [OF r c ta], rule wired2 [where h = "oc_heap c", OF ta tb])
      (use typed_lengths [OF c(2) ta] assms rep in \<open>auto intro: typed_repeating\<close>)
qed

lemma keeps_repeating [keeps]:
  "keeps_typed (ggml_add_impl a b inplace)" "keeps_typed (ggml_sub_impl a b inplace)"
  "keeps_typed (ggml_mul_impl a b inplace)" "keeps_typed (ggml_div_impl a b inplace)"
  unfolding ggml_add_impl_def ggml_sub_impl_def ggml_mul_impl_def ggml_div_impl_def
  by (intro keeps_binary_repeat; simp add: repeating_def)+


lemma keeps_add1 [keeps]: "keeps_typed (ggml_add1_impl a b inplace)"
proof (rule keeps_typedI)
  fix c p c'
  assume c: "ctx_ok c" "graph_typed (oc_heap c)" and run: "ggml_add1_impl a b inplace c = Inr (p, c')"
  obtain ta tb where ta: "oc_heap c a = Some ta" and tb: "oc_heap c b = Some tb" and sc: "ggml_is_scalar tb"
    and r: "bnd (result_like inplace a c) (change (set_op GGML_OP_ADD1 [a, b])) = Inr (p, c')"
    using run by (auto simp: ggml_add1_impl_def runs)
  show "grown c p c'"
    by (rule result_like_grown [OF r c ta], rule wired2 [where h = "oc_heap c", OF ta tb])
      (use typed_lengths [OF c(2) ta] sc in \<open>auto intro!: op_typed2 simp: arities typed2_def ggml_are_same_shape_def\<close>)
qed

lemma keeps_soft_max [keeps]: "keeps_typed (ggml_soft_max_impl a msk biased inplace)"
proof (rule keeps_typedI)
  fix c p c'
  assume c: "ctx_ok c" "graph_typed (oc_heap c)" and run: "ggml_soft_max_impl a msk biased inplace c = Inr (p, c')"
  obtain ta where ta: "oc_heap c a = Some ta" and ct: "ggml_is_contiguous (ggml_tensor.truncate ta)"
    using run by (auto simp: ggml_soft_max_impl_def runs)
  show "grown c p c'"
  proof (cases msk)
    case None
    have r: "bnd (result_like inplace a c) (change (set_op GGML_OP_SOFT_MAX [a])) = Inr (p, c')"
      using run None by (auto simp: ggml_soft_max_impl_def runs)
    show ?thesis
      by (rule result_like_grown [OF r c ta], rule wired1 [where h = "oc_heap c", OF ta])
        (use typed_lengths [OF c(2) ta] ct in \<open>auto intro!: op_typed_soft_max simp: typing\<close>)
  next
    case (Some m)
    obtain tm where tm: "oc_heap c m = Some tm" and sh: "ggml_is_contiguous (ggml_tensor.truncate tm)"
        "t_ne tm ! 0 = t_ne ta ! 0" "t_ne tm ! 1 \<ge> t_ne ta ! 1"
      and r: "bnd (result_like inplace a c) (change (set_op GGML_OP_SOFT_MAX [a, m])) = Inr (p, c')"
      using run Some ta by (auto simp: ggml_soft_max_impl_def runs)
    show ?thesis
      by (rule result_like_grown [OF r c ta], rule wired2 [where h = "oc_heap c", OF ta tm])
        (use typed_lengths [OF c(2) ta] ct sh in \<open>auto intro!: op_typed_soft_max simp: typing\<close>)
  qed
qed

subsection \<open>Reductions, repetition, concatenation\<close>

text \<open>A constructor that makes a new tensor of one or of two sources.\<close>

lemma new1_grown:
  assumes "bnd (new_tensor ty ne c) (change (set_op x [a])) = Inr (p, c')" "ctx_ok c" "graph_typed (oc_heap c)"
    "oc_heap c a = Some ta" "x \<in> set one_source"
    "\<And>u. t_op u = x \<Longrightarrow> t_type u = ty \<Longrightarrow> t_ne u = ne @ replicate (4 - length ne) 1 \<Longrightarrow> typed1 u ta"
  shows "grown c p c'"
  by (rule new_op_grown [OF assms(1) [unfolded new_tensor_def] assms(2,3)], rule wired1 [where h = "oc_heap c", OF assms(4)])
    (use assms(5,6) in \<open>auto simp: blank_def GGML_MAX_SRC_def intro!: op_typed1\<close>)

lemma new2_grown:
  assumes "bnd (new_tensor ty ne c) (change (set_op x [a, b])) = Inr (p, c')" "ctx_ok c" "graph_typed (oc_heap c)"
    "oc_heap c a = Some ta" "oc_heap c b = Some tb" "x \<in> set two_sources"
    "\<And>u. t_op u = x \<Longrightarrow> t_type u = ty \<Longrightarrow> t_ne u = ne @ replicate (4 - length ne) 1 \<Longrightarrow> typed2 u ta tb"
  shows "grown c p c'"
  by (rule new_op_grown [OF assms(1) [unfolded new_tensor_def] assms(2,3)], rule wired2 [where h = "oc_heap c", OF assms(4,5)])
    (use assms(6,7) in \<open>auto simp: blank_def GGML_MAX_SRC_def intro!: op_typed2\<close>)

lemma keeps_sum [keeps]: "keeps_typed (ggml_sum a)"
proof (rule keeps_typedI)
  fix c p c'
  assume c: "ctx_ok c" "graph_typed (oc_heap c)" and run: "ggml_sum a c = Inr (p, c')"
  obtain ta where ta: "oc_heap c a = Some ta"
    and r: "bnd (new_tensor (t_type ta) [1] c) (change (set_op GGML_OP_SUM [a])) = Inr (p, c')"
    using run by (auto simp: ggml_sum_def ggml_new_tensor_1d_def ggml_new_tensor_4d_def Let_def runs)
  show "grown c p c'"
    by (rule new1_grown [OF r c ta])
      (use typed_lengths [OF c(2) ta] in \<open>auto simp: typing arities numeral_eq_Suc\<close>)
qed

lemma keeps_sum_rows [keeps]: "keeps_typed (ggml_sum_rows a)"
proof (rule keeps_typedI)
  fix c p c'
  assume c: "ctx_ok c" "graph_typed (oc_heap c)" and run: "ggml_sum_rows a c = Inr (p, c')"
  obtain ta where ta: "oc_heap c a = Some ta"
    and r: "bnd (new_tensor (t_type ta) (1 # tl (t_ne ta)) c) (change (set_op GGML_OP_SUM_ROWS [a])) = Inr (p, c')"
    using run by (auto simp: ggml_sum_rows_def ggml_new_tensor_1d_def ggml_new_tensor_4d_def Let_def runs)
  show "grown c p c'"
    by (rule new1_grown [OF r c ta])
      (use typed_lengths [OF c(2) ta] in \<open>auto simp: typing arities\<close>)
qed

lemma keeps_mean [keeps]: "keeps_typed (ggml_mean a)"
proof (rule keeps_typedI)
  fix c p c'
  assume c: "ctx_ok c" "graph_typed (oc_heap c)" and run: "ggml_mean a c = Inr (p, c')"
  obtain ta where ta: "oc_heap c a = Some ta"
    and r: "bnd (new_tensor GGML_TYPE_F32 [1, t_ne ta ! 1, t_ne ta ! 2, t_ne ta ! 3] c) (change (set_op GGML_OP_MEAN [a])) = Inr (p, c')"
    using run by (auto simp: ggml_mean_def ggml_new_tensor_1d_def ggml_new_tensor_4d_def Let_def runs)
  show "grown c p c'"
    by (rule new1_grown [OF r c ta])
      (use typed_lengths [OF c(2) ta] list4 [of \<open>t_ne ta\<close>] in \<open>auto simp: typing arities dest: arg_cong [of _ _ tl]\<close>)
qed

lemma keeps_argmax [keeps]: "keeps_typed (ggml_argmax a)"
proof (rule keeps_typedI)
  fix c p c'
  assume c: "ctx_ok c" "graph_typed (oc_heap c)" and run: "ggml_argmax a c = Inr (p, c')"
  obtain ta where ta: "oc_heap c a = Some ta" and m: "ggml_is_matrix ta"
    and r: "bnd (new_tensor GGML_TYPE_I32 [t_ne ta ! 1] c) (change (set_op GGML_OP_ARGMAX [a])) = Inr (p, c')"
    using run by (auto simp: ggml_argmax_def ggml_new_tensor_1d_def ggml_new_tensor_4d_def Let_def runs)
  show "grown c p c'"
    by (rule new1_grown [OF r c ta])
      (use typed_lengths [OF c(2) ta] m in \<open>auto simp: typing arities numeral_eq_Suc\<close>)
qed

end
