(* ===== verification/Op_Shapes.thy ===== *)
theory Op_Shapes
  imports Op_Typing
begin

text \<open>Constructors that compute a new shape: products, reshaping, views, convolutions and pooling.\<close>

subsection \<open>Concatenation, products and rows\<close>

lemma divides_True: "divides d x = Inr True \<longleftrightarrow> d \<noteq> 0 \<and> c_mod x d = 0"
  by (auto simp: divides_def ensure_def)

lemma can_mul_mat_True:
  "ggml_can_mul_mat a b = Inr True \<Longrightarrow>
     t_ne a ! 0 = t_ne b ! 0 \<and> c_mod (t_ne b ! 2) (t_ne a ! 2) = 0 \<and> c_mod (t_ne b ! 3) (t_ne a ! 3) = 0"
  by (auto simp: ggml_can_mul_mat_def bnd_eq_Inr divides_True split: if_splits)

lemma can_out_prod_True:
  "ggml_can_out_prod a b = Inr True \<Longrightarrow>
     t_ne a ! 1 = t_ne b ! 1 \<and> c_mod (t_ne b ! 2) (t_ne a ! 2) = 0 \<and> c_mod (t_ne b ! 3) (t_ne a ! 3) = 0"
  by (auto simp: ggml_can_out_prod_def bnd_eq_Inr divides_True split: if_splits)

lemma keeps_repeat [keeps]: "keeps_typed (ggml_repeat a b)"
proof (rule keeps_typedI)
  fix c p c'
  assume c: "ctx_ok c" "graph_typed (oc_heap c)" and run: "ggml_repeat a b c = Inr (p, c')"
  obtain ta tb where ta: "oc_heap c a = Some ta" and tb: "oc_heap c b = Some tb" and rep: "ggml_can_repeat ta tb"
    and r: "bnd (new_tensor (t_type ta) (t_ne tb) c) (change (set_op GGML_OP_REPEAT [a])) = Inr (p, c')"
    using run by (auto simp: ggml_repeat_def runs)
  have "ggml_can_repeat ta u" if "t_ne u = t_ne tb" for u
    using rep that by (simp add: ggml_can_repeat_def ggml_is_empty_def split: if_splits)
  then show "grown c p c'"
    by (intro new1_grown [OF r c ta]) (use typed_lengths [OF c(2) tb] in \<open>auto simp: typing arities\<close>)
qed

lemma keeps_concat [keeps]: "keeps_typed (ggml_concat a b axis)"
proof (rule keeps_typedI)
  fix c p c'
  assume c: "ctx_ok c" "graph_typed (oc_heap c)" and run: "ggml_concat a b axis c = Inr (p, c')"
  obtain ta tb where ta: "oc_heap c a = Some ta" and tb: "oc_heap c b = Some tb" and ty: "t_type ta = t_type tb"
    and ax: "0 \<le> axis" "axis < 4" and eq: "\<forall>d < 4. int d \<noteq> axis \<longrightarrow> t_ne ta ! d = t_ne tb ! d"
    and r: "bnd (new_tensor (t_type ta) ((t_ne ta)[nat axis := t_ne ta ! nat axis + t_ne tb ! nat axis]) c)
      (change (set_op GGML_OP_CONCAT [a, b])) = Inr (p, c')"
    using run by (auto simp: ggml_concat_def runs GGML_MAX_DIMS_def)
  have len: "length (t_ne ta) = 4" using typed_lengths [OF c(2) ta] by simp
  have eq: "t_ne ta ! d = t_ne tb ! d" if "d < 4" "d \<noteq> nat axis" for d using eq that ax by auto
  show "grown c p c'"
  proof (rule new2_grown [OF r c ta tb])
    fix u :: graph_tensor
    assume u: "t_op u = GGML_OP_CONCAT" "t_type u = t_type ta" and ne: "t_ne u = (t_ne ta)[nat axis := t_ne ta ! nat axis + t_ne tb ! nat axis] @
      replicate (4 - length ((t_ne ta)[nat axis := t_ne ta ! nat axis + t_ne tb ! nat axis])) 1"
    have "\<exists>d < 4. t_ne u ! d = t_ne ta ! d + t_ne tb ! d \<and> (\<forall>i < 4. i \<noteq> d \<longrightarrow> t_ne u ! i = t_ne ta ! i \<and> t_ne u ! i = t_ne tb ! i)"
      by (intro exI [of _ "nat axis"] conjI) (use ax len eq in \<open>auto simp: ne nth_list_update\<close>)
    then show "typed2 u ta tb" using u ty by (simp add: typing)
  qed (simp add: arities)
qed

lemma keeps_mul_mat [keeps]: "keeps_typed (ggml_mul_mat a b)"
proof (rule keeps_typedI)
  fix c p c'
  assume c: "ctx_ok c" "graph_typed (oc_heap c)" and run: "ggml_mul_mat a b c = Inr (p, c')"
  obtain ta tb where ta: "oc_heap c a = Some ta" and tb: "oc_heap c b = Some tb" and ok: "ggml_can_mul_mat ta tb = Inr True" and tr: "\<not> ggml_is_transposed ta"
    and r: "bnd (new_tensor GGML_TYPE_F32 [t_ne ta ! 1, t_ne tb ! 1, t_ne tb ! 2, t_ne tb ! 3] c) (change (set_op GGML_OP_MUL_MAT [a, b])) = Inr (p, c')"
    using run by (auto simp: ggml_mul_mat_def ggml_new_tensor_1d_def ggml_new_tensor_4d_def Let_def runs)
  show "grown c p c'"
    by (rule new2_grown [OF r c ta tb])
      (use can_mul_mat_True [OF ok] tr in \<open>auto simp: typing arities\<close>)
qed

lemma keeps_out_prod [keeps]: "keeps_typed (ggml_out_prod a b)"
proof (rule keeps_typedI)
  fix c p c'
  assume c: "ctx_ok c" "graph_typed (oc_heap c)" and run: "ggml_out_prod a b c = Inr (p, c')"
  obtain ta tb where ta: "oc_heap c a = Some ta" and tb: "oc_heap c b = Some tb" and ok: "ggml_can_out_prod ta tb = Inr True"
    and r: "bnd (new_tensor GGML_TYPE_F32 [t_ne ta ! 0, t_ne tb ! 0, t_ne tb ! 2, t_ne tb ! 3] c) (change (set_op GGML_OP_OUT_PROD [a, b])) = Inr (p, c')"
    using run by (auto simp: ggml_out_prod_def ggml_new_tensor_1d_def ggml_new_tensor_4d_def Let_def runs)
  show "grown c p c'"
    by (rule new2_grown [OF r c ta tb])
      (use can_out_prod_True [OF ok] in \<open>auto simp: typing arities\<close>)
qed

lemma keeps_get_rows [keeps]: "keeps_typed (ggml_get_rows a b)"
proof (rule keeps_typedI)
  fix c p c'
  assume c: "ctx_ok c" "graph_typed (oc_heap c)" and run: "ggml_get_rows a b c = Inr (p, c')"
  obtain ta tb where ta: "oc_heap c a = Some ta" and tb: "oc_heap c b = Some tb" and sh: "t_ne ta ! 2 = t_ne tb ! 1"
      "t_ne ta ! 3 = t_ne tb ! 2" "t_type tb = GGML_TYPE_I32"
    and r: "bnd (new_tensor (if t_type ta = GGML_TYPE_I32 then t_type ta else GGML_TYPE_F32) [t_ne ta ! 0, t_ne tb ! 0, t_ne tb ! 1, t_ne tb ! 2] c) (change (set_op GGML_OP_GET_ROWS [a, b])) = Inr (p, c')"
    using run by (auto simp: ggml_get_rows_def ggml_new_tensor_1d_def ggml_new_tensor_4d_def Let_def runs)
  show "grown c p c'"
    by (rule new2_grown [OF r c ta tb])
      (use sh in \<open>auto simp: typing arities\<close>)
qed

subsection \<open>Copies and changes of shape\<close>

lemma mul_i64_prod: "mul_i64 acc ds = Inr m \<Longrightarrow> m = acc * prod_list ds"
proof (induction ds arbitrary: acc)
  case (Cons d ds)
  then have "mul_i64 (acc * d) ds = Inr m" by (simp add: bnd_eq_Inr)
  from Cons.IH [OF this] show ?case by (simp add: mult.assoc)
qed simp

lemma prod_i64_prod: "prod_i64 ds = Inr m \<Longrightarrow> ds \<noteq> [] \<Longrightarrow> m = prod_list ds"
  by (cases ds) (auto simp: prod_i64_def dest: mul_i64_prod)

lemma nelements_prod:
  assumes "graph_typed h" "h p = Some t" "ggml_nelements t = Inr m"
  shows "m = prod_list (t_ne t)"
  using assms(3) typed_lengths [OF assms(1,2)] by (auto simp: ggml_nelements_def dest!: prod_i64_prod)

lemma keeps_cpy [keeps]: "keeps_typed (ggml_cpy_impl a b)"
proof (rule keeps_typedI)
  fix c p c'
  assume c: "ctx_ok c" "graph_typed (oc_heap c)" and run: "ggml_cpy_impl a b c = Inr (p, c')"
  obtain ta tb n f where ta: "oc_heap c a = Some ta" and tb: "oc_heap c b = Some tb"
    and n: "ggml_nelements ta = Inr n" "ggml_nelements tb = Inr n"
    and r: "bnd (ggml_view_tensor b c) (change (\<lambda>r. set_op GGML_OP_CPY [a, b] (f r))) = Inr (p, c')"
    and f: "f = (\<lambda>r. if t_name tb \<noteq> [] then ggml_format_name (t_name tb) (bytes_of '' (copy of '' @ t_name ta @ bytes_of '')'') r
           else ggml_format_name (t_name ta) (bytes_of '' (copy)'') r)"
    using run by (auto simp: ggml_cpy_impl_def runs)
  have f: "t_ne (f r) = t_ne r" "t_type (f r) = t_type r" "t_nb (f r) = t_nb r" "t_view_src (f r) = t_view_src r" for r
    by (simp_all add: f)
  show "grown c p c'"
    by (rule view_op_grown [OF r c tb], rule wired2 [where h = "oc_heap c", OF ta tb])
      (use typed_lengths [OF c(2) tb] nelements_prod [OF c(2) ta n(1)] nelements_prod [OF c(2) tb n(2)]
       in \<open>auto simp: blank_def f GGML_MAX_SRC_def typing arities intro!: op_typed2\<close>)
qed

text \<open>A constructor that makes a new tensor or a view of one source, with a name.\<close>

lemma named1_grown:
  assumes "bnd (ggml_new_tensor_impl ty ne v offs c) (change (\<lambda>r. set_op x [a] (ggml_format_name nm sfx r))) = Inr (p, c')"
    "ctx_ok c" "graph_typed (oc_heap c)" "oc_heap c a = Some ta" "x \<in> set one_source"
    "\<And>u. t_op u = x \<Longrightarrow> t_type u = ty \<Longrightarrow> t_ne u = ne @ replicate (4 - length ne) 1 \<Longrightarrow> typed1 u ta"
  shows "grown c p c'"
  by (rule new_op_grown [OF assms(1-3)], rule wired1 [where h = "oc_heap c", OF assms(4)])
    (use assms(5,6) in \<open>auto simp: blank_def GGML_MAX_SRC_def intro!: op_typed1\<close>)

lemma keeps_cont [keeps]: "keeps_typed (ggml_cont_impl a)"
proof (rule keeps_typedI)
  fix c p c'
  assume c: "ctx_ok c" "graph_typed (oc_heap c)" and run: "ggml_cont_impl a c = Inr (p, c')"
  obtain ta where ta: "oc_heap c a = Some ta"
    and r: "bnd (ggml_new_tensor_impl (t_type ta) (t_ne ta) None 0 c)
      (change (\<lambda>r. set_op GGML_OP_CONT [a] (ggml_format_name (t_name ta) (bytes_of '' (cont)'') r))) = Inr (p, c')"
    using run by (auto simp: ggml_cont_impl_def ggml_dup_tensor_def new_tensor_def runs)
  show "grown c p c'"
    by (rule named1_grown [OF r c ta]) (use typed_lengths [OF c(2) ta] in \<open>auto simp: typing arities\<close>)
qed

lemma keeps_cont_4d [keeps]: "keeps_typed (ggml_cont_4d a ne0 ne1 ne2 ne3)"
proof (rule keeps_typedI)
  fix c p c'
  assume c: "ctx_ok c" "graph_typed (oc_heap c)" and run: "ggml_cont_4d a ne0 ne1 ne2 ne3 c = Inr (p, c')"
  obtain ta n where ta: "oc_heap c a = Some ta" and n: "ggml_nelements ta = Inr n" "prod_i64 [ne0, ne1, ne2, ne3] = Inr n"
    and r: "bnd (ggml_new_tensor_impl (t_type ta) [ne0, ne1, ne2, ne3] None 0 c)
      (change (\<lambda>r. set_op GGML_OP_CONT [a] (ggml_format_name (t_name ta) (bytes_of '' (cont)'') r))) = Inr (p, c')"
    using run by (auto simp: ggml_cont_4d_def ggml_new_tensor_4d_def new_tensor_def runs)
  show "grown c p c'"
    by (rule named1_grown [OF r c ta])
      (use prod_i64_prod [OF n(2)] nelements_prod [OF c(2) ta n(1)] in \<open>auto simp: typing arities\<close>)
qed

lemma keeps_reshape_to:
  assumes "ne \<noteq> []"
  shows "keeps_typed (reshape_to a ne)"
proof (rule keeps_typedI)
  fix c p c'
  assume c: "ctx_ok c" "graph_typed (oc_heap c)" and run: "reshape_to a ne c = Inr (p, c')"
  obtain ta n where ta: "oc_heap c a = Some ta" and ct: "ggml_is_contiguous (ggml_tensor.truncate ta)"
    and n: "ggml_nelements ta = Inr n" "prod_i64 ne = Inr n"
    and r: "bnd (ggml_new_tensor_impl (t_type ta) ne (Some a) 0 c)
      (change (\<lambda>r. set_op GGML_OP_RESHAPE [a] (ggml_format_name (t_name ta) (bytes_of '' (reshaped)'') r))) = Inr (p, c')"
    using run by (auto simp: reshape_to_def runs)
  show "grown c p c'"
    by (rule named1_grown [OF r c ta])
      (use prod_i64_prod [OF n(2) assms] nelements_prod [OF c(2) ta n(1)] ct
       in \<open>auto simp: typing arities prod_list_replicate\<close>)
qed

lemma keeps_reshape [keeps]:
  "keeps_typed (ggml_reshape_1d a ne0)" "keeps_typed (ggml_reshape_2d a ne0 ne1)"
  "keeps_typed (ggml_reshape_3d a ne0 ne1 ne2)" "keeps_typed (ggml_reshape_4d a ne0 ne1 ne2 ne3)"
  unfolding ggml_reshape_1d_def ggml_reshape_2d_def ggml_reshape_3d_def ggml_reshape_4d_def
  by (rule keeps_reshape_to; simp)+

lemma keeps_reshape_like [keeps]: "keeps_typed (ggml_reshape a b)"
proof (rule keeps_typedI)
  fix c p c'
  assume c: "ctx_ok c" "graph_typed (oc_heap c)" and run: "ggml_reshape a b c = Inr (p, c')"
  obtain tb where tb: "oc_heap c b = Some tb" and r: "reshape_to a (t_ne tb) c = Inr (p, c')"
    using run by (auto simp: ggml_reshape_def runs)
  show "grown c p c'"
    by (rule keeps_typedD [OF keeps_reshape_to c r]) (use typed_lengths [OF c(2) tb] in auto)
qed

end
