(* ===== verification/Op_Views.thy ===== *)
theory Op_Views
  imports Op_Shapes
begin

text \<open>Views, permutations, casts, convolutions and pooling keep a graph typed.\<close>

subsection \<open>Views\<close>

lemma set_strides_simps [simp]:
  "t_op (set_strides b1 b2 b3 t) = t_op t" "t_ne (set_strides b1 b2 b3 t) = t_ne t" "length (t_nb (set_strides b1 b2 b3 t)) = 4"
  "t_type (set_strides b1 b2 b3 t) = t_type t" "t_view_src (set_strides b1 b2 b3 t) = t_view_src t"
  "t_src (set_strides b1 b2 b3 t) = t_src t"
  by (simp_all add: set_strides_def)

lemma keeps_view_impl [keeps]: "keeps_typed (ggml_view_impl a ne offs)"
proof (rule keeps_typedI)
  fix c p c'
  assume c: "ctx_ok c" "graph_typed (oc_heap c)" and run: "ggml_view_impl a ne offs c = Inr (p, c')"
  obtain ta where ta: "oc_heap c a = Some ta"
    and r: "bnd (ggml_new_tensor_impl (t_type ta) ne (Some a) offs c)
      (change (\<lambda>r. set_op GGML_OP_VIEW [a] (ggml_format_name (t_name ta) (bytes_of '' (view)'') r))) = Inr (p, c')"
    using run by (auto simp: ggml_view_impl_def runs)
  show "grown c p c'" by (rule named1_grown [OF r c ta]) (auto simp: typing arities)
qed

lemma keeps_strided_view:
  "keeps_typed (\<lambda>c. bnd (ggml_view_impl a ne offs c) (change (set_strides b1 b2 b3)))"
proof (rule keeps_typedI)
  fix c p c'
  assume c: "ctx_ok c" "graph_typed (oc_heap c)"
    and run: "bnd (ggml_view_impl a ne offs c) (change (set_strides b1 b2 b3)) = Inr (p, c')"
  obtain ta where ta: "oc_heap c a = Some ta" using run by (auto simp: ggml_view_impl_def runs)
  then have r: "bnd (ggml_new_tensor_impl (t_type ta) ne (Some a) offs c)
      (change (set_strides b1 b2 b3 \<circ> (\<lambda>r. set_op GGML_OP_VIEW [a] (ggml_format_name (t_name ta) (bytes_of '' (view)'') r)))) = Inr (p, c')"
    using run by (simp add: ggml_view_impl_def deref_def bnd_assoc bnd_change)
  show "grown c p c'"
    by (rule new_op_grown [OF r c], rule wired1 [where h = "oc_heap c", OF ta])
      (auto simp: blank_def GGML_MAX_SRC_def typing arities intro!: op_typed1)
qed

lemma keeps_view [keeps]:
  "keeps_typed (ggml_view_1d a ne0 offs)" "keeps_typed (ggml_view_2d a ne0 ne1 nb1 offs)"
  "keeps_typed (ggml_view_3d a ne0 ne1 ne2 nb1 nb2 offs)" "keeps_typed (ggml_view_4d a ne0 ne1 ne2 ne3 nb1 nb2 nb3 offs)"
  unfolding ggml_view_1d_def ggml_view_2d_def ggml_view_3d_def ggml_view_4d_def
  by (rule keeps_view_impl keeps_strided_view)+

lemma permuted_length [simp]: "length (permuted_list axes f xs) = length xs"
  by (simp add: permuted_list_def)

lemma permuted_nth:
  assumes "length axes = 4" "distinct axes" "\<forall>x \<in> set axes. 0 \<le> x \<and> x < 4" "length xs = 4" "i < 4"
  shows "permuted_list axes f xs ! nat (axes ! i) = f (xs ! i)"
proof -
  have r: "0 \<le> axes ! j" "nat (axes ! j) < 4" if "j < 4" for j
    using bspec [OF assms(3) nth_mem [of j axes]] assms(1) that by auto
  have d: "nat (axes ! j) = nat (axes ! k) \<longleftrightarrow> j = k" if "j < 4" "k < 4" for j k
    using eq_nat_nat_iff [OF r(1) [OF that(1)] r(1) [OF that(2)]] nth_eq_iff_index_eq [OF assms(2)] assms(1) that by simp
  have "i = 0 \<or> i = 1 \<or> i = 2 \<or> i = 3" using assms(5) by arith
  then show ?thesis using r d assms(4) by (auto simp: permuted_list_def nth_list_update)
qed

lemma keeps_permute [keeps]: "keeps_typed (ggml_permute a x0 x1 x2 x3)"
proof (rule keeps_typedI)
  fix c p c'
  assume c: "ctx_ok c" "graph_typed (oc_heap c)" and run: "ggml_permute a x0 x1 x2 x3 c = Inr (p, c')"
  let ?axes = "[x0, x1, x2, x3]"
  obtain ta f where ta: "oc_heap c a = Some ta" and ax: "\<forall>x \<in> set ?axes. 0 \<le> x \<and> x < 4" "distinct ?axes"
    and r: "bnd (ggml_view_tensor a c) (change f) = Inr (p, c')"
    and f: "f = (\<lambda>r. set_op GGML_OP_PERMUTE [a] ((ggml_format_name (t_name ta) (bytes_of '' (permuted)'') r)
          \<lparr>t_ne := permuted_list ?axes int_size (t_ne ta), t_nb := permuted_list ?axes int_stride (t_nb ta)\<rparr>))"
    using run by (auto simp: ggml_permute_def runs GGML_MAX_DIMS_def)
  have len: "length (t_ne ta) = 4" "length (t_nb ta) = 4" using typed_lengths [OF c(2) ta] by simp_all
  have ex: "\<exists>axes. length axes = 4 \<and> distinct axes \<and> (\<forall>i < 4. axes ! i < 4 \<and>
      permuted_list ?axes int_size (t_ne ta) ! (axes ! i) = int_size (t_ne ta ! i) \<and>
      permuted_list ?axes int_stride (t_nb ta) ! (axes ! i) = int_stride (t_nb ta ! i))"
  proof (intro exI [of _ "map nat ?axes"] conjI allI impI)
    show "distinct (map nat ?axes)" using ax by (auto simp: eq_nat_nat_iff)
    fix i :: nat
    assume i: "i < 4"
    have m: "map nat ?axes ! i = nat (?axes ! i)" by (rule nth_map) (use i in simp)
    have "0 \<le> ?axes ! i \<and> ?axes ! i < 4" by (rule bspec [OF ax(1) nth_mem]) (use i in simp)
    then show "map nat ?axes ! i < 4" unfolding m by linarith
    show "permuted_list ?axes int_size (t_ne ta) ! (map nat ?axes ! i) = int_size (t_ne ta ! i)"
      "permuted_list ?axes int_stride (t_nb ta) ! (map nat ?axes ! i) = int_stride (t_nb ta ! i)"
      using permuted_nth [OF _ ax(2,1) len(1) i] permuted_nth [OF _ ax(2,1) len(2) i] by (simp_all only: m list.size)
  qed simp
  show "grown c p c'"
  proof (rule view_op_grown [OF r c ta], rule wired1 [where h = "oc_heap c", OF ta])
    fix t u :: graph_tensor
    assume u: "t_type u = t_type t" "t_view_src u = t_view_src t" "blank (oc_heap c) (t_type ta) (t_ne ta) t"
    have "typed1 (f u) ta" using ex u by (simp add: typing f blank_def)
    then show "op_typed (f u) [ta]" by (intro op_typed1) (simp_all add: f arities)
  qed (use len in \<open>simp_all add: f GGML_MAX_SRC_def\<close>)
qed

lemma keeps_transpose [keeps]: "keeps_typed (ggml_transpose a)"
proof (rule keeps_typedI)
  fix c p c'
  assume c: "ctx_ok c" "graph_typed (oc_heap c)" and run: "ggml_transpose a c = Inr (p, c')"
  obtain ta f where ta: "oc_heap c a = Some ta" and r: "bnd (ggml_view_tensor a c) (change f) = Inr (p, c')"
    and f: "f = (\<lambda>r. set_op GGML_OP_TRANSPOSE [a] ((ggml_format_name (t_name ta) (bytes_of '' (transposed)'') r)
          \<lparr>t_ne := (t_ne r)[0 := t_ne ta ! 1, 1 := t_ne ta ! 0], t_nb := (t_nb r)[0 := t_nb ta ! 1, 1 := t_nb ta ! 0]\<rparr>))"
    using run by (auto simp: ggml_transpose_def runs)
  have len: "length (t_ne ta) = 4" "length (t_nb ta) = 4" using typed_lengths [OF c(2) ta] by simp_all
  have swap: "xs[0 := xs ! 1, 1 := xs ! 0] = [xs ! 1, xs ! 0, xs ! 2, xs ! 3]" if "length xs = 4" for xs :: "'a list"
    by (rule nth_equalityI) (use that in \<open>auto simp: less_Suc_eq numeral_eq_Suc\<close>)
  show "grown c p c'"
  proof (rule view_op_grown [OF r c ta], rule wired1 [where h = "oc_heap c", OF ta])
    fix t u :: graph_tensor
    assume u: "t_type u = t_type t" "t_ne u = t_ne t" "t_nb u = t_nb ta" "blank (oc_heap c) (t_type ta) (t_ne ta) t"
    have "typed1 (f u) ta" using u len by (simp add: typing f blank_def swap [simplified])
    then show "op_typed (f u) [ta]" by (intro op_typed1) (simp_all add: f arities)
  qed (use len in \<open>simp_all add: f GGML_MAX_SRC_def blank_def\<close>)
qed

text \<open>The result of a cast is its own second source.\<close>

lemma keeps_cast [keeps]: "keeps_typed (ggml_cast a ty)"
proof (rule keeps_typedI)
  fix c p c'
  assume c: "ctx_ok c" "graph_typed (oc_heap c)" and run: "ggml_cast a ty c = Inr (p, c')"
  obtain ta q d where ta: "oc_heap c a = Some ta" and d: "ggml_new_tensor_impl ty (t_ne ta) None 0 c = Inr (q, d)"
    and ch: "change (\<lambda>r. set_op GGML_OP_CPY [a, q] (ggml_format_name (t_name ta) (bytes_of '' (copy)'') r)) (q, d) = Inr (p, c')"
    using run by (auto simp: ggml_cast_def new_tensor_def runs)
  have len: "length (t_ne ta) = 4" using typed_lengths [OF c(2) ta] by simp
  obtain t where t: "made c q t d" "blank (oc_heap c) ty (t_ne ta) t" using new_impl_ok [OF d c] len by auto
  define u where "u = set_op GGML_OP_CPY [a, q] (ggml_format_name (t_name ta) (bytes_of '' (copy)'') t)"
  have m: "made c p u c'" "p = q" using change_made [OF t(1) ch] by (simp_all add: u_def)
  then have h: "oc_heap c' = (oc_heap c)(q \<mapsto> u)" and q: "q \<notin> dom (oc_heap c)" by (auto simp: made_def)
  have a: "a \<noteq> q" using ta q by auto
  have "sources (oc_heap c') u = [ta, u]"
    using sources_wired [of u "[a, q]" "GGML_MAX_SRC - 2" "oc_heap c'"] ta a by (simp add: u_def h)
  moreover have "op_typed u [ta, u]"
    by (rule op_typed2) (use t(2) in \<open>simp_all add: u_def blank_def typing arities\<close>)
  moreover have "tensor_wf (oc_heap c') u"
    using t(2) ta q by (auto simp: tensor_wf_def u_def blank_def h GGML_MAX_SRC_def)
  ultimately show "grown c p c'" using made_typed [OF c(2) m(1)] by (simp add: grown_def)
qed

subsection \<open>Convolutions and pooling\<close>

lemma keeps_im2col [keeps]: "keeps_typed (ggml_im2col a b s0 s1 p0 p1 d0 d1 is_2D ty)"
proof (rule keeps_typedI)
  fix c p c'
  assume c: "ctx_ok c" "graph_typed (oc_heap c)" and run: "ggml_im2col a b s0 s1 p0 p1 d0 d1 is_2D ty c = Inr (p, c')"
  obtain ta tb K OW OH where ta: "oc_heap c a = Some ta" and tb: "oc_heap c b = Some tb" and OW: "0 < OW"
    and sh: "if is_2D then t_ne ta ! 2 = t_ne tb ! 2 \<and> 0 < OH else t_ne tb ! 1 = t_ne ta ! 1"
    and K: "prod_i64 (if is_2D then [t_ne ta ! 2, t_ne ta ! 1, t_ne ta ! 0] else [t_ne ta ! 1, t_ne ta ! 0]) = Inr K"
    and r: "bnd (new_tensor ty [K, OW, if is_2D then OH else t_ne tb ! 2, if is_2D then t_ne tb ! 3 else 1] c)
       (change (set_op GGML_OP_IM2COL [a, b])) = Inr (p, c')"
    using run by (cases is_2D) (auto simp: ggml_im2col_def runs)
  show "grown c p c'"
    by (rule new2_grown [OF r c ta tb]; cases is_2D) (use prod_i64_prod [OF K] OW sh in \<open>auto simp: typing arities\<close>)
qed

lemma keeps_pool_1d [keeps]: "keeps_typed (ggml_pool_1d a k0 s0 p0)"
proof (rule keeps_typedI)
  fix c p c'
  assume c: "ctx_ok c" "graph_typed (oc_heap c)" and run: "ggml_pool_1d a k0 s0 p0 c = Inr (p, c')"
  obtain ta n where ta: "oc_heap c a = Some ta" and n: "ggml_calc_pool_output_size (t_ne ta ! 0) k0 s0 (f32_of_int p0) = Inr n"
    and r: "bnd (new_tensor GGML_TYPE_F32 [n, t_ne ta ! 1, t_ne ta ! 2, t_ne ta ! 3] c) (change (set_op GGML_OP_POOL_1D [a])) = Inr (p, c')"
    using run by (auto simp: ggml_pool_1d_def ggml_new_tensor_1d_def ggml_new_tensor_4d_def Let_def runs)
  show "grown c p c'"
    by (rule new1_grown [OF r c ta])
      (use r in \<open>auto simp: typing arities\<close>)
qed

lemma keeps_pool_2d [keeps]: "keeps_typed (ggml_pool_2d a k0 k1 s0 s1 p0 p1)"
proof (rule keeps_typedI)
  fix c p c'
  assume c: "ctx_ok c" "graph_typed (oc_heap c)" and run: "ggml_pool_2d a k0 k1 s0 s1 p0 p1 c = Inr (p, c')"
  obtain ta n m where ta: "oc_heap c a = Some ta" and n: "ggml_calc_pool_output_size (t_ne ta ! 0) k0 s0 p0 = Inr n"
      "ggml_calc_pool_output_size (t_ne ta ! 1) k1 s1 p1 = Inr m"
    and r: "bnd (new_tensor GGML_TYPE_F32 [n, m, t_ne ta ! 2, t_ne ta ! 3] c) (change (set_op GGML_OP_POOL_2D [a])) = Inr (p, c')"
    using run by (auto simp: ggml_pool_2d_def ggml_new_tensor_1d_def ggml_new_tensor_4d_def Let_def runs)
  show "grown c p c'"
    by (rule new1_grown [OF r c ta])
      (use r in \<open>auto simp: typing arities\<close>)
qed

text \<open>The convolutions are compositions of other constructors.\<close>

lemma keeps_conv_1d [keeps]: "keeps_typed (ggml_conv_1d a b s0 p0 d0)"
  unfolding ggml_conv_1d_def by (intro keeps)

lemma keeps_conv_1d_ph [keeps]: "keeps_typed (ggml_conv_1d_ph a b s d)"
  unfolding ggml_conv_1d_ph_def by (intro keeps)

lemma keeps_conv_2d [keeps]: "keeps_typed (ggml_conv_2d a b s0 s1 p0 p1 d0 d1)"
  unfolding ggml_conv_2d_def ggml_cont_def by (intro keeps)

end
