(* ===== verification/Op_Graphs.thy ===== *)
theory Op_Graphs
  imports Op_Views
begin

text \<open>
  Programs of constructor calls.  A graph that is built by any sequence of calls of the modelled
  functions is typed.
\<close>

subsection \<open>Calls\<close>

text \<open>Functions with an in-place variant, with one and with two operands.\<close>

datatype elementwise = E_Dup | E_Sqr | E_Sqrt | E_Log | E_Sin | E_Cos | E_Leaky_Relu | E_Norm | E_Rms_Norm | E_L2_Norm | E_Unary
  | E_Scale | E_Scale_Bias | E_Soft_Max

datatype pairwise = P_Add | P_Sub | P_Mul | P_Div | P_Add1

datatype op_call =
    New nat "int list" | Dup_Tensor ptr | View_Tensor ptr
  | Elementwise elementwise bool ptr | Pairwise pairwise bool ptr ptr
  | Soft_Max_Ext bool ptr "ptr option" bool | Cumsum ptr | Sum ptr | Sum_Rows ptr | Mean ptr | Argmax ptr | Repeat ptr ptr
  | Concat ptr ptr int | Mul_Mat ptr ptr | Out_Prod ptr ptr | Get_Rows ptr ptr | Cpy ptr ptr | Cast ptr nat
  | Cont ptr | Cont_Nd ptr "int list" | Reshape ptr ptr | Reshape_Nd ptr "int list"
  | View_1d ptr int size_t | View_2d ptr int int size_t size_t | View_3d ptr int int int size_t size_t size_t
  | View_4d ptr int int int int size_t size_t size_t size_t
  | Permute ptr int int int int | Transpose ptr
  | Im2col ptr ptr int int int int int int bool nat | Conv_1d ptr ptr int int int | Conv_1d_Ph ptr ptr int int
  | Conv_2d ptr ptr int int int int int int | Pool_1d ptr int int int | Pool_2d ptr int int int int f32 f32

primrec run_elementwise :: "elementwise \<Rightarrow> bool \<Rightarrow> ptr \<Rightarrow> op_ctx \<Rightarrow> (ptr \<times> op_ctx) outcome" where
  "run_elementwise E_Dup inplace a = (if inplace then ggml_dup_inplace a else ggml_dup a)"
| "run_elementwise E_Sqr inplace a = (if inplace then ggml_sqr_inplace a else ggml_sqr a)"
| "run_elementwise E_Sqrt inplace a = (if inplace then ggml_sqrt_inplace a else ggml_sqrt a)"
| "run_elementwise E_Log inplace a = (if inplace then ggml_log_inplace a else ggml_log a)"
| "run_elementwise E_Sin inplace a = (if inplace then ggml_sin_inplace a else ggml_sin a)"
| "run_elementwise E_Cos inplace a = (if inplace then ggml_cos_inplace a else ggml_cos a)"
| "run_elementwise E_Leaky_Relu inplace a = ggml_leaky_relu a inplace"
| "run_elementwise E_Norm inplace a = (if inplace then ggml_norm_inplace a else ggml_norm a)"
| "run_elementwise E_Rms_Norm inplace a = (if inplace then ggml_rms_norm_inplace a else ggml_rms_norm a)"
| "run_elementwise E_L2_Norm inplace a = (if inplace then ggml_l2_norm_inplace a else ggml_l2_norm a)"
| "run_elementwise E_Unary inplace a = (if inplace then ggml_unary_inplace a else ggml_unary a)"
| "run_elementwise E_Scale inplace a = (if inplace then ggml_scale_inplace a else ggml_scale a)"
| "run_elementwise E_Scale_Bias inplace a = (if inplace then ggml_scale_bias_inplace a else ggml_scale_bias a)"
| "run_elementwise E_Soft_Max inplace a = (if inplace then ggml_soft_max_inplace a else ggml_soft_max a)"

primrec run_pairwise :: "pairwise \<Rightarrow> bool \<Rightarrow> ptr \<Rightarrow> ptr \<Rightarrow> op_ctx \<Rightarrow> (ptr \<times> op_ctx) outcome" where
  "run_pairwise P_Add inplace a b = (if inplace then ggml_add_inplace a b else ggml_add a b)"
| "run_pairwise P_Sub inplace a b = (if inplace then ggml_sub_inplace a b else ggml_sub a b)"
| "run_pairwise P_Mul inplace a b = (if inplace then ggml_mul_inplace a b else ggml_mul a b)"
| "run_pairwise P_Div inplace a b = (if inplace then ggml_div_inplace a b else ggml_div a b)"
| "run_pairwise P_Add1 inplace a b = (if inplace then ggml_add1_inplace a b else ggml_add1 a b)"

text \<open>Lists of one to four sizes select the function of that number of dimensions; there is none for other lists.\<close>

fun run_new :: "nat \<Rightarrow> int list \<Rightarrow> op_ctx \<Rightarrow> (ptr \<times> op_ctx) outcome" where
  "run_new ty [n0] = ggml_new_tensor_1d ty n0"
| "run_new ty [n0, n1] = ggml_new_tensor_2d ty n0 n1"
| "run_new ty [n0, n1, n2] = ggml_new_tensor_3d ty n0 n1 n2"
| "run_new ty [n0, n1, n2, n3] = ggml_new_tensor_4d ty n0 n1 n2 n3"
| "run_new ty ne = new_tensor ty ne"

fun run_cont :: "ptr \<Rightarrow> int list \<Rightarrow> op_ctx \<Rightarrow> (ptr \<times> op_ctx) outcome" where
  "run_cont a [n0] = ggml_cont_1d a n0"
| "run_cont a [n0, n1] = ggml_cont_2d a n0 n1"
| "run_cont a [n0, n1, n2] = ggml_cont_3d a n0 n1 n2"
| "run_cont a [n0, n1, n2, n3] = ggml_cont_4d a n0 n1 n2 n3"
| "run_cont a ne = (\<lambda>c. Inl Aborted)"

fun run_reshape :: "ptr \<Rightarrow> int list \<Rightarrow> op_ctx \<Rightarrow> (ptr \<times> op_ctx) outcome" where
  "run_reshape a [n0] = ggml_reshape_1d a n0"
| "run_reshape a [n0, n1] = ggml_reshape_2d a n0 n1"
| "run_reshape a [n0, n1, n2] = ggml_reshape_3d a n0 n1 n2"
| "run_reshape a [n0, n1, n2, n3] = ggml_reshape_4d a n0 n1 n2 n3"
| "run_reshape a ne = (\<lambda>c. Inl Aborted)"

primrec run_call :: "op_call \<Rightarrow> op_ctx \<Rightarrow> (ptr \<times> op_ctx) outcome" where
  "run_call (New ty ne) = run_new ty ne"
| "run_call (Dup_Tensor a) = ggml_dup_tensor a"
| "run_call (View_Tensor a) = ggml_view_tensor a"
| "run_call (Elementwise f inplace a) = run_elementwise f inplace a"
| "run_call (Pairwise f inplace a b) = run_pairwise f inplace a b"
| "run_call (Soft_Max_Ext inplace a m biased) =
     (if inplace then ggml_soft_max_ext_inplace a m biased else ggml_soft_max_ext a m biased)"
| "run_call (Cumsum a) = ggml_cumsum a"
| "run_call (Sum a) = ggml_sum a"
| "run_call (Sum_Rows a) = ggml_sum_rows a"
| "run_call (Mean a) = ggml_mean a"
| "run_call (Argmax a) = ggml_argmax a"
| "run_call (Repeat a b) = ggml_repeat a b"
| "run_call (Concat a b axis) = ggml_concat a b axis"
| "run_call (Mul_Mat a b) = ggml_mul_mat a b"
| "run_call (Out_Prod a b) = ggml_out_prod a b"
| "run_call (Get_Rows a b) = ggml_get_rows a b"
| "run_call (Cpy a b) = ggml_cpy a b"
| "run_call (Cast a ty) = ggml_cast a ty"
| "run_call (Cont a) = ggml_cont a"
| "run_call (Cont_Nd a ne) = run_cont a ne"
| "run_call (Reshape a b) = ggml_reshape a b"
| "run_call (Reshape_Nd a ne) = run_reshape a ne"
| "run_call (View_1d a n0 offs) = ggml_view_1d a n0 offs"
| "run_call (View_2d a n0 n1 nb1 offs) = ggml_view_2d a n0 n1 nb1 offs"
| "run_call (View_3d a n0 n1 n2 nb1 nb2 offs) = ggml_view_3d a n0 n1 n2 nb1 nb2 offs"
| "run_call (View_4d a n0 n1 n2 n3 nb1 nb2 nb3 offs) = ggml_view_4d a n0 n1 n2 n3 nb1 nb2 nb3 offs"
| "run_call (Permute a x0 x1 x2 x3) = ggml_permute a x0 x1 x2 x3"
| "run_call (Transpose a) = ggml_transpose a"
| "run_call (Im2col a b s0 s1 p0 p1 d0 d1 is_2D ty) = ggml_im2col a b s0 s1 p0 p1 d0 d1 is_2D ty"
| "run_call (Conv_1d a b s p d) = ggml_conv_1d a b s p d"
| "run_call (Conv_1d_Ph a b s d) = ggml_conv_1d_ph a b s d"
| "run_call (Conv_2d a b s0 s1 p0 p1 d0 d1) = ggml_conv_2d a b s0 s1 p0 p1 d0 d1"
| "run_call (Pool_1d a k s p) = ggml_pool_1d a k s p"
| "run_call (Pool_2d a k0 k1 s0 s1 p0 p1) = ggml_pool_2d a k0 k1 s0 s1 p0 p1"

primrec run_calls :: "op_call list \<Rightarrow> op_ctx \<Rightarrow> (ptr list \<times> op_ctx) outcome" where
  "run_calls [] c = Inr ([], c)"
| "run_calls (x # xs) c = bnd (run_call x c) (\<lambda>(p, c). bnd (run_calls xs c) (\<lambda>(ps, c). Inr (p # ps, c)))"

subsection \<open>Calls keep a graph typed\<close>

lemma keeps_fail [keeps]: "keeps_typed (\<lambda>c. Inl e)"
  by (simp add: keeps_typed_def)

text \<open>The public functions call the ones that do the work.\<close>

lemmas public_functions = ggml_dup_def [abs_def] ggml_dup_inplace_def [abs_def] ggml_sqr_def [abs_def]
  ggml_sqr_inplace_def [abs_def] ggml_sqrt_def [abs_def] ggml_sqrt_inplace_def [abs_def] ggml_log_def [abs_def]
  ggml_log_inplace_def [abs_def] ggml_sin_def [abs_def] ggml_sin_inplace_def [abs_def] ggml_cos_def [abs_def]
  ggml_cos_inplace_def [abs_def] ggml_norm_def [abs_def] ggml_norm_inplace_def [abs_def] ggml_rms_norm_def [abs_def]
  ggml_rms_norm_inplace_def [abs_def] ggml_l2_norm_def [abs_def] ggml_l2_norm_inplace_def [abs_def]
  ggml_unary_def [abs_def] ggml_unary_inplace_def [abs_def] ggml_scale_def [abs_def] ggml_scale_inplace_def [abs_def]
  ggml_scale_bias_def [abs_def] ggml_scale_bias_inplace_def [abs_def] ggml_soft_max_def [abs_def]
  ggml_soft_max_inplace_def [abs_def] ggml_add_def [abs_def] ggml_add_inplace_def [abs_def] ggml_sub_def [abs_def]
  ggml_sub_inplace_def [abs_def] ggml_mul_def [abs_def] ggml_mul_inplace_def [abs_def] ggml_div_def [abs_def]
  ggml_div_inplace_def [abs_def] ggml_add1_def [abs_def] ggml_add1_inplace_def [abs_def]
  ggml_new_tensor_1d_def [abs_def] ggml_new_tensor_2d_def [abs_def] ggml_new_tensor_3d_def [abs_def]
  ggml_new_tensor_4d_def [abs_def] ggml_cont_1d_def [abs_def] ggml_cont_2d_def [abs_def] ggml_cont_3d_def [abs_def]
  ggml_soft_max_ext_def [abs_def] ggml_soft_max_ext_inplace_def [abs_def] ggml_cpy_def [abs_def]
  ggml_cont_def [abs_def]

lemma keeps_elementwise [keeps]: "keeps_typed (run_elementwise f inplace a)"
  by (cases f) (simp_all add: keeps public_functions)

lemma keeps_pairwise [keeps]: "keeps_typed (run_pairwise f inplace a b)"
  by (cases f) (simp_all add: keeps public_functions)

lemma keeps_run_new [keeps]: "keeps_typed (run_new ty ne)"
  by (cases "(ty, ne)" rule: run_new.cases) (simp_all add: keeps public_functions)

lemma keeps_run_cont [keeps]: "keeps_typed (run_cont a ne)"
  by (cases "(a, ne)" rule: run_cont.cases) (simp_all add: keeps public_functions)

lemma keeps_run_reshape [keeps]: "keeps_typed (run_reshape a ne)"
  by (cases "(a, ne)" rule: run_reshape.cases) (simp_all add: keeps)

lemma keeps_run_call: "keeps_typed (run_call x)"
  by (cases x) (simp_all add: keeps public_functions)

subsection \<open>Progress\<close>

text \<open>With room for one tensor a matrix product is made exactly if the shapes of its operands fit.\<close>

definition has_room :: "op_ctx \<Rightarrow> bool" where
  "has_room c \<longleftrightarrow> unat (pool_end (oc_pool c)) + 368 \<le> unat (pool_size (oc_pool c))"

definition multipliable :: "graph_tensor \<Rightarrow> graph_tensor \<Rightarrow> bool" where
  "multipliable a b \<longleftrightarrow> t_ne a ! 0 = t_ne b ! 0 \<and> t_ne a ! 2 \<noteq> 0 \<and> c_mod (t_ne b ! 2) (t_ne a ! 2) = 0 \<and>
     t_ne a ! 3 \<noteq> 0 \<and> c_mod (t_ne b ! 3) (t_ne a ! 3) = 0 \<and> \<not> ggml_is_transposed a"

lemma new_object_room:
  assumes "ctx_ok c" "has_room c"
  shows "\<exists>pool offs. ggml_new_object (oc_pool c) GGML_TENSOR_SIZE = Some (pool, offs)"
proof -
  let ?e = "pool_end (oc_pool c)" and ?s = "pool_size (oc_pool c)"
  have pad: "ggml_pad GGML_TENSOR_SIZE GGML_MEM_ALIGN = 336" by code_simp
  have "unat ?s + 1000 \<le> 2 ^ 64" using assms(1) by (simp add: ctx_ok_def)
  then have "unat (?e + 336 + 32) = unat ?e + 368"
    using assms(2) by (simp add: has_room_def unat_word_ariths add.assoc)
  then have "\<not> ?e + 336 + 32 > ?s" using assms(2) by (simp add: word_less_nat_alt has_room_def)
  then show ?thesis by (simp add: ggml_new_object_def Let_def pad GGML_OBJECT_SIZE_def)
qed

lemma row_size_f32: "\<exists>r. ggml_row_size GGML_TYPE_F32 n = Inr r"
proof -
  have "ggml_blck_size GGML_TYPE_F32 = 1" by code_simp
  then show ?thesis by (auto simp: ggml_row_size_def ensure_def c_mod_def c_div_def sgn_mult_abs)
qed

lemma new_f32_returns:
  assumes "ctx_ok c" "has_room c" "1 \<le> length ne" "length ne \<le> 4"
  shows "\<exists>r. bnd (new_tensor GGML_TYPE_F32 ne c) (change f) = Inr r"
proof -
  obtain pool offs where o: "ggml_new_object (oc_pool c) GGML_TENSOR_SIZE = Some (pool, offs)"
    using new_object_room [OF assms(1,2)] by blast
  obtain row where row: "ggml_row_size GGML_TYPE_F32 (ne ! 0) = Inr row" using row_size_f32 by blast
  have ty: "GGML_TYPE_F32 < GGML_TYPE_COUNT" by code_simp
  have na: "pool_no_alloc (oc_pool c)" using assms(1) by (simp add: ctx_ok_def)
  show ?thesis
    using o row ty na assms(3,4)
    by (simp add: new_tensor_def ggml_new_tensor_impl_def ensure_def GGML_MAX_DIMS_def view_base_def view_data_def Let_def
        change_def deref_def)
qed

lemma mul_mat_returns:
  assumes "ctx_ok c" "has_room c" "oc_heap c a = Some ta" "oc_heap c b = Some tb"
  shows "(\<exists>r. ggml_mul_mat a b c = Inr r) \<longleftrightarrow> multipliable ta tb"
proof
  assume "multipliable ta tb"
  then show "\<exists>r. ggml_mul_mat a b c = Inr r"
    using new_f32_returns [OF assms(1,2), of "[t_ne ta ! 1, t_ne tb ! 1, t_ne tb ! 2, t_ne tb ! 3]" "set_op GGML_OP_MUL_MAT [a, b]"]
    by (simp add: ggml_mul_mat_def deref_def assms(3,4) ggml_can_mul_mat_def divides_def ensure_def multipliable_def)
next
  assume "\<exists>r. ggml_mul_mat a b c = Inr r"
  then have "ggml_can_mul_mat ta tb = Inr True \<and> \<not> ggml_is_transposed ta"
    by (auto simp: ggml_mul_mat_def runs assms(3,4))
  then show "multipliable ta tb"
    by (auto simp: multipliable_def ggml_can_mul_mat_def bnd_eq_Inr divides_True split: if_splits)
qed

lemma run_calls_typed:
  assumes "ctx_ok c" "graph_typed (oc_heap c)" "run_calls calls c = Inr (ps, c')"
  shows "graph_typed (oc_heap c') \<and> oc_heap c \<subseteq>\<^sub>m oc_heap c' \<and> set ps \<subseteq> dom (oc_heap c') \<and> ctx_ok c'"
  using assms
proof (induction calls arbitrary: c ps)
  case (Cons x xs)
  obtain p d qs where d: "run_call x c = Inr (p, d)" "run_calls xs d = Inr (qs, c')" and ps: "ps = p # qs"
    using Cons.prems(3) by (auto simp: bnd_eq_Inr)
  have g: "graph_typed (oc_heap d)" "ctx_ok d" "oc_heap c \<subseteq>\<^sub>m oc_heap d" "p \<in> dom (oc_heap d)"
    using keeps_typedD [OF keeps_run_call Cons.prems(1,2) d(1)] by (auto simp: grown_def)
  from Cons.IH [OF g(2,1) d(2)] show ?case
    using g(3,4) map_le_trans [OF g(3)] map_le_implies_dom_le [of "oc_heap d" "oc_heap c'"] by (auto simp: ps)
qed simp


text \<open>
  A context of 8000 bytes without data.  The calls make two matrices and their product, add a row to it, take the sine in
  place, permute the axes of the result and make it contiguous again.
\<close>

definition sample_ctx :: op_ctx where
  "sample_ctx = \<lparr>oc_pool = \<lparr>pool_size = 8000, pool_end = 0, pool_no_alloc = True\<rparr>, oc_base = 4096, oc_heap = Map.empty\<rparr>"

definition sample_calls :: "op_call list" where
  "sample_calls = [New 0 [8, 4], New 0 [8, 3], Mul_Mat 4128 4496, New 0 [4], Pairwise P_Add False 4864 5232,
     Elementwise E_Sin True 5600, Permute 5968 1 0 2 3, Cont 6336]"

lemma sample_result:
  "case run_calls sample_calls sample_ctx of Inl e \<Rightarrow> False
   | Inr (ps, c') \<Rightarrow> map (\<lambda>p. t_ne (the (oc_heap c' p))) ps =
       [[8, 4, 1, 1], [8, 3, 1, 1], [4, 3, 1, 1], [4, 1, 1, 1], [4, 3, 1, 1], [4, 3, 1, 1], [3, 4, 1, 1], [3, 4, 1, 1]] \<and>
       oc_heap c' (ps ! 0) \<noteq> None \<and> oc_heap c' (ps ! 7) \<noteq> None \<and>
       unat (pool_end (oc_pool c')) + 368 \<le> unat (pool_size (oc_pool c'))"
  by code_simp


end
