(* ===== verification/Spec2Isabelle.thy ===== *)
theory Spec2Isabelle
  imports Gguf_Examples Cluster_Examples Audio_Examples Stream_Examples Gallocr_Examples Compute_Examples
    Op_Graphs
begin

text \<open>
  A verification library for pyannote.cpp, a speaker diarisation program in C++ on top of ggml.

  The program has two executables.  The offline one (\<open>examples/main.cpp\<close>) reads a recording, runs a
  segmentation network and a speaker embedding on windows of ten seconds, clusters the embeddings
  and prints who speaks when.  The streaming one (\<open>examples/main_streaming.cpp\<close>) does the same on
  chunks, with an online clustering, and prints a line when a speaker falls silent.  Both read WAV
  files and compute features with \<open>examples/common_audio.cpp\<close>, and load their weights from GGUF files
  with \<open>src/gguf.cpp\<close>.  The offline program can cluster with \<open>examples/vbx.cpp\<close>.

  \<^bold>\<open>Theories and code\<close>

  \<^item> \<open>Prelude\<close>: the outcome type \<open>fault + 'a\<close> of a routine that can return a null pointer (\<open>Failed\<close>), abort
    on an assertion (\<open>Aborted\<close>), throw (\<open>Threw\<close>), trap (\<open>Trapped\<close>) or have no defined behaviour
    (\<open>Undefined\<close>); its sequencing \<open>bnd\<close>, the checks \<open>ensure\<close>, the loop \<open>each_outcome\<close>, list access
    \<open>elem\<close>; \<open>Bytes\<close>: little-endian encoding of machine words; \<open>Ieee\<close> and \<open>Ieee_Bounds\<close>: \<open>float\<close> and
    \<open>double\<close> as IEEE 754 binary32 and binary64, round to nearest even, with signed zeros, infinities
    and one NaN; \<open>Sorting\<close>: the contract of \<open>std::sort\<close> and an interpretation on insertion sort;
    \<open>Runs\<close>: the scan that turns decisions per frame into segments.
  \<^item> \<open>Gguf_Types\<close> to \<open>Gguf_Examples\<close>: \<open>src/gguf.cpp\<close> and what it calls of \<open>src/ggml.c\<close>.  \<open>Gguf_Types\<close> has the
    types, tensors, strides and sizes; \<open>Gguf_Context\<close> the context (the record \<open>gguf_context\<close> for the
    struct of that name) and every getter, setter and tensor operation; \<open>Gguf_Store\<close> proves that the
    key-value vector implements a keyed store (the locale \<open>keyed_store\<close>); \<open>Gguf_Layout\<close> the invariant of the
    offsets; \<open>Gguf_Read\<close> the reader, the memory pool and the loader; \<open>Gguf_Safety\<close> what the reader
    guarantees; \<open>Gguf_Write\<close> and \<open>Gguf_File\<close> the writer; \<open>Gguf_Roundtrip\<close> the round trip.
  \<^item> \<open>Wav\<close>: \<open>read_wav\<close> and \<open>wav_writer\<close>.  \<open>Fft\<close>: \<open>fft\<close>, over any type with a ring's operations, so that the
    program's pairs of floats and the exact complex numbers are two instances of one definition.
    \<open>Fbank\<close>: \<open>compute_fbank\<close>.  \<open>Lstm\<close>: \<open>run_lstm_layer\<close> of both programs.  \<open>Embedding\<close>: the averaging over
    pieces in \<open>get_embedding\<close>.
  \<^item> \<open>Clustering\<close>: \<open>agglomerative_clustering\<close>.  \<open>Vbx_Math\<close>, \<open>Vbx_Ahc\<close>, \<open>Vbx_Cluster\<close>: the transform, the
    initial clustering with its union-find forest, the EM iteration and \<open>cluster_vbx\<close>.
  \<^item> \<open>Timeline\<close>: the second half of the offline \<open>main\<close>, from labelled predictions to merged segments.
    \<open>Diarize\<close>: the whole offline \<open>main\<close> as the function \<open>diarize\<close>.
  \<^item> \<open>Online_Clustering\<close>: the struct \<open>OnlineSpeakerClustering\<close>.  \<open>Streaming\<close>: the rest of the streaming
    \<open>main\<close>, with its loop as \<open>stream_loop\<close>.
  \<^item> \<open>Hash_Set\<close>: the bit set and the open-addressing set of tensors of \<open>src/ggml-impl.h\<close>, with the table of
    sizes of \<open>src/ggml.c\<close>.  \<open>Graph\<close>: the tensors of a graph in a heap (a map from addresses) and the
    construction of the forward graph in \<open>src/ggml.c\<close>.
  \<^item> \<open>Tallocr\<close> to \<open>Gallocr_Correct\<close>: \<open>src/ggml-alloc.c\<close>.  \<open>Tallocr\<close> has the dynamic allocator with its chunks of
    free blocks; \<open>Gallocr\<close> the graph allocator (the record \<open>ggml_gallocr\<close> for the struct), with the queries of
    buffers and buffer types of \<open>src/ggml-backend.cpp\<close> that it calls.  \<open>Gallocr_Spec\<close> replaces the hash table
    by a map (a refinement, over the locale \<open>slot_table\<close>, interpreted on the hash set); \<open>Gallocr_Places\<close>
    has the invariant of places, \<open>Gallocr_Order\<close> the counts of uses and the invariant of the loop over
    the nodes, \<open>Gallocr_Correct\<close> the guarantee for the records that are kept.
  \<^item> \<open>Tensor_Ops\<close> to \<open>Op_Graphs\<close>: the constructors of tensors in \<open>src/ggml.c\<close>.  \<open>Tensor_Ops\<close> has the shape
    predicates, \<open>ggml_new_tensor_impl\<close> and a definition for each constructor, over the record \<open>op_ctx\<close> (pool,
    address of the pool, heap) for the struct \<open>ggml_context\<close>; \<open>Tensor_Types\<close> the typing of a heap of tensors;
    \<open>Op_Calls\<close> how typings compose and extend; \<open>Op_Typing\<close>, \<open>Op_Shapes\<close>, \<open>Op_Views\<close> one lemma for each
    constructor; \<open>Op_Graphs\<close> sequences of calls.
  \<^item> \<open>Compute_Pool\<close> to \<open>Compute_Examples\<close>: the threads of \<open>src/ggml-cpu/ggml-cpu.c\<close> that compute a graph.
    \<open>Compute_Pool\<close> has the struct \<open>ggml_threadpool\<close>, the barrier and the loop over the nodes as steps of one
    thread, between two accesses to shared variables, and the interleavings of all; \<open>Compute_Sync\<close> the
    invariant of the barrier and of the abort protocol; \<open>Compute_Live\<close> a measure that falls with every
    step that is not spinning, and its consequence for fair schedules.
  \<^item> \<open>Gguf_Examples\<close>, \<open>Cluster_Examples\<close>, \<open>Audio_Examples\<close>, \<open>Stream_Examples\<close>, \<open>Alloc_Examples\<close>, \<open>Gallocr_Examples\<close>,
    \<open>Compute_Examples\<close>:
    the theorems applied at concrete inputs.

  \<^bold>\<open>What the lemmas show\<close>

  For GGUF: every context that the operations build or the reader accepts satisfies one invariant
  (unique keys and names, values that fit their types, offsets that tile the data section); the
  reader never reads out of bounds; a written context is read back unchanged; and the three ways in
  which a crafted file escapes the error handling.  For the numerical routines: the transform is the
  discrete Fourier transform on exact numbers, and it stays inside its vector exactly for powers of
  two; the outputs of the LSTM are bounded for arbitrary weights; the two matrix products agree bit
  for bit.  For the clusterings: labels are partitions, numbered in order, and the loops end.  For
  the programs: the reconstruction covers exactly the majority frames, the offline pipeline ends on
  every recording, the printing state machine prints the maximal runs of activity, and the
  streaming loop ends when the step is positive.  For ggml: the hash set implements a set, blocks of
  the dynamic allocator never overlap, the forward graph is an order of computation, and in the places
  that the graph allocator records, computing the nodes in order never overwrites a tensor that is
  still needed, if the graph is the one for which the places were made; the constructors build graphs
  in which every tensor has the type and shape that its operation demands of its sources; the threads
  that compute a graph are never at two nodes at once, and all come to its end.

  \<^bold>\<open>Bounds, fuel, parameters\<close>

  Floating-point expressions are evaluated in the order of the source with one rounding for each
  operation (no contraction to a fused multiply-add, as without \<open>-ffast-math\<close> on a target that does
  not contract).  Functions of libm are the parameter \<open>libm\<close>, about which only the theorems that say
  so assume anything.  \<open>std::sort\<close> is the parameter of the routines that call it, under the contract
  of the C++ standard: a permutation, sorted if the comparison is a strict weak order.  The ggml
  graphs (SincNet, classifier, ResNet, Gram matrix) are functions in the record \<open>networks\<close>; the theorems
  assume at most that their outputs have the declared sizes (\<open>nets_ok\<close>).

  A \<open>size_t\<close> of gguf.cpp is a 64-bit word.  Frame and sample counts of the programs are natural
  numbers; the theorems about whole programs assume recordings of fewer than \<open>2 ^ 31\<close> samples, within
  which the program's \<open>int\<close> computations do not overflow.  \<open>log2n\<close> has 31 units of fuel, the number of
  bits of a positive \<open>int\<close>.  \<open>stream_loop\<close> takes fuel; \<open>stream_loop_terminates\<close> shows that the length of
  the recording divided by the step, plus one, is enough.  \<open>merge_loop\<close> and \<open>ahc_loop\<close> recurse on the
  number of clusters.

  The compute threads take steps in any order, in a sequentially consistent memory, without OpenMP;
  the numbers of barriers inside the kernels are the parameter \<open>cp_barriers\<close> and the answers of the abort
  callback \<open>cp_abort\<close>.  The context of the constructors has \<open>no_alloc\<close> set in the theorem on typing, as in the
  programs; the arguments of a call are evaluated from the left.

  \<^bold>\<open>Not modelled\<close>

  The scalars in \<open>op_params\<close>, which only kernels read, and the constructors that the programs do not call,
  such as attention and rotary positions.  The rest of \<open>src/ggml.c\<close> and the ggml back ends are a vendored tensor library: what the graphs compute
  is a parameter here.  Of \<open>src/ggml-backend.cpp\<close> only what the graph allocator calls is modelled, of
  \<open>src/ggml-alloc.c\<close> everything but the release of memory: a back end's allocation of a buffer is the
  parameter \<open>alloc_buffer\<close>, its hooks \<open>init_tensor\<close> and \<open>reset\<close> do nothing, and \<open>assert\<close> is modelled as a check, as in a
  debug build.  The counters \<open>n_children\<close> and \<open>n_views\<close> are unbounded integers.
  Loading the weights into the models of \<open>main.cpp\<close> and \<open>init_vbx_model_from_gguf\<close> only copy
  tensors by name.  Option parsing and printing are left out.  \<open>examples/common.cpp\<close> is used by neither
  executable except through \<open>common.h\<close>.
\<close>

end
